(* ===== verification/Ns3_Prelude.thy ===== *)
theory Ns3_Prelude
  imports "HOL-Library.Word" "HOL-Library.Multiset" "HOL-Library.Monad_Syntax"
    "HOL-Library.Product_Lexorder"
begin

text \<open>
  Shared vocabulary of the development: the widths of the C++ integers, the reading of
  \<^typ>\<open>'a option\<close> as "the call returned", generic lemmas on lists and words, and a model
  of the part of \<open>std::map\<close> the sources use (an ordered association list driven by the
  comparison operator of the key class).

  Throughout the development \<open>None\<close> is the outcome of a call that does not return
  normally: a failed \<open>NS_ASSERT\<close>, an \<open>NS_ABORT_MSG\<close> or \<open>NS_FATAL_ERROR\<close>, or an access
  that C++ leaves undefined (the front of an empty list, an index out of range).
\<close>

unbundle bit_operations_syntax

type_synonym u8 = "8 word"
type_synonym u16 = "16 word"
type_synonym u32 = "32 word"
type_synonym u64 = "64 word"

named_theorems ns3_defs
named_theorems std_simps

subsection \<open>Assertions\<close>

definition ns_assert :: "bool \<Rightarrow> unit option" where
  "ns_assert b = (if b then Some () else None)"

lemma ns_assert_simps [simp]:
  "ns_assert True = Some ()" "ns_assert False = None"
  "ns_assert b = Some u \<longleftrightarrow> b" "ns_assert b = None \<longleftrightarrow> \<not> b"
  by (simp_all add: ns_assert_def)

lemma ns_assert_bind_Some [simp]:
  "Option.bind (ns_assert b) f = Some r \<longleftrightarrow> b \<and> f () = Some r"
  by (cases b) simp_all

lemma ns_assert_bind_True [simp]: "b \<Longrightarrow> Option.bind (ns_assert b) f = f ()"
  by simp

subsection \<open>Words\<close>

lemma unat_plus_no_overflow:
  fixes a b :: "'a::len word"
  assumes "unat a + unat b < 2 ^ LENGTH('a)"
  shows "unat (a + b) = unat a + unat b"
  using assms by (simp add: unat_word_ariths)

lemma unat_minus_le:
  fixes a b :: "'a::len word"
  assumes "b \<le> a"
  shows "unat (a - b) = unat a - unat b"
  using assms by (simp add: unat_sub)

lemma word_inc_less:
  fixes a :: "'a::len word"
  assumes "a \<noteq> - 1"
  shows "a < a + 1"
proof -
  have "unat a \<noteq> 2 ^ LENGTH('a) - 1"
    using assms by (metis unsigned_minus_1_eq_mask mask_eq_exp_minus_1 word_unat_eq_iff)
  moreover have "unat a < 2 ^ LENGTH('a)" by simp
  ultimately have "unat a + 1 < 2 ^ LENGTH('a)" by linarith
  then have "unat (a + 1) = unat a + 1"
    by (simp add: unat_word_ariths)
  then show ?thesis by (simp add: word_less_nat_alt)
qed

lemma sint_nonneg:
  fixes a :: "'a::len word"
  assumes "0 \<le> sint a"
  shows "sint a = int (unat a)" and "unat a < 2 ^ (LENGTH('a) - 1)"
proof -
  have lt: "sint a < 2 ^ (LENGTH('a) - 1)" by (rule sint_lt)
  also have "(2 :: int) ^ (LENGTH('a) - 1) \<le> 2 ^ LENGTH('a)" by (rule power_increasing) auto
  finally have "uint a = sint a" using assms by (simp add: uint_sint take_bit_int_eq_self)
  then show eq: "sint a = int (unat a)" by simp
  show "unat a < 2 ^ (LENGTH('a) - 1)" using lt unfolding eq by (metis of_nat_less_iff of_nat_numeral of_nat_power)
qed

lemma sint_nonneg_iff:
  fixes a :: "'a::len word"
  shows "0 \<le> sint a \<longleftrightarrow> unat a < 2 ^ (LENGTH('a) - 1)"
proof
  show "0 \<le> sint a \<Longrightarrow> unat a < 2 ^ (LENGTH('a) - 1)" by (rule sint_nonneg)
  assume a: "unat a < 2 ^ (LENGTH('a) - 1)"
  have "sint a = signed_take_bit (LENGTH('a) - 1) (uint a)" by (simp add: sint_uint)
  also have "\<dots> = uint a"
  proof (rule signed_take_bit_int_eq_self)
    have "- (2 ^ (LENGTH('a) - 1)) \<le> (0 :: int)" by simp
    then show "- (2 ^ (LENGTH('a) - 1)) \<le> uint a" using uint_ge_0 by (rule order_trans)
    show "uint a < 2 ^ (LENGTH('a) - 1)" using a by (auto simp flip: of_nat_less_iff [where 'a = int])
  qed
  finally show "0 \<le> sint a" by simp
qed

subsection \<open>Lists\<close>

lemma sorted_wrt_appendI:
  "sorted_wrt P xs \<Longrightarrow> sorted_wrt P ys \<Longrightarrow> (\<And>x y. x \<in> set xs \<Longrightarrow> y \<in> set ys \<Longrightarrow> P x y)
    \<Longrightarrow> sorted_wrt P (xs @ ys)"
  by (auto simp: sorted_wrt_append)

lemma mset_list_update_swap:
  assumes "i < length xs" "j < length xs"
  shows "mset (xs[i := xs ! j, j := xs ! i]) = mset xs"
  using assms by (simp add: mset_swap)

lemma mset_butlast_last: "xs \<noteq> [] \<Longrightarrow> mset xs = add_mset (last xs) (mset (butlast xs))"
  by (metis append_butlast_last_id mset.simps mset_append add_mset_add_single union_commute)

subsection \<open>Scanning a list for the first match\<close>

text \<open>
  Most loops of the sources walk a container and act on the first element that satisfies a
  condition: \<open>span_until p xs\<close> splits there.
\<close>

fun span_until :: "('a \<Rightarrow> bool) \<Rightarrow> 'a list \<Rightarrow> 'a list \<times> 'a list" where
  "span_until p [] = ([], [])"
| "span_until p (x # xs) =
     (if p x then ([], x # xs) else (let (ys, zs) = span_until p xs in (x # ys, zs)))"

lemma span_until_append: "span_until p xs = (ys, zs) \<Longrightarrow> xs = ys @ zs"
  by (induction xs arbitrary: ys zs) (auto split: if_splits prod.splits)

lemma span_until_pre: "span_until p xs = (ys, zs) \<Longrightarrow> y \<in> set ys \<Longrightarrow> \<not> p y"
  by (induction xs arbitrary: ys zs) (auto split: if_splits prod.splits)

lemma span_until_hit: "span_until p xs = (ys, z # zs) \<Longrightarrow> p z"
  by (induction xs arbitrary: ys) (auto split: if_splits prod.splits)

lemma span_until_none: "span_until p xs = (ys, []) \<Longrightarrow> x \<in> set xs \<Longrightarrow> \<not> p x"
  by (induction xs arbitrary: ys) (auto split: if_splits prod.splits)

text \<open>Erase the first element that satisfies a condition; \<open>None\<close> if there is none.\<close>

fun erase_first :: "('a \<Rightarrow> bool) \<Rightarrow> 'a list \<Rightarrow> ('a \<times> 'a list) option" where
  "erase_first p [] = None"
| "erase_first p (x # xs) =
     (if p x then Some (x, xs)
      else map_option (\<lambda>(y, ys). (y, x # ys)) (erase_first p xs))"

lemma erase_first_None [simp]: "erase_first p xs = None \<longleftrightarrow> (\<forall>x \<in> set xs. \<not> p x)"
  by (induction xs) (auto split: if_splits)

lemma erase_first_SomeD:
  assumes "erase_first p xs = Some (y, ys)"
  shows "p y" "y \<in> set xs" "mset xs = add_mset y (mset ys)" "\<exists>as bs. xs = as @ y # bs \<and> ys = as @ bs"
proof -
  have "p y \<and> (\<exists>as bs. xs = as @ y # bs \<and> ys = as @ bs)"
    using assms
  proof (induction xs arbitrary: ys)
    case Nil
    then show ?case by simp
  next
    case (Cons x xs)
    show ?case
    proof (cases "p x")
      case True
      with Cons.prems show ?thesis by (metis append_Nil erase_first.simps(2) option.inject prod.inject)
    next
      case False
      with Cons.prems obtain zs where zs: "erase_first p xs = Some (y, zs)" "ys = x # zs"
        by auto
      with Cons.IH obtain as bs where "p y" "xs = as @ y # bs" "zs = as @ bs" by blast
      with zs have "x # xs = (x # as) @ y # bs" "ys = (x # as) @ bs" by simp_all
      with \<open>p y\<close> show ?thesis by blast
    qed
  qed
  then show "p y" "y \<in> set xs" "mset xs = add_mset y (mset ys)"
      "\<exists>as bs. xs = as @ y # bs \<and> ys = as @ bs"
    by auto
qed

lemma sorted_wrt_erase_first:
  assumes "erase_first p xs = Some (y, ys)" and "sorted_wrt P xs"
  shows "sorted_wrt P ys"
proof -
  from erase_first_SomeD(4)[OF assms(1)] obtain as bs where "xs = as @ y # bs" "ys = as @ bs" by blast
  with assms(2) show ?thesis by (auto simp: sorted_wrt_append)
qed

subsection \<open>\<open>std::sort\<close>\<close>

text \<open>
  \<open>std::sort\<close> with a comparison \<open>lt\<close>. The order of equivalent elements is unspecified in C++;
  here they keep the order of the input, which at every call of the sources is itself the
  unspecified or arbitrary iteration order of a container.
\<close>

fun insert_by :: "('a \<Rightarrow> 'a \<Rightarrow> bool) \<Rightarrow> 'a \<Rightarrow> 'a list \<Rightarrow> 'a list" where
  "insert_by lt x [] = [x]"
| "insert_by lt x (y # ys) = (if lt y x then y # insert_by lt x ys else x # y # ys)"

definition sort_by :: "('a \<Rightarrow> 'a \<Rightarrow> bool) \<Rightarrow> 'a list \<Rightarrow> 'a list" where
  "sort_by lt xs = foldr (insert_by lt) xs []"

lemma mset_insert_by [simp]: "mset (insert_by lt x xs) = add_mset x (mset xs)"
  by (induction xs) auto

lemma mset_sort_by [simp]: "mset (sort_by lt xs) = mset xs"
  by (induction xs) (simp_all add: sort_by_def)

lemma set_sort_by [simp]: "set (sort_by lt xs) = set xs"
  by (metis mset_sort_by set_mset_mset)

lemma distinct_sort_by [simp]: "distinct (sort_by lt xs) = distinct xs"
  by (metis mset_sort_by mset_eq_imp_distinct_iff)

lemma set_insert_by [simp]: "set (insert_by lt x xs) = insert x (set xs)"
  by (induction xs) auto

text \<open>The comparison has to be a strict weak order, as the standard requires.\<close>

definition weak_order :: "('a \<Rightarrow> 'a \<Rightarrow> bool) \<Rightarrow> bool" where
  "weak_order lt \<longleftrightarrow> (\<forall>a b. lt a b \<longrightarrow> \<not> lt b a) \<and> (\<forall>a b c. \<not> lt b a \<longrightarrow> \<not> lt c b \<longrightarrow> \<not> lt c a)"

lemma weak_order_asym: "weak_order lt \<Longrightarrow> lt a b \<Longrightarrow> \<not> lt b a"
  unfolding weak_order_def by blast

lemma weak_order_trans: "weak_order lt \<Longrightarrow> \<not> lt b a \<Longrightarrow> \<not> lt c b \<Longrightarrow> \<not> lt c a"
  unfolding weak_order_def by blast

lemma sorted_insert_by:
  assumes "weak_order lt"
  shows "sorted_wrt (\<lambda>a b. \<not> lt b a) xs \<Longrightarrow> sorted_wrt (\<lambda>a b. \<not> lt b a) (insert_by lt x xs)"
proof (induction xs)
  case (Cons y ys)
  show ?case
  proof (cases "lt y x")
    case True
    then have "\<not> lt x y" by (rule weak_order_asym[OF assms])
    with True Cons show ?thesis by simp
  next
    case False
    have "\<not> lt z x" if "z \<in> set ys" for z
    proof -
      have "\<not> lt z y" using Cons.prems that by simp
      with False show ?thesis by (rule weak_order_trans[OF assms])
    qed
    with False Cons.prems show ?thesis by simp
  qed
qed simp

lemma sorted_sort_by: "weak_order lt \<Longrightarrow> sorted_wrt (\<lambda>a b. \<not> lt b a) (sort_by lt xs)"
  by (induction xs) (simp_all add: sort_by_def sorted_insert_by)

lemma weak_order_linorder [intro!]: "weak_order (\<lambda>a b. (f a :: 'b::linorder) < f b)"
  by (auto simp: weak_order_def)

subsection \<open>Unsigned integers as natural numbers\<close>

text \<open>Sums, differences and products of \<open>uint32_t\<close> and \<open>uint64_t\<close> values, with their wrap-around.\<close>

definition u32_add :: "nat \<Rightarrow> nat \<Rightarrow> nat" where
  "u32_add a b = (a + b) mod 2 ^ 32"

definition u32_sub :: "nat \<Rightarrow> nat \<Rightarrow> nat" where
  "u32_sub a b = (if b \<le> a then a - b else a + 2 ^ 32 - b)"

definition u64_add :: "nat \<Rightarrow> nat \<Rightarrow> nat" where
  "u64_add a b = (a + b) mod 2 ^ 64"

definition u64_sub :: "nat \<Rightarrow> nat \<Rightarrow> nat" where
  "u64_sub a b = (if b \<le> a then a - b else a + 2 ^ 64 - b)"

definition u64_mul :: "nat \<Rightarrow> nat \<Rightarrow> nat" where
  "u64_mul a b = a * b mod 2 ^ 64"

lemma u32_add_id [simp]: "a + b < 2 ^ 32 \<Longrightarrow> u32_add a b = a + b"
  by (simp add: u32_add_def)

lemma u64_add_id [simp]: "a + b < 2 ^ 64 \<Longrightarrow> u64_add a b = a + b"
  by (simp add: u64_add_def)

lemma u32_sub_id [simp]: "b \<le> a \<Longrightarrow> u32_sub a b = a - b"
  by (simp add: u32_sub_def)

lemma u64_sub_id [simp]: "b \<le> a \<Longrightarrow> u64_sub a b = a - b"
  by (simp add: u64_sub_def)

lemma u_ops_less [simp]: "u32_add a b < 2 ^ 32" "u64_add a b < 2 ^ 64" "u64_mul a b < 2 ^ 64"
  by (simp_all add: u32_add_def u64_add_def u64_mul_def)

lemmas u_ops_less_numeral [simp] = u_ops_less [simplified]

lemma u_sub_less: "a < 2 ^ 32 \<Longrightarrow> u32_sub a b < 2 ^ 32" "a < 2 ^ 64 \<Longrightarrow> u64_sub a b < 2 ^ 64"
  by (auto simp: u32_sub_def u64_sub_def)

subsection \<open>\<open>std::map\<close> as an ordered association list\<close>

text \<open>
  \<open>lt\<close> is the \<open>operator<\<close> of the key class. Two keys are the same key of the map when
  neither is less than the other, as the standard prescribes.
\<close>

definition key_equiv :: "('k \<Rightarrow> 'k \<Rightarrow> bool) \<Rightarrow> 'k \<Rightarrow> 'k \<Rightarrow> bool" where
  "key_equiv lt a b \<longleftrightarrow> \<not> lt a b \<and> \<not> lt b a"

text \<open>\<open>map::insert\<close>: the flag is \<open>result.second\<close>; an existing key keeps its value.\<close>

fun smap_insert :: "('k \<Rightarrow> 'k \<Rightarrow> bool) \<Rightarrow> 'k \<Rightarrow> 'v \<Rightarrow> ('k \<times> 'v) list \<Rightarrow> ('k \<times> 'v) list \<times> bool" where
  "smap_insert lt k v [] = ([(k, v)], True)"
| "smap_insert lt k v ((k', v') # m) =
     (if lt k k' then ((k, v) # (k', v') # m, True)
      else if lt k' k then (let (m', b) = smap_insert lt k v m in ((k', v') # m', b))
      else ((k', v') # m, False))"

text \<open>\<open>m[k] = v\<close>: inserts or overwrites.\<close>

fun smap_set :: "('k \<Rightarrow> 'k \<Rightarrow> bool) \<Rightarrow> 'k \<Rightarrow> 'v \<Rightarrow> ('k \<times> 'v) list \<Rightarrow> ('k \<times> 'v) list" where
  "smap_set lt k v [] = [(k, v)]"
| "smap_set lt k v ((k', v') # m) =
     (if lt k k' then (k, v) # (k', v') # m
      else if lt k' k then (k', v') # smap_set lt k v m
      else (k', v) # m)"

fun smap_find :: "('k \<Rightarrow> 'k \<Rightarrow> bool) \<Rightarrow> 'k \<Rightarrow> ('k \<times> 'v) list \<Rightarrow> 'v option" where
  "smap_find lt k [] = None"
| "smap_find lt k ((k', v') # m) = (if key_equiv lt k k' then Some v' else smap_find lt k m)"

fun smap_erase :: "('k \<Rightarrow> 'k \<Rightarrow> bool) \<Rightarrow> 'k \<Rightarrow> ('k \<times> 'v) list \<Rightarrow> ('k \<times> 'v) list" where
  "smap_erase lt k [] = []"
| "smap_erase lt k ((k', v') # m) =
     (if key_equiv lt k k' then m else (k', v') # smap_erase lt k m)"

lemma key_equiv_linorder [simp]: "key_equiv (<) a b \<longleftrightarrow> a = (b :: 'k::linorder)"
  by (auto simp: key_equiv_def)

abbreviation smap_ok :: "('k::linorder \<times> 'v) list \<Rightarrow> bool" where
  "smap_ok m \<equiv> sorted_wrt (<) (map fst m)"

lemma smap_find_map_of [simp]: "smap_find (<) k m = map_of m (k :: 'k::linorder)"
  by (induction m) auto

lemma set_smap_set:
  "fst ` set (smap_set (<) k v m) = insert (k :: 'k::linorder) (fst ` set m)"
  by (induction m) (auto split: if_splits simp: image_iff not_less_iff_gr_or_eq, force+)

lemma smap_ok_set: "smap_ok m \<Longrightarrow> smap_ok (smap_set (<) (k :: 'k::linorder) v m)"
proof (induction m)
  case (Cons a m)
  have "fst ` set (smap_set (<) k v m) = insert k (fst ` set m)" by (rule set_smap_set)
  with Cons show ?case by (cases a) (fastforce simp: image_iff)
qed simp

lemma map_of_smap_set:
  "smap_ok m \<Longrightarrow> map_of (smap_set (<) k v m) = (map_of m)((k :: 'k::linorder) \<mapsto> v)"
  by (induction m) (auto simp: fun_eq_iff)

lemma smap_insert_old:
  "smap_ok m \<Longrightarrow> k \<in> fst ` set m \<Longrightarrow> smap_insert (<) (k :: 'k::linorder) v m = (m, False)"
proof (induction m)
  case (Cons a m)
  then show ?case by (cases a) force
qed simp

lemma smap_insert_new:
  "k \<notin> fst ` set m \<Longrightarrow> smap_insert (<) (k :: 'k::linorder) v m = (smap_set (<) k v m, True)"
  by (induction m) (auto split: prod.splits)

lemma mset_smap_set_new:
  "k \<notin> fst ` set m \<Longrightarrow> mset (smap_set (<) (k :: 'k::linorder) v m) = add_mset (k, v) (mset m)"
  by (induction m) auto

lemma smap_insert_flag:
  "smap_ok m \<Longrightarrow> snd (smap_insert (<) (k :: 'k::linorder) v m) \<longleftrightarrow> k \<notin> fst ` set m"
  by (cases "k \<in> fst ` set m") (simp_all add: smap_insert_old smap_insert_new)

lemma smap_erase_subset: "set (smap_erase lt k m) \<subseteq> set m"
  by (induction m) (auto split: if_splits)

lemma smap_ok_erase: "smap_ok m \<Longrightarrow> smap_ok (smap_erase (<) (k :: 'k::linorder) m)"
proof (induction m)
  case (Cons a m)
  have "x \<in> set m" if "x \<in> set (smap_erase (<) k m)" for x
    using subsetD [OF smap_erase_subset that] .
  with Cons show ?case by (cases a) auto
qed simp

lemma map_of_smap_erase:
  "smap_ok m \<Longrightarrow> map_of (smap_erase (<) (k :: 'k::linorder) m) = (map_of m)(k := None)"
proof (induction m)
  case (Cons a m)
  then show ?case
    by (cases a) (auto simp: fun_eq_iff map_of_eq_None_iff image_iff)
qed simp

lemma smap_ok_distinct: "smap_ok m \<Longrightarrow> distinct (map fst (m :: ('k::linorder \<times> 'v) list))"
  by (induction m) auto

lemma mset_smap_erase:
  "smap_ok m \<Longrightarrow> (k :: 'k::linorder, v) \<in> set m \<Longrightarrow> mset m = add_mset (k, v) (mset (smap_erase (<) k m))"
  by (induction m) (auto simp: image_iff)

lemma smap_erase_notin [simp]:
  "k \<notin> fst ` set m \<Longrightarrow> smap_erase (<) (k :: 'k::linorder) m = m"
  by (induction m) auto

lemmas smap_specs = smap_ok_set map_of_smap_set smap_ok_erase map_of_smap_erase

end
