(* ===== verification/Event_Scheduler.thy ===== *)
theory Event_Scheduler
  imports Ns3_Prelude
begin

text \<open>
  The event list interface of \<open>src/core/model/scheduler.h\<close>: \<open>EventKey\<close>, \<open>Event\<close>, their
  comparison operators, and the virtual methods of the class \<open>Scheduler\<close> as a record of
  functions. The locale \<open>event_list\<close> states what a client may rely on (insert, empty test,
  peek, remove next); \<open>removable_event_list\<close> adds \<open>Remove\<close>.
\<close>

subsection \<open>Keys and events\<close>

record event_key =
  m_ts :: u64
  m_uid :: u32
  m_context :: u32

text \<open>\<open>impl\<close> is the \<open>EventImpl*\<close>: the identity of the implementation object.\<close>

record event =
  impl :: nat
  key :: event_key

definition key_eq :: "event_key \<Rightarrow> event_key \<Rightarrow> bool" where
  "key_eq a b \<longleftrightarrow> m_uid a = m_uid b"

definition key_neq :: "event_key \<Rightarrow> event_key \<Rightarrow> bool" where
  "key_neq a b \<longleftrightarrow> m_uid a \<noteq> m_uid b"

definition key_less :: "event_key \<Rightarrow> event_key \<Rightarrow> bool" where
  "key_less a b =
    (if m_ts a < m_ts b then True
     else if m_ts a = m_ts b \<and> m_uid a < m_uid b then True
     else False)"

definition key_greater :: "event_key \<Rightarrow> event_key \<Rightarrow> bool" where
  "key_greater a b =
    (if m_ts a > m_ts b then True
     else if m_ts a = m_ts b \<and> m_uid a > m_uid b then True
     else False)"

definition ev_eq :: "event \<Rightarrow> event \<Rightarrow> bool" where
  "ev_eq a b \<longleftrightarrow> key_eq (key a) (key b)"

definition ev_neq :: "event \<Rightarrow> event \<Rightarrow> bool" where
  "ev_neq a b \<longleftrightarrow> key_neq (key a) (key b)"

definition ev_less :: "event \<Rightarrow> event \<Rightarrow> bool" where
  "ev_less a b \<longleftrightarrow> key_less (key a) (key b)"

definition ev_greater :: "event \<Rightarrow> event \<Rightarrow> bool" where
  "ev_greater a b \<longleftrightarrow> key_greater (key a) (key b)"

text \<open>
  The comparison is the lexicographic order of time stamp and uid. The abbreviation maps an
  event to that pair, so that the library's linear order on pairs carries the proofs.
\<close>

abbreviation key_rank :: "event_key \<Rightarrow> u64 \<times> u32" where
  "key_rank k \<equiv> (m_ts k, m_uid k)"

abbreviation rank :: "event \<Rightarrow> u64 \<times> u32" where
  "rank e \<equiv> key_rank (key e)"

abbreviation uid :: "event \<Rightarrow> u32" where
  "uid e \<equiv> m_uid (key e)"

abbreviation ts :: "event \<Rightarrow> u64" where
  "ts e \<equiv> m_ts (key e)"

lemma key_less_rank [simp]: "key_less a b \<longleftrightarrow> key_rank a < key_rank b"
  by (auto simp: key_less_def less_prod_simp)

lemma key_less_fun [simp]: "key_less = (\<lambda>a b. key_rank a < key_rank b)"
  by (intro ext) simp

lemma key_greater_rank [simp]: "key_greater a b \<longleftrightarrow> key_rank b < key_rank a"
  by (auto simp: key_greater_def less_prod_simp)

lemma ev_less_rank [simp]: "ev_less a b \<longleftrightarrow> rank a < rank b"
  by (simp add: ev_less_def)

lemma ev_greater_rank [simp]: "ev_greater a b \<longleftrightarrow> rank b < rank a"
  by (simp add: ev_greater_def)

lemma ev_eq_uid [simp]: "ev_eq a b \<longleftrightarrow> uid a = uid b"
  by (simp add: ev_eq_def key_eq_def)

text \<open>
  The header asks of \<open>operator<\<close> that it be irreflexive, asymmetric and transitive; on keys
  with distinct uids it is also total.
\<close>

lemma key_less_strict_order:
  "\<not> key_less a a"
  "key_less a b \<Longrightarrow> \<not> key_less b a"
  "key_less a b \<Longrightarrow> key_less b c \<Longrightarrow> key_less a c"
  by (auto simp: less_prod_simp)

text \<open>From here on ranks are compared as elements of a linear order, not component-wise.\<close>

declare less_prod_simp [simp del] less_eq_prod_simp [simp del]

lemma rank_neq: "uid a \<noteq> uid b \<Longrightarrow> rank a \<noteq> rank b"
  by simp

lemma rank_total: "uid a \<noteq> uid b \<Longrightarrow> rank a < rank b \<or> rank b < rank a"
  using rank_neq neq_iff by blast

lemma rank_le_ts: "rank a \<le> rank b \<Longrightarrow> ts a \<le> ts b"
  by (auto simp: less_eq_prod_simp)

subsection \<open>The virtual methods\<close>

text \<open>
  \<open>PeekNext\<close> and \<open>RemoveNext\<close> may not be called on an empty list, \<open>Remove\<close> only on an
  event that is in it; \<open>Insert\<close> of \<open>MapScheduler\<close> asserts that the key is new.
\<close>

record 's sched_ops =
  op_Insert :: "'s \<Rightarrow> event \<Rightarrow> 's option"
  op_IsEmpty :: "'s \<Rightarrow> bool"
  op_PeekNext :: "'s \<Rightarrow> event option"
  op_RemoveNext :: "'s \<Rightarrow> (event \<times> 's) option"
  op_Remove :: "'s \<Rightarrow> event \<Rightarrow> 's option"

definition uids :: "event multiset \<Rightarrow> u32 set" where
  "uids M = uid ` set_mset M"

lemma uids_simps [simp]:
  "uids {#} = {}" "uids (add_mset e M) = insert (uid e) (uids M)"
  by (auto simp: uids_def)

lemma uid_in_uids: "e \<in># M \<Longrightarrow> uid e \<in> uids M"
  by (auto simp: uids_def)

definition unique_uids :: "event multiset \<Rightarrow> bool" where
  "unique_uids M \<longleftrightarrow> (\<forall>u. count (image_mset uid M) u \<le> 1)"

lemma unique_uids_empty [simp]: "unique_uids {#}"
  by (simp add: unique_uids_def)

lemma unique_uids_add:
  "unique_uids (add_mset e M) \<longleftrightarrow> uid e \<notin> uids M \<and> unique_uids M"
proof -
  have "uid e \<notin> uids M \<longleftrightarrow> count (image_mset uid M) (uid e) = 0"
    by (simp add: uids_def count_eq_zero_iff)
  then show ?thesis
    unfolding unique_uids_def by (auto split: if_splits intro: le_SucI)
qed

lemma unique_uids_inj:
  assumes "unique_uids M" "a \<in># M" "b \<in># M" "uid a = uid b"
  shows "a = b"
proof (rule ccontr)
  assume "a \<noteq> b"
  from assms(2) obtain N where N: "M = add_mset a N" by (metis multi_member_split)
  with assms \<open>a \<noteq> b\<close> have "b \<in># N" by auto
  with assms(1,4) N show False by (metis uid_in_uids unique_uids_add)
qed

lemma unique_uids_mset: "unique_uids (mset es) \<longleftrightarrow> distinct (map uid es)"
  by (induction es) (auto simp: unique_uids_add uids_def)

lemma unique_uids_union: "unique_uids (A + B) \<Longrightarrow> unique_uids A"
  by (simp add: unique_uids_def) (meson add_leD1)

lemma erase_first_uid:
  assumes "unique_uids (mset s)" "e \<in> set s"
  obtains s' where "erase_first (\<lambda>i. uid i = uid e) s = Some (e, s')" "mset s = add_mset e (mset s')"
proof (cases "erase_first (\<lambda>i. uid i = uid e) s")
  case None
  with assms(2) show ?thesis by auto
next
  case (Some p)
  then obtain i s' where p: "erase_first (\<lambda>i. uid i = uid e) s = Some (i, s')" by (cases p) auto
  note r = erase_first_SomeD[OF p]
  have "i = e"
    by (rule unique_uids_inj[OF assms(1)]) (use r(1,2) assms(2) in simp_all)
  with p r(3) that show ?thesis by blast
qed

subsection \<open>The contract\<close>

text \<open>
  \<open>evs\<close> reads an implementation's state as the multiset of events it holds, \<open>ok\<close> is its
  invariant. \<open>RemoveNext\<close> returns an event no other event precedes.
\<close>

locale event_list =
  fixes ops :: "'s sched_ops" and evs :: "'s \<Rightarrow> event multiset" and ok :: "'s \<Rightarrow> bool"
    and empty :: 's
  assumes ok_empty: "ok empty"
    and evs_empty: "evs empty = {#}"
    and Insert: "ok s \<Longrightarrow> unique_uids (evs s) \<Longrightarrow> uid e \<notin> uids (evs s) \<Longrightarrow>
      \<exists>s'. op_Insert ops s e = Some s' \<and> ok s' \<and> evs s' = add_mset e (evs s)"
    and IsEmpty: "ok s \<Longrightarrow> op_IsEmpty ops s \<longleftrightarrow> evs s = {#}"
    and PeekNext: "ok s \<Longrightarrow> unique_uids (evs s) \<Longrightarrow> evs s \<noteq> {#} \<Longrightarrow>
      op_PeekNext ops s = map_option fst (op_RemoveNext ops s)"
    and RemoveNext: "ok s \<Longrightarrow> unique_uids (evs s) \<Longrightarrow> evs s \<noteq> {#} \<Longrightarrow>
      \<exists>e s'. op_RemoveNext ops s = Some (e, s') \<and> ok s' \<and> evs s = add_mset e (evs s') \<and>
        (\<forall>x \<in># evs s. rank e \<le> rank x)"

locale removable_event_list = event_list +
  assumes Remove: "ok s \<Longrightarrow> unique_uids (evs s) \<Longrightarrow> e \<in># evs s \<Longrightarrow>
      \<exists>s'. op_Remove ops s e = Some s' \<and> ok s' \<and> evs s = add_mset e (evs s')"

text \<open>
  The contract under which the simulator uses a list. The clock never goes back: \<open>now\<close> is the time of the
  last event taken, and no event before it is inserted, nor one at the last representable time, nor more than
  a 32-bit counter can count. A list that keeps the stronger contract above keeps this one.
\<close>

locale timed_event_list =
  fixes ops :: "'s sched_ops" and evs :: "'s \<Rightarrow> event multiset" and ok :: "u64 \<Rightarrow> 's \<Rightarrow> bool"
    and empty :: 's
  assumes ok_start: "ok 0 empty"
    and evs_start: "evs empty = {#}"
    and ok_later: "ok now s \<Longrightarrow> now \<le> now' \<Longrightarrow> ok now' s"
    and Insert_at: "ok now s \<Longrightarrow> unique_uids (evs s) \<Longrightarrow> uid e \<notin> uids (evs s) \<Longrightarrow> now \<le> ts e \<Longrightarrow> ts e \<noteq> - 1 \<Longrightarrow>
      size (evs s) < 2 ^ 32 - 1 \<Longrightarrow> \<exists>s'. op_Insert ops s e = Some s' \<and> ok now s' \<and> evs s' = add_mset e (evs s)"
    and IsEmpty_at: "ok now s \<Longrightarrow> op_IsEmpty ops s \<longleftrightarrow> evs s = {#}"
    and PeekNext_at: "ok now s \<Longrightarrow> unique_uids (evs s) \<Longrightarrow> evs s \<noteq> {#} \<Longrightarrow>
      op_PeekNext ops s = map_option fst (op_RemoveNext ops s)"
    and RemoveNext_at: "ok now s \<Longrightarrow> unique_uids (evs s) \<Longrightarrow> evs s \<noteq> {#} \<Longrightarrow>
      \<exists>e s'. op_RemoveNext ops s = Some (e, s') \<and> ok (ts e) s' \<and> evs s = add_mset e (evs s') \<and>
        (\<forall>x \<in># evs s. rank e \<le> rank x)"

locale timed_removable_event_list = timed_event_list +
  assumes Remove_at: "ok now s \<Longrightarrow> unique_uids (evs s) \<Longrightarrow> e \<in># evs s \<Longrightarrow>
      \<exists>s'. op_Remove ops s e = Some s' \<and> ok now s' \<and> evs s = add_mset e (evs s')"

sublocale event_list \<subseteq> timed_event_list ops evs "\<lambda>_. ok" empty
  by unfold_locales (use ok_empty evs_empty Insert IsEmpty PeekNext RemoveNext in auto)

sublocale removable_event_list \<subseteq> timed_removable_event_list ops evs "\<lambda>_. ok" empty
  by unfold_locales (use Remove in auto)

text \<open>
  A first client: draining the list, as \<open>DoDispose\<close> and \<open>SetScheduler\<close> do. The events come
  out in the order of their keys.
\<close>

fun drain :: "'s sched_ops \<Rightarrow> nat \<Rightarrow> 's \<Rightarrow> event list option" where
  "drain ops 0 s = (if op_IsEmpty ops s then Some [] else None)"
| "drain ops (Suc n) s =
     (if op_IsEmpty ops s then Some []
      else do {
        (e, s') \<leftarrow> op_RemoveNext ops s;
        es \<leftarrow> drain ops n s';
        Some (e # es)
      })"

context timed_event_list begin

lemma RemoveNext_cases:
  assumes "ok now s" "unique_uids (evs s)" "evs s \<noteq> {#}"
  obtains e s' where "op_RemoveNext ops s = Some (e, s')" "ok (ts e) s'" "evs s = add_mset e (evs s')"
    "unique_uids (evs s')" "uid e \<notin> uids (evs s')" "\<And>x. x \<in># evs s' \<Longrightarrow> rank e < rank x"
proof -
  from RemoveNext_at[OF assms] obtain e s' where r: "op_RemoveNext ops s = Some (e, s')" "ok (ts e) s'"
      "evs s = add_mset e (evs s')" "\<And>x. x \<in># evs s \<Longrightarrow> rank e \<le> rank x" by blast
  with assms(2) have u: "uid e \<notin> uids (evs s')" "unique_uids (evs s')"
    by (simp_all add: unique_uids_add)
  have "rank e < rank x" if "x \<in># evs s'" for x
  proof -
    have "uid x \<noteq> uid e" using u(1) uid_in_uids[OF that] by auto
    moreover have "rank e \<le> rank x" using r(3,4) that by simp
    ultimately show ?thesis using rank_neq by (metis order_le_less)
  qed
  with r u that show ?thesis by blast
qed

lemma drain_sorted:
  assumes "ok now s" "unique_uids (evs s)" "size (evs s) \<le> n"
  shows "\<exists>es. drain ops n s = Some es \<and> mset es = evs s \<and> sorted_wrt (\<lambda>a b. rank a < rank b) es"
  using assms
proof (induction n arbitrary: s now)
  case 0
  then show ?case by (simp add: IsEmpty_at)
next
  case (Suc n)
  show ?case
  proof (cases "evs s = {#}")
    case True
    with Suc.prems show ?thesis by (simp add: IsEmpty_at)
  next
    case False
    from RemoveNext_cases[OF Suc.prems(1,2) this] obtain e s' where
      r: "op_RemoveNext ops s = Some (e, s')" "ok (ts e) s'" "evs s = add_mset e (evs s')"
        "unique_uids (evs s')" "\<And>x. x \<in># evs s' \<Longrightarrow> rank e < rank x" by metis
    with Suc obtain es where es: "drain ops n s' = Some es" "mset es = evs s'"
        "sorted_wrt (\<lambda>a b. rank a < rank b) es" by fastforce
    from es(2) have "set es = set_mset (evs s')" by (metis set_mset_mset)
    with r es False Suc.prems(1) show ?thesis by (simp add: IsEmpty_at)
  qed
qed

end

end
