(* ===== verification/Simulator_Core.thy ===== *)
theory Simulator_Core
  imports Event_Scheduler
begin

text \<open>
  \<open>DefaultSimulatorImpl\<close> (\<open>src/core/model/default-simulator-impl.cc\<close>), \<open>EventId\<close> and the
  cancel flag of \<open>EventImpl\<close>. The simulator calls its event list through the virtual methods
  of \<open>Scheduler\<close>, so every operation takes the record of methods \<open>ops\<close>; what it relies on is
  the locale of \<open>Event_Scheduler\<close>.

  An event implementation is user code. It reaches the simulator through the public methods
  only, so its body is the list of the calls it makes, given by a parameter
  \<open>body impl s\<close> (the calls may depend on the whole simulator state at the time of the
  invocation). Reference counts are not modelled.
\<close>

subsection \<open>State\<close>

record event_id =
  id_impl :: "nat option"
  id_ts :: u64
  id_context :: u32
  id_uid :: u32

definition UID_INVALID :: u32 where "UID_INVALID = 0"
definition UID_DESTROY :: u32 where "UID_DESTROY = 2"
definition UID_VALID :: u32 where "UID_VALID = 4"
definition NO_CONTEXT :: u32 where "NO_CONTEXT = 0xffffffff"

definition id_eq :: "event_id \<Rightarrow> event_id \<Rightarrow> bool" where
  "id_eq a b \<longleftrightarrow> id_uid a = id_uid b \<and> id_context a = id_context b \<and> id_ts a = id_ts b \<and>
     id_impl a = id_impl b"

record ctx_event =
  cx_context :: u32
  cx_timestamp :: u64
  cx_event :: nat

record 's sim =
  s_events :: 's
  s_eventsWithContext :: "ctx_event list"
  s_eventsWithContextEmpty :: bool
  s_destroyEvents :: "event_id list"
  s_stop :: bool
  s_uid :: u32
  s_currentUid :: u32
  s_currentTs :: u64
  s_currentContext :: u32
  s_eventCount :: u64
  s_unscheduledEvents :: u32
  s_cancelled :: "nat \<Rightarrow> bool"

text \<open>The constructor, with the event list \<open>SetScheduler\<close> installs first.\<close>

definition sim_init :: "'s \<Rightarrow> 's sim" where
  "sim_init q0 =
    \<lparr>s_events = q0, s_eventsWithContext = [], s_eventsWithContextEmpty = True,
     s_destroyEvents = [], s_stop = False, s_uid = UID_VALID, s_currentUid = UID_INVALID,
     s_currentTs = 0, s_currentContext = NO_CONTEXT, s_eventCount = 0, s_unscheduledEvents = 0,
     s_cancelled = (\<lambda>_. False)\<rparr>"

subsection \<open>Times\<close>

text \<open>
  A \<open>Time\<close> is an \<open>int64_t\<close> number of steps. The sum of two of them is undefined when it
  leaves the signed range.
\<close>

definition time_add :: "u64 \<Rightarrow> u64 \<Rightarrow> u64 option" where
  "time_add a b =
    (if - (2 ^ 63) \<le> sint a + sint b \<and> sint a + sint b < 2 ^ 63 then Some (a + b) else None)"

definition time_IsPositive :: "u64 \<Rightarrow> bool" where
  "time_IsPositive t \<longleftrightarrow> 0 \<le> sint t"

subsection \<open>Scheduling\<close>

definition sim_Now :: "'s sim \<Rightarrow> u64" where
  "sim_Now s = s_currentTs s"

text \<open>The part \<open>Schedule\<close>, \<open>ScheduleWithContext\<close> and \<open>ProcessEventsWithContext\<close> share.\<close>

definition sim_insert :: "'s sched_ops \<Rightarrow> 's sim \<Rightarrow> nat \<Rightarrow> u64 \<Rightarrow> u32 \<Rightarrow> ('s sim \<times> event) option" where
  "sim_insert ops s i t c = do {
     let ev = \<lparr>impl = i, key = \<lparr>m_ts = t, m_uid = s_uid s, m_context = c\<rparr>\<rparr>;
     q \<leftarrow> op_Insert ops (s_events s) ev;
     Some (s\<lparr>s_uid := s_uid s + 1, s_unscheduledEvents := s_unscheduledEvents s + 1, s_events := q\<rparr>, ev)
   }"

definition sim_Schedule :: "'s sched_ops \<Rightarrow> 's sim \<Rightarrow> u64 \<Rightarrow> nat \<Rightarrow> ('s sim \<times> event_id) option" where
  "sim_Schedule ops s delay i = do {
     ns_assert (time_IsPositive delay);
     tAbsolute \<leftarrow> time_add delay (s_currentTs s);
     (s', ev) \<leftarrow> sim_insert ops s i tAbsolute (s_currentContext s);
     Some (s', \<lparr>id_impl = Some i, id_ts = m_ts (key ev), id_context = m_context (key ev),
                id_uid = m_uid (key ev)\<rparr>)
   }"

definition sim_ScheduleNow :: "'s sched_ops \<Rightarrow> 's sim \<Rightarrow> nat \<Rightarrow> ('s sim \<times> event_id) option" where
  "sim_ScheduleNow ops s i = sim_Schedule ops s 0 i"

text \<open>The two branches of \<open>ScheduleWithContext\<close>: the main thread, and any other thread.\<close>

definition sim_ScheduleWithContext ::
  "'s sched_ops \<Rightarrow> bool \<Rightarrow> 's sim \<Rightarrow> u32 \<Rightarrow> u64 \<Rightarrow> nat \<Rightarrow> 's sim option" where
  "sim_ScheduleWithContext ops main_thread s context delay i =
     (if main_thread then do {
        tAbsolute \<leftarrow> time_add delay (s_currentTs s);
        (s', ev) \<leftarrow> sim_insert ops s i tAbsolute context;
        Some s'
      } else
        Some (s\<lparr>s_eventsWithContext := s_eventsWithContext s @
                  [\<lparr>cx_context = context, cx_timestamp = delay, cx_event = i\<rparr>],
                s_eventsWithContextEmpty := False\<rparr>))"

definition sim_ScheduleDestroy :: "'s sim \<Rightarrow> nat \<Rightarrow> 's sim \<times> event_id" where
  "sim_ScheduleDestroy s i =
    (let eid = \<lparr>id_impl = Some i, id_ts = s_currentTs s, id_context = 0xffffffff, id_uid = UID_DESTROY\<rparr>
     in (s\<lparr>s_destroyEvents := s_destroyEvents s @ [eid], s_uid := s_uid s + 1\<rparr>, eid))"

subsection \<open>Expiry, cancellation, removal\<close>

definition impl_cancelled :: "'s sim \<Rightarrow> nat option \<Rightarrow> bool" where
  "impl_cancelled s p = (case p of None \<Rightarrow> False | Some i \<Rightarrow> s_cancelled s i)"

definition sim_IsExpired :: "'s sim \<Rightarrow> event_id \<Rightarrow> bool" where
  "sim_IsExpired s eid =
    (if id_uid eid = UID_DESTROY then
       (if id_impl eid = None \<or> impl_cancelled s (id_impl eid) then True
        else \<not> (\<exists>i \<in> set (s_destroyEvents s). id_eq i eid))
     else
       id_impl eid = None \<or> id_ts eid < s_currentTs s \<or>
       (id_ts eid = s_currentTs s \<and> id_uid eid \<le> s_currentUid s) \<or>
       impl_cancelled s (id_impl eid))"

definition sim_GetDelayLeft :: "'s sim \<Rightarrow> event_id \<Rightarrow> u64" where
  "sim_GetDelayLeft s eid = (if sim_IsExpired s eid then 0 else id_ts eid - s_currentTs s)"

definition impl_Cancel :: "'s sim \<Rightarrow> nat option \<Rightarrow> 's sim" where
  "impl_Cancel s p = (case p of None \<Rightarrow> s | Some i \<Rightarrow> s\<lparr>s_cancelled := (s_cancelled s)(i := True)\<rparr>)"

definition sim_Cancel :: "'s sim \<Rightarrow> event_id \<Rightarrow> 's sim" where
  "sim_Cancel s eid = (if \<not> sim_IsExpired s eid then impl_Cancel s (id_impl eid) else s)"

definition sim_Remove :: "'s sched_ops \<Rightarrow> 's sim \<Rightarrow> event_id \<Rightarrow> 's sim option" where
  "sim_Remove ops s eid =
    (if id_uid eid = UID_DESTROY then
       Some (case erase_first (\<lambda>i. id_eq i eid) (s_destroyEvents s) of
               None \<Rightarrow> s
             | Some (_, ds) \<Rightarrow> s\<lparr>s_destroyEvents := ds\<rparr>)
     else if sim_IsExpired s eid then Some s
     else do {
       i \<leftarrow> id_impl eid;
       let event = \<lparr>impl = i, key = \<lparr>m_ts = id_ts eid, m_uid = id_uid eid, m_context = id_context eid\<rparr>\<rparr>;
       q \<leftarrow> op_Remove ops (s_events s) event;
       let s' = impl_Cancel (s\<lparr>s_events := q\<rparr>) (Some i);
       Some (s'\<lparr>s_unscheduledEvents := s_unscheduledEvents s' - 1\<rparr>)
     })"

definition sim_Stop :: "'s sim \<Rightarrow> 's sim" where
  "sim_Stop s = s\<lparr>s_stop := True\<rparr>"

definition sim_IsFinished :: "'s sched_ops \<Rightarrow> 's sim \<Rightarrow> bool" where
  "sim_IsFinished ops s \<longleftrightarrow> op_IsEmpty ops (s_events s) \<or> s_stop s"

subsection \<open>The calls an event body may make\<close>

datatype sim_cmd =
    CSchedule (cmd_delay: u64) (cmd_impl: nat)
  | CScheduleNow (cmd_impl: nat)
  | CScheduleWithContext bool u32 (cmd_delay: u64) (cmd_impl: nat)
  | CScheduleDestroy (cmd_impl: nat)
  | CCancel event_id
  | CRemove event_id
  | CStop

fun sim_exec :: "'s sched_ops \<Rightarrow> 's sim \<Rightarrow> sim_cmd \<Rightarrow> 's sim option" where
  "sim_exec ops s (CSchedule d i) = map_option fst (sim_Schedule ops s d i)"
| "sim_exec ops s (CScheduleNow i) = map_option fst (sim_ScheduleNow ops s i)"
| "sim_exec ops s (CScheduleWithContext m c d i) = sim_ScheduleWithContext ops m s c d i"
| "sim_exec ops s (CScheduleDestroy i) = Some (fst (sim_ScheduleDestroy s i))"
| "sim_exec ops s (CCancel eid) = Some (sim_Cancel s eid)"
| "sim_exec ops s (CRemove eid) = sim_Remove ops s eid"
| "sim_exec ops s CStop = Some (sim_Stop s)"

fun sim_execs :: "'s sched_ops \<Rightarrow> 's sim \<Rightarrow> sim_cmd list \<Rightarrow> 's sim option" where
  "sim_execs ops s [] = Some s"
| "sim_execs ops s (c # cs) = do { s' \<leftarrow> sim_exec ops s c; sim_execs ops s' cs }"

text \<open>\<open>EventImpl::Invoke\<close>: the body runs unless the event was cancelled.\<close>

definition impl_Invoke ::
  "'s sched_ops \<Rightarrow> (nat \<Rightarrow> 's sim \<Rightarrow> sim_cmd list) \<Rightarrow> 's sim \<Rightarrow> nat \<Rightarrow> 's sim option" where
  "impl_Invoke ops body s i = (if \<not> s_cancelled s i then sim_execs ops s (body i s) else Some s)"

subsection \<open>The main loop\<close>

fun sim_insert_ctx :: "'s sched_ops \<Rightarrow> 's sim \<Rightarrow> ctx_event list \<Rightarrow> 's sim option" where
  "sim_insert_ctx ops s [] = Some s"
| "sim_insert_ctx ops s (e # es) = do {
     (s', ev) \<leftarrow> sim_insert ops s (cx_event e) (s_currentTs s + cx_timestamp e) (cx_context e);
     sim_insert_ctx ops s' es
   }"

definition sim_ProcessEventsWithContext :: "'s sched_ops \<Rightarrow> 's sim \<Rightarrow> 's sim option" where
  "sim_ProcessEventsWithContext ops s =
    (if s_eventsWithContextEmpty s then Some s
     else sim_insert_ctx ops (s\<lparr>s_eventsWithContext := [], s_eventsWithContextEmpty := True\<rparr>)
            (s_eventsWithContext s))"

text \<open>\<open>ProcessOneEvent\<close> up to the invocation of the event body, and the whole of it.\<close>

definition sim_pop :: "'s sched_ops \<Rightarrow> 's sim \<Rightarrow> ('s sim \<times> event) option" where
  "sim_pop ops s = do {
     (next, q) \<leftarrow> op_RemoveNext ops (s_events s);
     ns_assert (m_ts (key next) \<ge> s_currentTs s);
     Some (s\<lparr>s_events := q, s_unscheduledEvents := s_unscheduledEvents s - 1,
          s_eventCount := s_eventCount s + 1, s_currentTs := m_ts (key next),
          s_currentContext := m_context (key next), s_currentUid := m_uid (key next)\<rparr>, next)
   }"

definition sim_ProcessOneEvent ::
  "'s sched_ops \<Rightarrow> (nat \<Rightarrow> 's sim \<Rightarrow> sim_cmd list) \<Rightarrow> 's sim \<Rightarrow> 's sim option" where
  "sim_ProcessOneEvent ops body s = do {
     (s1, next) \<leftarrow> sim_pop ops s;
     s2 \<leftarrow> impl_Invoke ops body s1 (impl next);
     sim_ProcessEventsWithContext ops s2
   }"

text \<open>
  The loop of \<open>Run\<close> need not end (an event may always schedule another); \<open>None\<close> is a failed
  assertion or a run that does not return.
\<close>

partial_function (option) sim_loop ::
  "'s sched_ops \<Rightarrow> (nat \<Rightarrow> 's sim \<Rightarrow> sim_cmd list) \<Rightarrow> 's sim \<Rightarrow> 's sim option" where
  "sim_loop ops body s =
     (if \<not> op_IsEmpty ops (s_events s) \<and> \<not> s_stop s
      then Option.bind (sim_ProcessOneEvent ops body s) (\<lambda>s'. sim_loop ops body s')
      else Some s)"

definition sim_Run ::
  "'s sched_ops \<Rightarrow> (nat \<Rightarrow> 's sim \<Rightarrow> sim_cmd list) \<Rightarrow> 's sim \<Rightarrow> 's sim option" where
  "sim_Run ops body s = do {
     s1 \<leftarrow> sim_ProcessEventsWithContext ops s;
     s2 \<leftarrow> sim_loop ops body (s1\<lparr>s_stop := False\<rparr>);
     ns_assert (\<not> op_IsEmpty ops (s_events s2) \<or> s_unscheduledEvents s2 = 0);
     Some s2
   }"

partial_function (option) sim_Destroy ::
  "'s sched_ops \<Rightarrow> (nat \<Rightarrow> 's sim \<Rightarrow> sim_cmd list) \<Rightarrow> 's sim \<Rightarrow> 's sim option" where
  "sim_Destroy ops body s =
     (case s_destroyEvents s of
        [] \<Rightarrow> Some s
      | eid # ds \<Rightarrow>
          Option.bind
            (let s' = s\<lparr>s_destroyEvents := ds\<rparr> in
             case id_impl eid of
               None \<Rightarrow> None
             | Some i \<Rightarrow> if \<not> s_cancelled s' i then impl_Invoke ops body s' i else Some s')
            (\<lambda>s'. sim_Destroy ops body s'))"

text \<open>
  \<open>SetScheduler\<close>: every event of the old list is moved to the new one; \<open>DoDispose\<close>
  empties the list.
\<close>

partial_function (option) sim_move :: "'s sched_ops \<Rightarrow> 't sched_ops \<Rightarrow> 's \<Rightarrow> 't \<Rightarrow> 't option" where
  "sim_move ops ops' q q' =
     (if op_IsEmpty ops q then Some q'
      else Option.bind (op_RemoveNext ops q) (\<lambda>(next, q1).
           Option.bind (op_Insert ops' q' next) (\<lambda>q1'. sim_move ops ops' q1 q1')))"

definition sim_with_events :: "'s sim \<Rightarrow> 't \<Rightarrow> 't sim" where
  "sim_with_events s q =
    \<lparr>s_events = q, s_eventsWithContext = s_eventsWithContext s,
     s_eventsWithContextEmpty = s_eventsWithContextEmpty s, s_destroyEvents = s_destroyEvents s,
     s_stop = s_stop s, s_uid = s_uid s, s_currentUid = s_currentUid s, s_currentTs = s_currentTs s,
     s_currentContext = s_currentContext s, s_eventCount = s_eventCount s,
     s_unscheduledEvents = s_unscheduledEvents s, s_cancelled = s_cancelled s\<rparr>"

definition sim_SetScheduler :: "'s sched_ops \<Rightarrow> 't sched_ops \<Rightarrow> 't \<Rightarrow> 's sim \<Rightarrow> 't sim option" where
  "sim_SetScheduler ops ops' q0 s = do {
     q \<leftarrow> sim_move ops ops' (s_events s) q0;
     Some (sim_with_events s q)
   }"

partial_function (option) sim_empty :: "'s sched_ops \<Rightarrow> 's \<Rightarrow> 's option" where
  "sim_empty ops q =
     (if op_IsEmpty ops q then Some q
      else Option.bind (op_RemoveNext ops q) (\<lambda>(next, q1). sim_empty ops q1))"

definition sim_DoDispose :: "'s sched_ops \<Rightarrow> 's sim \<Rightarrow> 's sim option" where
  "sim_DoDispose ops s = do {
     s1 \<leftarrow> sim_ProcessEventsWithContext ops s;
     q \<leftarrow> sim_empty ops (s_events s1);
     Some (s1\<lparr>s_events := q\<rparr>)
   }"

subsection \<open>The invariant\<close>

text \<open>
  \<open>sim_inv\<close>: the list holds distinct uids below the next one to be issued; every event in it
  lies after the current time stamp and uid; the counter \<open>m_unscheduledEvents\<close> counts them;
  times are in the signed range.
\<close>

definition sim_inv :: "('s \<Rightarrow> event multiset) \<Rightarrow> (u64 \<Rightarrow> 's \<Rightarrow> bool) \<Rightarrow> 's sim \<Rightarrow> bool" where
  "sim_inv evs ok s \<longleftrightarrow> ok (s_currentTs s) (s_events s) \<and> unique_uids (evs (s_events s)) \<and>
     (\<forall>e \<in># evs (s_events s). uid e < s_uid s \<and> 0 \<le> sint (ts e) \<and>
        (s_currentTs s, s_currentUid s) < rank e) \<and>
     s_currentUid s < s_uid s \<and> 0 \<le> sint (s_currentTs s) \<and>
     s_unscheduledEvents s = of_nat (size (evs (s_events s)))"

definition id_event :: "event_id \<Rightarrow> event" where
  "id_event eid = \<lparr>impl = the (id_impl eid),
     key = \<lparr>m_ts = id_ts eid, m_uid = id_uid eid, m_context = id_context eid\<rparr>\<rparr>"

text \<open>What the simulator knows of an id it has handed out: it has expired, or it is in the list.\<close>

definition id_tracked :: "('s \<Rightarrow> event multiset) \<Rightarrow> 's sim \<Rightarrow> event_id \<Rightarrow> bool" where
  "id_tracked evs s eid \<longleftrightarrow>
     id_uid eid \<noteq> UID_DESTROY \<and> (sim_IsExpired s eid \<or> id_event eid \<in># evs (s_events s))"

text \<open>
  Calls a well-behaved client makes: delays are not negative (\<open>Schedule\<close> asserts it,
  \<open>ScheduleWithContext\<close> does not), and ids to be removed come from the simulator.
\<close>

fun cmd_ok :: "('s \<Rightarrow> event multiset) \<Rightarrow> 's sim \<Rightarrow> sim_cmd \<Rightarrow> bool" where
  "cmd_ok evs s (CScheduleWithContext m c d i) \<longleftrightarrow> 0 \<le> sint d"
| "cmd_ok evs s (CRemove eid) \<longleftrightarrow> id_uid eid = UID_DESTROY \<or> id_tracked evs s eid"
| "cmd_ok evs s c \<longleftrightarrow> True"

fun cmd_is_Remove :: "sim_cmd \<Rightarrow> bool" where
  "cmd_is_Remove (CRemove eid) \<longleftrightarrow> True"
| "cmd_is_Remove c \<longleftrightarrow> False"

text \<open>Events other threads have posted fit into the time range when they are moved.\<close>

definition ctx_fits :: "'s sim \<Rightarrow> bool" where
  "ctx_fits s \<longleftrightarrow> (\<forall>x \<in> set (s_eventsWithContext s).
     unat (s_currentTs s) + unat (cx_timestamp x) < 2 ^ 63)"

text \<open>
  One step of a simulation: the loop takes the next event, some code makes one call, or the
  events of other threads are moved in. The uid counter has room for what the step issues;
  \<open>rm\<close> says whether the client uses \<open>Remove\<close>.
\<close>

inductive sim_step ::
  "'s sched_ops \<Rightarrow> ('s \<Rightarrow> event multiset) \<Rightarrow> bool \<Rightarrow> 's sim \<Rightarrow> 's sim \<Rightarrow> bool" for ops evs rm where
  step_pop: "\<not> op_IsEmpty ops (s_events s) \<Longrightarrow> sim_pop ops s = Some (s', e) \<Longrightarrow>
    sim_step ops evs rm s s'"
| step_exec: "cmd_ok evs s c \<Longrightarrow> cmd_is_Remove c \<longrightarrow> rm \<Longrightarrow> s_uid s \<noteq> - 1 \<Longrightarrow>
    sim_exec ops s c = Some s' \<Longrightarrow> sim_step ops evs rm s s'"
| step_ctx: "ctx_fits s \<Longrightarrow> unat (s_uid s) + length (s_eventsWithContext s) < 2 ^ 32 \<Longrightarrow>
    sim_ProcessEventsWithContext ops s = Some s' \<Longrightarrow> sim_step ops evs rm s s'"

inductive_cases sim_stepE: "sim_step ops evs rm s s'"

inductive sim_reach ::
  "'s sched_ops \<Rightarrow> ('s \<Rightarrow> event multiset) \<Rightarrow> bool \<Rightarrow> 's sim \<Rightarrow> 's sim \<Rightarrow> bool" for ops evs rm where
  reach_refl: "sim_reach ops evs rm s s"
| reach_step: "sim_reach ops evs rm s s' \<Longrightarrow> sim_step ops evs rm s' s'' \<Longrightarrow> sim_reach ops evs rm s s''"

lemma time_add_nonneg:
  assumes "time_add a b = Some t" "0 \<le> sint a" "0 \<le> sint b"
  shows "b \<le> t" "0 \<le> sint t" "unat t = unat a + unat b"
proof -
  from assms have s: "t = a + b" "sint a + sint b < 2 ^ 63"
    by (auto simp: time_add_def split: if_splits)
  have "int (unat a + unat b) < 2 ^ 63"
    using s(2) sint_nonneg(1)[OF assms(2)] sint_nonneg(1)[OF assms(3)] by simp
  then have lt: "unat a + unat b < 2 ^ 63" by (metis of_nat_less_iff of_nat_numeral of_nat_power)
  then show u: "unat t = unat a + unat b" unfolding s(1) by (intro unat_plus_no_overflow) simp
  with lt show "0 \<le> sint t" by (simp add: sint_nonneg_iff)
  from u show "b \<le> t" by (simp add: word_le_nat_alt)
qed

lemma time_add_total:
  assumes "0 \<le> sint a" "0 \<le> sint b" "unat a + unat b < 2 ^ 63"
  shows "time_add a b = Some (a + b)"
proof -
  have "sint a + sint b < 2 ^ 63"
    using assms(3) sint_nonneg(1)[OF assms(1)] sint_nonneg(1)[OF assms(2)]
    by (metis of_nat_add of_nat_less_iff of_nat_numeral of_nat_power)
  then show ?thesis using assms(1,2) by (simp add: time_add_def)
qed

lemma impl_Cancel_simps [simp]:
  "s_events (impl_Cancel s p) = s_events s"
  "s_uid (impl_Cancel s p) = s_uid s"
  "s_currentUid (impl_Cancel s p) = s_currentUid s"
  "s_currentTs (impl_Cancel s p) = s_currentTs s"
  "s_unscheduledEvents (impl_Cancel s p) = s_unscheduledEvents s"
  "s_destroyEvents (impl_Cancel s p) = s_destroyEvents s"
  "impl_cancelled (impl_Cancel s p) q \<longleftrightarrow> impl_cancelled s q \<or> (q \<noteq> None \<and> q = p)"
  by (auto simp: impl_Cancel_def impl_cancelled_def split: option.splits)

lemma sim_inv_Cancel [simp]: "sim_inv evs ok (sim_Cancel s eid) \<longleftrightarrow> sim_inv evs ok s"
  by (simp add: sim_Cancel_def sim_inv_def)

text \<open>The uids in the list are below the next one, so they are fewer than the counter can count.\<close>

lemma uids_bound:
  assumes "unique_uids M" "\<forall>e \<in># M. uid e < u"
  shows "size M \<le> unat u"
proof -
  obtain xs where xs: "M = mset xs" by (metis ex_mset)
  with assms have d: "distinct (map uid xs)" "\<forall>e \<in> set xs. uid e < u" by (simp_all add: unique_uids_mset)
  then have "length xs = card (uid ` set xs)" by (metis distinct_card length_map list.set_map)
  also have "... = card (unat ` uid ` set xs)" by (intro card_image[symmetric]) (simp add: inj_on_def word_unat_eq_iff)
  also have "... \<le> card {..<unat u}" using d(2) by (intro card_mono) (auto simp: word_less_nat_alt)
  finally show ?thesis using xs by simp
qed

lemma sim_inv_size: "sim_inv evs ok s \<Longrightarrow> size (evs (s_events s)) \<le> unat (s_uid s)"
  by (intro uids_bound) (auto simp: sim_inv_def)

lemma unat_u32_less: "unat (u :: u32) < 2 ^ 32"
  by (rule order_less_le_trans[OF unsigned_less]) simp

lemma uid_room: "n \<le> unat (u :: u32) \<Longrightarrow> u \<noteq> - 1 \<Longrightarrow> n < 2 ^ 32 - 1"
  using word_inc_less[of u] unat_u32_less[of "u + 1"] by (simp add: word_less_nat_alt)

lemma nonneg_not_max: "0 \<le> sint (t :: u64) \<Longrightarrow> t \<noteq> - 1"
  by auto

context timed_event_list begin

lemma sim_IsEmpty: "sim_inv evs ok s \<Longrightarrow> op_IsEmpty ops (s_events s) \<longleftrightarrow> evs (s_events s) = {#}"
  using IsEmpty_at by (auto simp: sim_inv_def)

lemma sim_inv_init: "sim_inv evs ok (sim_init empty)"
  by (simp add: sim_inv_def sim_init_def ok_start evs_start UID_VALID_def UID_INVALID_def)

lemma insert_inv:
  assumes inv: "sim_inv evs ok s" and room: "s_uid s \<noteq> - 1" and t: "s_currentTs s \<le> t" "0 \<le> sint t"
  shows "\<exists>s' q. sim_insert ops s i t c = Some (s', \<lparr>impl = i, key = \<lparr>m_ts = t, m_uid = s_uid s, m_context = c\<rparr>\<rparr>) \<and>
    s' = s\<lparr>s_uid := s_uid s + 1, s_unscheduledEvents := s_unscheduledEvents s + 1, s_events := q\<rparr> \<and>
    evs q = add_mset \<lparr>impl = i, key = \<lparr>m_ts = t, m_uid = s_uid s, m_context = c\<rparr>\<rparr> (evs (s_events s)) \<and>
    sim_inv evs ok s'"
proof -
  let ?e = "\<lparr>impl = i, key = \<lparr>m_ts = t, m_uid = s_uid s, m_context = c\<rparr>\<rparr>"
  have fresh: "uid ?e \<notin> uids (evs (s_events s))"
    using inv by (fastforce simp: sim_inv_def uids_def)
  have "ok (s_currentTs s) (s_events s)" "unique_uids (evs (s_events s))" using inv by (simp_all add: sim_inv_def)
  moreover have "size (evs (s_events s)) < 2 ^ 32 - 1" using sim_inv_size[OF inv] room by (rule uid_room)
  ultimately obtain q where
    q: "op_Insert ops (s_events s) ?e = Some q" "ok (s_currentTs s) q" "evs q = add_mset ?e (evs (s_events s))"
    using Insert_at[OF _ _ fresh, of "s_currentTs s"] t nonneg_not_max[OF t(2)] by auto
  let ?s' = "s\<lparr>s_uid := s_uid s + 1, s_unscheduledEvents := s_unscheduledEvents s + 1, s_events := q\<rparr>"
  have up: "s_uid s < s_uid s + 1" using room by (rule word_inc_less)
  have "(s_currentTs s, s_currentUid s) < rank ?e"
    using t(1) inv by (auto simp: less_prod_simp sim_inv_def)
  then have "sim_inv evs ok ?s'"
    using inv q fresh up t(2)
    by (auto simp: sim_inv_def unique_uids_add intro: less_trans)
  with q show ?thesis by (auto simp: sim_insert_def)
qed

lemma Schedule_inv:
  assumes inv: "sim_inv evs ok s" and room: "s_uid s \<noteq> - 1"
    and r: "sim_Schedule ops s d i = Some (s', eid)"
  shows "sim_inv evs ok s' \<and> id_event eid \<in># evs (s_events s') \<and> id_uid eid = s_uid s \<and>
    id_impl eid = Some i \<and> s_currentTs s' = s_currentTs s \<and> unat (id_ts eid) = unat (s_currentTs s) + unat d"
proof -
  from r have d: "0 \<le> sint d" by (auto simp: sim_Schedule_def time_IsPositive_def)
  with r obtain t where t: "time_add d (s_currentTs s) = Some t"
    by (cases "time_add d (s_currentTs s)") (auto simp: sim_Schedule_def time_IsPositive_def)
  have now: "0 \<le> sint (s_currentTs s)" using inv by (simp add: sim_inv_def)
  note t' = time_add_nonneg[OF t d now]
  from insert_inv[OF inv room t'(1,2), of i "s_currentContext s"] r t d t'(3) show ?thesis
    by (auto simp: sim_Schedule_def time_IsPositive_def id_event_def)
qed

lemma Schedule_total:
  assumes inv: "sim_inv evs ok s" and room: "s_uid s \<noteq> - 1"
    and d: "0 \<le> sint d" "unat d + unat (s_currentTs s) < 2 ^ 63"
  shows "sim_Schedule ops s d i \<noteq> None"
proof -
  have now: "0 \<le> sint (s_currentTs s)" using inv by (simp add: sim_inv_def)
  note t = time_add_total[OF d(1) now d(2)]
  from insert_inv[OF inv room time_add_nonneg(1,2)[OF t d(1) now], of i "s_currentContext s"] t d(1)
  show ?thesis by (auto simp: sim_Schedule_def time_IsPositive_def)
qed

lemma ScheduleWithContext_inv:
  assumes inv: "sim_inv evs ok s" and room: "s_uid s \<noteq> - 1" and d: "0 \<le> sint d"
    and r: "sim_ScheduleWithContext ops m s c d i = Some s'"
  shows "sim_inv evs ok s'"
proof (cases m)
  case True
  with r obtain t where t: "time_add d (s_currentTs s) = Some t"
    by (cases "time_add d (s_currentTs s)") (auto simp: sim_ScheduleWithContext_def)
  have now: "0 \<le> sint (s_currentTs s)" using inv by (simp add: sim_inv_def)
  from insert_inv[OF inv room time_add_nonneg(1,2)[OF t d now], of i c] r t True show ?thesis
    by (auto simp: sim_ScheduleWithContext_def)
next
  case False
  with r inv show ?thesis by (auto simp: sim_ScheduleWithContext_def sim_inv_def)
qed

lemma exec_inv:
  assumes inv: "sim_inv evs ok s" and room: "s_uid s \<noteq> - 1" and c: "cmd_ok evs s c" "\<not> cmd_is_Remove c"
    and r: "sim_exec ops s c = Some s'"
  shows "sim_inv evs ok s'"
proof (cases c)
  case (CSchedule d i)
  with r obtain eid where "sim_Schedule ops s d i = Some (s', eid)" by auto
  from Schedule_inv[OF inv room this] show ?thesis by blast
next
  case (CScheduleNow i)
  with r obtain eid where "sim_Schedule ops s 0 i = Some (s', eid)" by (auto simp: sim_ScheduleNow_def)
  from Schedule_inv[OF inv room this] show ?thesis by blast
next
  case (CScheduleWithContext m x d i)
  with c r ScheduleWithContext_inv[OF inv room] show ?thesis by auto
next
  case (CScheduleDestroy i)
  have "s_uid s < s_uid s + 1" using room by (rule word_inc_less)
  with CScheduleDestroy inv r show ?thesis
    by (fastforce simp: sim_ScheduleDestroy_def sim_inv_def Let_def intro: less_trans)
next
  case (CCancel eid)
  with inv r show ?thesis by auto
next
  case CStop
  with inv r show ?thesis by (auto simp: sim_Stop_def sim_inv_def)
qed (use c in auto)

lemma insert_ctx_inv:
  assumes "sim_inv evs ok s" "unat (s_uid s) + length es < 2 ^ 32"
    and "\<forall>x \<in> set es. unat (s_currentTs s) + unat (cx_timestamp x) < 2 ^ 63"
  shows "\<exists>s'. sim_insert_ctx ops s es = Some s' \<and> sim_inv evs ok s'"
  using assms
proof (induction es arbitrary: s)
  case (Cons e es)
  let ?t = "s_currentTs s + cx_timestamp e"
  have fit: "unat (s_currentTs s) + unat (cx_timestamp e) < 2 ^ 63" using Cons.prems(3) by simp
  then have u: "unat ?t = unat (s_currentTs s) + unat (cx_timestamp e)"
    by (intro unat_plus_no_overflow) simp
  with fit have t: "s_currentTs s \<le> ?t" "0 \<le> sint ?t"
    by (simp_all add: word_le_nat_alt sint_nonneg_iff)
  have lt: "unat (s_uid s) + 1 < 2 ^ 32" using Cons.prems(2) by simp
  then have room: "s_uid s \<noteq> - 1" by (auto simp: unsigned_minus_1_eq_mask mask_eq_exp_minus_1)
  from lt have "unat (s_uid s + 1) = unat (s_uid s) + 1" by (simp add: unat_word_ariths)
  with insert_inv[OF Cons.prems(1) room t, of "cx_event e" "cx_context e"] Cons.IH Cons.prems
  show ?case by fastforce
qed simp

lemma ProcessEventsWithContext_inv:
  assumes "sim_inv evs ok s" "ctx_fits s" "unat (s_uid s) + length (s_eventsWithContext s) < 2 ^ 32"
  shows "\<exists>s'. sim_ProcessEventsWithContext ops s = Some s' \<and> sim_inv evs ok s'"
proof (cases "s_eventsWithContextEmpty s")
  case False
  let ?s = "s\<lparr>s_eventsWithContext := [], s_eventsWithContextEmpty := True\<rparr>"
  have "sim_inv evs ok ?s" using assms(1) by (simp add: sim_inv_def)
  from insert_ctx_inv[OF this] assms(2,3) False show ?thesis
    by (simp add: sim_ProcessEventsWithContext_def ctx_fits_def)
qed (use assms(1) in \<open>simp add: sim_ProcessEventsWithContext_def\<close>)

text \<open>The next event exists whenever the list is not empty, and time does not go back.\<close>

lemma pop_total:
  assumes inv: "sim_inv evs ok s" and ne: "evs (s_events s) \<noteq> {#}"
  obtains s' e q where "sim_pop ops s = Some (s', e)" "evs (s_events s) = add_mset e (evs q)"
    "s_events s' = q" "sim_inv evs ok s'" "s_currentTs s' = ts e" "s_currentUid s' = uid e"
    "(s_currentTs s, s_currentUid s) < rank e" "s_cancelled s' = s_cancelled s"
    "\<And>x. x \<in># evs q \<Longrightarrow> rank e < rank x"
proof -
  have q0: "ok (s_currentTs s) (s_events s)" "unique_uids (evs (s_events s))" using inv by (simp_all add: sim_inv_def)
  from RemoveNext_cases[OF q0 ne] obtain e q where
    r: "op_RemoveNext ops (s_events s) = Some (e, q)" "ok (ts e) q" "evs (s_events s) = add_mset e (evs q)"
      "unique_uids (evs q)" "\<And>x. x \<in># evs q \<Longrightarrow> rank e < rank x" by metis
  have e: "uid e < s_uid s" "0 \<le> sint (ts e)" "(s_currentTs s, s_currentUid s) < rank e"
    using inv r(3) by (auto simp: sim_inv_def)
  then have ge: "s_currentTs s \<le> ts e" by (auto simp: less_prod_simp)
  let ?s' = "s\<lparr>s_events := q, s_unscheduledEvents := s_unscheduledEvents s - 1,
          s_eventCount := s_eventCount s + 1, s_currentTs := m_ts (key e),
          s_currentContext := m_context (key e), s_currentUid := m_uid (key e)\<rparr>"
  have "sim_inv evs ok ?s'" using inv r e by (auto simp: sim_inv_def)
  moreover have "sim_pop ops s = Some (?s', e)" using r(1) ge by (simp add: sim_pop_def)
  ultimately show ?thesis using that[of ?s' e q] r(3,5) e(3) by simp
qed

lemma pop_inv:
  assumes inv: "sim_inv evs ok s" and r: "sim_pop ops s = Some (s', e)"
    and ne: "evs (s_events s) \<noteq> {#}"
  shows "sim_inv evs ok s' \<and> s_currentTs s \<le> s_currentTs s'"
  using pop_total[OF inv ne] r by (metis less_imp_le less_prod_simp option.inject order_refl prod.inject)

lemma id_tracked_init:
  assumes "sim_inv evs ok s" "s_uid s \<noteq> - 1" "sim_Schedule ops s d i = Some (s', eid)" "UID_VALID \<le> s_uid s"
  shows "id_tracked evs s' eid"
proof -
  have "id_uid eid \<noteq> UID_DESTROY"
    using Schedule_inv[OF assms(1-3)] assms(4) by (auto simp: UID_VALID_def UID_DESTROY_def)
  with Schedule_inv[OF assms(1-3)] show ?thesis by (simp add: id_tracked_def)
qed

text \<open>An event that is in the list and was not cancelled is not expired, and conversely an
  expired id is never reported alive again.\<close>

lemma queued_not_expired:
  assumes "sim_inv evs ok s" "id_event eid \<in># evs (s_events s)" "id_uid eid \<noteq> UID_DESTROY"
    "id_impl eid \<noteq> None"
  shows "sim_IsExpired s eid \<longleftrightarrow> impl_cancelled s (id_impl eid)"
proof -
  have "(s_currentTs s, s_currentUid s) < rank (id_event eid)" using assms(1,2) by (simp add: sim_inv_def)
  then show ?thesis using assms(3,4) by (auto simp: sim_IsExpired_def id_event_def less_prod_simp)
qed

lemma popped_expired:
  assumes "sim_inv evs ok s" "evs (s_events s) \<noteq> {#}" "sim_pop ops s = Some (s', e)" "id_event eid = e"
    "id_uid eid \<noteq> UID_DESTROY"
  shows "sim_IsExpired s' eid"
  using pop_total[OF assms(1,2)] assms(3-5)
  by (metis (no_types, lifting) event.ext_inject event.surjective event_key.ext_inject event_key.surjective
      id_event_def option.inject order_refl prod.inject sim_IsExpired_def)

lemma step_inv_noremove:
  assumes "sim_step ops evs False s s'" "sim_inv evs ok s"
  shows "sim_inv evs ok s'"
  using assms
proof (induction rule: sim_step.induct)
  case (step_pop s s' e)
  then have "evs (s_events s) \<noteq> {#}" by (simp add: sim_IsEmpty)
  with step_pop pop_inv show ?case by blast
next
  case (step_exec s c s')
  then show ?case using exec_inv by blast
next
  case (step_ctx s s')
  then show ?case using ProcessEventsWithContext_inv[of s] by auto
qed

lemma reach_inv_noremove:
  "sim_reach ops evs False s s' \<Longrightarrow> sim_inv evs ok s \<Longrightarrow> sim_inv evs ok s'"
  by (induction rule: sim_reach.induct) (auto intro: step_inv_noremove)

text \<open>Whatever is inserted stays tracked: expiry is final, and only expiry empties the slot.\<close>

lemma insert_tracked:
  "sim_insert ops s i t c = Some (s', e) \<Longrightarrow> sim_inv evs ok s \<Longrightarrow> s_uid s \<noteq> - 1 \<Longrightarrow>
    s_currentTs s \<le> t \<Longrightarrow> 0 \<le> sint t \<Longrightarrow>
    s_currentTs s' = s_currentTs s \<and> s_currentUid s' = s_currentUid s \<and> s_cancelled s' = s_cancelled s \<and>
    s_eventsWithContext s' = s_eventsWithContext s \<and> evs (s_events s') = add_mset e (evs (s_events s))"
  using insert_inv[of s t i c] by auto

lemma expired_frame:
  assumes "id_uid eid \<noteq> UID_DESTROY" "s_currentTs s' = s_currentTs s" "s_currentUid s' = s_currentUid s"
    "s_cancelled s' = s_cancelled s"
  shows "sim_IsExpired s' eid = sim_IsExpired s eid"
  using assms by (simp add: sim_IsExpired_def impl_cancelled_def split: option.splits)

end

context timed_removable_event_list begin

lemma Remove_inv:
  assumes inv: "sim_inv evs ok s" and tr: "id_uid eid = UID_DESTROY \<or> id_tracked evs s eid"
  shows "\<exists>s'. sim_Remove ops s eid = Some s' \<and> sim_inv evs ok s' \<and> s_currentTs s' = s_currentTs s \<and>
    s_currentUid s' = s_currentUid s \<and>
    (id_uid eid \<noteq> UID_DESTROY \<longrightarrow> \<not> sim_IsExpired s eid \<longrightarrow>
      evs (s_events s) = add_mset (id_event eid) (evs (s_events s'))) \<and>
    (id_uid eid \<noteq> UID_DESTROY \<longrightarrow> sim_IsExpired s' eid) \<and>
    (id_uid eid = UID_DESTROY \<or> sim_IsExpired s eid \<longrightarrow>
      s_events s' = s_events s \<and> s_cancelled s' = s_cancelled s) \<and>
    (\<forall>p. impl_cancelled s p \<longrightarrow> impl_cancelled s' p)"
proof -
  consider "id_uid eid = UID_DESTROY" | "id_uid eid \<noteq> UID_DESTROY" "sim_IsExpired s eid"
    | "id_uid eid \<noteq> UID_DESTROY" "\<not> sim_IsExpired s eid" by blast
  then show ?thesis
  proof cases
    case 1
    with inv show ?thesis
      by (auto simp: sim_Remove_def sim_inv_def impl_cancelled_def split: option.splits)
  next
    case 2
    with inv show ?thesis by (simp add: sim_Remove_def)
  next
    case 3
    with tr have mem: "id_event eid \<in># evs (s_events s)" by (simp add: id_tracked_def)
    have q0: "ok (s_currentTs s) (s_events s)" "unique_uids (evs (s_events s))" using inv by (simp_all add: sim_inv_def)
    from Remove_at[OF q0 mem] obtain q where q: "op_Remove ops (s_events s) (id_event eid) = Some q" "ok (s_currentTs s) q"
      "evs (s_events s) = add_mset (id_event eid) (evs q)" by blast
    obtain i where i: "id_impl eid = Some i" using 3 by (auto simp: sim_IsExpired_def)
    with q(1) 3 have r: "sim_Remove ops s eid =
        Some (impl_Cancel (s\<lparr>s_events := q\<rparr>) (Some i)
          \<lparr>s_unscheduledEvents := s_unscheduledEvents (impl_Cancel (s\<lparr>s_events := q\<rparr>) (Some i)) - 1\<rparr>)"
      by (simp add: sim_Remove_def id_event_def)
    show ?thesis unfolding r using inv q 3 i
      by (auto simp: sim_inv_def unique_uids_add sim_IsExpired_def impl_cancelled_def impl_Cancel_def
          split: option.splits)
  qed
qed

lemma step_inv:
  assumes "sim_step ops evs rm s s'" "sim_inv evs ok s"
  shows "sim_inv evs ok s'"
  using assms
proof (cases rule: sim_step.cases)
  case (step_exec c)
  show ?thesis
  proof (cases "cmd_is_Remove c")
    case True
    then obtain eid where "c = CRemove eid" by (cases c) auto
    with step_exec Remove_inv[OF assms(2), of eid] show ?thesis by auto
  next
    case False
    with step_exec assms(2) exec_inv show ?thesis by blast
  qed
qed (use assms(2) step_inv_noremove in \<open>blast intro: sim_step.intros\<close>)+

lemma reach_inv: "sim_reach ops evs rm s s' \<Longrightarrow> sim_inv evs ok s \<Longrightarrow> sim_inv evs ok s'"
  by (induction rule: sim_reach.induct) (auto intro: step_inv)

end

end
