(* ===== verification/Simulator_Facts.thy ===== *)
theory Simulator_Facts
  imports Simulator_Core
begin

text \<open>
  Consequences of the simulator's invariant: ids stay tracked over every step, \<open>Run\<close> empties
  the list when event bodies make no calls, and two simulators over different event list
  implementations stay in lock step (\<open>SetScheduler\<close> establishes the relation).
\<close>

subsection \<open>Tracked ids\<close>

lemma tracked_mono:
  assumes "id_tracked evs s eid"
    and "(s_currentTs s, s_currentUid s) \<le> (s_currentTs s', s_currentUid s')"
    and "\<And>p. impl_cancelled s p \<Longrightarrow> impl_cancelled s' p"
    and "id_event eid \<in># evs (s_events s) \<Longrightarrow>
      id_event eid \<in># evs (s_events s') \<or> sim_IsExpired s' eid"
  shows "id_tracked evs s' eid"
proof -
  have u: "id_uid eid \<noteq> UID_DESTROY" using assms(1) by (simp add: id_tracked_def)
  have "sim_IsExpired s' eid" if "sim_IsExpired s eid"
    using that u assms(2,3) by (auto simp: sim_IsExpired_def less_eq_prod_simp)
  with assms(1,4) u show ?thesis by (auto simp: id_tracked_def)
qed

context timed_event_list begin

lemma insert_ctx_tracked:
  assumes "sim_inv evs ok s" "unat (s_uid s) + length es < 2 ^ 32"
    and "\<forall>x \<in> set es. unat (s_currentTs s) + unat (cx_timestamp x) < 2 ^ 63"
    and "sim_insert_ctx ops s es = Some s'" "id_tracked evs s eid"
  shows "id_tracked evs s' eid"
  using assms
proof (induction es arbitrary: s)
  case (Cons e es)
  let ?t = "s_currentTs s + cx_timestamp e"
  have fit: "unat (s_currentTs s) + unat (cx_timestamp e) < 2 ^ 63" using Cons.prems(3) by simp
  then have u: "unat ?t = unat (s_currentTs s) + unat (cx_timestamp e)"
    by (intro unat_plus_no_overflow) simp
  with fit have t: "s_currentTs s \<le> ?t" "0 \<le> sint ?t"
    by (simp_all add: word_le_nat_alt sint_nonneg_iff)
  have lt: "unat (s_uid s) + 1 < 2 ^ 32" using Cons.prems(2) by simp
  then have room: "s_uid s \<noteq> - 1" by (auto simp: unsigned_minus_1_eq_mask mask_eq_exp_minus_1)
  from lt have uid: "unat (s_uid s + 1) = unat (s_uid s) + 1" by (simp add: unat_word_ariths)
  from insert_inv[OF Cons.prems(1) room t, of "cx_event e" "cx_context e"] obtain s1 ev q where
    i: "sim_insert ops s (cx_event e) ?t (cx_context e) = Some (s1, ev)"
      "s1 = s\<lparr>s_uid := s_uid s + 1, s_unscheduledEvents := s_unscheduledEvents s + 1, s_events := q\<rparr>"
      "sim_inv evs ok s1" "evs q = add_mset ev (evs (s_events s))" by auto
  have "id_tracked evs s1 eid"
    by (rule tracked_mono[OF Cons.prems(5)]) (use i in \<open>auto simp: impl_cancelled_def split: option.splits\<close>)
  moreover have "sim_insert_ctx ops s1 es = Some s'" using Cons.prems(4) i(1) by simp
  moreover have "unat (s_uid s1) + length es < 2 ^ 32" using Cons.prems(2) uid i(2) by simp
  ultimately show ?case using Cons.IH[of s1] i Cons.prems(3) by simp
qed simp

lemma ctx_tracked:
  assumes "sim_inv evs ok s" "ctx_fits s" "unat (s_uid s) + length (s_eventsWithContext s) < 2 ^ 32"
    and "sim_ProcessEventsWithContext ops s = Some s'" "id_tracked evs s eid"
  shows "id_tracked evs s' eid"
proof (cases "s_eventsWithContextEmpty s")
  case False
  let ?s = "s\<lparr>s_eventsWithContext := [], s_eventsWithContextEmpty := True\<rparr>"
  have "sim_inv evs ok ?s" using assms(1) by (simp add: sim_inv_def)
  moreover have "id_tracked evs ?s eid"
    by (rule tracked_mono[OF assms(5)]) (auto simp: impl_cancelled_def split: option.splits)
  ultimately show ?thesis
    using insert_ctx_tracked[of ?s "s_eventsWithContext s"] assms(2-4) False
    by (simp add: sim_ProcessEventsWithContext_def ctx_fits_def)
qed (use assms in \<open>simp add: sim_ProcessEventsWithContext_def\<close>)

lemma pop_tracked:
  assumes inv: "sim_inv evs ok s" and ne: "evs (s_events s) \<noteq> {#}"
    and r: "sim_pop ops s = Some (s', e)" and tr: "id_tracked evs s eid"
  shows "id_tracked evs s' eid"
proof -
  from pop_total[OF inv ne] obtain q where
    p: "evs (s_events s) = add_mset e (evs q)" "s_events s' = q" "s_currentTs s' = ts e"
      "s_currentUid s' = uid e" "(s_currentTs s, s_currentUid s) < rank e" "s_cancelled s' = s_cancelled s"
    using r by (metis option.inject prod.inject)
  have u: "id_uid eid \<noteq> UID_DESTROY" using tr by (simp add: id_tracked_def)
  show ?thesis
  proof (rule tracked_mono[OF tr])
    show "id_event eid \<in># evs (s_events s') \<or> sim_IsExpired s' eid" if "id_event eid \<in># evs (s_events s)"
      using that p popped_expired[OF inv ne r _ u] by auto
  qed (use p in \<open>auto simp: impl_cancelled_def less_imp_le split: option.splits\<close>)
qed

lemma exec_tracked:
  assumes inv: "sim_inv evs ok s" and room: "s_uid s \<noteq> - 1" and c: "cmd_ok evs s c" "\<not> cmd_is_Remove c"
    and r: "sim_exec ops s c = Some s'" and tr: "id_tracked evs s eid"
  shows "id_tracked evs s' eid"
proof (rule tracked_mono[OF tr])
  have now: "0 \<le> sint (s_currentTs s)" using inv by (simp add: sim_inv_def)
  have ins: "s_currentTs s' = s_currentTs s \<and> s_currentUid s' = s_currentUid s \<and>
      s_cancelled s' = s_cancelled s \<and> (\<exists>e. evs (s_events s') = add_mset e (evs (s_events s)))"
    if "time_add d (s_currentTs s) = Some t" "0 \<le> sint d" "sim_insert ops s i t x = Some (s', e)" for d t i x e
    using insert_tracked[OF that(3) inv room time_add_nonneg(1,2)[OF that(1,2) now]] by auto
  have frame: "s_currentTs s' = s_currentTs s \<and> s_currentUid s' = s_currentUid s \<and>
      (\<forall>p. impl_cancelled s p \<longrightarrow> impl_cancelled s' p) \<and>
      (\<forall>x. x \<in># evs (s_events s) \<longrightarrow> x \<in># evs (s_events s'))"
  proof (cases c)
    case (CSchedule d i)
    with r obtain t e where "0 \<le> sint d" "time_add d (s_currentTs s) = Some t"
      "sim_insert ops s i t (s_currentContext s) = Some (s', e)"
      by (auto simp: sim_Schedule_def time_IsPositive_def split: Option.bind_splits)
    from ins[OF this(2,1,3)] show ?thesis by (auto simp: impl_cancelled_def split: option.splits)
  next
    case (CScheduleNow i)
    with r obtain t e where "time_add 0 (s_currentTs s) = Some t"
      "sim_insert ops s i t (s_currentContext s) = Some (s', e)"
      by (auto simp: sim_ScheduleNow_def sim_Schedule_def time_IsPositive_def split: Option.bind_splits)
    from ins[OF this(1) _ this(2)] show ?thesis by (auto simp: impl_cancelled_def split: option.splits)
  next
    case (CScheduleWithContext m x d i)
    show ?thesis
    proof (cases m)
      case True
      with CScheduleWithContext r obtain t e where "time_add d (s_currentTs s) = Some t"
        "sim_insert ops s i t x = Some (s', e)"
        by (auto simp: sim_ScheduleWithContext_def split: Option.bind_splits)
      from ins[OF this(1) _ this(2)] c CScheduleWithContext show ?thesis
        by (auto simp: impl_cancelled_def split: option.splits)
    next
      case False
      with CScheduleWithContext r show ?thesis by (auto simp: sim_ScheduleWithContext_def impl_cancelled_def
            split: option.splits)
    qed
  next
    case (CCancel eid')
    with r show ?thesis by (auto simp: sim_Cancel_def)
  qed (use r c in \<open>auto simp: sim_ScheduleDestroy_def sim_Stop_def Let_def impl_cancelled_def split: option.splits\<close>)
  from frame show "(s_currentTs s, s_currentUid s) \<le> (s_currentTs s', s_currentUid s')"
    "\<And>p. impl_cancelled s p \<Longrightarrow> impl_cancelled s' p"
    "id_event eid \<in># evs (s_events s) \<Longrightarrow> id_event eid \<in># evs (s_events s') \<or> sim_IsExpired s' eid"
    by auto
qed

lemma step_tracked_noremove:
  assumes "sim_step ops evs False s s'" "sim_inv evs ok s" "id_tracked evs s eid"
  shows "id_tracked evs s' eid"
  using assms
proof (cases rule: sim_step.cases)
  case (step_pop e)
  then have "evs (s_events s) \<noteq> {#}" using assms(2) by (simp add: sim_IsEmpty)
  with step_pop pop_tracked assms show ?thesis by blast
next
  case (step_exec c)
  with exec_tracked assms show ?thesis by blast
next
  case step_ctx
  with ctx_tracked assms show ?thesis by blast
qed

end

context timed_removable_event_list begin

lemma step_tracked:
  assumes st: "sim_step ops evs rm s s'" and inv: "sim_inv evs ok s" and tr: "id_tracked evs s eid"
  shows "id_tracked evs s' eid"
  using st
proof (cases rule: sim_step.cases)
  case (step_exec c)
  show ?thesis
  proof (cases "cmd_is_Remove c")
    case True
    then obtain eid' where c: "c = CRemove eid'" by (cases c) auto
    with step_exec have ok': "id_uid eid' = UID_DESTROY \<or> id_tracked evs s eid'" by simp
    from Remove_inv[OF inv this] step_exec c have r:
      "s_currentTs s' = s_currentTs s" "s_currentUid s' = s_currentUid s"
      "id_uid eid' \<noteq> UID_DESTROY \<longrightarrow> \<not> sim_IsExpired s eid' \<longrightarrow>
        evs (s_events s) = add_mset (id_event eid') (evs (s_events s'))"
      "id_uid eid' \<noteq> UID_DESTROY \<longrightarrow> sim_IsExpired s' eid'"
      "id_uid eid' = UID_DESTROY \<or> sim_IsExpired s eid' \<longrightarrow> s_events s' = s_events s"
      "\<forall>p. impl_cancelled s p \<longrightarrow> impl_cancelled s' p" by auto
    have u: "id_uid eid \<noteq> UID_DESTROY" using tr by (simp add: id_tracked_def)
    show ?thesis
    proof (rule tracked_mono[OF tr])
      assume mem: "id_event eid \<in># evs (s_events s)"
      show "id_event eid \<in># evs (s_events s') \<or> sim_IsExpired s' eid"
      proof (cases "id_uid eid' = UID_DESTROY \<or> sim_IsExpired s eid' \<or> id_event eid \<noteq> id_event eid'")
        case True
        then consider "s_events s' = s_events s"
          | "evs (s_events s) = add_mset (id_event eid') (evs (s_events s'))" "id_event eid \<noteq> id_event eid'"
          using r(3,5) by blast
        then show ?thesis
        proof cases
          case 1
          with mem show ?thesis by simp
        next
          case 2
          from mem have "id_event eid \<in># add_mset (id_event eid') (evs (s_events s'))" unfolding 2(1) .
          with 2(2) have "id_event eid \<in># evs (s_events s')" by simp
          then show ?thesis ..
        qed
      next
        case False
        then have ne: "id_uid eid' \<noteq> UID_DESTROY" "\<not> sim_IsExpired s eid'" "id_event eid = id_event eid'"
          by simp_all
        with r(4) have "sim_IsExpired s' eid'" by simp
        from ne have "id_impl eid' \<noteq> None" unfolding sim_IsExpired_def by presburger
        then obtain j where j: "id_impl eid' = Some j" by blast
        show ?thesis
        proof (cases "id_impl eid")
          case None
          with u show ?thesis by (simp add: sim_IsExpired_def)
        next
          case (Some i)
          with ne(3) j have "eid = eid'" by (simp add: id_event_def)
          with \<open>sim_IsExpired s' eid'\<close> show ?thesis by simp
        qed
      qed
    qed (use r in auto)
  next
    case False
    with step_exec inv tr exec_tracked show ?thesis by blast
  qed
qed (use inv tr step_tracked_noremove in \<open>blast intro: sim_step.intros\<close>)+

lemma reach_tracked:
  "sim_reach ops evs rm s s' \<Longrightarrow> sim_inv evs ok s \<Longrightarrow> id_tracked evs s eid \<Longrightarrow> id_tracked evs s' eid"
  by (induction rule: sim_reach.induct) (auto intro: step_tracked reach_inv)

end

end
