(* ===== verification/Linear_Schedulers.thy ===== *)
theory Linear_Schedulers
  imports Simulator_Facts
begin

text \<open>
  \<open>ListScheduler\<close> (\<open>src/core/model/list-scheduler.cc\<close>), \<open>MapScheduler\<close>
  (\<open>map-scheduler.cc\<close>) and \<open>PriorityQueueScheduler\<close> (\<open>priority-queue-scheduler.cc\<close>): each
  operation of the source, the invariant of its container, and the interpretation of the
  event list contract on it.
\<close>

subsection \<open>ListScheduler: a sorted std::list\<close>

type_synonym list_sched = "event list"

fun ls_Insert :: "list_sched \<Rightarrow> event \<Rightarrow> list_sched" where
  "ls_Insert [] ev = [ev]"
| "ls_Insert (i # is) ev =
     (if key_less (key ev) (key i) then ev # i # is else i # ls_Insert is ev)"

definition ls_IsEmpty :: "list_sched \<Rightarrow> bool" where
  "ls_IsEmpty s \<longleftrightarrow> s = []"

definition ls_PeekNext :: "list_sched \<Rightarrow> event option" where
  "ls_PeekNext s = (case s of [] \<Rightarrow> None | e # _ \<Rightarrow> Some e)"

definition ls_RemoveNext :: "list_sched \<Rightarrow> (event \<times> list_sched) option" where
  "ls_RemoveNext s = (case s of [] \<Rightarrow> None | e # s' \<Rightarrow> Some (e, s'))"

definition ls_Remove :: "list_sched \<Rightarrow> event \<Rightarrow> list_sched option" where
  "ls_Remove s ev =
    (case erase_first (\<lambda>i. uid i = uid ev) s of
       None \<Rightarrow> None
     | Some (i, s') \<Rightarrow> do { ns_assert (impl ev = impl i); Some s' })"

definition list_ops :: "list_sched sched_ops" where
  "list_ops = \<lparr>op_Insert = (\<lambda>s e. Some (ls_Insert s e)), op_IsEmpty = ls_IsEmpty,
     op_PeekNext = ls_PeekNext, op_RemoveNext = ls_RemoveNext, op_Remove = ls_Remove\<rparr>"

abbreviation ls_ok :: "list_sched \<Rightarrow> bool" where
  "ls_ok s \<equiv> sorted_wrt (\<lambda>a b. rank a \<le> rank b) s"

lemma mset_ls_Insert: "mset (ls_Insert s e) = add_mset e (mset s)"
  by (induction s) auto

lemma set_ls_Insert: "set (ls_Insert s e) = insert e (set s)"
  by (metis mset_ls_Insert set_mset_add_mset_insert set_mset_mset)

lemma ls_ok_Insert: "ls_ok s \<Longrightarrow> ls_ok (ls_Insert s e)"
  by (induction s) (auto simp: set_ls_Insert intro: order_trans less_imp_le)

interpretation list_sched: removable_event_list list_ops mset ls_ok "[]"
proof unfold_locales
  fix s :: list_sched and e
  assume a: "ls_ok s" "unique_uids (mset s)" "e \<in># mset s"
  from erase_first_uid[OF a(2)] a(3) obtain s' where
    r: "erase_first (\<lambda>i. uid i = uid e) s = Some (e, s')" "mset s = add_mset e (mset s')" by auto
  then show "\<exists>s'. op_Remove list_ops s e = Some s' \<and> ls_ok s' \<and> mset s = add_mset e (mset s')"
    using sorted_wrt_erase_first[OF r(1) a(1)] by (simp add: list_ops_def ls_Remove_def)
next
  fix s :: list_sched
  assume "ls_ok s" "unique_uids (mset s)" "mset s \<noteq> {#}"
  then show "\<exists>e s'. op_RemoveNext list_ops s = Some (e, s') \<and> ls_ok s' \<and>
      mset s = add_mset e (mset s') \<and> (\<forall>x \<in># mset s. rank e \<le> rank x)"
    by (cases s) (auto simp: list_ops_def ls_RemoveNext_def)
qed (auto simp: list_ops_def ls_IsEmpty_def ls_PeekNext_def ls_RemoveNext_def mset_ls_Insert
      ls_ok_Insert split: list.splits)

subsection \<open>MapScheduler: a std::map from key to implementation\<close>

type_synonym map_sched = "(event_key \<times> nat) list"

definition ms_event :: "event_key \<times> nat \<Rightarrow> event" where
  "ms_event p = \<lparr>impl = snd p, key = fst p\<rparr>"

definition ms_Insert :: "map_sched \<Rightarrow> event \<Rightarrow> map_sched option" where
  "ms_Insert s ev =
    (let (s', inserted) = smap_insert key_less (key ev) (impl ev) s in
     do { ns_assert inserted; Some s' })"

definition ms_IsEmpty :: "map_sched \<Rightarrow> bool" where
  "ms_IsEmpty s \<longleftrightarrow> s = []"

definition ms_PeekNext :: "map_sched \<Rightarrow> event option" where
  "ms_PeekNext s = (case s of [] \<Rightarrow> None | i # _ \<Rightarrow> Some (ms_event i))"

definition ms_RemoveNext :: "map_sched \<Rightarrow> (event \<times> map_sched) option" where
  "ms_RemoveNext s = (case s of [] \<Rightarrow> None | i # s' \<Rightarrow> Some (ms_event i, s'))"

definition ms_Remove :: "map_sched \<Rightarrow> event \<Rightarrow> map_sched option" where
  "ms_Remove s ev =
    (case smap_find key_less (key ev) s of
       None \<Rightarrow> None
     | Some i \<Rightarrow> do { ns_assert (i = impl ev); Some (smap_erase key_less (key ev) s) })"

definition map_ops :: "map_sched sched_ops" where
  "map_ops = \<lparr>op_Insert = ms_Insert, op_IsEmpty = ms_IsEmpty,
     op_PeekNext = ms_PeekNext, op_RemoveNext = ms_RemoveNext, op_Remove = ms_Remove\<rparr>"

abbreviation ms_ok :: "map_sched \<Rightarrow> bool" where
  "ms_ok s \<equiv> sorted_wrt (\<lambda>a b. key_rank (fst a) < key_rank (fst b)) s"

abbreviation ms_evs :: "map_sched \<Rightarrow> event multiset" where
  "ms_evs s \<equiv> image_mset ms_event (mset s)"

lemma ms_event_simps [simp]: "impl (ms_event p) = snd p" "key (ms_event p) = fst p"
  by (simp_all add: ms_event_def)

lemma ms_event_key_impl [simp]: "ms_event (key e, impl e) = e"
  by (simp add: ms_event_def)

lemma ms_event_iff: "e = ms_event p \<longleftrightarrow> p = (key e, impl e)"
  by (cases p) auto

lemma ms_insert_new:
  assumes "ms_ok s" "m_uid k \<notin> (\<lambda>p. m_uid (fst p)) ` set s"
  shows "\<exists>s'. smap_insert key_less k v s = (s', True) \<and> ms_ok s' \<and> mset s' = add_mset (k, v) (mset s)"
  using assms
proof (induction s)
  case (Cons a s)
  obtain k' v' where a: "a = (k', v')" by (cases a)
  show ?case
  proof (cases "key_rank k < key_rank k'")
    case True
    with Cons.prems a show ?thesis by (auto intro: less_trans)
  next
    case False
    with Cons.prems a have gt: "key_rank k' < key_rank k"
      by (metis (no_types, lifting) fst_conv image_eqI list.set_intros(1) neq_iff prod.inject)
    have "ms_ok s" "m_uid k \<notin> (\<lambda>p. m_uid (fst p)) ` set s" using Cons.prems by auto
    from Cons.IH[OF this] obtain s' where s': "smap_insert key_less k v s = (s', True)" "ms_ok s'"
        "mset s' = add_mset (k, v) (mset s)" by blast
    then have "set s' = insert (k, v) (set s)" by (metis set_mset_add_mset_insert set_mset_mset)
    with False gt a Cons.prems s' show ?thesis by simp
  qed
qed simp

lemma ms_remove_mem:
  assumes "ms_ok s" "(k, v) \<in> set s"
  shows "smap_find key_less k s = Some v \<and> ms_ok (smap_erase key_less k s) \<and>
    mset s = add_mset (k, v) (mset (smap_erase key_less k s))"
  using assms
proof (induction s)
  case (Cons a s)
  obtain k' v' where a: "a = (k', v')" by (cases a)
  show ?case
  proof (cases "a = (k, v)")
    case True
    with Cons.prems show ?thesis by (simp add: key_equiv_def)
  next
    case False
    with Cons.prems have kv: "(k, v) \<in> set s" by auto
    have "ms_ok s" using Cons.prems by simp
    note IH = Cons.IH[OF this kv]
    have "key_rank k' < key_rank k" using Cons.prems(1) kv a by auto
    then have "\<not> key_equiv key_less k k'" by (simp add: key_equiv_def)
    moreover have "\<forall>x \<in> set (smap_erase key_less k s). key_rank k' < key_rank (fst x)"
      using Cons.prems(1) a smap_erase_subset[of key_less k s] by fastforce
    ultimately show ?thesis using IH a by simp
  qed
qed simp

interpretation map_sched: removable_event_list map_ops ms_evs ms_ok "[]"
proof unfold_locales
  fix s :: map_sched and e
  assume a: "ms_ok s" "e \<in># ms_evs s"
  then have "(key e, impl e) \<in> set s" by (auto simp: ms_event_iff)
  from ms_remove_mem[OF a(1) this]
  show "\<exists>s'. op_Remove map_ops s e = Some s' \<and> ms_ok s' \<and> ms_evs s = add_mset e (ms_evs s')"
    by (auto simp: map_ops_def ms_Remove_def)
next
  fix s :: map_sched and e
  assume a: "ms_ok s" "uid e \<notin> uids (ms_evs s)"
  then have "m_uid (key e) \<notin> (\<lambda>p. m_uid (fst p)) ` set s"
    by (simp add: uids_def image_image)
  from ms_insert_new[OF a(1) this, of "impl e"]
  show "\<exists>s'. op_Insert map_ops s e = Some s' \<and> ms_ok s' \<and> ms_evs s' = add_mset e (ms_evs s)"
    by (auto simp: map_ops_def ms_Insert_def)
next
  fix s :: map_sched
  assume "ms_ok s" "unique_uids (ms_evs s)" "ms_evs s \<noteq> {#}"
  then show "\<exists>e s'. op_RemoveNext map_ops s = Some (e, s') \<and> ms_ok s' \<and>
      ms_evs s = add_mset e (ms_evs s') \<and> (\<forall>x \<in># ms_evs s. rank e \<le> rank x)"
    by (cases s) (auto simp: map_ops_def ms_RemoveNext_def intro: less_imp_le)
qed (auto simp: map_ops_def ms_IsEmpty_def ms_PeekNext_def ms_RemoveNext_def split: list.splits)

subsection \<open>PriorityQueueScheduler: a std::priority_queue with removal\<close>

text \<open>
  \<open>std::priority_queue\<close> with \<open>std::greater\<close>: \<open>top\<close> is an element that no other element
  precedes, \<open>pop\<close> removes it. The container \<open>c\<close> is kept here as a list; the heap
  arrangement inside it (\<open>push_heap\<close>, \<open>pop_heap\<close>, \<open>make_heap\<close>) belongs to the standard
  library and only decides which element \<open>top\<close> is.
\<close>

type_synonym pq_sched = "event list"

fun pq_top :: "pq_sched \<Rightarrow> event option" where
  "pq_top [] = None"
| "pq_top (x # xs) =
     (case pq_top xs of None \<Rightarrow> Some x | Some y \<Rightarrow> if ev_greater x y then Some y else Some x)"

definition pq_pop :: "pq_sched \<Rightarrow> pq_sched" where
  "pq_pop c = (case pq_top c of None \<Rightarrow> c | Some t \<Rightarrow> remove1 t c)"

definition pq_Insert :: "pq_sched \<Rightarrow> event \<Rightarrow> pq_sched" where
  "pq_Insert c ev = c @ [ev]"

definition pq_IsEmpty :: "pq_sched \<Rightarrow> bool" where
  "pq_IsEmpty c \<longleftrightarrow> c = []"

definition pq_PeekNext :: "pq_sched \<Rightarrow> event option" where
  "pq_PeekNext c = pq_top c"

definition pq_RemoveNext :: "pq_sched \<Rightarrow> (event \<times> pq_sched) option" where
  "pq_RemoveNext c = do { ev \<leftarrow> pq_top c; Some (ev, pq_pop c) }"

text \<open>\<open>EventPriorityQueue::remove\<close>: \<open>std::find\<close> compares events by uid only.\<close>

definition pq_remove :: "pq_sched \<Rightarrow> event \<Rightarrow> pq_sched \<times> bool" where
  "pq_remove c ev = (case erase_first (\<lambda>x. ev_eq x ev) c of Some (_, c') \<Rightarrow> (c', True) | None \<Rightarrow> (c, False))"

definition pq_Remove :: "pq_sched \<Rightarrow> event \<Rightarrow> pq_sched" where
  "pq_Remove c ev = fst (pq_remove c ev)"

definition pq_ops :: "pq_sched sched_ops" where
  "pq_ops = \<lparr>op_Insert = (\<lambda>s e. Some (pq_Insert s e)), op_IsEmpty = pq_IsEmpty,
     op_PeekNext = pq_PeekNext, op_RemoveNext = pq_RemoveNext,
     op_Remove = (\<lambda>s e. Some (pq_Remove s e))\<rparr>"

lemma pq_top_None [simp]: "pq_top c = None \<longleftrightarrow> c = []"
  by (cases c) (auto split: option.splits)

lemma pq_top_least: "pq_top c = Some t \<Longrightarrow> t \<in> set c \<and> (\<forall>x \<in> set c. rank t \<le> rank x)"
proof (induction c arbitrary: t)
  case (Cons x c)
  then show ?case
    by (cases "pq_top c") (auto split: if_splits simp: not_less intro: less_imp_le order_trans)
qed simp

interpretation pq_sched: removable_event_list pq_ops mset "\<lambda>_. True" "[]"
proof unfold_locales
  fix s :: pq_sched and e
  assume a: "unique_uids (mset s)" "e \<in># mset s"
  from erase_first_uid[OF a(1)] a(2) obtain s' where
    "erase_first (\<lambda>i. uid i = uid e) s = Some (e, s')" "mset s = add_mset e (mset s')" by auto
  then show "\<exists>s'. op_Remove pq_ops s e = Some s' \<and> True \<and> mset s = add_mset e (mset s')"
    by (auto simp: pq_ops_def pq_Remove_def pq_remove_def)
next
  fix s :: pq_sched
  assume "mset s \<noteq> {#}"
  then obtain t where t: "pq_top s = Some t" by (cases "pq_top s") auto
  with pq_top_least[OF t] show "\<exists>e s'. op_RemoveNext pq_ops s = Some (e, s') \<and> True \<and>
      mset s = add_mset e (mset s') \<and> (\<forall>x \<in># mset s. rank e \<le> rank x)"
    by (auto simp: pq_ops_def pq_RemoveNext_def pq_pop_def)
qed (auto simp: pq_ops_def pq_IsEmpty_def pq_PeekNext_def pq_RemoveNext_def pq_Insert_def
      split: option.splits Option.bind_splits)

end
