(* ===== verification/Heap_Scheduler.thy ===== *)
theory Heap_Scheduler
  imports Simulator_Facts
begin

text \<open>
  \<open>HeapScheduler\<close> (\<open>src/core/model/heap-scheduler.cc\<close>): a binary heap in a
  \<open>std::vector\<close> whose slot 0 is never used. \<open>BottomUp\<close> and \<open>TopDown\<close> are the loops of the
  source; the event list contract is proved for insertion and extraction of the earliest
  event. \<open>Remove\<close> is shown to delete exactly the requested event, and not to keep the
  heap order.
\<close>

type_synonym heap_sched = "event list"

definition hs_init :: heap_sched where
  "hs_init = [\<lparr>impl = 0, key = \<lparr>m_ts = 0, m_uid = 0, m_context = 0\<rparr>\<rparr>]"

definition hs_Parent :: "nat \<Rightarrow> nat" where
  "hs_Parent idx = idx div 2"

definition hs_LeftChild :: "nat \<Rightarrow> nat" where
  "hs_LeftChild idx = idx * 2"

definition hs_RightChild :: "nat \<Rightarrow> nat" where
  "hs_RightChild idx = idx * 2 + 1"

definition hs_Root :: nat where
  "hs_Root = 1"

definition hs_IsRoot :: "nat \<Rightarrow> bool" where
  "hs_IsRoot idx \<longleftrightarrow> idx = hs_Root"

definition hs_Last :: "heap_sched \<Rightarrow> nat" where
  "hs_Last h = length h - 1"

definition hs_IsBottom :: "heap_sched \<Rightarrow> nat \<Rightarrow> bool" where
  "hs_IsBottom h idx \<longleftrightarrow> idx \<ge> length h"

definition hs_Exch :: "heap_sched \<Rightarrow> nat \<Rightarrow> nat \<Rightarrow> heap_sched" where
  "hs_Exch h a b = h[a := h ! b, b := h ! a]"

definition hs_IsLessStrictly :: "heap_sched \<Rightarrow> nat \<Rightarrow> nat \<Rightarrow> bool" where
  "hs_IsLessStrictly h a b \<longleftrightarrow> ev_less (h ! a) (h ! b)"

definition hs_Smallest :: "heap_sched \<Rightarrow> nat \<Rightarrow> nat \<Rightarrow> nat" where
  "hs_Smallest h a b = (if hs_IsLessStrictly h a b then a else b)"

definition hs_IsEmpty :: "heap_sched \<Rightarrow> bool" where
  "hs_IsEmpty h \<longleftrightarrow> length h = 1"

lemmas hs_index_defs = hs_Parent_def hs_LeftChild_def hs_RightChild_def hs_Root_def
  hs_IsRoot_def hs_Last_def hs_IsBottom_def hs_IsLessStrictly_def

text \<open>The loop of \<open>BottomUp\<close>, with its index as an argument.\<close>

function hs_up :: "heap_sched \<Rightarrow> nat \<Rightarrow> heap_sched" where
  "hs_up h index =
     (if \<not> hs_IsRoot index \<and> hs_IsLessStrictly h index (hs_Parent index)
      then hs_up (hs_Exch h index (hs_Parent index)) (hs_Parent index)
      else h)"
  by pat_completeness auto
termination
proof (relation "measure snd")
  fix h :: heap_sched and index
  assume "\<not> hs_IsRoot index \<and> hs_IsLessStrictly h index (hs_Parent index)"
  then have "index \<noteq> 0" by (cases "index = 0") (simp_all add: hs_index_defs)
  then show "((hs_Exch h index (hs_Parent index), hs_Parent index), h, index) \<in> measure snd"
    by (simp add: hs_Parent_def)
qed simp

definition hs_BottomUp :: "heap_sched \<Rightarrow> heap_sched" where
  "hs_BottomUp h = hs_up h (hs_Last h)"

text \<open>
  \<open>TopDown\<close>. Slot 0 is its own left child, so the loop need not end there: that call, which
  the class never makes, is \<open>None\<close>.
\<close>

function hs_TopDown :: "heap_sched \<Rightarrow> nat \<Rightarrow> heap_sched option" where
  "hs_TopDown h index =
     (if index = 0 then None
      else if \<not> hs_IsBottom h (hs_RightChild index) then
        let left = hs_LeftChild index;
            tmp = hs_Smallest h left (hs_RightChild index)
        in if hs_IsLessStrictly h index tmp then Some h
           else hs_TopDown (hs_Exch h index tmp) tmp
      else if hs_IsBottom h index then Some h
      else
        let left = hs_LeftChild index
        in if hs_IsBottom h left then Some h
           else if hs_IsLessStrictly h index left then Some h
           else Some (hs_Exch h index left))"
  by pat_completeness auto
termination
  by (relation "measure (\<lambda>(h, i). length h - i)")
    (auto simp: hs_index_defs hs_Smallest_def hs_Exch_def)

declare hs_up.simps [simp del] hs_TopDown.simps [simp del]

definition hs_Insert :: "heap_sched \<Rightarrow> event \<Rightarrow> heap_sched" where
  "hs_Insert h ev = hs_BottomUp (h @ [ev])"

definition hs_PeekNext :: "heap_sched \<Rightarrow> event option" where
  "hs_PeekNext h = (if hs_Root < length h then Some (h ! hs_Root) else None)"

definition hs_RemoveNext :: "heap_sched \<Rightarrow> (event \<times> heap_sched) option" where
  "hs_RemoveNext h =
     (if hs_Root < length h then do {
        let next = h ! hs_Root;
        h' \<leftarrow> hs_TopDown (butlast (hs_Exch h hs_Root (hs_Last h))) hs_Root;
        Some (next, h')
      } else None)"

text \<open>The search of \<open>Remove\<close>: the first index from 1 on whose uid matches.\<close>

function hs_find :: "heap_sched \<Rightarrow> u32 \<Rightarrow> nat \<Rightarrow> nat option" where
  "hs_find h u i =
     (if i < length h then (if u = uid (h ! i) then Some i else hs_find h u (Suc i)) else None)"
  by pat_completeness auto
termination by (relation "measure (\<lambda>(h, u, i). length h - i)") auto

declare hs_find.simps [simp del]

definition hs_Remove :: "heap_sched \<Rightarrow> event \<Rightarrow> heap_sched option" where
  "hs_Remove h ev =
     (case hs_find h (uid ev) 1 of
        None \<Rightarrow> None
      | Some i \<Rightarrow> do {
          ns_assert (impl (h ! i) = impl ev);
          hs_TopDown (butlast (hs_Exch h i (hs_Last h))) i
        })"

definition heap_ops :: "heap_sched sched_ops" where
  "heap_ops = \<lparr>op_Insert = (\<lambda>s e. Some (hs_Insert s e)), op_IsEmpty = hs_IsEmpty,
     op_PeekNext = hs_PeekNext, op_RemoveNext = hs_RemoveNext, op_Remove = hs_Remove\<rparr>"

subsection \<open>Exchanging two slots\<close>

lemma length_Exch [simp]: "length (hs_Exch h a b) = length h"
  by (simp add: hs_Exch_def)

lemma Exch_eq_Nil [simp]: "hs_Exch h a b = [] \<longleftrightarrow> h = []"
  by (simp add: hs_Exch_def)

lemma Exch_nth:
  "a < length h \<Longrightarrow> b < length h \<Longrightarrow>
    hs_Exch h a b ! i = (if i = a then h ! b else if i = b then h ! a else h ! i)"
  by (auto simp: hs_Exch_def nth_list_update)

lemma Exch_hd: "0 < a \<Longrightarrow> 0 < b \<Longrightarrow> hs_Exch h a b ! 0 = h ! 0"
  by (simp add: hs_Exch_def)

lemma mset_Exch:
  assumes "a < length h" "b < length h"
  shows "mset (hs_Exch h a b) = mset h"
  using assms by (simp add: hs_Exch_def mset_swap)

lemma mset_tl_Exch:
  assumes "0 < a" "0 < b" "a < length h" "b < length h"
  shows "mset (tl (hs_Exch h a b)) = mset (tl h)"
proof -
  obtain x xs where h: "h = x # xs" using assms by (cases h) auto
  then have "hs_Exch h a b \<noteq> []" by simp
  then obtain y ys where e: "hs_Exch h a b = y # ys" by (cases "hs_Exch h a b") auto
  from mset_Exch[OF assms(3,4)] Exch_hd[OF assms(1,2), of h] h e show ?thesis by simp
qed

subsection \<open>The heap order\<close>

definition heap_ok :: "heap_sched \<Rightarrow> bool" where
  "heap_ok h \<longleftrightarrow> h \<noteq> [] \<and>
     (\<forall>i. 2 \<le> i \<longrightarrow> i < length h \<longrightarrow> rank (h ! (i div 2)) \<le> rank (h ! i))"

abbreviation hs_evs :: "heap_sched \<Rightarrow> event multiset" where
  "hs_evs h \<equiv> mset (tl h)"

text \<open>Heap order except between \<open>k\<close> and its parent, and except between \<open>k\<close> and its children.\<close>

definition up_inv :: "heap_sched \<Rightarrow> nat \<Rightarrow> bool" where
  "up_inv h k \<longleftrightarrow> 1 \<le> k \<and> k < length h \<and>
     (\<forall>i. 2 \<le> i \<longrightarrow> i < length h \<longrightarrow> i \<noteq> k \<longrightarrow> rank (h ! (i div 2)) \<le> rank (h ! i)) \<and>
     (\<forall>i. 2 \<le> k \<longrightarrow> i < length h \<longrightarrow> i div 2 = k \<longrightarrow> rank (h ! (k div 2)) \<le> rank (h ! i))"

definition down_inv :: "heap_sched \<Rightarrow> nat \<Rightarrow> bool" where
  "down_inv h k \<longleftrightarrow> 1 \<le> k \<and> h \<noteq> [] \<and>
     (\<forall>i. 2 \<le> i \<longrightarrow> i < length h \<longrightarrow> i div 2 \<noteq> k \<longrightarrow> rank (h ! (i div 2)) \<le> rank (h ! i)) \<and>
     (\<forall>i. 2 \<le> k \<longrightarrow> i < length h \<longrightarrow> i div 2 = k \<longrightarrow> rank (h ! (k div 2)) \<le> rank (h ! i))"

lemma heap_root_least:
  assumes "heap_ok h" "1 \<le> i" "i < length h"
  shows "rank (h ! 1) \<le> rank (h ! i)"
  using assms(2,3)
proof (induction i rule: less_induct)
  case (less i)
  show ?case
  proof (cases "i = 1")
    case False
    with less.prems have "rank (h ! (i div 2)) \<le> rank (h ! i)" using assms(1) by (simp add: heap_ok_def)
    moreover have "rank (h ! 1) \<le> rank (h ! (i div 2))"
      by (rule less.IH) (use less.prems False in auto)
    ultimately show ?thesis by (rule order_trans [rotated])
  qed simp
qed

lemma up_step:
  assumes inv: "up_inv h k" and k: "k \<noteq> 1" and lt: "rank (h ! k) < rank (h ! (k div 2))"
  shows "up_inv (hs_Exch h k (k div 2)) (k div 2)"
proof -
  let ?p = "k div 2" let ?h = "hs_Exch h k ?p"
  from inv k have k2: "2 \<le> k" "k < length h" "?p < length h" "1 \<le> ?p" "?p \<noteq> k"
    by (auto simp: up_inv_def)
  have nth: "?h ! i = (if i = k then h ! ?p else if i = ?p then h ! k else h ! i)" for i
    using k2 by (simp add: Exch_nth)
  have par: "rank (h ! (i div 2)) \<le> rank (h ! i)" if "2 \<le> i" "i < length h" "i \<noteq> k" for i
    using inv that by (auto simp: up_inv_def)
  have gp: "rank (h ! ?p) \<le> rank (h ! i)" if "i < length h" "i div 2 = k" for i
    using inv that k2 by (auto simp: up_inv_def)
  have "rank (?h ! (i div 2)) \<le> rank (?h ! i)" if i: "2 \<le> i" "i < length h" "i \<noteq> ?p" for i
  proof -
    consider "i = k" | "i \<noteq> k" "i div 2 = k" | "i \<noteq> k" "i div 2 = ?p" | "i \<noteq> k" "i div 2 \<noteq> k" "i div 2 \<noteq> ?p"
      by blast
    then show ?thesis
    proof cases
      case 1 then show ?thesis using lt k2 by (simp add: nth less_imp_le)
    next
      case 2 then show ?thesis using gp i by (simp add: nth)
    next
      case 3 then show ?thesis using par[of i] i k2 lt by (auto simp: nth)
    next
      case 4 then show ?thesis using par[of i] i by (simp add: nth)
    qed
  qed
  moreover have "rank (?h ! (?p div 2)) \<le> rank (?h ! i)"
    if i: "2 \<le> ?p" "i < length h" "i div 2 = ?p" for i
  proof -
    have pp: "rank (h ! (?p div 2)) \<le> rank (h ! ?p)" using par[of ?p] i k2 by simp
    have q: "?p div 2 \<noteq> k" "?p div 2 \<noteq> ?p" using i(1) k2 by auto
    show ?thesis
    proof (cases "i = k")
      case True then show ?thesis using pp q by (simp add: nth)
    next
      case False
      moreover have "i \<noteq> ?p" using i by auto
      moreover have "rank (h ! ?p) \<le> rank (h ! i)" using par[of i] i False by simp
      ultimately show ?thesis using pp q by (simp add: nth)
    qed
  qed
  ultimately show ?thesis using k2 by (simp add: up_inv_def)
qed

lemma up_heap: "up_inv h k \<Longrightarrow> heap_ok (hs_up h k)"
proof (induction h k rule: hs_up.induct)
  case (1 h k)
  show ?case
  proof (cases "\<not> hs_IsRoot k \<and> hs_IsLessStrictly h k (hs_Parent k)")
    case True
    with up_step[OF "1.prems"] have "up_inv (hs_Exch h k (hs_Parent k)) (hs_Parent k)"
      by (simp add: hs_index_defs)
    from "1.IH"[OF True this] True show ?thesis by (simp add: hs_up.simps[of h k])
  next
    case False
    then have "k = 1 \<or> rank (h ! (k div 2)) \<le> rank (h ! k)" by (auto simp: hs_index_defs)
    with "1.prems" have "heap_ok h" unfolding up_inv_def heap_ok_def
      by (metis le_eq_less_or_eq less_nat_zero_code list.size(3) not_less numeral_le_one_iff semiring_norm(69))
    with False show ?thesis by (auto simp: hs_up.simps[of h k])
  qed
qed

lemma up_mset:
  "k < length h \<Longrightarrow> h \<noteq> [] \<Longrightarrow>
    mset (tl (hs_up h k)) = mset (tl h) \<and> length (hs_up h k) = length h"
proof (induction h k rule: hs_up.induct)
  case (1 h k)
  show ?case
  proof (cases "\<not> hs_IsRoot k \<and> hs_IsLessStrictly h k (hs_Parent k)")
    case True
    then have "2 \<le> k" by (cases k; auto simp: hs_index_defs)
    then have "0 < hs_Parent k" "hs_Parent k < length h" using "1.prems" by (auto simp: hs_index_defs)
    then show ?thesis
      using "1.IH"[OF True] True "1.prems" \<open>2 \<le> k\<close>
      by (auto simp: hs_up.simps[of h k] mset_tl_Exch)
  qed (auto simp: hs_up.simps[of h k])
qed

lemma down_step:
  assumes inv: "down_inv h k" and t: "t < length h" "t div 2 = k"
    and least: "\<And>i. i < length h \<Longrightarrow> i div 2 = k \<Longrightarrow> 2 \<le> i \<Longrightarrow> rank (h ! t) \<le> rank (h ! i)"
    and ge: "rank (h ! t) \<le> rank (h ! k)"
  shows "down_inv (hs_Exch h k t) t"
proof -
  let ?h = "hs_Exch h k t"
  from inv t have k: "1 \<le> k" "k < length h" "k < t" "2 \<le> t" by (auto simp: down_inv_def)
  have nth: "?h ! i = (if i = k then h ! t else if i = t then h ! k else h ! i)" for i
    using k t by (simp add: Exch_nth)
  have par: "rank (h ! (i div 2)) \<le> rank (h ! i)" if "2 \<le> i" "i < length h" "i div 2 \<noteq> k" for i
    using inv that by (auto simp: down_inv_def)
  have gp: "rank (h ! (k div 2)) \<le> rank (h ! i)" if "2 \<le> k" "i < length h" "i div 2 = k" for i
    using inv that by (auto simp: down_inv_def)
  have "rank (?h ! (i div 2)) \<le> rank (?h ! i)" if i: "2 \<le> i" "i < length h" "i div 2 \<noteq> t" for i
  proof -
    consider "i = t" | "i \<noteq> t" "i div 2 = k" | "i = k" | "i \<noteq> t" "i \<noteq> k" "i div 2 \<noteq> k"
      by blast
    then show ?thesis
    proof cases
      case 1 then show ?thesis using t k ge by (simp add: nth)
    next
      case 2 then show ?thesis using least i by (auto simp: nth)
    next
      case 3
      moreover have "k div 2 \<noteq> k" using k by auto
      ultimately show ?thesis using gp[of t] i t k by (auto simp: nth)
    next
      case 4 then show ?thesis using par[of i] i by (simp add: nth)
    qed
  qed
  moreover have "rank (?h ! (t div 2)) \<le> rank (?h ! i)" if i: "i < length h" "i div 2 = t" for i
  proof -
    have "i \<noteq> t" "i \<noteq> k" "2 \<le> i" "t \<noteq> k" using i k by auto
    then show ?thesis using par[of i] i t by (simp add: nth)
  qed
  ultimately show ?thesis using k inv by (auto simp: down_inv_def)
qed

text \<open>A slot that precedes both children, or has none, completes the heap.\<close>

lemma down_done:
  assumes "down_inv h k"
    and "\<And>i. i < length h \<Longrightarrow> i div 2 = k \<Longrightarrow> 2 \<le> i \<Longrightarrow> rank (h ! k) \<le> rank (h ! i)"
  shows "heap_ok h"
  using assms unfolding down_inv_def heap_ok_def by metis

lemma half_children: "i div 2 = k \<longleftrightarrow> i = 2 * k \<or> i = 2 * k + (1 :: nat)"
  by linarith

lemma down_heap:
  assumes "down_inv h k"
  shows "\<exists>h'. hs_TopDown h k = Some h' \<and> heap_ok h' \<and> mset (tl h') = mset (tl h) \<and> length h' = length h"
  using assms
proof (induction h k rule: hs_TopDown.induct)
  case (1 h k)
  let ?l = "hs_LeftChild k" let ?r = "hs_RightChild k" let ?t = "hs_Smallest h ?l ?r"
  have k: "k \<noteq> 0" using "1.prems" by (simp add: down_inv_def)
  note eqn = hs_TopDown.simps[of h k]
  show ?case
  proof (cases "hs_IsBottom h ?r")
    case False
    then have r: "2 * k + 1 < length h" by (auto simp: hs_index_defs)
    have t: "?t < length h" "?t div 2 = k" "0 < ?t" using r k by (auto simp: hs_index_defs hs_Smallest_def)
    have least: "rank (h ! ?t) \<le> rank (h ! i)" if "i div 2 = k" for i
      using that by (auto simp: hs_index_defs hs_Smallest_def half_children mult.commute not_less)
    show ?thesis
    proof (cases "hs_IsLessStrictly h k ?t")
      case True
      then have "rank (h ! k) \<le> rank (h ! i)" if "i div 2 = k" for i
        using least[OF that] by (simp add: hs_index_defs)
      then have "heap_ok h" using "1.prems" by (blast intro: down_done)
      with True False k show ?thesis by (simp add: eqn Let_def)
    next
      case nl: False
      then have "rank (h ! ?t) \<le> rank (h ! k)" by (simp add: hs_index_defs not_less)
      from down_step[OF "1.prems" t(1,2) least this] have "down_inv (hs_Exch h k ?t) ?t" by blast
      from "1.IH"[OF k False refl refl nl this] t k r nl False show ?thesis
        by (simp add: eqn Let_def mset_tl_Exch)
    qed
  next
    case bot: True
    then have r: "\<not> 2 * k + 1 < length h" by (auto simp: hs_index_defs)
    show ?thesis
    proof (cases "hs_IsBottom h ?l")
      case True
      then have "heap_ok h" using "1.prems" bot
        by (intro down_done[of h k]) (auto simp: hs_index_defs half_children)
      with True bot k show ?thesis by (simp add: eqn Let_def)
    next
      case left: False
      then have l: "2 * k < length h" "\<not> hs_IsBottom h k" using k by (auto simp: hs_index_defs)
      have only: "i = 2 * k" if "i < length h" "i div 2 = k" for i
        using that r half_children by auto
      show ?thesis
      proof (cases "hs_IsLessStrictly h k ?l")
        case True
        then have "heap_ok h" using "1.prems" only
          by (intro down_done[of h k]) (auto simp: hs_index_defs mult.commute less_imp_le)
        with True left l bot k show ?thesis by (simp add: eqn Let_def)
      next
        case False
        then have ge: "rank (h ! (2 * k)) \<le> rank (h ! k)" by (simp add: hs_index_defs mult.commute not_less)
        have "down_inv (hs_Exch h k (2 * k)) (2 * k)"
          by (rule down_step[OF "1.prems" l(1)]) (use only ge in auto)
        then have "heap_ok (hs_Exch h k (2 * k))"
          by (rule down_done) (use r in auto)
        with False left l bot k show ?thesis
          by (auto simp: eqn Let_def mset_tl_Exch hs_LeftChild_def mult.commute)
      qed
    qed
  qed
qed

subsection \<open>The operations keep the heap\<close>

lemma Insert_heap:
  assumes "heap_ok h"
  shows "heap_ok (hs_Insert h e) \<and> hs_evs (hs_Insert h e) = add_mset e (hs_evs h)"
proof -
  have ne: "h \<noteq> []" using assms by (simp add: heap_ok_def)
  have "up_inv (h @ [e]) (length h)"
    using assms ne by (auto simp: up_inv_def heap_ok_def nth_append Suc_le_eq)
  from up_heap[OF this] up_mset[of "length h" "h @ [e]"] ne show ?thesis
    by (simp add: hs_Insert_def hs_BottomUp_def hs_Last_def)
qed

lemma mset_tl_remove_slot:
  assumes "0 < i" "i < length h"
  shows "mset (tl h) = add_mset (h ! i) (mset (tl (butlast (hs_Exch h i (hs_Last h)))))"
proof -
  let ?e = "hs_Exch h i (hs_Last h)"
  have l: "0 < hs_Last h" "hs_Last h < length h" using assms by (auto simp: hs_Last_def)
  have "length (tl ?e) = length h - 1" by simp
  then have ne: "tl ?e \<noteq> []" using assms by (metis One_nat_def Suc_leI diff_is_0_eq le_neq_implies_less
      length_greater_0_conv list.size(3) nat_neq_iff not_le zero_less_diff order_le_less_trans)
  have "mset (tl h) = mset (tl ?e)" using mset_tl_Exch[OF assms(1) l(1) assms(2) l(2)] by simp
  also have "\<dots> = add_mset (last (tl ?e)) (mset (butlast (tl ?e)))"
    using ne by (rule mset_butlast_last)
  also have "last (tl ?e) = ?e ! (length h - 1)"
    using ne by (metis last_conv_nth last_tl length_Exch tl_Nil)
  also have "\<dots> = h ! i" using assms l by (simp add: Exch_nth hs_Last_def)
  finally show ?thesis by (simp add: butlast_tl)
qed

lemma RemoveNext_heap:
  assumes "heap_ok h" "hs_evs h \<noteq> {#}"
  shows "\<exists>e h'. hs_RemoveNext h = Some (e, h') \<and> heap_ok h' \<and> hs_evs h = add_mset e (hs_evs h') \<and>
    (\<forall>x \<in># hs_evs h. rank e \<le> rank x)"
proof -
  have len: "1 < length h" using assms by (cases h) auto
  let ?h = "butlast (hs_Exch h 1 (hs_Last h))"
  have nth: "?h ! i = h ! i" if "2 \<le> i" "i < length h - 1" for i
    using that len by (simp add: nth_butlast Exch_nth hs_Last_def)
  have "down_inv ?h 1" unfolding down_inv_def
  proof (intro conjI allI impI)
    show "?h \<noteq> []" using len by (metis One_nat_def diff_is_0_eq length_butlast length_Exch list.size(3) not_less)
    show "rank (?h ! (i div 2)) \<le> rank (?h ! i)" if "2 \<le> i" "i < length ?h" "i div 2 \<noteq> 1" for i
    proof -
      have "2 \<le> i div 2" using that by (auto simp: half_children)
      then show ?thesis using assms(1) that nth[of i] nth[of "i div 2"] by (auto simp: heap_ok_def)
    qed
  qed auto
  from down_heap[OF this] obtain h' where h': "hs_TopDown ?h 1 = Some h'" "heap_ok h'"
    "mset (tl h') = mset (tl ?h)" by blast
  have "\<forall>x \<in># hs_evs h. rank (h ! 1) \<le> rank x"
    using heap_root_least[OF assms(1)] by (auto simp: in_set_conv_nth nth_tl)
  with h' mset_tl_remove_slot[of 1 h] len show ?thesis
    by (auto simp: hs_RemoveNext_def hs_Root_def)
qed

interpretation heap_sched: event_list heap_ops hs_evs heap_ok hs_init
proof unfold_locales
  fix h :: heap_sched
  assume "heap_ok h" "hs_evs h \<noteq> {#}"
  then show "\<exists>e s'. op_RemoveNext heap_ops h = Some (e, s') \<and> heap_ok s' \<and>
      hs_evs h = add_mset e (hs_evs s') \<and> (\<forall>x \<in># hs_evs h. rank e \<le> rank x)"
    using RemoveNext_heap by (simp add: heap_ops_def)
next
  fix h :: heap_sched
  assume a: "heap_ok h" "hs_evs h \<noteq> {#}"
  then obtain e h' where "hs_RemoveNext h = Some (e, h')" using RemoveNext_heap by blast
  then show "op_PeekNext heap_ops h = map_option fst (op_RemoveNext heap_ops h)"
    by (auto simp: heap_ops_def hs_PeekNext_def hs_RemoveNext_def split: if_splits Option.bind_splits)
next
  fix h :: heap_sched
  assume "heap_ok h"
  then show "op_IsEmpty heap_ops h = (hs_evs h = {#})"
    by (cases h) (auto simp: heap_ops_def hs_IsEmpty_def heap_ok_def)
qed (simp_all add: heap_ops_def Insert_heap, simp_all add: hs_init_def heap_ok_def)

subsection \<open>Remove\<close>

lemma find_Some:
  "hs_find h u i = Some j \<Longrightarrow> i \<le> j \<and> j < length h \<and> uid (h ! j) = u"
  by (induction h u i rule: hs_find.induct) (subst (asm) hs_find.simps, auto split: if_splits)

lemma find_None:
  "hs_find h u i = None \<Longrightarrow> i \<le> j \<Longrightarrow> j < length h \<Longrightarrow> uid (h ! j) \<noteq> u"
proof (induction h u i rule: hs_find.induct)
  case (1 h u i)
  from "1.prems" have "i < length h" by simp
  with "1.prems"(1) have "u \<noteq> uid (h ! i)" "hs_find h u (Suc i) = None"
    by (auto simp: hs_find.simps[of h u i] split: if_splits)
  with "1" \<open>i < length h\<close> show ?case by (cases "i = j") auto
qed

text \<open>\<open>TopDown\<close> permutes the slots from 1 on, whatever it is called on.\<close>

lemma TopDown_mset:
  "0 < k \<Longrightarrow> h \<noteq> [] \<Longrightarrow> \<exists>h'. hs_TopDown h k = Some h' \<and> mset (tl h') = mset (tl h) \<and> length h' = length h"
proof (induction h k rule: hs_TopDown.induct)
  case (1 h k)
  let ?l = "hs_LeftChild k" let ?r = "hs_RightChild k" let ?t = "hs_Smallest h ?l ?r"
  show ?case
  proof (cases "hs_IsBottom h ?r \<or> hs_IsLessStrictly h k ?t")
    case True
    then show ?thesis using "1.prems"
      by (auto simp: hs_TopDown.simps[of h k] Let_def mset_tl_Exch hs_index_defs)
  next
    case False
    then have c: "k \<noteq> 0" "\<not> hs_IsBottom h ?r" "\<not> hs_IsLessStrictly h k ?t" using "1.prems" by auto
    then have t: "0 < ?t" "?t < length h" "k < length h"
      by (auto simp: hs_index_defs hs_Smallest_def)
    from "1.IH"[OF c(1,2) refl refl c(3) t(1)] t c "1.prems"(2) show ?thesis
      by (simp add: hs_TopDown.simps[of h k] Let_def mset_tl_Exch)
  qed
qed

lemma Remove_evs:
  assumes "h \<noteq> []" "unique_uids (hs_evs h)" "e \<in># hs_evs h"
  shows "\<exists>h'. hs_Remove h e = Some h' \<and> hs_evs h = add_mset e (hs_evs h')"
proof -
  from assms(3) obtain j where j: "j < length (tl h)" "tl h ! j = e" by (auto simp: in_set_conv_nth)
  then have j': "Suc j < length h" "h ! Suc j = e" by (auto simp: nth_tl)
  have "hs_find h (uid e) 1 \<noteq> None" using find_None[of h "uid e" 1 "Suc j"] j' by auto
  then obtain i where i: "hs_find h (uid e) 1 = Some i" by blast
  from find_Some[OF this] have i': "1 \<le> i" "i < length h" "uid (h ! i) = uid e" by auto
  have "h ! i \<in># hs_evs h" using i' by (cases i) (auto simp: in_set_conv_nth nth_tl intro!: exI[of _ "i - 1"])
  then have eq: "h ! i = e" using unique_uids_inj[OF assms(2)] assms(3) i'(3) by blast
  let ?h = "butlast (hs_Exch h i (hs_Last h))"
  have "?h \<noteq> []" using i' by (metis One_nat_def diff_is_0_eq length_butlast length_Exch list.size(3) not_less order_le_less_trans)
  then obtain h' where "hs_TopDown ?h i = Some h'" "mset (tl h') = mset (tl ?h)"
    using TopDown_mset[of i ?h] i' by auto
  with mset_tl_remove_slot[of i h] i' i eq show ?thesis by (auto simp: hs_Remove_def)
qed

end
