(* ===== verification/Simulator_Runs.thy ===== *)
theory Simulator_Runs
  imports Simulator_Facts Linear_Schedulers Heap_Scheduler
begin

text \<open>
  \<open>Run\<close> with event bodies that schedule nothing, and the independence of a simulation from
  the event list implementation: two simulators over different lists that hold the same
  events make the same steps. The locale \<open>two_event_lists\<close> covers runs without \<open>Remove\<close> and its
  extension \<open>two_removable_lists\<close> all runs; they are interpreted on pairs of schedulers.
\<close>

subsection \<open>Runs of passive events\<close>

definition passive_body :: "(nat \<Rightarrow> 's sim \<Rightarrow> sim_cmd list) \<Rightarrow> bool" where
  "passive_body body \<longleftrightarrow> (\<forall>i s c. c \<in> set (body i s) \<longrightarrow> c = CStop \<or> (\<exists>eid. c = CCancel eid))"

context timed_event_list begin

lemma execs_passive:
  assumes "\<forall>c \<in> set cs. c = CStop \<or> (\<exists>eid. c = CCancel eid)"
  shows "\<exists>s'. sim_execs ops s cs = Some s' \<and> (sim_inv evs ok s \<longrightarrow> sim_inv evs ok s') \<and>
    s_events s' = s_events s \<and> s_currentTs s' = s_currentTs s \<and> s_eventCount s' = s_eventCount s \<and>
    s_eventsWithContextEmpty s' = s_eventsWithContextEmpty s \<and> (cs = [] \<longrightarrow> s' = s)"
  using assms
proof (induction cs arbitrary: s)
  case (Cons c cs)
  from Cons.prems have "c = CStop \<or> (\<exists>eid. c = CCancel eid)" by simp
  then obtain s1 where s1: "sim_exec ops s c = Some s1" "sim_inv evs ok s \<longrightarrow> sim_inv evs ok s1"
    "s_events s1 = s_events s" "s_currentTs s1 = s_currentTs s" "s_eventCount s1 = s_eventCount s"
    "s_eventsWithContextEmpty s1 = s_eventsWithContextEmpty s"
    by (auto simp: sim_Stop_def sim_inv_def sim_Cancel_def impl_Cancel_def split: option.splits)
  with Cons.IH[of s1] Cons.prems show ?case by auto
qed simp

lemma ProcessOneEvent_passive:
  assumes inv: "sim_inv evs ok s" and ne: "evs (s_events s) \<noteq> {#}" and b: "passive_body body"
    and c: "s_eventsWithContextEmpty s"
  obtains s' e where "sim_ProcessOneEvent ops body s = Some s'" "sim_inv evs ok s'"
    "evs (s_events s) = add_mset e (evs (s_events s'))" "s_currentTs s' = ts e"
    "s_currentTs s \<le> ts e" "s_eventCount s' = s_eventCount s + 1" "s_eventsWithContextEmpty s'"
    "(\<And>i x. body i x = []) \<Longrightarrow> s_stop s' = s_stop s"
proof -
  from pop_total[OF inv ne] obtain s1 e q where p: "sim_pop ops s = Some (s1, e)"
    "evs (s_events s) = add_mset e (evs q)" "s_events s1 = q" "sim_inv evs ok s1" "s_currentTs s1 = ts e"
    "(s_currentTs s, s_currentUid s) < rank e" by metis
  from p(1) have p': "s_eventCount s1 = s_eventCount s + 1" "s_eventsWithContextEmpty s1" "s_stop s1 = s_stop s"
    using c by (auto simp: sim_pop_def split: Option.bind_splits)
  have le: "s_currentTs s \<le> ts e" using p(6) by (auto simp: less_prod_simp)
  have "\<forall>c \<in> set (body (impl e) s1). c = CStop \<or> (\<exists>eid. c = CCancel eid)"
    using b by (auto simp: passive_body_def)
  from execs_passive[OF this, of s1] obtain s2 where s2: "sim_execs ops s1 (body (impl e) s1) = Some s2"
    "sim_inv evs ok s2" "s_events s2 = s_events s1" "s_currentTs s2 = s_currentTs s1"
    "s_eventCount s2 = s_eventCount s1" "s_eventsWithContextEmpty s2" "body (impl e) s1 = [] \<longrightarrow> s2 = s1"
    using p(4) p'(2) by auto
  show ?thesis
  proof (rule that[of "if s_cancelled s1 (impl e) then s1 else s2" e])
    show "sim_ProcessOneEvent ops body s = Some (if s_cancelled s1 (impl e) then s1 else s2)"
      using p p' s2 by (simp add: sim_ProcessOneEvent_def impl_Invoke_def sim_ProcessEventsWithContext_def)
    show "s_stop (if s_cancelled s1 (impl e) then s1 else s2) = s_stop s" if "\<And>i x. body i x = []"
      using that s2(7) p'(3) by simp
  qed (use p p' s2 le in auto)
qed

lemma loop_passive:
  assumes "sim_inv evs ok s" "passive_body body" "s_eventsWithContextEmpty s"
  shows "\<exists>s'. sim_loop ops body s = Some s' \<and> sim_inv evs ok s' \<and>
    (s_stop s' \<or> evs (s_events s') = {#}) \<and> s_currentTs s \<le> s_currentTs s' \<and>
    s_eventCount s' + of_nat (size (evs (s_events s'))) = s_eventCount s + of_nat (size (evs (s_events s))) \<and>
    evs (s_events s') \<subseteq># evs (s_events s) \<and>
    (\<forall>e \<in># evs (s_events s) - evs (s_events s'). ts e \<le> s_currentTs s') \<and>
    ((\<forall>i x. body i x = []) \<longrightarrow> s_stop s' = s_stop s)"
  using assms
proof (induction "size (evs (s_events s))" arbitrary: s rule: less_induct)
  case less
  show ?case
  proof (cases "evs (s_events s) = {#} \<or> s_stop s")
    case True
    then have "sim_loop ops body s = Some s"
      using less.prems(1) by (subst sim_loop.simps) (auto simp: sim_IsEmpty)
    with True less.prems(1) show ?thesis by auto
  next
    case False
    then have ne: "evs (s_events s) \<noteq> {#}" by simp
    from ProcessOneEvent_passive[OF less.prems(1) this less.prems(2,3)] obtain s1 e where
      p: "sim_ProcessOneEvent ops body s = Some s1" "sim_inv evs ok s1"
        "evs (s_events s) = add_mset e (evs (s_events s1))" "s_currentTs s1 = ts e" "s_currentTs s \<le> ts e"
        "s_eventCount s1 = s_eventCount s + 1" "s_eventsWithContextEmpty s1"
        "(\<forall>i x. body i x = []) \<longrightarrow> s_stop s1 = s_stop s" by metis
    have "size (evs (s_events s1)) < size (evs (s_events s))" using p(3) by simp
    from less.hyps[OF this p(2) less.prems(2) p(7)] obtain s' where s': "sim_loop ops body s1 = Some s'"
      "sim_inv evs ok s'" "s_stop s' \<or> evs (s_events s') = {#}" "s_currentTs s1 \<le> s_currentTs s'"
      "s_eventCount s' + of_nat (size (evs (s_events s'))) = s_eventCount s1 + of_nat (size (evs (s_events s1)))"
      "evs (s_events s') \<subseteq># evs (s_events s1)"
      "\<forall>e \<in># evs (s_events s1) - evs (s_events s'). ts e \<le> s_currentTs s'"
      "(\<forall>i x. body i x = []) \<longrightarrow> s_stop s' = s_stop s1" by blast
    have "sim_loop ops body s = Some s'"
      using False less.prems(1) p(1) s'(1) by (subst sim_loop.simps) (auto simp: sim_IsEmpty)
    moreover have "evs (s_events s) - evs (s_events s') = add_mset e (evs (s_events s1) - evs (s_events s'))"
      using multiset_diff_union_assoc[OF s'(6), of "{#e#}"] p(3) by simp
    ultimately show ?thesis using s' p by (auto intro: subset_mset.order_trans order_trans)
  qed
qed

text \<open>\<open>Run\<close> returns, and its consistency assertion holds.\<close>

lemma Run_passive:
  assumes inv: "sim_inv evs ok s" and b: "passive_body body" and c: "s_eventsWithContextEmpty s"
  shows "\<exists>s'. sim_Run ops body s = Some s' \<and> sim_inv evs ok s' \<and>
    (s_stop s' \<or> evs (s_events s') = {#}) \<and> s_currentTs s \<le> s_currentTs s' \<and>
    s_eventCount s' + of_nat (size (evs (s_events s'))) = s_eventCount s + of_nat (size (evs (s_events s))) \<and>
    (\<forall>e \<in># evs (s_events s) - evs (s_events s'). ts e \<le> s_currentTs s') \<and>
    ((\<forall>i x. body i x = []) \<longrightarrow> evs (s_events s') = {#})"
proof -
  let ?s = "s\<lparr>s_stop := False\<rparr>"
  have "sim_inv evs ok ?s" using inv by (simp add: sim_inv_def)
  from loop_passive[OF this b] c obtain s' where s': "sim_loop ops body ?s = Some s'" "sim_inv evs ok s'"
      "s_stop s' \<or> evs (s_events s') = {#}" "s_currentTs s \<le> s_currentTs s'"
      "s_eventCount s' + of_nat (size (evs (s_events s'))) = s_eventCount s + of_nat (size (evs (s_events s)))"
      "\<forall>e \<in># evs (s_events s) - evs (s_events s'). ts e \<le> s_currentTs s'"
      "(\<forall>i x. body i x = []) \<longrightarrow> \<not> s_stop s'" by auto
  have "\<not> op_IsEmpty ops (s_events s') \<or> s_unscheduledEvents s' = 0"
    using s'(2) by (auto simp: sim_IsEmpty) (simp add: sim_inv_def)
  with s' c show ?thesis
    by (auto simp: sim_Run_def sim_ProcessEventsWithContext_def)
qed

end

subsection \<open>Two event lists\<close>

locale two_event_lists = src: timed_event_list ops evs ok q0 + dst: timed_event_list ops' evs' ok' q0'
  for ops :: "'s sched_ops" and evs ok q0 and ops' :: "'t sched_ops" and evs' ok' q0'

definition sim_rel ::
  "('s \<Rightarrow> event multiset) \<Rightarrow> ('t \<Rightarrow> event multiset) \<Rightarrow> 's sim \<Rightarrow> 't sim \<Rightarrow> bool" where
  "sim_rel evs evs' s t \<longleftrightarrow>
     t = sim_with_events s (s_events t) \<and> evs' (s_events t) = evs (s_events s)"

lemma sim_relD:
  assumes "sim_rel evs evs' s t"
  shows "s_eventsWithContext t = s_eventsWithContext s"
    "s_eventsWithContextEmpty t = s_eventsWithContextEmpty s" "s_destroyEvents t = s_destroyEvents s"
    "s_stop t = s_stop s" "s_uid t = s_uid s" "s_currentUid t = s_currentUid s"
    "s_currentTs t = s_currentTs s" "s_currentContext t = s_currentContext s"
    "s_eventCount t = s_eventCount s" "s_unscheduledEvents t = s_unscheduledEvents s"
    "s_cancelled t = s_cancelled s" "evs' (s_events t) = evs (s_events s)"
proof -
  from assms have t: "t = sim_with_events s (s_events t)" by (simp add: sim_rel_def)
  show "s_eventsWithContext t = s_eventsWithContext s" by (subst t) (simp add: sim_with_events_def)
  show "s_eventsWithContextEmpty t = s_eventsWithContextEmpty s" by (subst t) (simp add: sim_with_events_def)
  show "s_destroyEvents t = s_destroyEvents s" by (subst t) (simp add: sim_with_events_def)
  show "s_stop t = s_stop s" by (subst t) (simp add: sim_with_events_def)
  show "s_uid t = s_uid s" by (subst t) (simp add: sim_with_events_def)
  show "s_currentUid t = s_currentUid s" by (subst t) (simp add: sim_with_events_def)
  show "s_currentTs t = s_currentTs s" by (subst t) (simp add: sim_with_events_def)
  show "s_currentContext t = s_currentContext s" by (subst t) (simp add: sim_with_events_def)
  show "s_eventCount t = s_eventCount s" by (subst t) (simp add: sim_with_events_def)
  show "s_unscheduledEvents t = s_unscheduledEvents s" by (subst t) (simp add: sim_with_events_def)
  show "s_cancelled t = s_cancelled s" by (subst t) (simp add: sim_with_events_def)
qed (use assms in \<open>simp add: sim_rel_def\<close>)

lemma sim_rel_update:
  "evs' q' = evs q \<Longrightarrow> sim_rel evs evs' s t \<Longrightarrow>
    sim_rel evs evs' (s\<lparr>s_events := q\<rparr>) (t\<lparr>s_events := q'\<rparr>)"
  by (cases s; cases t) (simp add: sim_rel_def sim_with_events_def)

context two_event_lists begin

abbreviation rel :: "'s sim \<Rightarrow> 't sim \<Rightarrow> bool" where
  "rel \<equiv> sim_rel evs evs'"

lemma move_events:
  assumes "ok now q" "unique_uids (evs q)" "ok' 0 q'" "unique_uids (evs' q')" "uids (evs q) \<inter> uids (evs' q') = {}"
    and "\<forall>e \<in># evs q. ts e \<noteq> - 1" "size (evs q) + size (evs' q') < 2 ^ 32"
  shows "\<exists>r. sim_move ops ops' q q' = Some r \<and> ok' 0 r \<and> evs' r = evs q + evs' q'"
  using assms
proof (induction "size (evs q)" arbitrary: q q' now rule: less_induct)
  case less
  show ?case
  proof (cases "evs q = {#}")
    case True
    with less.prems show ?thesis by (subst sim_move.simps) (simp add: src.IsEmpty_at)
  next
    case False
    from src.RemoveNext_cases[OF less.prems(1,2) False] obtain e q1 where
      r: "op_RemoveNext ops q = Some (e, q1)" "ok (ts e) q1" "evs q = add_mset e (evs q1)"
        "unique_uids (evs q1)" "uid e \<notin> uids (evs q1)" by metis
    have fresh: "uid e \<notin> uids (evs' q')" using less.prems(5) r(3) by simp
    moreover have "0 \<le> ts e" "ts e \<noteq> - 1" "size (evs' q') < 2 ^ 32 - 1" using less.prems(6,7) r(3) by simp_all
    ultimately obtain q1' where
      i: "op_Insert ops' q' e = Some q1'" "ok' 0 q1'" "evs' q1' = add_mset e (evs' q')"
      using dst.Insert_at[OF less.prems(3,4)] by blast
    have "unique_uids (evs' q1')" using i(3) fresh less.prems(4)
      by (simp add: unique_uids_add)
    moreover have "uids (evs q1) \<inter> uids (evs' q1') = {}" using less.prems(5) r(3,5) i(3) by auto
    moreover have "size (evs q1) < size (evs q)" using r(3) by simp
    moreover have "\<forall>e \<in># evs q1. ts e \<noteq> - 1" "size (evs q1) + size (evs' q1') < 2 ^ 32"
      using less.prems(6,7) r(3) i(3) by simp_all
    ultimately obtain x where "sim_move ops ops' q1 q1' = Some x" "ok' 0 x" "evs' x = evs q1 + evs' q1'"
      using less.hyps[OF _ r(2,4) i(2)] by blast
    with r(1,3) i(1,3) False less.prems(1) show ?thesis
      by (subst sim_move.simps) (simp add: src.IsEmpty_at)
  qed
qed

lemma SetScheduler_rel:
  assumes "sim_inv evs ok s"
  shows "\<exists>t. sim_SetScheduler ops ops' q0' s = Some t \<and> rel s t \<and> sim_inv evs' ok' t"
proof -
  have max: "\<forall>e \<in># evs (s_events s). ts e \<noteq> - 1" using assms by (auto simp: sim_inv_def dest: nonneg_not_max)
  have "size (evs (s_events s)) < 2 ^ 32"
    using sim_inv_size[OF assms] unat_u32_less[of "s_uid s"] by simp
  with assms max move_events[of "s_currentTs s" "s_events s" q0'] obtain q where
    "sim_move ops ops' (s_events s) q0' = Some q" "ok' 0 q" "evs' q = evs (s_events s)"
    by (auto simp: sim_inv_def dst.ok_start dst.evs_start)
  with assms dst.ok_later[of 0 q "s_currentTs s"] show ?thesis
    by (auto simp: sim_SetScheduler_def sim_rel_def sim_with_events_def sim_inv_def)
qed

lemma pop_rel:
  assumes inv: "sim_inv evs ok s" "sim_inv evs' ok' t" and rel: "rel s t"
    and ne: "evs (s_events s) \<noteq> {#}" and r: "sim_pop ops s = Some (s', e)"
  shows "\<exists>t'. sim_pop ops' t = Some (t', e) \<and> rel s' t'"
proof -
  note d = sim_relD[OF rel]
  from src.pop_total[OF inv(1) ne] r obtain q where
    p: "evs (s_events s) = add_mset e (evs q)" "s_events s' = q" "\<And>x. x \<in># evs q \<Longrightarrow> rank e < rank x"
    by (metis option.inject prod.inject)
  have "evs' (s_events t) \<noteq> {#}" using ne d(12) by simp
  from dst.pop_total[OF inv(2) this] obtain t' e' q' where
    p': "sim_pop ops' t = Some (t', e')" "evs' (s_events t) = add_mset e' (evs' q')" "s_events t' = q'"
      "\<And>x. x \<in># evs' q' \<Longrightarrow> rank e' < rank x" by metis
  have eq: "add_mset e (evs q) = add_mset e' (evs' q')" using p(1) p'(2) d(12) by simp
  have "e' = e"
  proof (rule ccontr)
    assume ne: "e' \<noteq> e"
    then have "e' \<in># evs q" "e \<in># evs' q'" using eq by (metis insert_noteq_member)+
    then show False using p(3)[of e'] p'(4)[of e] by (auto dest: less_imp_not_less)
  qed
  with eq have qq: "evs' q' = evs q" by simp
  have "rel s' t'"
    using r p'(1) d p(2) p'(3) qq \<open>e' = e\<close>
    by (cases s; cases t) (auto simp: sim_pop_def sim_rel_def sim_with_events_def split: Option.bind_splits)
  with p'(1) \<open>e' = e\<close> show ?thesis by blast
qed

lemma insert_rel:
  assumes inv: "sim_inv evs ok s" "sim_inv evs' ok' t" and rel: "rel s t" and room: "s_uid s \<noteq> - 1"
    and tt: "s_currentTs s \<le> t0" "0 \<le> sint t0" and r: "sim_insert ops s i t0 c = Some (s', e)"
  shows "\<exists>t'. sim_insert ops' t i t0 c = Some (t', e) \<and> rel s' t' \<and> sim_inv evs ok s' \<and> sim_inv evs' ok' t'"
proof -
  note d = sim_relD[OF rel]
  from src.insert_inv[OF inv(1) room tt, of i c] r obtain q where
    s': "s' = s\<lparr>s_uid := s_uid s + 1, s_unscheduledEvents := s_unscheduledEvents s + 1, s_events := q\<rparr>"
      "evs q = add_mset e (evs (s_events s))" "sim_inv evs ok s'" by auto
  have e: "e = \<lparr>impl = i, key = \<lparr>m_ts = t0, m_uid = s_uid t, m_context = c\<rparr>\<rparr>"
    using r d(5) by (auto simp: sim_insert_def Let_def split: Option.bind_splits)
  have "s_uid t \<noteq> - 1" "s_currentTs t \<le> t0" using room tt(1) d by simp_all
  from dst.insert_inv[OF inv(2) this tt(2), of i c, folded e] obtain t' q' where
    t': "sim_insert ops' t i t0 c = Some (t', e)"
      "t' = t\<lparr>s_uid := s_uid t + 1, s_unscheduledEvents := s_unscheduledEvents t + 1, s_events := q'\<rparr>"
      "evs' q' = add_mset e (evs' (s_events t))" "sim_inv evs' ok' t'"
    by blast
  have "rel s' t'"
    using rel s'(1,2) t'(2,3) d by (cases s; cases t) (auto simp: sim_rel_def sim_with_events_def)
  with s'(3) t'(1,4) show ?thesis by blast
qed

lemma expired_rel:
  assumes "rel s t"
  shows "sim_IsExpired t eid = sim_IsExpired s eid"
  using sim_relD[OF assms] by (simp add: sim_IsExpired_def impl_cancelled_def split: option.splits)

lemma tracked_rel: "rel s t \<Longrightarrow> id_tracked evs' t eid = id_tracked evs s eid"
  by (simp add: id_tracked_def expired_rel sim_relD(12))

lemma cmd_ok_rel: "rel s t \<Longrightarrow> cmd_ok evs' t c = cmd_ok evs s c"
  by (cases c) (simp_all add: tracked_rel)

lemma rel_fields:
  "rel s t \<Longrightarrow> rel (s\<lparr>s_stop := b\<rparr>) (t\<lparr>s_stop := b\<rparr>)"
  "rel s t \<Longrightarrow> rel (s\<lparr>s_cancelled := f\<rparr>) (t\<lparr>s_cancelled := f\<rparr>)"
  "rel s t \<Longrightarrow> rel (s\<lparr>s_destroyEvents := ds, s_uid := u\<rparr>) (t\<lparr>s_destroyEvents := ds, s_uid := u\<rparr>)"
  "rel s t \<Longrightarrow> rel (s\<lparr>s_eventsWithContext := xs, s_eventsWithContextEmpty := b\<rparr>)
    (t\<lparr>s_eventsWithContext := xs, s_eventsWithContextEmpty := b\<rparr>)"
  by (cases s; cases t; simp add: sim_rel_def sim_with_events_def)+

lemma Schedule_rel:
  assumes inv: "sim_inv evs ok s" "sim_inv evs' ok' t" and rel: "rel s t" and room: "s_uid s \<noteq> - 1"
    and r: "sim_Schedule ops s d i = Some (s', eid)"
  shows "\<exists>t'. sim_Schedule ops' t d i = Some (t', eid) \<and> rel s' t'"
proof -
  note q = sim_relD[OF rel]
  from r obtain t0 e where p: "0 \<le> sint d" "time_add d (s_currentTs s) = Some t0"
    "sim_insert ops s i t0 (s_currentContext s) = Some (s', e)"
    "eid = \<lparr>id_impl = Some i, id_ts = m_ts (key e), id_context = m_context (key e), id_uid = m_uid (key e)\<rparr>"
    by (auto simp: sim_Schedule_def time_IsPositive_def split: Option.bind_splits)
  have "0 \<le> sint (s_currentTs s)" using inv(1) by (simp add: sim_inv_def)
  from insert_rel[OF inv rel room time_add_nonneg(1,2)[OF p(2,1) this] p(3)] p q show ?thesis
    by (auto simp: sim_Schedule_def time_IsPositive_def)
qed

lemma exec_rel:
  assumes inv: "sim_inv evs ok s" "sim_inv evs' ok' t" and rel: "rel s t" and room: "s_uid s \<noteq> - 1"
    and c: "cmd_ok evs s c" "\<not> cmd_is_Remove c" and r: "sim_exec ops s c = Some s'"
  shows "\<exists>t'. sim_exec ops' t c = Some t' \<and> rel s' t'"
proof (cases c)
  case (CSchedule d i)
  with r Schedule_rel[OF inv rel room] show ?thesis by fastforce
next
  case (CScheduleNow i)
  with r Schedule_rel[OF inv rel room] show ?thesis by (fastforce simp: sim_ScheduleNow_def)
next
  case (CScheduleWithContext m x d i)
  note q = sim_relD[OF rel]
  show ?thesis
  proof (cases m)
    case True
    with CScheduleWithContext r obtain t0 e where p: "time_add d (s_currentTs s) = Some t0"
      "sim_insert ops s i t0 x = Some (s', e)"
      by (auto simp: sim_ScheduleWithContext_def split: Option.bind_splits)
    have "0 \<le> sint (s_currentTs s)" "0 \<le> sint d"
      using inv(1) c CScheduleWithContext by (simp_all add: sim_inv_def)
    from insert_rel[OF inv rel room time_add_nonneg(1,2)[OF p(1) this(2,1)] p(2)] p q
      True CScheduleWithContext show ?thesis by (auto simp: sim_ScheduleWithContext_def)
  next
    case False
    with CScheduleWithContext r q rel_fields(4)[OF rel] show ?thesis
      by (auto simp: sim_ScheduleWithContext_def)
  qed
next
  case (CScheduleDestroy i)
  with r sim_relD[OF rel] rel_fields(3)[OF rel] show ?thesis
    by (auto simp: sim_ScheduleDestroy_def Let_def)
next
  case (CCancel eid)
  with r sim_relD[OF rel] rel rel_fields(2)[OF rel] expired_rel[OF rel] show ?thesis
    by (auto simp: sim_Cancel_def impl_Cancel_def split: option.splits)
next
  case CStop
  with r rel_fields(1)[OF rel] show ?thesis by (auto simp: sim_Stop_def)
qed (use c in auto)

lemma insert_ctx_rel:
  assumes "sim_inv evs ok s" "sim_inv evs' ok' t" "rel s t" "unat (s_uid s) + length es < 2 ^ 32"
    and "\<forall>x \<in> set es. unat (s_currentTs s) + unat (cx_timestamp x) < 2 ^ 63"
    and "sim_insert_ctx ops s es = Some s'"
  shows "\<exists>t'. sim_insert_ctx ops' t es = Some t' \<and> rel s' t'"
  using assms
proof (induction es arbitrary: s t)
  case (Cons e es)
  let ?t = "s_currentTs s + cx_timestamp e"
  have fit: "unat (s_currentTs s) + unat (cx_timestamp e) < 2 ^ 63" using Cons.prems(5) by simp
  then have u: "unat ?t = unat (s_currentTs s) + unat (cx_timestamp e)"
    by (intro unat_plus_no_overflow) simp
  with fit have tt: "s_currentTs s \<le> ?t" "0 \<le> sint ?t"
    by (simp_all add: word_le_nat_alt sint_nonneg_iff)
  have lt: "unat (s_uid s) + 1 < 2 ^ 32" using Cons.prems(4) by simp
  then have room: "s_uid s \<noteq> - 1" by (auto simp: unsigned_minus_1_eq_mask mask_eq_exp_minus_1)
  from lt have uid: "unat (s_uid s + 1) = unat (s_uid s) + 1" by (simp add: unat_word_ariths)
  from Cons.prems(6) obtain s1 ev where i: "sim_insert ops s (cx_event e) ?t (cx_context e) = Some (s1, ev)"
    "sim_insert_ctx ops s1 es = Some s'" by (auto split: Option.bind_splits)
  from src.insert_inv[OF Cons.prems(1) room tt, of "cx_event e" "cx_context e"] i(1)
  have s1: "s_uid s1 = s_uid s + 1" "s_currentTs s1 = s_currentTs s" by auto
  from insert_rel[OF Cons.prems(1-3) room tt i(1)] obtain t1 where
    t1: "sim_insert ops' t (cx_event e) ?t (cx_context e) = Some (t1, ev)" "rel s1 t1"
      "sim_inv evs ok s1" "sim_inv evs' ok' t1" by blast
  have "unat (s_uid s1) + length es < 2 ^ 32" using Cons.prems(4) uid s1(1) by simp
  then obtain t' where "sim_insert_ctx ops' t1 es = Some t'" "rel s' t'"
    using Cons.IH[OF t1(3,4,2) _ _ i(2)] Cons.prems(5) s1(2) by auto
  with t1(1) show ?case using sim_relD(7)[OF Cons.prems(3)] by auto
qed simp

lemma ctx_rel:
  assumes "sim_inv evs ok s" "sim_inv evs' ok' t" "rel s t" "ctx_fits s"
    "unat (s_uid s) + length (s_eventsWithContext s) < 2 ^ 32"
    and "sim_ProcessEventsWithContext ops s = Some s'"
  shows "\<exists>t'. sim_ProcessEventsWithContext ops' t = Some t' \<and> rel s' t'"
proof (cases "s_eventsWithContextEmpty s")
  case True
  with assms sim_relD[OF assms(3)] show ?thesis by (auto simp: sim_ProcessEventsWithContext_def)
next
  case False
  let ?s = "s\<lparr>s_eventsWithContext := [], s_eventsWithContextEmpty := True\<rparr>"
  let ?t = "t\<lparr>s_eventsWithContext := [], s_eventsWithContextEmpty := True\<rparr>"
  have i: "sim_inv evs ok ?s" "sim_inv evs' ok' ?t" using assms(1,2) by (simp_all add: sim_inv_def)
  from insert_ctx_rel[OF i rel_fields(4)[OF assms(3)], of "s_eventsWithContext s" s'] assms(4-6) False
    sim_relD(1,2)[OF assms(3)] show ?thesis
    by (simp add: sim_ProcessEventsWithContext_def ctx_fits_def)
qed

lemma step_rel:
  assumes st: "sim_step ops evs False s s'" and inv: "sim_inv evs ok s" "sim_inv evs' ok' t" and rel: "rel s t"
  shows "\<exists>t'. sim_step ops' evs' False t t' \<and> rel s' t'"
  using st
proof (cases rule: sim_step.cases)
  case (step_pop e)
  then have ne: "evs (s_events s) \<noteq> {#}" using inv(1) by (simp add: src.sim_IsEmpty)
  from pop_rel[OF inv rel ne step_pop(2)] obtain t' where "sim_pop ops' t = Some (t', e)" "rel s' t'" by blast
  moreover have "\<not> op_IsEmpty ops' (s_events t)"
    using ne inv(2) sim_relD(12)[OF rel] by (simp add: dst.sim_IsEmpty)
  ultimately show ?thesis by (blast intro: sim_step.step_pop)
next
  case (step_exec c)
  with exec_rel[OF inv rel _ step_exec(1)] obtain t' where "sim_exec ops' t c = Some t'" "rel s' t'" by blast
  moreover have "s_uid t \<noteq> - 1" "cmd_ok evs' t c"
    using step_exec sim_relD(5)[OF rel] cmd_ok_rel[OF rel] by simp_all
  ultimately show ?thesis using step_exec(2) by (blast intro: sim_step.step_exec)
next
  case step_ctx
  from ctx_rel[OF inv rel step_ctx] obtain t' where
    t': "sim_ProcessEventsWithContext ops' t = Some t'" "rel s' t'" by blast
  have "ctx_fits t" "unat (s_uid t) + length (s_eventsWithContext t) < 2 ^ 32"
    using step_ctx(1,2) sim_relD[OF rel] by (simp_all add: ctx_fits_def)
  with t' show ?thesis by (blast intro: sim_step.step_ctx)
qed

lemma reach_rel:
  assumes "sim_reach ops evs False s s'" "sim_inv evs ok s" "sim_inv evs' ok' t" "rel s t"
  shows "\<exists>t'. sim_reach ops' evs' False t t' \<and> rel s' t'"
  using assms
proof (induction rule: sim_reach.induct)
  case (reach_refl s)
  then show ?case by (blast intro: sim_reach.reach_refl)
next
  case (reach_step s s' s'')
  then obtain t' where t': "sim_reach ops' evs' False t t'" "rel s' t'" by blast
  from step_rel[OF reach_step(2) _ _ t'(2)] src.reach_inv_noremove[OF reach_step(1)]
    dst.reach_inv_noremove[OF t'(1)] reach_step.prems obtain t'' where
    "sim_step ops' evs' False t' t''" "rel s'' t''" by blast
  with t' show ?case by (blast intro: sim_reach.reach_step)
qed

end

subsection \<open>Two event lists with removal\<close>

text \<open>
  Where both lists delete an event that is in them, the client may use \<open>Remove\<close> as well.
\<close>

lemma sim_step_remove: "sim_step ops evs False s s' \<Longrightarrow> sim_step ops evs rm s s'"
  by (auto elim!: sim_stepE intro: sim_step.intros)

locale two_removable_lists =
  src: timed_removable_event_list ops evs ok q0 + dst: timed_removable_event_list ops' evs' ok' q0'
  for ops :: "'s sched_ops" and evs ok q0 and ops' :: "'t sched_ops" and evs' ok' q0'

sublocale two_removable_lists \<subseteq> two_event_lists ops evs ok q0 ops' evs' ok' q0'
  by unfold_locales

context two_removable_lists begin

lemma remove_rel:
  assumes inv: "sim_inv evs ok s" "sim_inv evs' ok' t" and rel: "rel s t"
    and tr: "id_uid eid = UID_DESTROY \<or> id_tracked evs s eid" and r: "sim_Remove ops s eid = Some s'"
  shows "\<exists>t'. sim_Remove ops' t eid = Some t' \<and> rel s' t'"
proof -
  note d = sim_relD[OF rel]
  consider "id_uid eid = UID_DESTROY" | "id_uid eid \<noteq> UID_DESTROY" "sim_IsExpired s eid"
    | "id_uid eid \<noteq> UID_DESTROY" "\<not> sim_IsExpired s eid" by blast
  then show ?thesis
  proof cases
    case 1
    have upd: "rel (s\<lparr>s_destroyEvents := ds\<rparr>) (t\<lparr>s_destroyEvents := ds\<rparr>)" for ds
      using rel by (cases s; cases t) (simp add: sim_rel_def sim_with_events_def)
    show ?thesis
    proof (cases "erase_first (\<lambda>i. id_eq i eid) (s_destroyEvents s)")
      case None
      then have "sim_Remove ops s eid = Some s" "sim_Remove ops' t eid = Some t"
        using 1 unfolding sim_Remove_def d(3) by (simp_all only: refl option.case if_True)
      with r rel show ?thesis by simp
    next
      case (Some p)
      obtain y ds where "p = (y, ds)" by (cases p)
      with 1 r d(3) Some upd[of ds] show ?thesis by (auto simp: sim_Remove_def)
    qed
  next
    case 2
    with r rel expired_rel[OF rel] show ?thesis by (auto simp: sim_Remove_def)
  next
    case 3
    have tr': "id_uid eid = UID_DESTROY \<or> id_tracked evs' t eid" using tr tracked_rel[OF rel] by simp
    have exp: "\<not> sim_IsExpired t eid" using 3 expired_rel[OF rel] by simp
    from src.Remove_inv[OF inv(1) tr] r 3 have e: "evs (s_events s) = add_mset (id_event eid) (evs (s_events s'))" by auto
    from dst.Remove_inv[OF inv(2) tr'] 3 exp obtain t' where
      t': "sim_Remove ops' t eid = Some t'" "evs' (s_events t) = add_mset (id_event eid) (evs' (s_events t'))" by auto
    from e t'(2) d(12) have "evs' (s_events t') = evs (s_events s')" by simp
    moreover from r t'(1) rel 3 exp d obtain i q q' where i: "id_impl eid = Some i"
      "s' = (impl_Cancel (s\<lparr>s_events := q\<rparr>) (Some i))\<lparr>s_unscheduledEvents := s_unscheduledEvents s - 1\<rparr>"
      "t' = (impl_Cancel (t\<lparr>s_events := q'\<rparr>) (Some i))\<lparr>s_unscheduledEvents := s_unscheduledEvents t - 1\<rparr>"
      by (auto simp: sim_Remove_def Let_def split: Option.bind_splits)
    ultimately have "rel s' t'" using rel
      by (cases s; cases t) (simp add: sim_rel_def sim_with_events_def impl_Cancel_def)
    with t'(1) show ?thesis by blast
  qed
qed

lemma step_rel_remove:
  assumes st: "sim_step ops evs rm s s'" and inv: "sim_inv evs ok s" "sim_inv evs' ok' t" and rel: "rel s t"
  shows "\<exists>t'. sim_step ops' evs' rm t t' \<and> rel s' t'"
proof (cases "sim_step ops evs False s s'")
  case True
  from step_rel[OF this inv rel] show ?thesis by (blast intro: sim_step_remove)
next
  case False
  with st obtain c where c: "cmd_ok evs s c" "cmd_is_Remove c" rm "s_uid s \<noteq> - 1" "sim_exec ops s c = Some s'"
    by (auto elim!: sim_stepE intro: sim_step.intros)
  then obtain eid where eid: "c = CRemove eid" by (cases c) auto
  with c remove_rel[OF inv rel, of eid s'] obtain t' where "sim_exec ops' t c = Some t'" "rel s' t'" by auto
  moreover have "cmd_ok evs' t c" "s_uid t \<noteq> - 1" using c cmd_ok_rel[OF rel] sim_relD(5)[OF rel] by simp_all
  ultimately show ?thesis using c(3) by (blast intro: sim_step.step_exec)
qed

lemma reach_rel_remove:
  assumes "sim_reach ops evs rm s s'" "sim_inv evs ok s" "sim_inv evs' ok' t" "rel s t"
  shows "\<exists>t'. sim_reach ops' evs' rm t t' \<and> rel s' t'"
  using assms
proof (induction rule: sim_reach.induct)
  case (reach_refl s)
  then show ?case by (blast intro: sim_reach.reach_refl)
next
  case (reach_step s s' s'')
  then obtain t' where t': "sim_reach ops' evs' rm t t'" "rel s' t'" by blast
  from step_rel_remove[OF reach_step(2) _ _ t'(2)] src.reach_inv[OF reach_step(1)] dst.reach_inv[OF t'(1)]
    reach_step.prems obtain t'' where "sim_step ops' evs' rm t' t''" "rel s'' t''" by blast
  with t' show ?case by (blast intro: sim_reach.reach_step)
qed

text \<open>A change of the event list followed by a run.\<close>

lemma SetScheduler_run:
  assumes "sim_inv evs ok s" "sim_reach ops evs rm s s'"
  shows "\<exists>t t'. sim_SetScheduler ops ops' q0' s = Some t \<and> rel s t \<and> sim_reach ops' evs' rm t t' \<and> rel s' t'"
proof -
  from SetScheduler_rel[OF assms(1)] obtain t where t: "sim_SetScheduler ops ops' q0' s = Some t" "rel s t"
    "sim_inv evs' ok' t" by blast
  with reach_rel_remove[OF assms(2,1) t(3,2)] show ?thesis by blast
qed

end

text \<open>The pairs of schedulers that occur: the default map scheduler against the others.\<close>

interpretation map_list: two_removable_lists map_ops ms_evs "\<lambda>_. ms_ok" "[]" list_ops mset "\<lambda>_. ls_ok" "[]"
  by unfold_locales

interpretation map_heap: two_event_lists map_ops ms_evs "\<lambda>_. ms_ok" "[]" heap_ops hs_evs "\<lambda>_. heap_ok" hs_init
  by unfold_locales

interpretation map_pq: two_removable_lists map_ops ms_evs "\<lambda>_. ms_ok" "[]" pq_ops mset "\<lambda>_ _. True" "[]"
  by unfold_locales

end
