(* ===== verification/Engine_Properties.thy ===== *)
theory Engine_Properties
  imports Simulator_Runs Simulator_Facts
begin

text \<open>The properties of the event lists and of the simulator engine.\<close>

primrec insert_all :: "'s sched_ops \<Rightarrow> event list \<Rightarrow> 's \<Rightarrow> 's option" where
  "insert_all ops [] s = Some s"
| "insert_all ops (e # es) s = Option.bind (op_Insert ops s e) (insert_all ops es)"

definition ev :: "u64 \<Rightarrow> u32 \<Rightarrow> event" where
  "ev t u = \<lparr>impl = unat u, key = \<lparr>m_ts = t, m_uid = u, m_context = 0\<rparr>\<rparr>"

lemma ev_simps [simp]: "ts (ev t u) = t" "uid (ev t u) = u" "rank (ev t u) = (t, u)"
  by (simp_all add: ev_def)

context event_list begin

lemma insert_all_evs:
  assumes "ok s" "unique_uids (evs s + mset es)"
  shows "\<exists>s'. insert_all ops es s = Some s' \<and> ok s' \<and> evs s' = evs s + mset es"
  using assms
proof (induction es arbitrary: s)
  case (Cons e es)
  from Cons.prems(2) have u: "unique_uids (add_mset e (evs s + mset es))" by simp
  then have fresh: "uid e \<notin> uids (evs s)" by (auto simp: unique_uids_add uids_def)
  have "unique_uids (evs s)"
    using Cons.prems(2) by (rule unique_uids_union)
  from Insert[OF Cons.prems(1) this fresh] obtain s1 where
    s1: "op_Insert ops s e = Some s1" "ok s1" "evs s1 = add_mset e (evs s)" by blast
  with Cons.IH[of s1] u show ?case by auto
qed simp

lemma insert_all_drain:
  assumes "distinct (map uid es)"
  shows "\<exists>s l. insert_all ops es empty = Some s \<and> drain ops (length es) s = Some l \<and> mset l = mset es \<and>
    sorted_wrt (\<lambda>a b. rank a < rank b) l"
proof -
  have u: "unique_uids (evs empty + mset es)" using assms by (simp add: evs_empty unique_uids_mset)
  from insert_all_evs[OF ok_empty u] obtain s where
    s: "insert_all ops es empty = Some s" "ok s" "evs s = mset es" by (auto simp: evs_empty)
  have "unique_uids (evs s)" "size (evs s) \<le> length es" using s(3) assms by (simp_all add: unique_uids_mset)
  from drain_sorted[OF s(2) this] s show ?thesis by auto
qed

end

lemma sorted_rank_unique:
  assumes "sorted_wrt (\<lambda>a b. rank a < rank b) xs" "sorted_wrt (\<lambda>a b. rank a < rank b) ys" "mset xs = mset ys"
  shows "xs = ys"
proof -
  have set: "set xs = set ys" using assms(3) by (rule mset_eq_setD)
  have sorted: "sorted_wrt (<) (map rank xs)" "sorted_wrt (<) (map rank ys)"
    using assms(1,2) by (simp_all add: sorted_wrt_map)
  then have "distinct (map rank xs)" by (simp add: strict_sorted_iff)
  then have inj: "inj_on rank (set xs \<union> set ys)" using set by (simp add: distinct_map)
  have "set (map rank xs) = set (map rank ys)" using set by simp
  then have "map rank xs = map rank ys" using strict_sorted_equal[OF sorted(2,1)] by blast
  then show ?thesis using inj_on_map_eq_map[OF inj] by blast
qed

text \<open>
  C6. The four event lists are interchangeable: whatever events are inserted, with distinct uids
  and in any order, each of them hands the events out in the one order of time stamp and uid.
\<close>

theorem schedulers_agree:
  assumes "distinct (map uid es)"
  shows "\<exists>l. mset l = mset es \<and> sorted_wrt (\<lambda>a b. key_less (key a) (key b)) l \<and>
    Option.bind (insert_all list_ops es []) (drain list_ops (length es)) = Some l \<and>
    Option.bind (insert_all map_ops es []) (drain map_ops (length es)) = Some l \<and>
    Option.bind (insert_all pq_ops es []) (drain pq_ops (length es)) = Some l \<and>
    Option.bind (insert_all heap_ops es hs_init) (drain heap_ops (length es)) = Some l"
proof -
  from list_sched.insert_all_drain[OF assms] obtain s1 l where
    1: "insert_all list_ops es [] = Some s1" "drain list_ops (length es) s1 = Some l" "mset l = mset es"
      "sorted_wrt (\<lambda>a b. rank a < rank b) l" by blast
  from map_sched.insert_all_drain[OF assms] obtain s2 l2 where
    2: "insert_all map_ops es [] = Some s2" "drain map_ops (length es) s2 = Some l2" "mset l2 = mset es"
      "sorted_wrt (\<lambda>a b. rank a < rank b) l2" by blast
  from pq_sched.insert_all_drain[OF assms] obtain s3 l3 where
    3: "insert_all pq_ops es [] = Some s3" "drain pq_ops (length es) s3 = Some l3" "mset l3 = mset es"
      "sorted_wrt (\<lambda>a b. rank a < rank b) l3" by blast
  from heap_sched.insert_all_drain[OF assms] obtain s4 l4 where
    4: "insert_all heap_ops es hs_init = Some s4" "drain heap_ops (length es) s4 = Some l4" "mset l4 = mset es"
      "sorted_wrt (\<lambda>a b. rank a < rank b) l4" by blast
  have "l2 = l" "l3 = l" "l4 = l"
    using sorted_rank_unique[OF 2(4) 1(4)] sorted_rank_unique[OF 3(4) 1(4)] sorted_rank_unique[OF 4(4) 1(4)]
      1(3) 2(3) 3(3) 4(3) by simp_all
  with 1 2 3 4 show ?thesis by (intro exI[of _ l]) simp
qed

definition three_events :: "event list" where
  "three_events = [ev 5 3, ev 2 4, ev 5 1]"

theorem schedulers_agree_witness:
  "\<exists>l. mset l = mset three_events \<and> sorted_wrt (\<lambda>a b. key_less (key a) (key b)) l \<and>
    Option.bind (insert_all heap_ops three_events hs_init) (drain heap_ops (length three_events)) = Some l"
proof -
  have "distinct (map uid three_events)" by (simp add: three_events_def)
  from schedulers_agree[OF this] show ?thesis by blast
qed

text \<open>A concrete run for the witnesses: one event is scheduled 5 steps ahead.\<close>

definition one_event :: "map_sched sim" where
  "one_event = (sim_init [])\<lparr>s_uid := 5, s_unscheduledEvents := 1,
     s_events := [(\<lparr>m_ts = 5, m_uid = 4, m_context = 0xffffffff\<rparr>, 7)]\<rparr>"

definition one_id :: event_id where
  "one_id = \<lparr>id_impl = Some 7, id_ts = 5, id_context = 0xffffffff, id_uid = 4\<rparr>"

lemma one_event_Schedule: "sim_Schedule map_ops (sim_init []) 5 7 = Some (one_event, one_id)"
  by (simp add: sim_Schedule_def sim_init_def one_event_def one_id_def time_IsPositive_def time_add_def sim_insert_def
      map_ops_def ms_Insert_def UID_VALID_def UID_INVALID_def NO_CONTEXT_def)

lemma one_event_reach: "sim_reach map_ops ms_evs True (sim_init []) one_event"
proof -
  have "sim_exec map_ops (sim_init []) (CSchedule 5 7) = Some one_event" by (simp add: one_event_Schedule)
  then have "sim_step map_ops ms_evs True (sim_init []) one_event"
    by (intro sim_step.step_exec[where c = "CSchedule 5 7"]) (simp_all add: sim_init_def UID_VALID_def)
  then show ?thesis by (rule sim_reach.reach_step[OF sim_reach.reach_refl])
qed

lemma one_event_ne: "ms_evs (s_events one_event) \<noteq> {#}"
  by (simp add: one_event_def)

text \<open>
  C7. In every state the engine can reach with the default event list (the map), time never runs
  backwards: the queue holds distinct uids, nothing in it lies in the past, and whenever it is
  not empty the next event is taken without failing the assertion, at a time not before now.
\<close>

theorem engine_never_goes_back:
  assumes "sim_reach map_ops ms_evs True (sim_init []) s"
  shows "unique_uids (ms_evs (s_events s)) \<and> (\<forall>e \<in># ms_evs (s_events s). s_currentTs s \<le> ts e) \<and>
    s_unscheduledEvents s = of_nat (size (ms_evs (s_events s))) \<and>
    (op_IsEmpty map_ops (s_events s) \<or>
      (\<exists>s' e. sim_pop map_ops s = Some (s', e) \<and> e \<in># ms_evs (s_events s) \<and> s_currentTs s \<le> s_currentTs s'))"
proof -
  have inv: "sim_inv ms_evs (\<lambda>_. ms_ok) s" by (rule map_sched.reach_inv[OF assms map_sched.sim_inv_init])
  have "s_currentTs s \<le> ts e" if "e \<in># ms_evs (s_events s)" for e
    using inv that by (force simp: sim_inv_def less_prod_simp)
  moreover have "\<exists>s' e. sim_pop map_ops s = Some (s', e) \<and> e \<in># ms_evs (s_events s) \<and> s_currentTs s \<le> s_currentTs s'"
    if "\<not> op_IsEmpty map_ops (s_events s)"
  proof -
    have ne: "ms_evs (s_events s) \<noteq> {#}" using that inv by (simp add: map_sched.IsEmpty sim_inv_def)
    from map_sched.pop_total[OF inv ne] obtain s' e q where p: "sim_pop map_ops s = Some (s', e)"
      "ms_evs (s_events s) = add_mset e (ms_evs q)" by metis
    with map_sched.pop_inv[OF inv p(1) ne] show ?thesis by (intro exI[of _ s'] exI[of _ e]) simp
  qed
  ultimately show ?thesis using inv unfolding sim_inv_def by blast
qed

theorem engine_never_goes_back_witness:
  "\<exists>s' e. sim_pop map_ops one_event = Some (s', e) \<and> e \<in># ms_evs (s_events one_event) \<and>
    s_currentTs one_event \<le> s_currentTs s'"
proof -
  have "\<not> op_IsEmpty map_ops (s_events one_event)" by (simp add: map_ops_def ms_IsEmpty_def one_event_def)
  with engine_never_goes_back[OF one_event_reach] show ?thesis by blast
qed

text \<open>
  C8. An id returned by \<open>Schedule\<close> can be removed at any later time: \<open>Remove\<close> never fails its
  assertions, the id is expired afterwards, and if it was still pending exactly its event has
  left the list.
\<close>

theorem Remove_later:
  assumes "sim_reach map_ops ms_evs True (sim_init []) s" "s_uid s \<noteq> - 1" "UID_VALID \<le> s_uid s"
    and "sim_Schedule map_ops s d i = Some (s1, eid)" "sim_reach map_ops ms_evs True s1 s2"
  shows "\<exists>s3. sim_Remove map_ops s2 eid = Some s3 \<and> sim_IsExpired s3 eid \<and>
    (if sim_IsExpired s2 eid then s3 = s2
     else ms_evs (s_events s2) = add_mset (id_event eid) (ms_evs (s_events s3)))"
proof -
  have inv: "sim_inv ms_evs (\<lambda>_. ms_ok) s" by (rule map_sched.reach_inv[OF assms(1) map_sched.sim_inv_init])
  from map_sched.Schedule_inv[OF inv assms(2,4)] have inv1: "sim_inv ms_evs (\<lambda>_. ms_ok) s1" by blast
  have "id_tracked ms_evs s1 eid" by (rule map_sched.id_tracked_init[OF inv assms(2,4,3)])
  from map_sched.reach_tracked[OF assms(5) inv1 this] have tr: "id_tracked ms_evs s2 eid" .
  have inv2: "sim_inv ms_evs (\<lambda>_. ms_ok) s2" by (rule map_sched.reach_inv[OF assms(5) inv1])
  have u: "id_uid eid \<noteq> UID_DESTROY" using tr by (simp add: id_tracked_def)
  from map_sched.Remove_inv[OF inv2, of eid] tr u obtain s3 where
    s3: "sim_Remove map_ops s2 eid = Some s3" "sim_IsExpired s3 eid"
    "\<not> sim_IsExpired s2 eid \<longrightarrow> ms_evs (s_events s2) = add_mset (id_event eid) (ms_evs (s_events s3))" by auto
  moreover have "s3 = s2" if "sim_IsExpired s2 eid" using that s3(1) u by (simp add: sim_Remove_def)
  ultimately show ?thesis by auto
qed

theorem Remove_later_witness:
  "\<exists>s3. sim_Remove map_ops one_event one_id = Some s3 \<and> sim_IsExpired s3 one_id"
  using Remove_later[OF sim_reach.reach_refl _ _ one_event_Schedule sim_reach.reach_refl]
  by (auto simp: sim_init_def UID_VALID_def)

text \<open>
  C9. A run whose event bodies at most cancel events or stop the simulation returns: the loop
  ends with the list empty or the stop flag set, every event up to the final time was taken, the
  counters agree, and the consistency assertion at the end of \<open>Run\<close> holds.
\<close>

theorem Run_returns:
  assumes "sim_reach map_ops ms_evs True (sim_init []) s" "passive_body body" "s_eventsWithContextEmpty s"
  shows "\<exists>s'. sim_Run map_ops body s = Some s' \<and>
    (s_stop s' \<or> op_IsEmpty map_ops (s_events s')) \<and> s_currentTs s \<le> s_currentTs s' \<and>
    s_eventCount s' + of_nat (size (ms_evs (s_events s'))) = s_eventCount s + of_nat (size (ms_evs (s_events s))) \<and>
    (\<forall>e \<in># ms_evs (s_events s) - ms_evs (s_events s'). ts e \<le> s_currentTs s')"
proof -
  have inv: "sim_inv ms_evs (\<lambda>_. ms_ok) s" by (rule map_sched.reach_inv[OF assms(1) map_sched.sim_inv_init])
  from map_sched.Run_passive[OF inv assms(2,3)] obtain s' where s': "sim_Run map_ops body s = Some s'"
    "sim_inv ms_evs (\<lambda>_. ms_ok) s'" "s_stop s' \<or> ms_evs (s_events s') = {#}" "s_currentTs s \<le> s_currentTs s'"
    "s_eventCount s' + of_nat (size (ms_evs (s_events s'))) = s_eventCount s + of_nat (size (ms_evs (s_events s)))"
    "\<forall>e \<in># ms_evs (s_events s) - ms_evs (s_events s'). ts e \<le> s_currentTs s'" by blast
  moreover have "op_IsEmpty map_ops (s_events s') \<longleftrightarrow> ms_evs (s_events s') = {#}"
    using s'(2) by (simp add: map_sched.IsEmpty sim_inv_def)
  ultimately show ?thesis by auto
qed

theorem Run_returns_witness:
  "\<exists>s'. sim_Run map_ops (\<lambda>_ _. [CStop]) one_event = Some s' \<and> s_currentTs one_event \<le> s_currentTs s'"
proof -
  have "passive_body (\<lambda>(_ :: nat) (_ :: map_sched sim). [CStop])" "s_eventsWithContextEmpty one_event"
    by (simp_all add: passive_body_def one_event_def sim_init_def)
  from Run_returns[OF one_event_reach this] show ?thesis by blast
qed

text \<open>
  C10. Changing the event list in the middle of a simulation, from the default map to the list or
  to the priority queue, loses nothing: \<open>SetScheduler\<close> succeeds, keeps the pending events and
  every other field, and the simulation continues in lock step with the one that kept its list,
  also when events are removed before or after the change. For the heap the same holds when no
  event is removed after the change (the removal of the heap is defective).
\<close>

theorem SetScheduler_continues:
  assumes "sim_reach map_ops ms_evs True (sim_init []) s" "sim_reach map_ops ms_evs rm s s'"
  shows "(\<exists>t t'. sim_SetScheduler map_ops list_ops [] s = Some t \<and> sim_rel ms_evs mset s t \<and>
      sim_reach list_ops mset rm t t' \<and> sim_rel ms_evs mset s' t') \<and>
    (\<exists>t t'. sim_SetScheduler map_ops pq_ops [] s = Some t \<and> sim_rel ms_evs mset s t \<and>
      sim_reach pq_ops mset rm t t' \<and> sim_rel ms_evs mset s' t') \<and>
    (\<exists>t. sim_SetScheduler map_ops heap_ops hs_init s = Some t \<and> sim_rel ms_evs hs_evs s t \<and>
      (\<not> rm \<longrightarrow> (\<exists>t'. sim_reach heap_ops hs_evs False t t' \<and> sim_rel ms_evs hs_evs s' t')))"
proof -
  have inv: "sim_inv ms_evs (\<lambda>_. ms_ok) s" by (rule map_sched.reach_inv[OF assms(1) map_sched.sim_inv_init])
  from map_heap.SetScheduler_rel[OF inv] obtain t where t: "sim_SetScheduler map_ops heap_ops hs_init s = Some t"
    "sim_rel ms_evs hs_evs s t" "sim_inv hs_evs (\<lambda>_. heap_ok) t" by blast
  have "\<not> rm \<Longrightarrow> \<exists>t'. sim_reach heap_ops hs_evs False t t' \<and> sim_rel ms_evs hs_evs s' t'"
    using map_heap.reach_rel[OF _ inv t(3,2)] assms(2) by simp
  with t map_list.SetScheduler_run[OF inv assms(2)] map_pq.SetScheduler_run[OF inv assms(2)] show ?thesis by blast
qed

theorem SetScheduler_continues_witness:
  "\<exists>s' t t'. sim_Remove map_ops one_event one_id = Some s' \<and> ms_evs (s_events one_event) \<noteq> {#} \<and>
    sim_SetScheduler map_ops list_ops [] one_event = Some t \<and> sim_reach list_ops mset True t t' \<and>
    sim_rel ms_evs mset s' t'"
proof -
  have inv: "sim_inv ms_evs (\<lambda>_. ms_ok) one_event"
    by (rule map_sched.reach_inv[OF one_event_reach map_sched.sim_inv_init])
  have tr: "id_tracked ms_evs one_event one_id"
    by (simp add: id_tracked_def one_id_def one_event_def id_event_def UID_DESTROY_def ms_event_def)
  with map_sched.Remove_inv[OF inv, of one_id] obtain s' where s': "sim_Remove map_ops one_event one_id = Some s'" by auto
  have "sim_step map_ops ms_evs True one_event s'"
    by (rule sim_step.step_exec[where c = "CRemove one_id"]) (use tr s' in \<open>simp_all add: one_event_def\<close>)
  then have "sim_reach map_ops ms_evs True one_event s'" by (rule sim_reach.reach_step[OF sim_reach.reach_refl])
  from SetScheduler_continues[OF one_event_reach this] s' one_event_ne show ?thesis by blast
qed

text \<open>
  Cancelling and expiry: a pending id is reported expired exactly when its event was
  cancelled, and from the moment its event is taken it is expired for good.
\<close>

theorem expiry_means_run_or_cancelled:
  assumes "sim_reach map_ops ms_evs True (sim_init []) s" "id_uid eid \<noteq> UID_DESTROY" "id_impl eid \<noteq> None"
    "id_event eid \<in># ms_evs (s_events s)"
  shows "(sim_IsExpired s eid \<longleftrightarrow> impl_cancelled s (id_impl eid)) \<and> sim_IsExpired (sim_Cancel s eid) eid \<and>
    (\<forall>s' s''. sim_pop map_ops s = Some (s', id_event eid) \<longrightarrow> sim_reach map_ops ms_evs True s' s'' \<longrightarrow> sim_IsExpired s' eid)"
proof -
  have inv: "sim_inv ms_evs (\<lambda>_. ms_ok) s" by (rule map_sched.reach_inv[OF assms(1) map_sched.sim_inv_init])
  have ne: "ms_evs (s_events s) \<noteq> {#}" using assms(4) by auto
  note q = map_sched.queued_not_expired[OF inv assms(4,2,3)]
  have "sim_IsExpired (sim_Cancel s eid) eid"
  proof (cases "sim_IsExpired s eid")
    case False
    have "impl_cancelled (impl_Cancel s (id_impl eid)) (id_impl eid)" using assms(3) by simp
    with False assms(2) show ?thesis by (simp add: sim_Cancel_def sim_IsExpired_def)
  qed (simp add: sim_Cancel_def)
  with q map_sched.popped_expired[OF inv ne _ _ assms(2)] show ?thesis by blast
qed

theorem expiry_means_run_or_cancelled_witness:
  "\<not> sim_IsExpired one_event one_id \<and> sim_IsExpired (sim_Cancel one_event one_id) one_id"
proof -
  have "id_uid one_id \<noteq> UID_DESTROY" "id_impl one_id \<noteq> None" "id_event one_id \<in># ms_evs (s_events one_event)"
    "\<not> impl_cancelled one_event (id_impl one_id)"
    by (simp_all add: one_id_def one_event_def id_event_def UID_DESTROY_def ms_event_def impl_cancelled_def sim_init_def)
  with expiry_means_run_or_cancelled[OF one_event_reach this(1-3)] show ?thesis by blast
qed

primrec script :: "'s sched_ops \<Rightarrow> sim_cmd option list \<Rightarrow> 's sim \<Rightarrow> 's sim option" where
  "script ops [] s = Some s"
| "script ops (c # cs) s = Option.bind
     (case c of None \<Rightarrow> map_option fst (sim_pop ops s) | Some c \<Rightarrow> sim_exec ops s c) (script ops cs)"

definition remove_script :: "sim_cmd option list" where
  "remove_script = [Some (CSchedule 1 1), Some (CSchedule 10 2), Some (CSchedule 2 3), Some (CSchedule 11 4),
     Some (CSchedule 12 5), Some (CSchedule 20 6), Some (CSchedule 4 7),
     Some (CRemove \<lparr>id_impl = Some 4, id_ts = 11, id_context = 0xffffffff, id_uid = 7\<rparr>), None, None, None]"

text \<open>
  C13. \<open>HeapScheduler::Remove\<close> deletes the requested event but only sifts the moved event down,
  so it can break the heap order: after seven insertions and one removal the event at time 10
  comes out before the one at time 4, and a simulation over the heap stops at the engine's
  assertion in a state the other event lists get past.
\<close>

theorem heap_Remove_breaks_order:
  "map_option (\<lambda>s. (op_IsEmpty heap_ops (s_events s), s_currentTs s, map_option snd (sim_pop heap_ops s)))
     (script heap_ops remove_script (sim_init hs_init)) = Some (False, 10, None) \<and>
   map_option (\<lambda>s. (op_IsEmpty map_ops (s_events s), s_currentTs s, map_option (ts \<circ> snd) (sim_pop map_ops s)))
     (script map_ops remove_script (sim_init [])) = Some (False, 4, Some 10) \<and>
   (\<forall>h e. heap_ok h \<longrightarrow> unique_uids (hs_evs h) \<longrightarrow> e \<in># hs_evs h \<longrightarrow>
      (\<exists>h'. hs_Remove h e = Some h' \<and> hs_evs h = add_mset e (hs_evs h')))"
proof (intro conjI allI impI)
  show "map_option (\<lambda>s. (op_IsEmpty heap_ops (s_events s), s_currentTs s, map_option snd (sim_pop heap_ops s)))
     (script heap_ops remove_script (sim_init hs_init)) = Some (False, 10, None)" by code_simp
  show "map_option (\<lambda>s. (op_IsEmpty map_ops (s_events s), s_currentTs s, map_option (ts \<circ> snd) (sim_pop map_ops s)))
     (script map_ops remove_script (sim_init [])) = Some (False, 4, Some 10)" by code_simp
next
  fix h e assume "heap_ok h" "unique_uids (hs_evs h)" "e \<in># hs_evs h"
  then show "\<exists>h'. hs_Remove h e = Some h' \<and> hs_evs h = add_mset e (hs_evs h')"
    by (intro Remove_evs) (auto simp: heap_ok_def)
qed

theorem heap_Remove_breaks_order_witness:
  "(\<exists>h'. hs_Remove (hs_Insert hs_init (ev 3 1)) (ev 3 1) = Some h' \<and>
     hs_evs (hs_Insert hs_init (ev 3 1)) = add_mset (ev 3 1) (hs_evs h'))"
proof -
  have h: "hs_Insert hs_init (ev 3 1) = hs_init @ [ev 3 1]"
    by (simp add: hs_Insert_def hs_BottomUp_def hs_init_def hs_up.simps hs_index_defs)
  have "heap_ok (hs_Insert hs_init (ev 3 1))" using Insert_heap[of hs_init] by (simp add: heap_ok_def hs_init_def)
  moreover have "unique_uids (hs_evs (hs_init @ [ev 3 1]))" "ev 3 1 \<in># hs_evs (hs_init @ [ev 3 1])"
    by (simp_all add: hs_init_def unique_uids_add)
  ultimately show ?thesis using heap_Remove_breaks_order unfolding h by blast
qed

end
