(* ===== verification/Ieee_Double.thy ===== *)
theory Ieee_Double
  imports Complex_Main Ns3_Prelude
begin

text \<open>
  The \<open>double\<close> arithmetic of the MoE schedulers, as exact rationals that are rounded after
  every operation: \<open>dbl\<close> is round to nearest, ties to even, with the 53-bit significand of
  IEEE 754 binary64. The exponent range is not bounded here (the slot times, byte counts and
  probabilities of the sources are far inside it), so there are no infinities, NaNs or
  subnormals. The casts to unsigned integers truncate and are undefined behaviour (\<open>None\<close>) out
  of range.
\<close>

function int_bits :: "int \<Rightarrow> int" where
  "int_bits n = (if n \<le> 0 then 0 else 1 + int_bits (n div 2))"
  by auto

termination by (relation "measure nat") auto

declare int_bits.simps [simp del]

definition pow2 :: "int \<Rightarrow> rat" where
  "pow2 e = (if 0 \<le> e then 2 ^ nat e else 1 / 2 ^ nat (- e))"

definition dbl_exponent :: "rat \<Rightarrow> int" where
  "dbl_exponent x = (let (n, d) = quotient_of x;
     e = int_bits n - int_bits d in if pow2 e \<le> x then e else e - 1)"

definition round_half_even :: "rat \<Rightarrow> int" where
  "round_half_even y = (let f = \<lfloor>y\<rfloor>; r = y - of_int f in
     if r < 1 / 2 then f else if 1 / 2 < r then f + 1 else if even f then f else f + 1)"

definition dbl :: "rat \<Rightarrow> rat" where
  "dbl x = (if x = 0 then 0 else
     (let e = dbl_exponent \<bar>x\<bar> in
       sgn x * (of_int (round_half_even (\<bar>x\<bar> * pow2 (52 - e))) * pow2 (e - 52))))"

definition cast_uint :: "nat \<Rightarrow> rat \<Rightarrow> nat option" where
  "cast_uint w x = (if - 1 < x \<and> x < 2 ^ w then Some (nat \<lfloor>x\<rfloor>) else None)"

lemma pow2_pos [simp]: "0 < pow2 e"
  by (simp add: pow2_def)

lemma pow2_inverse: "pow2 e * pow2 (- e) = 1"
  by (auto simp: pow2_def)

lemma pow2_nat: "0 \<le> e \<Longrightarrow> pow2 e = of_nat (2 ^ nat e)"
  by (simp add: pow2_def)

lemma round_half_even_of_int [simp]: "round_half_even (of_int i) = i"
  by (simp add: round_half_even_def)

lemma round_half_even_nonneg: "0 \<le> y \<Longrightarrow> 0 \<le> round_half_even y"
  by (auto simp: round_half_even_def Let_def)

lemma dbl_0 [simp]: "dbl 0 = 0"
  by (simp add: dbl_def)

lemma dbl_nonneg: "0 \<le> x \<Longrightarrow> 0 \<le> dbl x"
  by (auto simp: dbl_def Let_def round_half_even_nonneg less_imp_le)

lemma int_bits_le: "n < 2 ^ k \<Longrightarrow> int_bits n \<le> int k"
proof (induction k arbitrary: n)
  case 0
  then show ?case by (subst int_bits.simps) simp
next
  case (Suc k)
  then have "int_bits (n div 2) \<le> int k" by simp
  then show ?case by (subst int_bits.simps) simp
qed

lemma int_bits_1 [simp]: "int_bits 1 = 1"
  by (subst int_bits.simps) (simp add: int_bits.simps[of 0])

text \<open>For the evaluation of a concrete rounding: the exponent is computed on its own.\<close>

lemma dbl_eval:
  "dbl_exponent x = e \<Longrightarrow> round_half_even (x * pow2 (52 - e)) = m \<Longrightarrow> 0 < x \<Longrightarrow>
    dbl x = of_int m * pow2 (e - 52)"
  by (simp add: dbl_def Let_def)

text \<open>Integers of up to 53 bits are doubles.\<close>

lemma dbl_of_nat:
  assumes "n < 2 ^ 53"
  shows "dbl (of_nat n) = of_nat n"
proof (cases "n = 0")
  case False
  let ?e = "dbl_exponent (of_nat n)"
  have "quotient_of (of_nat n) = (int n, 1)"
    using quotient_of_int[of "int n"] by simp
  then have "?e \<le> int_bits (int n) - 1" by (auto simp: dbl_exponent_def Let_def)
  moreover have "int n < 2 ^ 53" using assms by (metis of_nat_less_iff of_nat_numeral of_nat_power)
  then have "int_bits (int n) \<le> 53" using int_bits_le[of "int n" 53] by simp
  ultimately have e: "0 \<le> 52 - ?e" by simp
  have "of_nat n * pow2 (52 - ?e) = of_int (int (n * 2 ^ nat (52 - ?e)))"
    using pow2_nat[OF e] by simp
  then have "of_int (round_half_even (of_nat n * pow2 (52 - ?e))) = (of_nat n * pow2 (52 - ?e) :: rat)"
    by (metis round_half_even_of_int)
  then show ?thesis using False pow2_inverse[of "52 - ?e"] by (simp add: dbl_def Let_def)
qed simp

end
