(* ===== verification/Moe_Tasks.thy ===== *)
theory Moe_Tasks
  imports Ieee_Double "HOL-Library.AList"
begin

text \<open>
  The MoE workload and the simple schedulers of \<open>scratch/moe-jit/moe-jit.h\<close>. Ranks
  (\<open>MPIRankIDType\<close>), byte counts and slot numbers are natural numbers with the wrap-around of
  their C++ types written out; times are \<open>double\<close> seconds (\<^theory_text>\<open>Ieee_Double\<close>). An
  \<open>unordered_map\<close> is an association list: its order stands for the unspecified iteration order.
  A draw of the \<open>UniformRandomVariable\<close> is an argument.
\<close>

type_synonym rank = nat
type_synonym seconds = rat

record moe_task =
  taskId :: nat
  startTime :: seconds
  sendFlows :: "(rank \<times> nat) list"
  expectedRecvFlows :: "(rank \<times> nat) list"
  computationTime :: seconds
  dependencies :: "nat list"
  groupSize :: nat

definition GetTotalBytes :: "moe_task \<Rightarrow> nat" where
  "GetTotalBytes t = foldl (\<lambda>total p. u64_add total (snd p)) 0 (sendFlows t)"

definition GetLocalDemand :: "moe_task \<Rightarrow> nat" where
  "GetLocalDemand t = GetTotalBytes t"

definition base_Schedule :: "moe_task list \<Rightarrow> moe_task list" where
  "base_Schedule tasks = tasks"

definition base_CheckAdmission :: "rank \<Rightarrow> moe_task \<Rightarrow> bool" where
  "base_CheckAdmission rk t = True"

definition base_GetBackoffTime :: seconds where
  "base_GetBackoffTime = 0"

definition SJF_Schedule :: "moe_task list \<Rightarrow> moe_task list" where
  "SJF_Schedule tasks = sort_by (\<lambda>a b. GetTotalBytes a < GetTotalBytes b) tasks"

definition FCFS_Schedule :: "moe_task list \<Rightarrow> moe_task list" where
  "FCFS_Schedule tasks = sort_by (\<lambda>a b. startTime a < startTime b) tasks"

definition DistributedAdmission_Schedule :: "moe_task list \<Rightarrow> moe_task list" where
  "DistributedAdmission_Schedule tasks = sort_by (\<lambda>a b. startTime a < startTime b) tasks"

definition admissionProb :: "nat \<Rightarrow> rat" where
  "admissionProb demand = (let Dr = dbl (of_nat demand); alpha = dbl (1 / 10 ^ 6) in
     dbl (dbl (8 / 10) / dbl (1 + dbl (alpha * Dr))))"

definition DistributedAdmission_CheckAdmission :: "rat \<Rightarrow> rank \<Rightarrow> moe_task \<Rightarrow> bool" where
  "DistributedAdmission_CheckAdmission roll rk t \<longleftrightarrow> roll < admissionProb (GetLocalDemand t)"

record fixed_prob =
  m_prob :: rat
  m_backoffTimeSeconds :: seconds

definition FixedProb_Schedule :: "moe_task list \<Rightarrow> moe_task list" where
  "FixedProb_Schedule tasks = sort_by (\<lambda>a b. startTime a < startTime b) tasks"

definition FixedProb_CheckAdmission :: "rat \<Rightarrow> fixed_prob \<Rightarrow> rank \<Rightarrow> moe_task \<Rightarrow> bool" where
  "FixedProb_CheckAdmission roll s rk t \<longleftrightarrow> roll < m_prob s"

definition FixedProb_GetBackoffTime :: "fixed_prob \<Rightarrow> seconds" where
  "FixedProb_GetBackoffTime s = m_backoffTimeSeconds s"

lemma GetTotalBytes_less: "GetTotalBytes t < 2 ^ 64"
proof -
  have "foldl (\<lambda>total p. u64_add total (snd p)) z (fs :: (rank \<times> nat) list) < 2 ^ 64" if "z < 2 ^ 64" for z fs
    using that by (induction fs arbitrary: z) simp_all
  from this[of 0] show ?thesis by (simp add: GetTotalBytes_def)
qed

lemma foldl_u64_exact:
  "z + (\<Sum>p\<leftarrow>fs. snd p) < 2 ^ 64 \<Longrightarrow> foldl (\<lambda>total p. u64_add total (snd p)) z fs = z + (\<Sum>p\<leftarrow>fs. snd p)"
  by (induction fs arbitrary: z) (simp_all add: add.assoc)

text \<open>As long as the volumes fit 64 bits the total is their sum, whatever the iteration order.\<close>

lemma GetTotalBytes_sum: "(\<Sum>p\<leftarrow>sendFlows t. snd p) < 2 ^ 64 \<Longrightarrow> GetTotalBytes t = (\<Sum>p\<leftarrow>sendFlows t. snd p)"
  by (simp add: GetTotalBytes_def foldl_u64_exact)

end
