(* ===== verification/First_Fit.thy ===== *)
theory First_Fit
  imports Ns3_Prelude
begin

text \<open>
  The slot search all MoE schedulers share: starting at a slot, look for the first position at
  which a run of \<open>span\<close> consecutive slots has room; when a slot inside the window is full, the
  loop jumps behind it instead of advancing by one. The locale states what the window check
  promises; the lemma says that the jumping loop finds the same position as the plain search.
\<close>

definition window_ok :: "(nat \<Rightarrow> bool) \<Rightarrow> nat \<Rightarrow> nat \<Rightarrow> bool" where
  "window_ok ok span t \<longleftrightarrow> (\<forall>i \<in> set [t..<t + span]. ok i)"

text \<open>The reference search: the least start in \<open>[lo, hi)\<close> whose window has room.\<close>

definition first_fit :: "(nat \<Rightarrow> bool) \<Rightarrow> nat \<Rightarrow> nat \<Rightarrow> nat \<Rightarrow> nat option" where
  "first_fit ok span lo hi = find (window_ok ok span) [lo..<hi]"

lemma window_ok_iff: "window_ok ok span t \<longleftrightarrow> (\<forall>i. t \<le> i \<longrightarrow> i < t + span \<longrightarrow> ok i)"
  by (auto simp: window_ok_def)

lemma first_fit_empty: "hi \<le> lo \<Longrightarrow> first_fit ok span lo hi = None"
  by (simp add: first_fit_def)

lemma first_fit_hit: "lo < hi \<Longrightarrow> window_ok ok span lo \<Longrightarrow> first_fit ok span lo hi = Some lo"
  by (simp add: first_fit_def upt_conv_Cons)

lemma first_fit_miss:
  "lo < hi \<Longrightarrow> \<not> window_ok ok span lo \<Longrightarrow> first_fit ok span lo hi = first_fit ok span (Suc lo) hi"
  by (simp add: first_fit_def upt_conv_Cons)

text \<open>No window that contains a full slot fits: the jump loses nothing.\<close>

lemma first_fit_jump:
  assumes "\<not> ok f" "lo \<le> f" "f < lo + span"
  shows "first_fit ok span lo hi = first_fit ok span (Suc f) hi"
  using assms(2,3)
proof (induction "f - lo" arbitrary: lo)
  case 0
  then have "lo = f" by simp
  moreover from this assms(1) 0 have "\<not> window_ok ok span lo" by (auto simp: window_ok_iff)
  ultimately show ?case
    by (cases "f < hi") (simp_all add: first_fit_miss first_fit_empty)
next
  case (Suc n)
  have bad: "\<not> window_ok ok span lo" using assms(1) Suc.prems by (auto simp: window_ok_iff)
  have "n = f - Suc lo" "Suc lo \<le> f" "f < Suc lo + span" using Suc by auto
  then have "first_fit ok span (Suc lo) hi = first_fit ok span (Suc f) hi" by (rule Suc.hyps(1))
  with bad show ?case
    by (cases "lo < hi") (simp_all add: first_fit_miss first_fit_empty)
qed

lemma first_fit_Some:
  assumes "first_fit ok span lo hi = Some t"
  shows "lo \<le> t" "t < hi" "window_ok ok span t" "\<And>u. lo \<le> u \<Longrightarrow> u < t \<Longrightarrow> \<not> window_ok ok span u"
proof -
  from assms obtain i where i: "i < length [lo..<hi]" "window_ok ok span ([lo..<hi] ! i)" "t = [lo..<hi] ! i"
    "\<forall>j < i. \<not> window_ok ok span ([lo..<hi] ! j)"
    unfolding first_fit_def find_Some_iff by blast
  then show "lo \<le> t" "t < hi" "window_ok ok span t" by auto
  fix u assume u: "lo \<le> u" "u < t"
  then have "u - lo < i" using i(1,3) by simp
  with i(4) have "\<not> window_ok ok span ([lo..<hi] ! (u - lo))" by blast
  then show "\<not> window_ok ok span u" using u i by simp
qed

lemma first_fit_None:
  "first_fit ok span lo hi = None \<longleftrightarrow> (\<forall>t. lo \<le> t \<longrightarrow> t < hi \<longrightarrow> \<not> window_ok ok span t)"
  by (auto simp: first_fit_def find_None_iff)

text \<open>
  The contract of a window check over a ledger \<open>'l\<close>: it returns the first full slot or that
  the window fits, and may touch the ledger (a lookup that inserts defaults) without changing
  which slots have room.
\<close>

locale window_check =
  fixes check :: "'l \<Rightarrow> nat \<Rightarrow> (nat option \<times> 'l) option"
    and room :: "'l \<Rightarrow> nat \<Rightarrow> bool" and inv :: "'l \<Rightarrow> bool" and span :: nat and bound :: nat
  assumes check: "inv l \<Longrightarrow> t + span < bound \<Longrightarrow>
      \<exists>f l'. check l t = Some (f, l') \<and> inv l' \<and> (\<forall>i. room l' i = room l i) \<and>
        (case f of None \<Rightarrow> window_ok (room l) span t
         | Some i \<Rightarrow> t \<le> i \<and> i < t + span \<and> \<not> room l i)"

text \<open>
  The loop itself: \<open>for (t = lo; t < hi; ++t)\<close> with an early \<open>break\<close> (\<open>stop\<close>), the window
  check, and the assignment \<open>t = failSlot\<close> before the increment (\<open>nxt\<close>, at the width of the
  loop variable).
\<close>

partial_function (option) jump_search ::
  "('l \<Rightarrow> nat \<Rightarrow> (nat option \<times> 'l) option) \<Rightarrow> (nat \<Rightarrow> bool) \<Rightarrow> (nat \<Rightarrow> nat) \<Rightarrow> 'l \<Rightarrow> nat \<Rightarrow> nat \<Rightarrow>
    (nat option \<times> 'l) option" where
  "jump_search check stop nxt l t hi =
     (if t < hi then
        (if stop t then Some (None, l)
         else Option.bind (check l t) (\<lambda>(f, l').
           case f of None \<Rightarrow> Some (Some t, l')
           | Some failSlot \<Rightarrow> jump_search check stop nxt l' (nxt failSlot) hi))
      else Some (None, l))"

declare jump_search.simps [code]

context window_check begin

lemma jump_search_first_fit:
  assumes "inv l"
    and "\<And>t. t < hi \<Longrightarrow> stop t \<longleftrightarrow> bound \<le> t + span"
    and "\<And>i. i < bound \<Longrightarrow> nxt i = Suc i"
  shows "\<exists>l'. jump_search check stop nxt l lo hi = Some (first_fit (room l) span lo (min hi (bound - span)), l') \<and>
    inv l' \<and> (\<forall>i. room l' i = room l i) \<and>
    (\<forall>t. first_fit (room l) span lo (min hi (bound - span)) = Some t \<longrightarrow>
      (\<exists>l0. inv l0 \<and> check l0 t = Some (None, l')))"
  using assms(1)
proof (induction "hi - lo" arbitrary: l lo rule: less_induct)
  case less
  show ?case
  proof (cases "lo < hi \<and> lo + span < bound")
    case False
    then have "jump_search check stop nxt l lo hi = Some (None, l)"
      using assms(2) by (subst jump_search.simps) auto
    moreover have "min hi (bound - span) \<le> lo" using False by auto
    ultimately show ?thesis using less.prems by (simp add: first_fit_empty)
  next
    case True
    then have st: "\<not> stop lo" using assms(2) by auto
    from check[OF less.prems] True obtain f l' where c: "check l lo = Some (f, l')" "inv l'"
      "\<And>i. room l' i = room l i" "case f of None \<Rightarrow> window_ok (room l) span lo
         | Some i \<Rightarrow> lo \<le> i \<and> i < lo + span \<and> \<not> room l i" by blast
    have room: "room l' = room l" using c(3) by (rule ext)
    show ?thesis
    proof (cases f)
      case None
      then have "first_fit (room l) span lo (min hi (bound - span)) = Some lo"
        using c(4) True by (intro first_fit_hit) auto
      moreover have "jump_search check stop nxt l lo hi = Some (Some lo, l')"
        using True st c(1) None by (subst jump_search.simps) simp
      ultimately show ?thesis using c(1-3) None less.prems by auto
    next
      case (Some i)
      then have i: "lo \<le> i" "i < lo + span" "\<not> room l i" using c(4) by auto
      then have n: "nxt i = Suc i" using assms(3) True by simp
      have "hi - Suc i < hi - lo" using i True by linarith
      from less.hyps[OF this c(2)] obtain l'' where l'':
        "jump_search check stop nxt l' (Suc i) hi =
          Some (first_fit (room l) span (Suc i) (min hi (bound - span)), l'')" "inv l''"
        "\<forall>j. room l'' j = room l j"
        "\<forall>t. first_fit (room l) span (Suc i) (min hi (bound - span)) = Some t \<longrightarrow>
          (\<exists>l0. inv l0 \<and> check l0 t = Some (None, l''))" by (auto simp: room)
      have "jump_search check stop nxt l lo hi = jump_search check stop nxt l' (Suc i) hi"
        using True st c(1) Some n by (subst jump_search.simps) simp
      with l'' first_fit_jump[of "room l" i lo span, OF i(3,1,2)] show ?thesis by auto
    qed
  qed
qed

end

end
