(* ===== verification/Moe_Central.thy ===== *)
theory Moe_Central
  imports Moe_Tasks First_Fit
begin

text \<open>
  \<open>CentralizedAdmissionScheduler\<close> of \<open>scratch/moe-jit/moe-jit.h\<close>: a pool of reported tasks and
  a ledger of the capacity left in every future slot, globally and per rank. \<open>CheckAdmission\<close>
  records a rank's report and, once the quorum of a task is complete, \<open>RunScheduling\<close> grants
  the pending tasks a run of slots each, smallest bottleneck first.
\<close>

record task_state =
  ts_taskId :: nat
  readyTimes :: "(rank \<times> seconds) list"
  b_ir :: "(rank \<times> nat) list"
  d_i :: nat
  t_seen :: seconds
  scheduled :: bool
  allowedTime :: seconds
  ts_b :: nat
  span :: nat
  ts_groupSize :: nat

type_synonym slot_caps = "(rank \<times> nat) list"

record central =
  m_deltaT :: seconds
  m_B_NIC :: nat
  m_T :: nat
  m_globalNodes :: nat
  m_Rslot :: nat
  m_scaleFactor :: rat
  m_globalLimit :: nat
  m_rankLimit :: nat
  m_pool :: "(nat \<times> task_state) list"
  m_lastRunTime :: seconds
  m_globalCap :: "nat list"
  m_rankCap :: "slot_caps list"

definition ResetCapacity :: "central \<Rightarrow> central" where
  "ResetCapacity s = s\<lparr>m_globalCap := map (\<lambda>_. m_globalLimit s) (m_globalCap s),
     m_rankCap := map (\<lambda>_. []) (m_rankCap s)\<rparr>"

text \<open>The constructor; a literal \<open>x * 0.05\<close> multiplies with the double nearest to 0.05.\<close>

definition central_init :: "rat \<Rightarrow> nat \<Rightarrow> central option" where
  "central_init scale nodes = do {
     let dT = dbl (1 / 10 ^ 5);
     bnic \<leftarrow> cast_uint 64 (dbl (dbl (of_nat 100000000000) * scale));
     let totalCoreLinks = 16 * 4;
     let perSlotPerLink = dbl (dbl (dbl (of_nat bnic) / 8) * dT);
     glim \<leftarrow> cast_uint 64 (dbl (dbl (perSlotPerLink * totalCoreLinks) * dbl (5 / 100)));
     rlim \<leftarrow> cast_uint 64 (dbl (dbl (dbl (dbl (of_nat bnic) / 8) * dT) * dbl (1 / 10)));
     let rslot = rlim mod 2 ^ 32;
     Some (ResetCapacity
       \<lparr>m_deltaT = dT, m_B_NIC = bnic, m_T = 100000, m_globalNodes = nodes,
        m_Rslot = (if rslot = 0 then 1 else rslot), m_scaleFactor = scale,
        m_globalLimit = (if glim = 0 then 1 else glim), m_rankLimit = rlim,
        m_pool = [], m_lastRunTime = - 1,
        m_globalCap = replicate (100000 + 20000) 0, m_rankCap = replicate (100000 + 20000) []\<rparr>)
   }"

subsection \<open>The ledger\<close>

text \<open>
  The two nested loops of the capacity check. The inner one inserts the limit for a rank the
  slot has not seen yet, also when the check fails later.
\<close>

fun check_ranks :: "nat \<Rightarrow> nat \<Rightarrow> (rank \<times> nat) list \<Rightarrow> slot_caps \<Rightarrow> bool \<times> slot_caps" where
  "check_ranks limit sp [] m = (True, m)"
| "check_ranks limit sp ((r, b) # rs) m =
     (let m' = (if map_of m r = None then AList.update r limit m else m)
      in if the (map_of m' r) < b div sp then (False, m') else check_ranks limit sp rs m')"

fun check_slots :: "nat \<Rightarrow> nat \<Rightarrow> nat \<Rightarrow> (rank \<times> nat) list \<Rightarrow> nat list \<Rightarrow> nat list \<Rightarrow> slot_caps list \<Rightarrow>
    (nat option \<times> slot_caps list) option" where
  "check_slots limit d sp bs gcap [] rcap = Some (None, rcap)"
| "check_slots limit d sp bs gcap (fut # futs) rcap =
     (if length gcap \<le> fut then None
      else if gcap ! fut < d div sp then Some (Some fut, rcap)
      else if length rcap \<le> fut then None
      else (let (ok, m) = check_ranks limit sp bs (rcap ! fut); rcap' = rcap[fut := m]
            in if ok then check_slots limit d sp bs gcap futs rcap' else Some (Some fut, rcap')))"

definition check_window :: "nat \<Rightarrow> nat \<Rightarrow> nat \<Rightarrow> (rank \<times> nat) list \<Rightarrow> nat list \<Rightarrow> slot_caps list \<Rightarrow> nat \<Rightarrow>
    (nat option \<times> slot_caps list) option" where
  "check_window limit d sp bs gcap rcap t = check_slots limit d sp bs gcap (map (u32_add t) [0..<sp]) rcap"

definition rank_cap :: "slot_caps \<Rightarrow> rank \<Rightarrow> nat" where
  "rank_cap m r = (case map_of m r of None \<Rightarrow> 0 | Some c \<Rightarrow> c)"

definition deduct_ranks :: "nat \<Rightarrow> (rank \<times> nat) list \<Rightarrow> slot_caps \<Rightarrow> slot_caps" where
  "deduct_ranks sp bs m = foldl (\<lambda>m (r, b). AList.update r (u64_sub (rank_cap m r) (b div sp)) m) m bs"

fun deduct_slots :: "nat \<Rightarrow> nat \<Rightarrow> (rank \<times> nat) list \<Rightarrow> nat list \<Rightarrow> nat list \<times> slot_caps list \<Rightarrow>
    (nat list \<times> slot_caps list) option" where
  "deduct_slots d sp bs [] l = Some l"
| "deduct_slots d sp bs (fut # futs) (gcap, rcap) =
     (if length gcap \<le> fut \<or> length rcap \<le> fut then None
      else deduct_slots d sp bs futs (gcap[fut := u64_sub (gcap ! fut) (d div sp)],
             rcap[fut := deduct_ranks sp bs (rcap ! fut)]))"

subsection \<open>RunScheduling\<close>

definition resize :: "nat \<Rightarrow> 'a \<Rightarrow> 'a list \<Rightarrow> 'a list" where
  "resize n x xs = take n xs @ replicate (n - length xs) x"

definition targetQuorum :: "central \<Rightarrow> task_state \<Rightarrow> nat" where
  "targetQuorum s ts = (if 0 < ts_groupSize ts then ts_groupSize ts else m_globalNodes s)"

definition quorum :: "central \<Rightarrow> task_state \<Rightarrow> bool" where
  "quorum s ts \<longleftrightarrow> targetQuorum s ts \<le> length (readyTimes ts)"

definition pool_set :: "nat \<Rightarrow> task_state \<Rightarrow> central \<Rightarrow> central" where
  "pool_set tid ts s = s\<lparr>m_pool := AList.update tid ts (m_pool s)\<rparr>"

definition span_of :: "nat \<Rightarrow> nat \<Rightarrow> nat" where
  "span_of d rslot = (let sp = (u64_sub (u64_add d rslot) 1 div rslot) mod 2 ^ 32 in if sp = 0 then 1 else sp)"

definition search_horizon :: "nat \<Rightarrow> nat \<Rightarrow> nat" where
  "search_horizon T sp = (if sp < T then T else u32_add sp 100)"

definition grow_ledger :: "nat \<Rightarrow> nat \<Rightarrow> central \<Rightarrow> central" where
  "grow_ledger startSlot sp s =
     (let needed = u32_add (u32_add (u32_add startSlot (search_horizon (m_T s) sp)) sp) 1000
      in if length (m_globalCap s) < needed
         then s\<lparr>m_globalCap := resize needed (m_globalLimit s) (m_globalCap s),
                m_rankCap := resize needed [] (m_rankCap s)\<rparr>
         else s)"

definition schedule_task :: "nat \<Rightarrow> nat \<Rightarrow> central \<Rightarrow> central option" where
  "schedule_task startSlot tid s0 = do {
     task0 \<leftarrow> map_of (m_pool s0) tid;
     if m_Rslot s0 = 0 then None else do {
     let sp = span_of (d_i task0) (m_Rslot s0);
     let task = task0\<lparr>span := sp\<rparr>;
     let s = grow_ledger startSlot sp (pool_set tid task s0);
     (found, rcap) \<leftarrow> jump_search
        (check_window (m_rankLimit s) (d_i task) sp (b_ir task) (m_globalCap s))
        (\<lambda>t. length (m_globalCap s) \<le> u32_add t sp) (\<lambda>f. u32_add f 1)
        (m_rankCap s) startSlot (u32_add startSlot (search_horizon (m_T s) sp));
     case found of
       None \<Rightarrow> Some (s\<lparr>m_rankCap := rcap\<rparr>)
     | Some t \<Rightarrow> do {
         (gcap, rcap') \<leftarrow> deduct_slots (d_i task) sp (b_ir task) (map (u32_add t) [0..<sp]) (m_globalCap s, rcap);
         Some (pool_set tid (task\<lparr>scheduled := True, allowedTime := dbl (of_nat t * m_deltaT s)\<rparr>)
                (s\<lparr>m_globalCap := gcap, m_rankCap := rcap'\<rparr>))
       }
   }}"

primrec schedule_tasks :: "nat \<Rightarrow> nat list \<Rightarrow> central \<Rightarrow> central option" where
  "schedule_tasks startSlot [] s = Some s"
| "schedule_tasks startSlot (tid # tids) s =
     Option.bind (schedule_task startSlot tid s) (schedule_tasks startSlot tids)"

definition pendingTasks :: "central \<Rightarrow> nat list" where
  "pendingTasks s = map fst (filter (\<lambda>(tid, ts). \<not> scheduled ts \<and> quorum s ts) (m_pool s))"

definition sjf_less :: "(nat \<times> task_state) list \<Rightarrow> nat \<Rightarrow> nat \<Rightarrow> bool" where
  "sjf_less pool a b = (let x = the (map_of pool a); y = the (map_of pool b) in
     if d_i x \<noteq> d_i y then d_i x < d_i y else t_seen x < t_seen y)"

definition RunScheduling :: "seconds \<Rightarrow> central \<Rightarrow> central option" where
  "RunScheduling now s =
     (let pending = pendingTasks s in
      if pending = [] then Some s
      else do {
        currentSlotIdx \<leftarrow> cast_uint 32 (dbl (now / m_deltaT s));
        schedule_tasks currentSlotIdx (sort_by (sjf_less (m_pool s)) pending) s
      })"

subsection \<open>CheckAdmission\<close>

definition new_task_state :: "seconds \<Rightarrow> nat \<Rightarrow> moe_task \<Rightarrow> task_state" where
  "new_task_state now rslot t = \<lparr>ts_taskId = taskId t, readyTimes = [], b_ir = [], d_i = 0, t_seen = now,
     scheduled = False, allowedTime = - 1, ts_b = GetTotalBytes t,
     span = span_of (GetTotalBytes t) rslot, ts_groupSize = groupSize t\<rparr>"

definition local_load :: "rank \<Rightarrow> moe_task \<Rightarrow> nat" where
  "local_load rk t = max (foldl (\<lambda>acc p. u64_add acc (snd p)) 0 (sendFlows t))
     (foldl (\<lambda>acc p. u64_add acc (snd p)) 0 (filter (\<lambda>p. fst p \<noteq> rk) (expectedRecvFlows t)))"

definition record_report :: "seconds \<Rightarrow> rank \<Rightarrow> moe_task \<Rightarrow> task_state \<Rightarrow> task_state" where
  "record_report now rk t ts = (let b = local_load rk t in
     ts\<lparr>readyTimes := smap_set (<) rk now (readyTimes ts), b_ir := smap_set (<) rk b (b_ir ts),
        d_i := (if d_i ts < b then b else d_i ts)\<rparr>)"

definition jitter :: "rank \<Rightarrow> seconds" where
  "jitter rk = dbl (of_nat (rk mod 32) * dbl (400 / 10 ^ 6))"

definition register_report :: "seconds \<Rightarrow> rank \<Rightarrow> moe_task \<Rightarrow> central \<Rightarrow> central option" where
  "register_report now rk t s = do {
     ts0 \<leftarrow> (case map_of (m_pool s) (taskId t) of
        Some ts \<Rightarrow> Some ts
      | None \<Rightarrow> if m_Rslot s = 0 then None else Some (new_task_state now (m_Rslot s) t));
     Some (pool_set (taskId t) (record_report now rk t ts0) s)
   }"

definition CheckAdmission :: "seconds \<Rightarrow> rank \<Rightarrow> moe_task \<Rightarrow> central \<Rightarrow> (bool \<times> central) option" where
  "CheckAdmission now rk t s =
     (if now < startTime t then Some (False, s)
      else do {
        s1 \<leftarrow> register_report now rk t s;
        ts \<leftarrow> map_of (m_pool s1) (taskId t);
        if scheduled ts then Some (dbl (allowedTime ts + jitter rk) \<le> now, s1)
        else do {
          s2 \<leftarrow> (if quorum s1 ts \<and> m_lastRunTime s1 < now
                then map_option (\<lambda>s'. s'\<lparr>m_lastRunTime := now\<rparr>) (RunScheduling now s1)
                else Some s1);
          ts' \<leftarrow> map_of (m_pool s2) (taskId t);
          Some (scheduled ts' \<and> allowedTime ts' \<le> now, s2)
        }
      })"

definition GetBackoffTime_us :: nat where
  "GetBackoffTime_us = 20"

end
