(* ===== verification/Moe_Central_Facts.thy ===== *)
theory Moe_Central_Facts
  imports Moe_Central
begin

text \<open>
  The capacity contract of the centralised scheduler: what is left in a slot plus what was
  granted there is the limit of the slot, globally and for every rank, and a task is granted
  the first window with room.
\<close>

subsection \<open>The capacity check\<close>

definition left :: "nat \<Rightarrow> slot_caps \<Rightarrow> rank \<Rightarrow> nat" where
  "left limit m r = (case map_of m r of None \<Rightarrow> limit | Some c \<Rightarrow> c)"

definition room :: "nat \<Rightarrow> nat \<Rightarrow> nat \<Rightarrow> (rank \<times> nat) list \<Rightarrow> nat list \<Rightarrow> slot_caps list \<Rightarrow> nat \<Rightarrow> bool" where
  "room limit d sp bs gcap rcap i \<longleftrightarrow>
     d div sp \<le> gcap ! i \<and> (\<forall>(r, b) \<in> set bs. b div sp \<le> left limit (rcap ! i) r)"

definition present :: "(rank \<times> nat) list \<Rightarrow> slot_caps \<Rightarrow> bool" where
  "present bs m \<longleftrightarrow> (\<forall>r \<in> fst ` set bs. map_of m r \<noteq> None)"

lemma left_update: "left limit (AList.update r c m) = (left limit m)(r := c)"
  by (auto simp: left_def update_conv' fun_eq_iff)

lemma left_insert: "map_of m r = None \<Longrightarrow> left limit (AList.update r limit m) = left limit m"
  by (auto simp: left_def update_conv' fun_eq_iff)

lemma present_update: "present bs m \<Longrightarrow> present bs (AList.update r c m)"
  by (auto simp: present_def update_conv')

lemma check_ranks_dom: "check_ranks limit sp bs m = (ok, m') \<Longrightarrow> dom (map_of m) \<subseteq> dom (map_of m')"
proof (induction bs arbitrary: m)
  case (Cons p bs)
  obtain r b where p: "p = (r, b)" by force
  define m1 where "m1 = (if map_of m r = None then AList.update r limit m else m)"
  have "dom (map_of m) \<subseteq> dom (map_of m1)" by (auto simp: m1_def update_conv')
  moreover have "dom (map_of m1) \<subseteq> dom (map_of m')"
    using Cons.prems Cons.IH[of m1] by (auto simp: p m1_def[symmetric] simp del: dom_map_of_conv_image_fst split: if_splits)
  ultimately show ?case by (rule subset_trans)
qed simp

lemma check_ranks_spec:
  "check_ranks limit sp bs m = (ok, m') \<Longrightarrow> left limit m' = left limit m \<and>
     (ok \<longleftrightarrow> (\<forall>(r, b) \<in> set bs. b div sp \<le> left limit m r)) \<and> (ok \<longrightarrow> present bs m')"
proof (induction bs arbitrary: m)
  case Nil
  then show ?case by (simp add: present_def)
next
  case (Cons p bs)
  obtain r b where p: "p = (r, b)" by force
  define m1 where "m1 = (if map_of m r = None then AList.update r limit m else m)"
  have m1: "left limit m1 = left limit m" "map_of m1 r = Some (left limit m r)"
    by (auto simp: m1_def left_insert) (auto simp: left_def update_conv')
  show ?case
  proof (cases "left limit m r < b div sp")
    case True
    with Cons.prems m1 show ?thesis by (auto simp: p m1_def[symmetric])
  next
    case False
    then have *: "check_ranks limit sp bs m1 = (ok, m')"
      using Cons.prems m1(2) by (simp add: p m1_def[symmetric])
    have "map_of m' r \<noteq> None" using check_ranks_dom[OF *] m1(2) by blast
    with Cons.IH[OF *] False m1(1) show ?thesis by (auto simp: p present_def)
  qed
qed

lemma check_slots_spec:
  assumes "length rcap = length gcap" "\<forall>i \<in> set futs. i < length gcap" "distinct futs"
  shows "\<exists>f rcap'. check_slots limit d sp bs gcap futs rcap = Some (f, rcap') \<and> length rcap' = length gcap \<and>
    (\<forall>i. room limit d sp bs gcap rcap' i = room limit d sp bs gcap rcap i) \<and>
    (\<forall>i. left limit (rcap' ! i) = left limit (rcap ! i)) \<and>
    (\<forall>i. i \<notin> set futs \<longrightarrow> rcap' ! i = rcap ! i) \<and>
    (case f of None \<Rightarrow> (\<forall>i \<in> set futs. room limit d sp bs gcap rcap i \<and> present bs (rcap' ! i))
     | Some i \<Rightarrow> i \<in> set futs \<and> \<not> room limit d sp bs gcap rcap i)"
  using assms
proof (induction futs arbitrary: rcap)
  case Nil
  then show ?case by simp
next
  case (Cons fut futs)
  obtain ok m where m: "check_ranks limit sp bs (rcap ! fut) = (ok, m)" by force
  note cr = check_ranks_spec[OF m]
  let ?rcap = "rcap[fut := m]"
  have len: "fut < length gcap" "fut < length rcap" using Cons.prems by auto
  have left: "left limit (?rcap ! i) = left limit (rcap ! i)" for i
    using cr len by (cases "i = fut") auto
  then have rm: "room limit d sp bs gcap ?rcap i = room limit d sp bs gcap rcap i" for i
    by (simp add: room_def)
  consider "gcap ! fut < d div sp" | "\<not> gcap ! fut < d div sp" "\<not> ok" | "\<not> gcap ! fut < d div sp" ok by blast
  then show ?case
  proof cases
    case 1
    then show ?thesis using len Cons.prems(1) by (simp add: room_def)
  next
    case 2
    then have "\<not> room limit d sp bs gcap rcap fut" using cr by (auto simp: room_def)
    then show ?thesis using 2 len m left rm Cons.prems(1) by (simp add: nth_list_update)
  next
    case 3
    have pre: "length ?rcap = length gcap" "\<forall>i \<in> set futs. i < length gcap" "distinct futs" "fut \<notin> set futs"
      using Cons.prems by auto
    from Cons.IH[OF pre(1-3)] obtain f rcap' where ih:
      "check_slots limit d sp bs gcap futs ?rcap = Some (f, rcap')" "length rcap' = length gcap"
      "\<forall>i. room limit d sp bs gcap rcap' i = room limit d sp bs gcap ?rcap i"
      "\<forall>i. left limit (rcap' ! i) = left limit (?rcap ! i)"
      "\<forall>i. i \<notin> set futs \<longrightarrow> rcap' ! i = ?rcap ! i"
      "case f of None \<Rightarrow> (\<forall>i \<in> set futs. room limit d sp bs gcap ?rcap i \<and> present bs (rcap' ! i))
       | Some i \<Rightarrow> i \<in> set futs \<and> \<not> room limit d sp bs gcap ?rcap i" by blast
    have fut: "room limit d sp bs gcap rcap fut" using 3 cr by (auto simp: room_def)
    have "rcap' ! fut = m" using ih(5) pre(4) len by simp
    then have "present bs (rcap' ! fut)" using cr 3 by simp
    moreover have "check_slots limit d sp bs gcap (fut # futs) rcap = Some (f, rcap')"
      using 3 len m ih(1) by simp
    moreover have "\<forall>i. i \<notin> set (fut # futs) \<longrightarrow> rcap' ! i = rcap ! i" using ih(5) by auto
    ultimately show ?thesis using ih(2,3,4,6) fut left rm by (auto split: option.splits)
  qed
qed

lemma window_slots: "t + sp \<le> 2 ^ 32 \<Longrightarrow> map (u32_add t) [0..<sp] = [t..<t + sp]"
  by (rule nth_equalityI) simp_all

interpretation central_window: window_check "check_window limit d sp bs gcap" "room limit d sp bs gcap"
    "\<lambda>rcap. length rcap = length gcap \<and> (\<forall>i. left limit (rcap ! i) = L i)" sp
    "min (length gcap) (2 ^ 32)" for limit d sp bs gcap L
proof
  fix l :: "slot_caps list" and t
  assume l: "length l = length gcap \<and> (\<forall>i. left limit (l ! i) = L i)"
    and t: "t + sp < min (length gcap) (2 ^ 32)"
  from l have len: "length l = length gcap" ..
  have w: "map (u32_add t) [0..<sp] = [t..<t + sp]" using t by (intro window_slots) simp
  have "\<forall>i \<in> set [t..<t + sp]. i < length gcap" "distinct [t..<t + sp]" using t by auto
  from check_slots_spec[OF len this] obtain f l' where l': "check_window limit d sp bs gcap l t = Some (f, l')"
    "length l' = length gcap" "\<forall>i. room limit d sp bs gcap l' i = room limit d sp bs gcap l i"
    "\<forall>i. left limit (l' ! i) = left limit (l ! i)"
    "case f of None \<Rightarrow> \<forall>i \<in> set [t..<t + sp]. room limit d sp bs gcap l i \<and> present bs (l' ! i)
     | Some i \<Rightarrow> i \<in> set [t..<t + sp] \<and> \<not> room limit d sp bs gcap l i"
    unfolding check_window_def w by blast
  have "case f of None \<Rightarrow> window_ok (room limit d sp bs gcap l) sp t
       | Some i \<Rightarrow> t \<le> i \<and> i < t + sp \<and> \<not> room limit d sp bs gcap l i"
    using l'(5) by (simp add: window_ok_def split: option.splits)
  with l' l show "\<exists>f l'. check_window limit d sp bs gcap l t = Some (f, l') \<and>
      (length l' = length gcap \<and> (\<forall>i. left limit (l' ! i) = L i)) \<and>
      (\<forall>i. room limit d sp bs gcap l' i = room limit d sp bs gcap l i) \<and>
      (case f of None \<Rightarrow> window_ok (room limit d sp bs gcap l) sp t
       | Some i \<Rightarrow> t \<le> i \<and> i < t + sp \<and> \<not> room limit d sp bs gcap l i)" by auto
qed

text \<open>A window that passed has an entry for every rank of the task, so the deduction starts from it.\<close>

lemma check_window_present:
  assumes "check_window limit d sp bs gcap l t = Some (None, l')" "length l = length gcap"
    "t + sp < min (length gcap) (2 ^ 32)" "i \<in> set [t..<t + sp]"
  shows "present bs (l' ! i)"
proof -
  have w: "map (u32_add t) [0..<sp] = [t..<t + sp]" using assms(3) by (intro window_slots) simp
  have "\<forall>i \<in> set [t..<t + sp]. i < length gcap" "distinct [t..<t + sp]" using assms(3) by auto
  from check_slots_spec[OF assms(2) this, of limit d sp bs] assms(1,4) show ?thesis
    unfolding check_window_def w by auto
qed

subsection \<open>The deduction\<close>

lemma deduct_ranks_spec:
  assumes "distinct (map fst bs)" "present bs m" "\<forall>(r, b) \<in> set bs. b div sp \<le> left limit m r"
  shows "left limit (deduct_ranks sp bs m) r =
    (case map_of bs r of None \<Rightarrow> left limit m r | Some b \<Rightarrow> left limit m r - b div sp)"
  using assms
proof (induction bs arbitrary: m)
  case Nil
  then show ?case by (simp add: deduct_ranks_def)
next
  case (Cons p bs)
  obtain r0 b where p: "p = (r0, b)" by force
  let ?m = "AList.update r0 (u64_sub (rank_cap m r0) (b div sp)) m"
  from Cons.prems(2) obtain c where c: "map_of m r0 = Some c" by (auto simp: present_def p)
  have l: "left limit ?m = (left limit m)(r0 := left limit m r0 - b div sp)"
    using Cons.prems(3) c by (simp add: left_update p) (simp add: left_def rank_cap_def)
  have "r0 \<notin> fst ` set bs" using Cons.prems(1) by (simp add: p)
  have pre: "distinct (map fst bs)" "present bs ?m"
    using Cons.prems(1,2) by (auto simp: p present_def update_conv')
  have fits: "b' div sp \<le> left limit ?m r'" if "(r', b') \<in> set bs" for r' b'
  proof -
    have "r' \<noteq> r0" using \<open>r0 \<notin> fst ` set bs\<close> that by force
    moreover have "b' div sp \<le> left limit m r'" using Cons.prems(3) that by (auto simp: p)
    ultimately show ?thesis unfolding l by simp
  qed
  have "deduct_ranks sp (p # bs) m = deduct_ranks sp bs ?m" by (simp add: deduct_ranks_def p)
  moreover have "\<forall>(r, b) \<in> set bs. b div sp \<le> left limit ?m r" using fits by blast
  note Cons.IH[OF pre this]
  moreover have "map_of bs r0 = None" using \<open>r0 \<notin> fst ` set bs\<close> by (simp add: map_of_eq_None_iff)
  ultimately show ?case unfolding l p by (simp split: option.split)
qed

lemma deduct_slots_spec:
  assumes "length rcap = length gcap" "\<forall>i \<in> set futs. i < length gcap" "distinct futs"
  shows "\<exists>gcap' rcap'. deduct_slots d sp bs futs (gcap, rcap) = Some (gcap', rcap') \<and>
    length gcap' = length gcap \<and> length rcap' = length gcap \<and>
    (\<forall>i. gcap' ! i = (if i \<in> set futs then u64_sub (gcap ! i) (d div sp) else gcap ! i)) \<and>
    (\<forall>i. rcap' ! i = (if i \<in> set futs then deduct_ranks sp bs (rcap ! i) else rcap ! i))"
  using assms
proof (induction futs arbitrary: gcap rcap)
  case (Cons fut futs)
  let ?g = "gcap[fut := u64_sub (gcap ! fut) (d div sp)]" and ?r = "rcap[fut := deduct_ranks sp bs (rcap ! fut)]"
  have "length ?r = length ?g" "\<forall>i \<in> set futs. i < length ?g" "distinct futs" "fut < length gcap"
    "fut < length rcap" "fut \<notin> set futs" using Cons.prems by auto
  with Cons.IH[of ?r ?g] show ?case by (auto simp: nth_list_update)
qed simp

subsection \<open>Grants\<close>

text \<open>
  The abstract state of the allocator is the list of grants made so far: the task, its first
  slot, its number of slots and the loads at the time of the grant.
\<close>

record grant =
  gr_task :: nat
  gr_start :: nat
  gr_span :: nat
  gr_load :: nat
  gr_ranks :: "(rank \<times> nat) list"

definition covers :: "grant \<Rightarrow> nat \<Rightarrow> bool" where
  "covers g i \<longleftrightarrow> gr_start g \<le> i \<and> i < gr_start g + gr_span g"

definition rank_share :: "nat \<Rightarrow> (rank \<times> nat) list \<Rightarrow> rank \<Rightarrow> nat" where
  "rank_share sp bs r = (case map_of bs r of None \<Rightarrow> 0 | Some b \<Rightarrow> b div sp)"

definition granted :: "grant list \<Rightarrow> nat \<Rightarrow> nat" where
  "granted gs i = (\<Sum>g\<leftarrow>gs. if covers g i then gr_load g div gr_span g else 0)"

definition granted_rank :: "grant list \<Rightarrow> rank \<Rightarrow> nat \<Rightarrow> nat" where
  "granted_rank gs r i = (\<Sum>g\<leftarrow>gs. if covers g i then rank_share (gr_span g) (gr_ranks g) r else 0)"

definition avail :: "nat \<Rightarrow> nat \<Rightarrow> nat \<Rightarrow> nat \<Rightarrow> (rank \<times> nat) list \<Rightarrow> grant list \<Rightarrow> nat \<Rightarrow> bool" where
  "avail glim rlim d sp bs gs i \<longleftrightarrow> granted gs i + d div sp \<le> glim \<and>
     (\<forall>(r, b) \<in> set bs. granted_rank gs r i + b div sp \<le> rlim)"

definition ledger_ok :: "central \<Rightarrow> grant list \<Rightarrow> bool" where
  "ledger_ok s gs \<longleftrightarrow> length (m_rankCap s) = length (m_globalCap s) \<and>
     (\<forall>i < length (m_globalCap s). m_globalCap s ! i + granted gs i = m_globalLimit s) \<and>
     (\<forall>i < length (m_globalCap s). \<forall>r.
        left (m_rankLimit s) (m_rankCap s ! i) r + granted_rank gs r i = m_rankLimit s) \<and>
     (\<forall>g \<in> set gs. gr_start g + gr_span g \<le> length (m_globalCap s))"

lemma granted_outside: "\<forall>g \<in> set gs. gr_start g + gr_span g \<le> i \<Longrightarrow> granted gs i = 0"
  by (induction gs) (auto simp: granted_def covers_def)

lemma granted_rank_outside: "\<forall>g \<in> set gs. gr_start g + gr_span g \<le> i \<Longrightarrow> granted_rank gs r i = 0"
  by (induction gs) (auto simp: granted_rank_def covers_def)

lemma granted_snoc:
  "granted (gs @ [g]) i = granted gs i + (if covers g i then gr_load g div gr_span g else 0)"
  "granted_rank (gs @ [g]) r i = granted_rank gs r i + (if covers g i then rank_share (gr_span g) (gr_ranks g) r else 0)"
  by (simp_all add: granted_def granted_rank_def)

text \<open>Whatever was granted fits into every slot, also beyond the end of the ledger.\<close>

lemma ledger_ok_safe:
  assumes "ledger_ok s gs"
  shows "granted gs i \<le> m_globalLimit s" "granted_rank gs r i \<le> m_rankLimit s"
proof -
  have "granted gs i \<le> m_globalLimit s \<and> granted_rank gs r i \<le> m_rankLimit s"
  proof (cases "i < length (m_globalCap s)")
    case True
    with assms have "m_globalCap s ! i + granted gs i = m_globalLimit s"
      "left (m_rankLimit s) (m_rankCap s ! i) r + granted_rank gs r i = m_rankLimit s"
      unfolding ledger_ok_def by blast+
    then show ?thesis by linarith
  next
    case False
    with assms have "\<forall>g \<in> set gs. gr_start g + gr_span g \<le> i" by (auto simp: ledger_ok_def)
    then show ?thesis by (simp add: granted_outside granted_rank_outside)
  qed
  then show "granted gs i \<le> m_globalLimit s" "granted_rank gs r i \<le> m_rankLimit s" by auto
qed

lemma room_avail:
  assumes "ledger_ok s gs" "i < length (m_globalCap s)"
  shows "room (m_rankLimit s) d sp bs (m_globalCap s) (m_rankCap s) i =
    avail (m_globalLimit s) (m_rankLimit s) d sp bs gs i"
proof -
  from assms have "m_globalLimit s = m_globalCap s ! i + granted gs i"
    and r: "\<And>r. left (m_rankLimit s) (m_rankCap s ! i) r + granted_rank gs r i = m_rankLimit s"
    unfolding ledger_ok_def by auto
  moreover have "b div sp \<le> left (m_rankLimit s) (m_rankCap s ! i) r \<longleftrightarrow>
      granted_rank gs r i + b div sp \<le> m_rankLimit s" for r b
    using r[of r] by linarith
  ultimately show ?thesis by (simp add: room_def avail_def)
qed

text \<open>Growing the ledger adds free slots.\<close>

lemma resize_grow:
  "length xs \<le> n \<Longrightarrow> length (resize n x xs) = n \<and>
    (\<forall>i < n. resize n x xs ! i = (if i < length xs then xs ! i else x))"
  by (auto simp: resize_def nth_append)

lemma grow_ledger_ok:
  assumes "ledger_ok s gs"
  shows "ledger_ok (grow_ledger start sp s) gs"
proof -
  define needed where "needed = u32_add (u32_add (u32_add start (search_horizon (m_T s) sp)) sp) 1000"
  show ?thesis
  proof (cases "length (m_globalCap s) < needed")
    case True
    let ?s = "s\<lparr>m_globalCap := resize needed (m_globalLimit s) (m_globalCap s),
      m_rankCap := resize needed [] (m_rankCap s)\<rparr>"
    from assms have len: "length (m_rankCap s) = length (m_globalCap s)" by (simp add: ledger_ok_def)
    have g: "length (m_globalCap ?s) = needed"
      "\<And>i. i < needed \<Longrightarrow> m_globalCap ?s ! i = (if i < length (m_globalCap s) then m_globalCap s ! i else m_globalLimit s)"
      using True resize_grow[of "m_globalCap s" needed "m_globalLimit s"] by auto
    have r: "length (m_rankCap ?s) = needed"
      "\<And>i. i < needed \<Longrightarrow> m_rankCap ?s ! i = (if i < length (m_globalCap s) then m_rankCap s ! i else [])"
      using True len resize_grow[of "m_rankCap s" needed "[]"] by auto
    have out: "granted gs i = 0 \<and> granted_rank gs q i = 0" if "\<not> i < length (m_globalCap s)" for i q
      using that assms by (intro conjI granted_outside granted_rank_outside) (auto simp: ledger_ok_def)
    have "ledger_ok ?s gs"
      unfolding ledger_ok_def
    proof (intro conjI allI impI ballI)
      show "length (m_rankCap ?s) = length (m_globalCap ?s)" using g r by simp
      fix i assume "i < length (m_globalCap ?s)"
      then have i: "i < needed" using g by simp
      show "m_globalCap ?s ! i + granted gs i = m_globalLimit ?s"
        using g(2)[OF i] out[of i] assms by (auto simp: ledger_ok_def)
      fix q show "left (m_rankLimit ?s) (m_rankCap ?s ! i) q + granted_rank gs q i = m_rankLimit ?s"
        using r(2)[OF i] out[of i q] assms by (auto simp: ledger_ok_def left_def)
    next
      fix gr assume "gr \<in> set gs"
      with assms True g(1) show "gr_start gr + gr_span gr \<le> length (m_globalCap ?s)"
        by (auto simp: ledger_ok_def)
    qed
    with True show ?thesis by (simp add: grow_ledger_def needed_def Let_def)
  next
    case False
    with assms show ?thesis by (simp add: grow_ledger_def needed_def Let_def)
  qed
qed

end
