(* ===== verification/Moe_Central_Spec.thy ===== *)
theory Moe_Central_Spec
  imports Moe_Central_Facts
begin

text \<open>
  The centralised scheduler against its abstract specification: an allocator whose only state
  is the pool and the list of grants, and which gives each pending task the first window in
  which the grants so far leave room. \<open>RunScheduling\<close> computes exactly that on its ledger.
\<close>

definition fits_u32 :: "nat \<Rightarrow> nat \<Rightarrow> nat \<Rightarrow> bool" where
  "fits_u32 start T sp \<longleftrightarrow> start + T + 2 * sp + 1100 < 2 ^ 32"

definition task_grant :: "nat \<Rightarrow> nat \<Rightarrow> task_state \<Rightarrow> nat \<Rightarrow> grant" where
  "task_grant tid t ts sp = \<lparr>gr_task = tid, gr_start = t, gr_span = sp, gr_load = d_i ts, gr_ranks = b_ir ts\<rparr>"

definition alloc_task :: "central \<Rightarrow> nat \<Rightarrow> nat \<Rightarrow> (nat \<times> task_state) list \<times> grant list \<Rightarrow>
    (nat \<times> task_state) list \<times> grant list" where
  "alloc_task s start tid = (\<lambda>(pool, gs).
     let ts = the (map_of pool tid); sp = span_of (d_i ts) (m_Rslot s); task = ts\<lparr>span := sp\<rparr> in
     case first_fit (avail (m_globalLimit s) (m_rankLimit s) (d_i ts) sp (b_ir ts) gs) sp start
       (start + search_horizon (m_T s) sp) of
       None \<Rightarrow> (AList.update tid task pool, gs)
     | Some t \<Rightarrow> (AList.update tid (task\<lparr>scheduled := True, allowedTime := dbl (of_nat t * m_deltaT s)\<rparr>) pool,
         gs @ [task_grant tid t ts sp]))"

abbreviation config :: "central \<Rightarrow> nat \<times> nat \<times> nat \<times> nat \<times> nat \<times> seconds" where
  "config s \<equiv> (m_T s, m_Rslot s, m_globalLimit s, m_rankLimit s, m_globalNodes s, m_deltaT s)"

lemma grow_ledger_simps [simp]:
  "m_pool (grow_ledger start sp s) = m_pool s" "m_Rslot (grow_ledger start sp s) = m_Rslot s"
  "m_globalNodes (grow_ledger start sp s) = m_globalNodes s"
  "m_T (grow_ledger start sp s) = m_T s" "m_rankLimit (grow_ledger start sp s) = m_rankLimit s"
  "m_globalLimit (grow_ledger start sp s) = m_globalLimit s" "m_deltaT (grow_ledger start sp s) = m_deltaT s"
  "m_lastRunTime (grow_ledger start sp s) = m_lastRunTime s"
  by (simp_all add: grow_ledger_def Let_def)

lemma horizon_le: "fits_u32 start T sp \<Longrightarrow> search_horizon T sp \<le> T + sp + 100"
  by (simp add: fits_u32_def search_horizon_def)

lemma grow_ledger_long:
  assumes "fits_u32 start (m_T s) sp"
  shows "start + search_horizon (m_T s) sp + sp + 1000 \<le> length (m_globalCap (grow_ledger start sp s))"
proof -
  let ?h = "search_horizon (m_T s) sp"
  have b: "start + ?h + sp + 1000 < 2 ^ 32"
    using horizon_le[OF assms] assms by (simp add: fits_u32_def)
  then have "u32_add (u32_add (u32_add start ?h) sp) 1000 = start + ?h + sp + 1000" by simp
  then show ?thesis
    using resize_grow[of "m_globalCap s" "start + ?h + sp + 1000" "m_globalLimit s"]
    by (auto simp: grow_ledger_def Let_def)
qed

lemma ledger_ok_pool [simp]: "ledger_ok (pool_set tid ts s) gs = ledger_ok s gs"
    "ledger_ok (s\<lparr>m_pool := p\<rparr>) gs = ledger_ok s gs" "ledger_ok (s\<lparr>m_lastRunTime := x\<rparr>) gs = ledger_ok s gs"
  by (simp_all add: ledger_ok_def pool_set_def)

lemma pool_set_simps [simp]:
  "m_pool (pool_set tid ts s) = AList.update tid ts (m_pool s)" "m_globalNodes (pool_set tid ts s) = m_globalNodes s"
  "m_T (pool_set tid ts s) = m_T s" "m_globalCap (pool_set tid ts s) = m_globalCap s"
  "m_rankCap (pool_set tid ts s) = m_rankCap s" "m_rankLimit (pool_set tid ts s) = m_rankLimit s"
  "m_globalLimit (pool_set tid ts s) = m_globalLimit s" "m_deltaT (pool_set tid ts s) = m_deltaT s"
  "m_lastRunTime (pool_set tid ts s) = m_lastRunTime s" "m_Rslot (pool_set tid ts s) = m_Rslot s"
  by (simp_all add: pool_set_def)

lemma first_fit_cong:
  assumes "\<And>i. i < n \<Longrightarrow> p i = q i" "hi + sp \<le> n"
  shows "first_fit p sp lo hi = first_fit q sp lo hi"
proof -
  have "window_ok p sp t = window_ok q sp t" if "t \<in> set [lo..<hi]" for t
    using that assms by (auto simp: window_ok_iff)
  then show ?thesis unfolding first_fit_def by (intro find_cong) auto
qed

text \<open>The search of a ledger finds what the first-fit search over the grants finds.\<close>

lemma search_refines:
  assumes ok: "ledger_ok s gs" and len: "start + h + sp + 1000 \<le> length (m_globalCap s)"
    and u32: "start + h + sp + 1000 < 2 ^ 32" and lt: "length (m_globalCap s) < 2 ^ 32"
  shows "\<exists>rcap. jump_search (check_window (m_rankLimit s) d sp bs (m_globalCap s))
      (\<lambda>t. length (m_globalCap s) \<le> u32_add t sp) (\<lambda>f. u32_add f 1) (m_rankCap s) start (u32_add start h) =
      Some (first_fit (avail (m_globalLimit s) (m_rankLimit s) d sp bs gs) sp start (start + h), rcap) \<and>
    length rcap = length (m_globalCap s) \<and>
    (\<forall>i. left (m_rankLimit s) (rcap ! i) = left (m_rankLimit s) (m_rankCap s ! i)) \<and>
    (\<forall>t. first_fit (avail (m_globalLimit s) (m_rankLimit s) d sp bs gs) sp start (start + h) = Some t \<longrightarrow>
      (\<forall>i \<in> set [t..<t + sp]. present bs (rcap ! i)))"
proof -
  let ?n = "length (m_globalCap s)" and ?r = "room (m_rankLimit s) d sp bs (m_globalCap s) (m_rankCap s)"
  let ?a = "avail (m_globalLimit s) (m_rankLimit s) d sp bs gs"
  let ?check = "check_window (m_rankLimit s) d sp bs (m_globalCap s)"
  have inv: "length (m_rankCap s) = ?n \<and> (\<forall>i. left (m_rankLimit s) (m_rankCap s ! i) = left (m_rankLimit s) (m_rankCap s ! i))"
    using ok by (simp add: ledger_ok_def)
  have min: "min ?n (2 ^ 32) = ?n" using lt by simp
  have stop: "?n \<le> u32_add t sp \<longleftrightarrow> min ?n (2 ^ 32) \<le> t + sp" if "t < start + h" for t
    using that u32 unfolding min by simp
  have nxt: "u32_add i 1 = Suc i" if "i < min ?n (2 ^ 32)" for i using that lt by simp
  have hi: "min (start + h) (min ?n (2 ^ 32) - sp) = start + h" using len unfolding min by simp
  have ff: "first_fit ?r sp start (start + h) = first_fit ?a sp start (start + h)"
    using len by (intro first_fit_cong[of ?n]) (auto simp: room_avail[OF ok])
  have h: "u32_add start h = start + h" using u32 by simp
  from central_window.jump_search_first_fit[where d = d and bs = bs and lo = start and hi = "start + h",
      OF inv stop nxt, unfolded hi ff]
  obtain rcap where rcap: "jump_search ?check (\<lambda>t. ?n \<le> u32_add t sp) (\<lambda>f. u32_add f 1) (m_rankCap s) start (start + h) =
      Some (first_fit ?a sp start (start + h), rcap)"
    "length rcap = ?n \<and> (\<forall>i. left (m_rankLimit s) (rcap ! i) = left (m_rankLimit s) (m_rankCap s ! i))"
    "\<forall>t. first_fit ?a sp start (start + h) = Some t \<longrightarrow>
      (\<exists>l0. (length l0 = ?n \<and> (\<forall>i. left (m_rankLimit s) (l0 ! i) = left (m_rankLimit s) (m_rankCap s ! i))) \<and>
        ?check l0 t = Some (None, rcap))" by blast
  have "\<forall>i \<in> set [t..<t + sp]. present bs (rcap ! i)" if t: "first_fit ?a sp start (start + h) = Some t" for t
  proof -
    from rcap(3) t obtain l0 where "?check l0 t = Some (None, rcap)" "length l0 = ?n" by blast
    moreover have "t < start + h" using t by (rule first_fit_Some)
    then have "t + sp < min ?n (2 ^ 32)" using len unfolding min by simp
    ultimately show ?thesis by (blast intro: check_window_present)
  qed
  with rcap(1,2) show ?thesis unfolding h by blast
qed

text \<open>The deduction over a window with room is the grant of that window.\<close>

lemma deduct_refines:
  assumes ok: "ledger_ok s gs" and t: "t + sp \<le> length (m_globalCap s)" and bs: "distinct (map fst bs)"
    and rcap: "length rcap = length (m_globalCap s)"
      "\<forall>i. left (m_rankLimit s) (rcap ! i) = left (m_rankLimit s) (m_rankCap s ! i)"
    and win: "\<forall>i \<in> set [t..<t + sp]. avail (m_globalLimit s) (m_rankLimit s) d sp bs gs i \<and> present bs (rcap ! i)"
  shows "\<exists>gcap' rcap'. deduct_slots d sp bs [t..<t + sp] (m_globalCap s, rcap) = Some (gcap', rcap') \<and>
    ledger_ok (s\<lparr>m_globalCap := gcap', m_rankCap := rcap'\<rparr>)
      (gs @ [\<lparr>gr_task = tid, gr_start = t, gr_span = sp, gr_load = d, gr_ranks = bs\<rparr>]) \<and>
    length gcap' = length (m_globalCap s)"
proof -
  let ?n = "length (m_globalCap s)" and ?lim = "m_rankLimit s"
  let ?g = "\<lparr>gr_task = tid, gr_start = t, gr_span = sp, gr_load = d, gr_ranks = bs\<rparr>"
  have cov: "covers ?g i \<longleftrightarrow> i \<in> set [t..<t + sp]" for i by (auto simp: covers_def)
  have "\<forall>i \<in> set [t..<t + sp]. i < ?n" "distinct [t..<t + sp]" using t by auto
  from deduct_slots_spec[OF rcap(1) this, of d sp bs] obtain gcap' rcap' where
    de: "deduct_slots d sp bs [t..<t + sp] (m_globalCap s, rcap) = Some (gcap', rcap')"
    and len: "length gcap' = ?n" "length rcap' = ?n"
    and g': "\<And>i. gcap' ! i = (if i \<in> set [t..<t + sp] then u64_sub (m_globalCap s ! i) (d div sp) else m_globalCap s ! i)"
    and r': "\<And>i. rcap' ! i = (if i \<in> set [t..<t + sp] then deduct_ranks sp bs (rcap ! i) else rcap ! i)"
    by blast
  have glob: "m_globalCap s ! i + granted gs i = m_globalLimit s"
    and rank: "left ?lim (m_rankCap s ! i) r + granted_rank gs r i = ?lim" if "i < ?n" for i r
    using ok that unfolding ledger_ok_def by blast+
  have "ledger_ok (s\<lparr>m_globalCap := gcap', m_rankCap := rcap'\<rparr>) (gs @ [?g])"
    unfolding ledger_ok_def
  proof (intro conjI allI impI ballI)
    show "length (m_rankCap (s\<lparr>m_globalCap := gcap', m_rankCap := rcap'\<rparr>)) =
        length (m_globalCap (s\<lparr>m_globalCap := gcap', m_rankCap := rcap'\<rparr>))" using len by simp
    fix i assume "i < length (m_globalCap (s\<lparr>m_globalCap := gcap', m_rankCap := rcap'\<rparr>))"
    then have i: "i < ?n" using len by simp
    show "m_globalCap (s\<lparr>m_globalCap := gcap', m_rankCap := rcap'\<rparr>) ! i + granted (gs @ [?g]) i =
        m_globalLimit (s\<lparr>m_globalCap := gcap', m_rankCap := rcap'\<rparr>)"
    proof (cases "i \<in> set [t..<t + sp]")
      case True
      with win have "granted gs i + d div sp \<le> m_globalLimit s" by (auto simp: avail_def)
      with glob[OF i] have "d div sp \<le> m_globalCap s ! i" by linarith
      with glob[OF i] True show ?thesis using g'[of i] cov[of i] by (simp add: granted_snoc)
    next
      case False
      with g'[of i] have "gcap' ! i = m_globalCap s ! i" by presburger
      moreover have "\<not> covers ?g i" using cov False by blast
      ultimately show ?thesis using glob[OF i] by (simp add: granted_snoc)
    qed
    fix r
    show "left (m_rankLimit (s\<lparr>m_globalCap := gcap', m_rankCap := rcap'\<rparr>))
          (m_rankCap (s\<lparr>m_globalCap := gcap', m_rankCap := rcap'\<rparr>) ! i) r + granted_rank (gs @ [?g]) r i =
        m_rankLimit (s\<lparr>m_globalCap := gcap', m_rankCap := rcap'\<rparr>)"
    proof (cases "i \<in> set [t..<t + sp]")
      case True
      have fit: "b div sp \<le> left ?lim (rcap ! i) q" if "(q, b) \<in> set bs" for q b
      proof -
        have "granted_rank gs q i + b div sp \<le> ?lim" using win True that by (auto simp: avail_def)
        with rank[OF i, of q] rcap(2) show ?thesis by simp
      qed
      then have all: "\<forall>(q, b) \<in> set bs. b div sp \<le> left ?lim (rcap ! i) q" by blast
      have pr: "present bs (rcap ! i)" using win True by blast
      have "left ?lim (rcap' ! i) r = left ?lim (rcap ! i) r - rank_share sp bs r"
        using deduct_ranks_spec[OF bs pr all, of r] True r'[of i]
        by (simp add: rank_share_def split: option.splits)
      moreover have "rank_share sp bs r \<le> left ?lim (rcap ! i) r"
        using fit by (auto simp: rank_share_def split: option.splits dest: map_of_SomeD)
      ultimately show ?thesis using rank[OF i, of r] rcap(2) True cov[of i] by (simp add: granted_snoc)
    next
      case False
      with r'[of i] have "rcap' ! i = rcap ! i" by presburger
      moreover have "\<not> covers ?g i" using cov False by blast
      ultimately show ?thesis using rank[OF i, of r] rcap(2) by (simp add: granted_snoc)
    qed
  next
    fix gr assume "gr \<in> set (gs @ [?g])"
    then show "gr_start gr + gr_span gr \<le> length (m_globalCap (s\<lparr>m_globalCap := gcap', m_rankCap := rcap'\<rparr>))"
      using ok t len by (auto simp: ledger_ok_def)
  qed
  with de len show ?thesis by blast
qed

definition cfg_ok :: "central \<Rightarrow> bool" where
  "cfg_ok s \<longleftrightarrow> 0 < m_Rslot s \<and> length (m_globalCap s) < 2 ^ 32"

lemma schedule_task_refines:
  assumes ok: "ledger_ok s gs" "cfg_ok s" and ts: "map_of (m_pool s) tid = Some ts" "distinct (map fst (b_ir ts))"
    and fits: "fits_u32 start (m_T s) (span_of (d_i ts) (m_Rslot s))"
  shows "\<exists>s' gs'. schedule_task start tid s = Some s' \<and> alloc_task s start tid (m_pool s, gs) = (m_pool s', gs') \<and>
    ledger_ok s' gs' \<and> cfg_ok s' \<and> config s' = config s \<and> m_lastRunTime s' = m_lastRunTime s"
proof -
  define sp where "sp = span_of (d_i ts) (m_Rslot s)"
  define h where "h = search_horizon (m_T s) sp"
  define task where "task = ts\<lparr>span := sp\<rparr>"
  define s1 where "s1 = grow_ledger start sp (pool_set tid task s)"
  have fit: "fits_u32 start (m_T (pool_set tid task s)) sp" using fits by (simp add: sp_def)
  have u32: "start + h + sp + 1000 < 2 ^ 32"
    using horizon_le[OF fit] fit by (simp add: fits_u32_def h_def)
  have ok1: "ledger_ok s1 gs" unfolding s1_def by (rule grow_ledger_ok) (simp add: ok)
  have len1: "start + h + sp + 1000 \<le> length (m_globalCap s1)"
    using grow_ledger_long[OF fit] by (simp add: s1_def h_def)
  have lt1: "length (m_globalCap s1) < 2 ^ 32"
    using ok(2) resize_grow[of "m_globalCap s"] by (auto simp: s1_def grow_ledger_def Let_def cfg_ok_def)
  have cfg1 [simp]: "m_pool s1 = AList.update tid task (m_pool s)" "m_T s1 = m_T s" "m_rankLimit s1 = m_rankLimit s"
    "m_globalLimit s1 = m_globalLimit s" "m_deltaT s1 = m_deltaT s" "m_lastRunTime s1 = m_lastRunTime s"
    by (simp_all add: s1_def)
  have cfg2: "config s1 = config s" unfolding s1_def by (simp only: grow_ledger_simps pool_set_simps)
  let ?ff = "first_fit (avail (m_globalLimit s1) (m_rankLimit s1) (d_i ts) sp (b_ir ts) gs) sp start (start + h)"
  from search_refines[OF ok1 len1 u32 lt1, of "d_i ts" "b_ir ts"] obtain rcap where
    js: "jump_search (check_window (m_rankLimit s1) (d_i ts) sp (b_ir ts) (m_globalCap s1))
      (\<lambda>t. length (m_globalCap s1) \<le> u32_add t sp) (\<lambda>f. u32_add f 1) (m_rankCap s1) start (u32_add start h) = Some (?ff, rcap)"
    and rcap: "length rcap = length (m_globalCap s1)"
      "\<forall>i. left (m_rankLimit s1) (rcap ! i) = left (m_rankLimit s1) (m_rankCap s1 ! i)"
      "\<forall>t. ?ff = Some t \<longrightarrow> (\<forall>i \<in> set [t..<t + sp]. present (b_ir ts) (rcap ! i))" by blast
  have R: "m_Rslot s \<noteq> 0" using ok(2) by (simp add: cfg_ok_def)
  let ?js = "jump_search (check_window (m_rankLimit s1) (d_i ts) sp (b_ir ts) (m_globalCap s1))
      (\<lambda>t. length (m_globalCap s1) \<le> u32_add t sp) (\<lambda>f. u32_add f 1) (m_rankCap s1) start (u32_add start h)"
  have st: "schedule_task start tid s = Option.bind ?js (\<lambda>(found, rcap). case found of
       None \<Rightarrow> Some (s1\<lparr>m_rankCap := rcap\<rparr>)
     | Some t \<Rightarrow> Option.bind (deduct_slots (d_i ts) sp (b_ir ts) (map (u32_add t) [0..<sp]) (m_globalCap s1, rcap))
         (\<lambda>(gcap, rcap'). Some (pool_set tid (task\<lparr>scheduled := True, allowedTime := dbl (of_nat t * m_deltaT s1)\<rparr>)
                (s1\<lparr>m_globalCap := gcap, m_rankCap := rcap'\<rparr>))))"
    using R unfolding schedule_task_def ts(1) Let_def s1_def task_def sp_def h_def bind.simps by (simp cong: option.case_cong)
  have al: "alloc_task s start tid (m_pool s, gs) = (case ?ff of
       None \<Rightarrow> (AList.update tid task (m_pool s), gs)
     | Some t \<Rightarrow> (AList.update tid (task\<lparr>scheduled := True, allowedTime := dbl (of_nat t * m_deltaT s)\<rparr>) (m_pool s),
         gs @ [task_grant tid t ts sp]))"
    unfolding alloc_task_def Let_def task_def sp_def h_def by (simp add: ts(1) cong: option.case_cong)
  show ?thesis
  proof (cases ?ff)
    case None
    let ?s = "s1\<lparr>m_rankCap := rcap\<rparr>"
    have "ledger_ok ?s gs" using ok1 rcap(1,2) by (simp add: ledger_ok_def)
    moreover have "schedule_task start tid s = Some ?s"
      unfolding st js using None by simp
    moreover have "alloc_task s start tid (m_pool s, gs) = (m_pool ?s, gs)"
      unfolding al using None by simp
    moreover have "cfg_ok ?s" "config ?s = config s" using R lt1 cfg2 by (auto simp: cfg_ok_def)
    ultimately show ?thesis by (intro exI[of _ ?s] exI[of _ gs]) simp
  next
    case (Some t)
    have t: "t < start + h" "window_ok (avail (m_globalLimit s1) (m_rankLimit s1) (d_i ts) sp (b_ir ts) gs) sp t"
      by (rule first_fit_Some[OF Some])+
    have w: "map (u32_add t) [0..<sp] = [t..<t + sp]" using t(1) u32 by (intro window_slots) simp
    have "t + sp \<le> length (m_globalCap s1)" using t(1) len1 by simp
    moreover have "\<forall>i \<in> set [t..<t + sp]. avail (m_globalLimit s1) (m_rankLimit s1) (d_i ts) sp (b_ir ts) gs i \<and>
        present (b_ir ts) (rcap ! i)" using t(2) rcap(3) Some by (auto simp: window_ok_def)
    ultimately obtain gcap' rcap' where
      de: "deduct_slots (d_i ts) sp (b_ir ts) [t..<t + sp] (m_globalCap s1, rcap) = Some (gcap', rcap')"
      "ledger_ok (s1\<lparr>m_globalCap := gcap', m_rankCap := rcap'\<rparr>) (gs @ [task_grant tid t ts sp])"
      "length gcap' = length (m_globalCap s1)"
      using deduct_refines[OF ok1 _ ts(2) rcap(1,2), of t sp "d_i ts" tid] unfolding task_grant_def by blast
    let ?task = "task\<lparr>scheduled := True, allowedTime := dbl (of_nat t * m_deltaT s)\<rparr>"
    let ?s = "pool_set tid ?task (s1\<lparr>m_globalCap := gcap', m_rankCap := rcap'\<rparr>)"
    have "schedule_task start tid s = Some ?s"
      unfolding st js using Some de(1) w by simp
    moreover have "alloc_task s start tid (m_pool s, gs) = (m_pool ?s, gs @ [task_grant tid t ts sp])"
      unfolding al using Some by simp
    moreover have "cfg_ok ?s" "config ?s = config s" using R lt1 cfg2 de(3) by (auto simp: cfg_ok_def pool_set_def)
    moreover have "ledger_ok ?s (gs @ [task_grant tid t ts sp])" using de(2) by simp
    ultimately show ?thesis by (intro exI[of _ ?s] exI[of _ "gs @ [task_grant tid t ts sp]"]) simp
  qed
qed

end
