(* ===== verification/Moe_Central_Runs.thy ===== *)
theory Moe_Central_Runs
  imports Moe_Central_Spec
begin

text \<open>
  \<open>RunScheduling\<close> and \<open>CheckAdmission\<close> as a whole: the invariant of the scheduler, the
  bookkeeping that ties the grants to the pool, and sequences of admission checks.
\<close>

subsection \<open>Scheduling the pending tasks\<close>

definition task_fits :: "nat \<Rightarrow> central \<Rightarrow> task_state \<Rightarrow> bool" where
  "task_fits start s ts \<longleftrightarrow> distinct (map fst (b_ir ts)) \<and> fits_u32 start (m_T s) (span_of (d_i ts) (m_Rslot s))"

definition alloc_tasks :: "central \<Rightarrow> nat \<Rightarrow> nat list \<Rightarrow> (nat \<times> task_state) list \<times> grant list \<Rightarrow>
    (nat \<times> task_state) list \<times> grant list" where
  "alloc_tasks s start tids = fold (alloc_task s start) tids"

lemma alloc_task_config: "config s' = config s \<Longrightarrow> alloc_task s' = alloc_task s"
  by (simp add: alloc_task_def fun_eq_iff Let_def cong: option.case_cong)

lemma alloc_task_frame:
  assumes "alloc_task s start tid (pool, gs) = (pool', gs')" "map_of pool tid \<noteq> None"
  shows "map_of pool' q = None \<longleftrightarrow> map_of pool q = None"
    "map_of pool' q = Some ts' \<Longrightarrow> \<exists>ts. map_of pool q = Some ts \<and> b_ir ts' = b_ir ts \<and> d_i ts' = d_i ts \<and>
       readyTimes ts' = readyTimes ts \<and> ts_groupSize ts' = ts_groupSize ts \<and> t_seen ts' = t_seen ts"
    "q \<noteq> tid \<Longrightarrow> map_of pool' q = map_of pool q"
  using assms by (auto simp: alloc_task_def Let_def update_conv' split: option.splits if_splits)

lemma schedule_tasks_refines:
  assumes "ledger_ok s gs" "cfg_ok s" "\<forall>tid \<in> set tids. map_of (m_pool s) tid \<noteq> None"
    "\<forall>tid ts. map_of (m_pool s) tid = Some ts \<longrightarrow> task_fits start s ts"
  shows "\<exists>s' gs'. schedule_tasks start tids s = Some s' \<and> alloc_tasks s start tids (m_pool s, gs) = (m_pool s', gs') \<and>
    ledger_ok s' gs' \<and> cfg_ok s' \<and> config s' = config s \<and> m_lastRunTime s' = m_lastRunTime s"
  using assms
proof (induction tids arbitrary: s gs)
  case Nil
  then show ?case by (simp add: alloc_tasks_def)
next
  case (Cons tid tids)
  from Cons.prems(3) obtain ts where ts: "map_of (m_pool s) tid = Some ts" by auto
  with Cons.prems(4) have "task_fits start s ts" by blast
  then have fit: "distinct (map fst (b_ir ts))" "fits_u32 start (m_T s) (span_of (d_i ts) (m_Rslot s))"
    by (simp_all add: task_fits_def)
  from schedule_task_refines[OF Cons.prems(1,2) ts fit] obtain s1 gs1 where s1:
    "schedule_task start tid s = Some s1" "alloc_task s start tid (m_pool s, gs) = (m_pool s1, gs1)"
    "ledger_ok s1 gs1" "cfg_ok s1" and cfg: "config s1 = config s" and "m_lastRunTime s1 = m_lastRunTime s" by blast
  note frame = alloc_task_frame[OF s1(2)] and some = ts
  have "\<forall>q \<in> set tids. map_of (m_pool s1) q \<noteq> None" using frame(1) Cons.prems(3) some by auto
  moreover have "\<forall>q ts'. map_of (m_pool s1) q = Some ts' \<longrightarrow> task_fits start s1 ts'"
  proof (intro allI impI)
    fix q ts' assume "map_of (m_pool s1) q = Some ts'"
    with frame(2) some obtain ts0 where "map_of (m_pool s) q = Some ts0" "b_ir ts' = b_ir ts0" "d_i ts' = d_i ts0"
      by (metis option.distinct(1))
    with Cons.prems(4) cfg show "task_fits start s1 ts'" by (simp add: task_fits_def)
  qed
  ultimately obtain s' gs' where "schedule_tasks start tids s1 = Some s'"
    "alloc_tasks s1 start tids (m_pool s1, gs1) = (m_pool s', gs')" "ledger_ok s' gs'" "cfg_ok s'"
    "config s' = config s1" "m_lastRunTime s' = m_lastRunTime s1"
    using Cons.IH[OF s1(3,4)] by blast
  moreover have "alloc_tasks s start (tid # tids) (m_pool s, gs) = alloc_tasks s1 start tids (m_pool s1, gs1)"
    using s1(2) alloc_task_config[OF cfg] by (simp add: alloc_tasks_def)
  ultimately show ?case using s1(1) cfg \<open>m_lastRunTime s1 = m_lastRunTime s\<close> by (intro exI[of _ s'] exI[of _ gs']) simp
qed

subsection \<open>Grants and the pool\<close>

text \<open>
  A task of the pool is scheduled exactly when it has a grant; it has one grant only, its
  release time is the start of the granted run, whose length is its span, and its quorum had
  reported. The loads of a rank may still grow after the grant, by later reports.
\<close>

definition pool_grants :: "central \<Rightarrow> (nat \<times> task_state) list \<Rightarrow> grant list \<Rightarrow> bool" where
  "pool_grants s pool gs \<longleftrightarrow> distinct (map gr_task gs) \<and>
     (\<forall>tid ts. map_of pool tid = Some ts \<longrightarrow> (scheduled ts \<longleftrightarrow> tid \<in> gr_task ` set gs)) \<and>
     (\<forall>g \<in> set gs. \<exists>ts. map_of pool (gr_task g) = Some ts \<and> quorum s ts \<and>
        allowedTime ts = dbl (of_nat (gr_start g) * m_deltaT s) \<and> gr_span g = span ts \<and> gr_load g \<le> d_i ts)"

lemma quorum_cong:
  "readyTimes ts' = readyTimes ts \<Longrightarrow> ts_groupSize ts' = ts_groupSize ts \<Longrightarrow> quorum s ts' = quorum s ts"
  by (simp add: quorum_def targetQuorum_def)

lemma quorum_config: "m_globalNodes s' = m_globalNodes s \<Longrightarrow> quorum s' = quorum s"
  by (simp add: fun_eq_iff quorum_def targetQuorum_def)

lemma alloc_task_grants:
  assumes pg: "pool_grants s pool gs" and ts: "map_of pool tid = Some ts" "\<not> scheduled ts" "quorum s ts"
    and al: "alloc_task s start tid (pool, gs) = (pool', gs')"
  shows "pool_grants s pool' gs'"
proof -
  let ?sp = "span_of (d_i ts) (m_Rslot s)"
  let ?ff = "first_fit (avail (m_globalLimit s) (m_rankLimit s) (d_i ts) ?sp (b_ir ts) gs) ?sp start
     (start + search_horizon (m_T s) ?sp)"
  have new: "tid \<notin> gr_task ` set gs" using pg ts by (auto simp: pool_grants_def)
  show ?thesis
  proof (cases ?ff)
    case None
    with al ts have "pool' = AList.update tid (ts\<lparr>span := ?sp\<rparr>) pool" "gs' = gs"
      by (simp_all add: alloc_task_def Let_def)
    with pg ts new show ?thesis by (auto simp: pool_grants_def update_conv' image_iff)
  next
    case (Some t)
    with al ts have *: "pool' = AList.update tid (ts\<lparr>span := ?sp, scheduled := True,
        allowedTime := dbl (of_nat t * m_deltaT s)\<rparr>) pool" "gs' = gs @ [task_grant tid t ts ?sp]"
      by (simp_all add: alloc_task_def Let_def)
    have q: "quorum s (ts\<lparr>span := ?sp, scheduled := True, allowedTime := dbl (of_nat t * m_deltaT s)\<rparr>)"
      by (rule iffD2[OF quorum_cong ts(3)]) simp_all
    have g: "gr_task (task_grant tid t ts ?sp) = tid" "gr_start (task_grant tid t ts ?sp) = t"
      "gr_span (task_grant tid t ts ?sp) = ?sp" "gr_load (task_grant tid t ts ?sp) = d_i ts"
      by (simp_all add: task_grant_def)
    have old: "g \<in> set gs \<Longrightarrow> gr_task g \<noteq> tid" for g using new by blast
    show ?thesis unfolding pool_grants_def
    proof (intro conjI allI impI ballI)
      show "distinct (map gr_task gs')" using pg new by (simp add: *(2) g pool_grants_def)
      fix q ts' assume "map_of pool' q = Some ts'"
      with pg show "scheduled ts' \<longleftrightarrow> q \<in> gr_task ` set gs'"
        by (auto simp: *(1,2) g pool_grants_def update_conv' split: if_splits)
    next
      fix gr assume "gr \<in> set gs'"
      then show "\<exists>ts. map_of pool' (gr_task gr) = Some ts \<and> quorum s ts \<and>
          allowedTime ts = dbl (of_nat (gr_start gr) * m_deltaT s) \<and> gr_span gr = span ts \<and> gr_load gr \<le> d_i ts"
        using pg q g old by (auto simp: *(1,2) pool_grants_def update_conv')
    qed
  qed
qed

lemma alloc_tasks_grants:
  assumes "pool_grants s pool gs" "distinct tids"
    "\<forall>tid \<in> set tids. \<exists>ts. map_of pool tid = Some ts \<and> \<not> scheduled ts \<and> quorum s ts"
    "alloc_tasks s start tids (pool, gs) = (pool', gs')"
  shows "pool_grants s pool' gs'"
  using assms
proof (induction tids arbitrary: pool gs)
  case Nil
  then show ?case by (simp add: alloc_tasks_def)
next
  case (Cons tid tids)
  from Cons.prems(3) obtain ts where ts: "map_of pool tid = Some ts" "\<not> scheduled ts" "quorum s ts" by auto
  obtain pool1 gs1 where al: "alloc_task s start tid (pool, gs) = (pool1, gs1)" by force
  have "alloc_tasks s start tids (pool1, gs1) = (pool', gs')"
    using Cons.prems(4) al by (simp add: alloc_tasks_def)
  moreover have "\<forall>q \<in> set tids. \<exists>ts. map_of pool1 q = Some ts \<and> \<not> scheduled ts \<and> quorum s ts"
  proof
    fix q assume q: "q \<in> set tids"
    then have "q \<noteq> tid" using Cons.prems(2) by auto
    with alloc_task_frame(3)[OF al] ts(1) have "map_of pool1 q = map_of pool q" by simp
    with q Cons.prems(3) show "\<exists>ts. map_of pool1 q = Some ts \<and> \<not> scheduled ts \<and> quorum s ts" by simp
  qed
  ultimately show ?case
    using Cons.IH[of pool1 gs1] alloc_task_grants[OF Cons.prems(1) ts al] Cons.prems(2) by simp
qed

text \<open>
  A grant that is made for a pool is the grant of a task of it: its slots start at the release
  time of the task and are as many as its span, and it carries the loads reported so far.
\<close>

definition grant_matches :: "(nat \<times> task_state) list \<Rightarrow> grant \<Rightarrow> bool" where
  "grant_matches pool g \<longleftrightarrow> (case map_of pool (gr_task g) of None \<Rightarrow> False
     | Some ts \<Rightarrow> gr_span g = span ts \<and> gr_load g = d_i ts \<and> gr_ranks g = b_ir ts)"

lemma alloc_tasks_other:
  assumes "alloc_tasks s start tids (pool, gs) = (pool', gs')" "q \<notin> set tids"
    "\<forall>tid \<in> set tids. map_of pool tid \<noteq> None"
  shows "map_of pool' q = map_of pool q"
  using assms
proof (induction tids arbitrary: pool gs)
  case Nil
  then show ?case by (simp add: alloc_tasks_def)
next
  case (Cons tid tids)
  obtain pool1 gs1 where al: "alloc_task s start tid (pool, gs) = (pool1, gs1)" by force
  have rest: "alloc_tasks s start tids (pool1, gs1) = (pool', gs')"
    using Cons.prems(1) al by (simp add: alloc_tasks_def)
  note fr = alloc_task_frame[OF al]
  have "map_of pool tid \<noteq> None" using Cons.prems(3) by simp
  moreover from this have "\<forall>t \<in> set tids. map_of pool1 t \<noteq> None" using fr(1) Cons.prems(3) by simp
  ultimately show ?case using Cons.IH[OF rest] fr(3)[of q] Cons.prems(2) by auto
qed

lemma alloc_task_matches:
  assumes "alloc_task s start tid (pool, gs) = (pool', gs')" "map_of pool tid \<noteq> None"
  shows "\<exists>new. gs' = gs @ new \<and> (\<forall>g \<in> set new. gr_task g = tid \<and> grant_matches pool' g)"
  using assms
  by (auto simp: alloc_task_def task_grant_def grant_matches_def Let_def update_conv' split: option.splits)

lemma alloc_tasks_matches:
  assumes "alloc_tasks s start tids (pool, gs) = (pool', gs')" "distinct tids"
    "\<forall>tid \<in> set tids. map_of pool tid \<noteq> None"
  shows "\<exists>new. gs' = gs @ new \<and> (\<forall>g \<in> set new. gr_task g \<in> set tids \<and> grant_matches pool' g)"
  using assms
proof (induction tids arbitrary: pool gs)
  case Nil
  then show ?case by (simp add: alloc_tasks_def)
next
  case (Cons tid tids)
  obtain pool1 gs1 where al: "alloc_task s start tid (pool, gs) = (pool1, gs1)" by force
  have rest: "alloc_tasks s start tids (pool1, gs1) = (pool', gs')"
    using Cons.prems(1) al by (simp add: alloc_tasks_def)
  have tid: "map_of pool tid \<noteq> None" using Cons.prems(3) by simp
  obtain new1 where 1: "gs1 = gs @ new1" "\<forall>g \<in> set new1. gr_task g = tid \<and> grant_matches pool1 g"
    using alloc_task_matches[OF al tid] by blast
  have in1: "\<forall>t \<in> set tids. map_of pool1 t \<noteq> None"
    using alloc_task_frame(1)[OF al tid] Cons.prems(3) by simp
  from Cons.IH[OF rest _ in1] Cons.prems(2) obtain new2 where
    2: "gs' = gs1 @ new2" "\<forall>g \<in> set new2. gr_task g \<in> set tids \<and> grant_matches pool' g" by auto
  have "map_of pool' tid = map_of pool1 tid"
    using alloc_tasks_other[OF rest _ in1] Cons.prems(2) by simp
  with 1(2) have "\<forall>g \<in> set new1. gr_task g = tid \<and> grant_matches pool' g" by (auto simp: grant_matches_def)
  with 1(1) 2 show ?case by (intro exI[of _ "new1 @ new2"]) auto
qed

subsection \<open>The invariant\<close>

text \<open>
  The bounds keep the \<open>uint32_t\<close> slot arithmetic from wrapping: at most \<open>2 ^ 28\<close> slots per task
  and \<open>2 ^ 30\<close> slots of horizon (with the sources' 10 us slots, about three hours).
\<close>

definition max_load :: "central \<Rightarrow> nat" where
  "max_load s = 2 ^ 28 * m_Rslot s"

definition task_ok :: "central \<Rightarrow> task_state \<Rightarrow> bool" where
  "task_ok s ts \<longleftrightarrow> smap_ok (b_ir ts) \<and> smap_ok (readyTimes ts) \<and> d_i ts \<le> max_load s"

definition central_inv :: "central \<Rightarrow> grant list \<Rightarrow> bool" where
  "central_inv s gs \<longleftrightarrow> ledger_ok s gs \<and> cfg_ok s \<and> m_Rslot s < 2 ^ 32 \<and> m_T s \<le> 2 ^ 30 \<and>
     distinct (map fst (m_pool s)) \<and> pool_grants s (m_pool s) gs \<and>
     (\<forall>tid ts. map_of (m_pool s) tid = Some ts \<longrightarrow> task_ok s ts)"

definition slot_at :: "seconds \<Rightarrow> central \<Rightarrow> nat option" where
  "slot_at now s = cast_uint 32 (dbl (now / m_deltaT s))"

lemma span_of_le:
  assumes "d \<le> 2 ^ 28 * R" "0 < R" "R < 2 ^ 32"
  shows "span_of d R \<le> 2 ^ 28"
proof -
  have "(2 :: nat) ^ 28 * R \<le> 2 ^ 28 * 2 ^ 32" by (intro mult_left_mono) (use assms in auto)
  also have "\<dots> = 2 ^ 60" by simp
  finally have "d \<le> 2 ^ 60" using assms(1) by linarith
  then have "u64_sub (u64_add d R) 1 = d + R - 1" using assms(2,3) by simp
  moreover have "(d + R - 1) div R \<le> 2 ^ 28"
  proof -
    have "d + R - 1 < 2 ^ 28 * R + R" using assms by linarith
    then have "d + R - 1 < R * Suc (2 ^ 28)" by simp
    then have "(d + R - 1) div R < Suc (2 ^ 28)" using assms(2) by (simp add: div_less_iff_less_mult mult.commute)
    then show ?thesis by simp
  qed
  ultimately show ?thesis by (simp add: span_of_def Let_def)
qed

lemma task_ok_fits:
  assumes "task_ok s ts" "cfg_ok s" "m_Rslot s < 2 ^ 32" "m_T s \<le> 2 ^ 30" "start \<le> 2 ^ 30"
  shows "task_fits start s ts"
proof -
  have "span_of (d_i ts) (m_Rslot s) \<le> 2 ^ 28"
    using assms by (intro span_of_le) (auto simp: task_ok_def max_load_def cfg_ok_def)
  with assms show ?thesis
    by (auto simp: task_fits_def fits_u32_def task_ok_def intro: smap_ok_distinct)
qed

lemma pending_spec:
  assumes "distinct (map fst (m_pool s))"
  shows "distinct (pendingTasks s)"
    "tid \<in> set (pendingTasks s) \<longleftrightarrow> (\<exists>ts. map_of (m_pool s) tid = Some ts \<and> \<not> scheduled ts \<and> quorum s ts)"
proof -
  show "distinct (pendingTasks s)"
    using assms unfolding pendingTasks_def by (induction "m_pool s" arbitrary: s) (auto simp: distinct_map_filter)
  show "tid \<in> set (pendingTasks s) \<longleftrightarrow> (\<exists>ts. map_of (m_pool s) tid = Some ts \<and> \<not> scheduled ts \<and> quorum s ts)"
    using map_of_eq_Some_iff[OF assms] by (force simp: pendingTasks_def)
qed

lemma alloc_tasks_frame:
  assumes "alloc_tasks s start tids (pool, gs) = (pool', gs')" "\<forall>tid \<in> set tids. map_of pool tid \<noteq> None"
  shows "(\<exists>new. gs' = gs @ new) \<and> (distinct (map fst pool) \<longrightarrow> distinct (map fst pool')) \<and>
    (\<forall>q. map_of pool' q = None \<longleftrightarrow> map_of pool q = None) \<and>
    (\<forall>q ts'. map_of pool' q = Some ts' \<longrightarrow> (\<exists>ts. map_of pool q = Some ts \<and> b_ir ts' = b_ir ts \<and>
       d_i ts' = d_i ts \<and> readyTimes ts' = readyTimes ts \<and> ts_groupSize ts' = ts_groupSize ts))"
  using assms
proof (induction tids arbitrary: pool gs)
  case Nil
  then show ?case by (simp add: alloc_tasks_def)
next
  case (Cons tid tids)
  obtain pool1 gs1 where al: "alloc_task s start tid (pool, gs) = (pool1, gs1)" by force
  have rest: "alloc_tasks s start tids (pool1, gs1) = (pool', gs')"
    using Cons.prems(1) al by (simp add: alloc_tasks_def)
  have tid: "map_of pool tid \<noteq> None" using Cons.prems(2) by simp
  note fr = alloc_task_frame[OF al tid]
  have "(\<exists>new. gs1 = gs @ new) \<and> (distinct (map fst pool) \<longrightarrow> distinct (map fst pool1))"
    using al by (auto simp: alloc_task_def Let_def distinct_update split: option.splits)
  moreover have "\<forall>q \<in> set tids. map_of pool1 q \<noteq> None" using fr(1) Cons.prems(2) by simp
  note IH = Cons.IH[OF rest this]
  moreover have "\<exists>ts. map_of pool q = Some ts \<and> b_ir ts' = b_ir ts \<and>
       d_i ts' = d_i ts \<and> readyTimes ts' = readyTimes ts \<and> ts_groupSize ts' = ts_groupSize ts"
    if "map_of pool' q = Some ts'" for q ts'
  proof -
    from that IH obtain ts1 where "map_of pool1 q = Some ts1" "b_ir ts' = b_ir ts1" "d_i ts' = d_i ts1"
      "readyTimes ts' = readyTimes ts1" "ts_groupSize ts' = ts_groupSize ts1" by blast
    with fr(2)[of q ts1] show ?thesis by auto
  qed
  ultimately show ?case using fr(1) IH by auto
qed

lemma inv_alloc:
  assumes inv: "central_inv s gs" and run: "config s' = config s" "ledger_ok s' gs'" "cfg_ok s'"
    and al: "alloc_tasks s start tids (m_pool s, gs) = (m_pool s', gs')"
    and tids: "distinct tids" "\<forall>tid \<in> set tids. \<exists>ts. map_of (m_pool s) tid = Some ts \<and> \<not> scheduled ts \<and> quorum s ts"
  shows "central_inv s' gs'"
proof -
  have "\<forall>tid \<in> set tids. map_of (m_pool s) tid \<noteq> None" using tids(2) by auto
  note fr = alloc_tasks_frame[OF al this]
  have "pool_grants s (m_pool s') gs'"
    by (rule alloc_tasks_grants[OF _ tids al]) (use inv in \<open>simp add: central_inv_def\<close>)
  then have "pool_grants s' (m_pool s') gs'"
    using run(1) quorum_config[of s' s] by (simp add: pool_grants_def)
  moreover have "task_ok s' ts'" if "map_of (m_pool s') q = Some ts'" for q ts'
  proof -
    from fr that obtain ts where "map_of (m_pool s) q = Some ts" "b_ir ts' = b_ir ts" "d_i ts' = d_i ts"
      "readyTimes ts' = readyTimes ts" by blast
    moreover from this inv have "task_ok s ts" by (simp add: central_inv_def)
    ultimately show ?thesis using run(1) by (simp add: task_ok_def max_load_def)
  qed
  ultimately show ?thesis using inv run fr by (simp add: central_inv_def)
qed

lemma RunScheduling_refines:
  assumes inv: "central_inv s gs" and cur: "slot_at now s = Some cur" "cur \<le> 2 ^ 30"
  shows "\<exists>s' gs'. RunScheduling now s = Some s' \<and> central_inv s' gs' \<and> config s' = config s \<and>
    m_lastRunTime s' = m_lastRunTime s \<and>
    alloc_tasks s cur (sort_by (sjf_less (m_pool s)) (pendingTasks s)) (m_pool s, gs) = (m_pool s', gs')"
proof (cases "pendingTasks s = []")
  case True
  with inv show ?thesis by (simp add: RunScheduling_def alloc_tasks_def sort_by_def)
next
  case False
  let ?tids = "sort_by (sjf_less (m_pool s)) (pendingTasks s)"
  from inv have dist: "distinct (map fst (m_pool s))" by (simp add: central_inv_def)
  note pend = pending_spec[OF dist]
  have tids: "distinct ?tids"
    "\<forall>tid \<in> set ?tids. \<exists>ts. map_of (m_pool s) tid = Some ts \<and> \<not> scheduled ts \<and> quorum s ts"
    using pend by auto
  have fits: "\<forall>tid ts. map_of (m_pool s) tid = Some ts \<longrightarrow> task_fits cur s ts"
    using inv cur(2) by (auto simp: central_inv_def intro: task_ok_fits)
  have "ledger_ok s gs" "cfg_ok s" "\<forall>tid \<in> set ?tids. map_of (m_pool s) tid \<noteq> None"
    using inv tids(2) by (auto simp: central_inv_def)
  from schedule_tasks_refines[OF this fits] obtain s' gs' where
    r: "schedule_tasks cur ?tids s = Some s'" "alloc_tasks s cur ?tids (m_pool s, gs) = (m_pool s', gs')"
    "ledger_ok s' gs'" "cfg_ok s'" "config s' = config s" "m_lastRunTime s' = m_lastRunTime s" by blast
  have "central_inv s' gs'" by (rule inv_alloc[OF inv r(5,3,4,2) tids])
  with r False cur(1) show ?thesis
    by (intro exI[of _ s'] exI[of _ gs']) (simp add: RunScheduling_def slot_at_def)
qed

end
