(* ===== verification/Moe_Central_Admission.thy ===== *)
theory Moe_Central_Admission
  imports Moe_Central_Runs
begin

text \<open>
  The admission check: what a report changes, when a rank is admitted, and sequences of checks
  from the constructor on.
\<close>

lemma length_smap_set: "length m \<le> length (smap_set (<) k v m)"
  by (induction m) auto

lemma record_report_simps [simp]:
  "scheduled (record_report now rk t ts) = scheduled ts"
  "allowedTime (record_report now rk t ts) = allowedTime ts"
  "ts_groupSize (record_report now rk t ts) = ts_groupSize ts"
  "readyTimes (record_report now rk t ts) = smap_set (<) rk now (readyTimes ts)"
  "b_ir (record_report now rk t ts) = smap_set (<) rk (local_load rk t) (b_ir ts)"
  "d_i (record_report now rk t ts) = max (d_i ts) (local_load rk t)"
  "span (record_report now rk t ts) = span ts"
  by (simp_all add: record_report_def Let_def)

lemma record_report_ok:
  "task_ok s ts \<Longrightarrow> local_load rk t \<le> max_load s \<Longrightarrow> task_ok s (record_report now rk t ts)"
  by (simp add: task_ok_def smap_ok_set)

lemma record_report_quorum: "quorum s ts \<Longrightarrow> quorum s (record_report now rk t ts)"
  using length_smap_set[of "readyTimes ts" rk now] by (simp add: quorum_def targetQuorum_def split: if_splits)

lemma register_report_inv:
  assumes inv: "central_inv s gs" and load: "local_load rk t \<le> max_load s"
  shows "\<exists>s1 ts. register_report now rk t s = Some s1 \<and> central_inv s1 gs \<and> config s1 = config s \<and>
    m_lastRunTime s1 = m_lastRunTime s \<and> map_of (m_pool s1) (taskId t) = Some ts \<and>
    map_of (readyTimes ts) rk = Some now \<and> map_of (b_ir ts) rk = Some (local_load rk t)"
proof -
  let ?tid = "taskId t"
  define ts0 where "ts0 = (case map_of (m_pool s) ?tid of Some ts \<Rightarrow> ts | None \<Rightarrow> new_task_state now (m_Rslot s) t)"
  let ?ts = "record_report now rk t ts0"
  let ?s = "pool_set ?tid ?ts s"
  have R: "m_Rslot s \<noteq> 0" using inv by (simp add: central_inv_def cfg_ok_def)
  have ok0: "task_ok s ts0"
    using inv by (auto simp: ts0_def central_inv_def new_task_state_def task_ok_def split: option.splits)
  have ok: "task_ok s ?ts" using ok0 load by (rule record_report_ok)
  have "pool_grants s (AList.update ?tid ?ts (m_pool s)) gs"
  proof -
    have pg: "pool_grants s (m_pool s) gs" using inv by (simp add: central_inv_def)
    have sch: "scheduled ?ts \<longleftrightarrow> ?tid \<in> gr_task ` set gs"
      using pg by (force simp: ts0_def new_task_state_def pool_grants_def split: option.splits)
    show ?thesis unfolding pool_grants_def
    proof (intro conjI allI impI ballI)
      show "distinct (map gr_task gs)" using pg by (simp add: pool_grants_def)
      fix q ts' assume "map_of (AList.update ?tid ?ts (m_pool s)) q = Some ts'"
      with pg sch show "scheduled ts' \<longleftrightarrow> q \<in> gr_task ` set gs"
        by (auto simp: pool_grants_def update_conv' split: if_splits)
    next
      fix g assume "g \<in> set gs"
      with pg obtain ts' where g: "map_of (m_pool s) (gr_task g) = Some ts'" "quorum s ts'"
        "allowedTime ts' = dbl (of_nat (gr_start g) * m_deltaT s)" "gr_span g = span ts'" "gr_load g \<le> d_i ts'"
        by (auto simp: pool_grants_def)
      show "\<exists>ts. map_of (AList.update ?tid ?ts (m_pool s)) (gr_task g) = Some ts \<and> quorum s ts \<and>
          allowedTime ts = dbl (of_nat (gr_start g) * m_deltaT s) \<and> gr_span g = span ts \<and> gr_load g \<le> d_i ts"
      proof (cases "gr_task g = ?tid")
        case True
        then have "ts0 = ts'" using g(1) by (simp add: ts0_def)
        with g True record_report_quorum[of s ts'] show ?thesis by (simp add: update_conv')
      qed (use g in \<open>simp add: update_conv'\<close>)
    qed
  qed
  then have pg: "pool_grants ?s (m_pool ?s) gs"
    using quorum_config[of ?s s] by (simp add: pool_grants_def)
  have "task_ok ?s ts'" if "map_of (m_pool ?s) q = Some ts'" for q ts'
    using that ok inv by (auto simp: update_conv' task_ok_def max_load_def central_inv_def split: if_splits)
  with pg inv have "central_inv ?s gs"
    by (auto simp: central_inv_def cfg_ok_def distinct_update)
  moreover have "register_report now rk t s = Some ?s"
    using R by (simp add: register_report_def ts0_def split: option.splits)
  moreover have "map_of (readyTimes ?ts) rk = Some now" "map_of (b_ir ?ts) rk = Some (local_load rk t)"
    using ok0 by (simp_all add: map_of_smap_set task_ok_def)
  ultimately show ?thesis by (intro exI[of _ ?s] exI[of _ ?ts]) (simp add: update_conv')
qed

lemma inv_lastRun [simp]: "central_inv (s\<lparr>m_lastRunTime := x\<rparr>) gs = central_inv s gs"
  by (simp add: central_inv_def cfg_ok_def pool_grants_def quorum_def targetQuorum_def task_ok_def max_load_def)

text \<open>
  The grants that lead from one state of the program to another: one for every task that is
  scheduled in the second state and not in the first, with the span and the loads that the pool
  holds for it and the release time in the pool as its first slot.
\<close>

definition scheduled_tasks :: "central \<Rightarrow> nat set" where
  "scheduled_tasks s = set (map fst (filter (\<lambda>(tid, ts). scheduled ts) (m_pool s)))"

definition granted_by :: "central \<Rightarrow> central \<Rightarrow> grant list \<Rightarrow> bool" where
  "granted_by s s' new \<longleftrightarrow> distinct (map gr_task new) \<and>
     gr_task ` set new = scheduled_tasks s' - scheduled_tasks s \<and>
     (\<forall>g \<in> set new. grant_matches (m_pool s') g \<and>
        map_option allowedTime (map_of (m_pool s') (gr_task g)) = Some (dbl (of_nat (gr_start g) * m_deltaT s')))"

lemma scheduled_tasks_inv:
  assumes "central_inv s gs"
  shows "scheduled_tasks s = gr_task ` set gs"
proof -
  have d: "distinct (map fst (m_pool s))" and pg: "pool_grants s (m_pool s) gs"
    using assms by (simp_all add: central_inv_def)
  have "tid \<in> scheduled_tasks s \<longleftrightarrow> (\<exists>ts. map_of (m_pool s) tid = Some ts \<and> scheduled ts)" for tid
    using map_of_eq_Some_iff[OF d] by (force simp: scheduled_tasks_def)
  moreover have "(\<exists>ts. map_of (m_pool s) tid = Some ts \<and> scheduled ts) \<longleftrightarrow> tid \<in> gr_task ` set gs" for tid
    using pg by (fastforce simp: pool_grants_def)
  ultimately show ?thesis by blast
qed

lemma granted_by_inv:
  assumes "central_inv s gs" "central_inv s' (gs @ new)" "\<forall>g \<in> set new. grant_matches (m_pool s') g"
  shows "granted_by s s' new"
proof -
  have pg: "pool_grants s' (m_pool s') (gs @ new)" using assms(2) by (simp add: central_inv_def)
  then have d: "distinct (map gr_task (gs @ new))" by (simp add: pool_grants_def)
  then have "gr_task ` set new = scheduled_tasks s' - scheduled_tasks s"
    using scheduled_tasks_inv[OF assms(1)] scheduled_tasks_inv[OF assms(2)] by auto
  moreover have "map_option allowedTime (map_of (m_pool s') (gr_task g)) = Some (dbl (of_nat (gr_start g) * m_deltaT s'))"
    if "g \<in> set new" for g
    using pg that by (fastforce simp: pool_grants_def)
  ultimately show ?thesis using d assms(3) by (simp add: granted_by_def)
qed

text \<open>Every check returns, keeps the invariant and only adds the grants of the tasks it schedules.\<close>

lemma CheckAdmission_inv:
  assumes inv: "central_inv s gs" and load: "local_load rk t \<le> max_load s"
    and cur: "slot_at now s = Some cur" "cur \<le> 2 ^ 30"
  shows "\<exists>b s' new. CheckAdmission now rk t s = Some (b, s') \<and> central_inv s' (gs @ new) \<and>
    granted_by s s' new \<and> config s' = config s"
proof (cases "now < startTime t")
  case True
  then show ?thesis using inv granted_by_inv[of s gs s "[]"]
    by (intro exI[of _ False] exI[of _ s] exI[of _ "[]"]) (simp add: CheckAdmission_def)
next
  case False
  from register_report_inv[OF inv load, of now] obtain s1 ts where
    s1: "register_report now rk t s = Some s1" "central_inv s1 gs" "config s1 = config s"
    "map_of (m_pool s1) (taskId t) = Some ts" by blast
  show ?thesis
  proof (cases "\<not> scheduled ts \<and> quorum s1 ts \<and> m_lastRunTime s1 < now")
    case no: False
    with False s1 show ?thesis using granted_by_inv[OF inv, of s1 "[]"]
      by (intro exI[of _ "if scheduled ts then dbl (allowedTime ts + jitter rk) \<le> now else False"] exI[of _ s1] exI[of _ "[]"])
        (auto simp: CheckAdmission_def)
  next
    case yes: True
    have "slot_at now s1 = Some cur" using cur(1) s1(3) by (simp add: slot_at_def)
    from RunScheduling_refines[OF s1(2) this cur(2)] obtain s2 gs2 where
      s2: "RunScheduling now s1 = Some s2" "central_inv s2 gs2" "config s2 = config s1"
      and al: "alloc_tasks s1 cur (sort_by (sjf_less (m_pool s1)) (pendingTasks s1)) (m_pool s1, gs) = (m_pool s2, gs2)"
      by blast
    have d: "distinct (map fst (m_pool s1))" using s1(2) by (simp add: central_inv_def)
    then have ex: "\<forall>tid \<in> set (sort_by (sjf_less (m_pool s1)) (pendingTasks s1)). map_of (m_pool s1) tid \<noteq> None"
      using pending_spec(2) by auto
    note fr = alloc_tasks_frame[OF al this]
    have "distinct (sort_by (sjf_less (m_pool s1)) (pendingTasks s1))" using pending_spec(1) d by simp
    from alloc_tasks_matches[OF al this ex] obtain new where
      new: "gs2 = gs @ new" and m: "\<forall>g \<in> set new. grant_matches (m_pool s2) g" by blast
    from fr s1(4) obtain ts2 where ts2: "map_of (m_pool s2) (taskId t) = Some ts2" by (metis not_None_eq)
    let ?s = "s2\<lparr>m_lastRunTime := now\<rparr>"
    have "CheckAdmission now rk t s = Some (scheduled ts2 \<and> allowedTime ts2 \<le> now, ?s)"
      using False s1 yes s2(1) ts2 by (simp add: CheckAdmission_def)
    moreover have inv2: "central_inv ?s (gs @ new)" using s2(2) new by simp
    moreover have "granted_by s ?s new" using granted_by_inv[OF inv inv2] m by simp
    ultimately show ?thesis using s2(3) s1(3)
      by (intro exI[of _ "scheduled ts2 \<and> allowedTime ts2 \<le> now"] exI[of _ ?s] exI[of _ new]) simp
  qed
qed

text \<open>
  When a check says yes: the jitter is only asked for when the task was scheduled before.
\<close>

lemma scheduled_tasks_iff:
  assumes "central_inv s gs"
  shows "tid \<in> scheduled_tasks s \<longleftrightarrow> (\<exists>ts. map_of (m_pool s) tid = Some ts \<and> scheduled ts)"
proof -
  have "distinct (map fst (m_pool s))" using assms by (simp add: central_inv_def)
  from map_of_eq_Some_iff[OF this] show ?thesis by (force simp: scheduled_tasks_def)
qed

lemma CheckAdmission_admits:
  assumes inv: "central_inv s gs" and run: "CheckAdmission now rk t s = Some (True, s')"
  shows "startTime t \<le> now \<and> (\<exists>ts. map_of (m_pool s') (taskId t) = Some ts \<and> scheduled ts \<and>
    (if taskId t \<in> scheduled_tasks s then dbl (allowedTime ts + jitter rk) \<le> now else allowedTime ts \<le> now))"
proof -
  have start: "\<not> now < startTime t" using run by (auto simp: CheckAdmission_def split: if_splits)
  from run start obtain s1 ts where s1: "register_report now rk t s = Some s1" "map_of (m_pool s1) (taskId t) = Some ts"
    by (auto simp: CheckAdmission_def split: Option.bind_splits)
  then have "scheduled ts \<longleftrightarrow> taskId t \<in> scheduled_tasks s"
    unfolding scheduled_tasks_iff[OF inv]
    by (auto simp: register_report_def update_conv' new_task_state_def split: option.splits if_splits)
  with run start s1 show ?thesis
    by (cases "scheduled ts") (auto simp: CheckAdmission_def split: if_splits Option.bind_splits)
qed

subsection \<open>Sequences of checks\<close>

primrec admissions :: "(seconds \<times> rank \<times> moe_task) list \<Rightarrow> central \<Rightarrow> (bool list \<times> central) option" where
  "admissions [] s = Some ([], s)"
| "admissions (x # xs) s = (case x of (now, rk, t) \<Rightarrow> do {
     (b, s1) \<leftarrow> CheckAdmission now rk t s;
     (bs, s2) \<leftarrow> admissions xs s1;
     Some (b # bs, s2)
   })"

definition report_ok :: "central \<Rightarrow> seconds \<times> rank \<times> moe_task \<Rightarrow> bool" where
  "report_ok s = (\<lambda>(now, rk, t). local_load rk t \<le> max_load s \<and>
     (case slot_at now s of None \<Rightarrow> False | Some cur \<Rightarrow> cur \<le> 2 ^ 30))"

lemma report_ok_config: "config s' = config s \<Longrightarrow> report_ok s' = report_ok s"
  by (simp add: report_ok_def max_load_def slot_at_def fun_eq_iff)

text \<open>The grants of a sequence of checks, one list for each: what each of them scheduled.\<close>

inductive run_grants :: "central \<Rightarrow> (seconds \<times> rank \<times> moe_task) list \<Rightarrow> central \<Rightarrow> grant list \<Rightarrow> bool" where
  run_none: "run_grants s [] s []"
| run_check: "CheckAdmission now rk t s = Some (b, s1) \<Longrightarrow> granted_by s s1 new \<Longrightarrow> run_grants s1 xs s2 rest \<Longrightarrow>
    run_grants s ((now, rk, t) # xs) s2 (new @ rest)"

inductive_cases run_grants_ConsE: "run_grants s (x # xs) s' gs"

lemma admissions_inv:
  assumes "central_inv s gs" "\<forall>x \<in> set xs. report_ok s x"
  shows "\<exists>bs s' new. admissions xs s = Some (bs, s') \<and> run_grants s xs s' new \<and> central_inv s' (gs @ new) \<and>
    config s' = config s"
  using assms
proof (induction xs arbitrary: s gs)
  case Nil
  then show ?case by (intro exI[of _ "[]"] exI[of _ s]) (auto intro: run_none)
next
  case (Cons x xs)
  obtain now rk t where x: "x = (now, rk, t)" by (cases x)
  with Cons.prems(2) obtain cur where "local_load rk t \<le> max_load s" "slot_at now s = Some cur" "cur \<le> 2 ^ 30"
    by (auto simp: report_ok_def split: option.splits)
  from CheckAdmission_inv[OF Cons.prems(1) this] obtain b s1 new where
    1: "CheckAdmission now rk t s = Some (b, s1)" "central_inv s1 (gs @ new)" and new: "granted_by s s1 new"
    and cfg: "config s1 = config s" by blast
  have "\<forall>x \<in> set xs. report_ok s1 x" using Cons.prems(2) report_ok_config[OF cfg] by simp
  from Cons.IH[OF 1(2) this] obtain bs s2 new2 where
    2: "admissions xs s1 = Some (bs, s2)" "run_grants s1 xs s2 new2" "central_inv s2 ((gs @ new) @ new2)"
    "config s2 = config s1" by blast
  have "run_grants s (x # xs) s2 (new @ new2)" unfolding x by (rule run_check[OF 1(1) new 2(2)])
  with 1(1) 2 cfg show ?case by (intro exI[of _ "b # bs"] exI[of _ s2] exI[of _ "new @ new2"]) (simp add: x)
qed

subsection \<open>The constructor\<close>

lemma central_init_establishes:
  assumes "central_init scale nodes = Some s"
  shows "central_inv s []"
proof -
  from assms have "0 < m_Rslot s" "m_Rslot s < 2 ^ 32" "m_T s = 100000" "m_pool s = []"
    "m_globalCap s = replicate 120000 (m_globalLimit s)" "m_rankCap s = replicate 120000 []"
    by (auto simp: central_init_def Let_def ResetCapacity_def map_replicate_const split: Option.bind_splits)
  then show ?thesis
    by (auto simp: central_inv_def ledger_ok_def cfg_ok_def pool_grants_def granted_def granted_rank_def left_def)
qed

text \<open>The constants of the constructor at scale 1, rounded as the program rounds them.\<close>

lemma dbl_const1: "dbl (1 / 10 ^ 5) = 5902958103587057 / 590295810358705651712"
proof -
  have e: "dbl_exponent (1 / 10 ^ 5) = - 17" by code_simp
  have m: "round_half_even ((1 / 10 ^ 5) * pow2 (52 - (- 17))) = 5902958103587057" by code_simp
  show ?thesis by (subst dbl_eval[OF e m]) (simp_all add: pow2_def)
qed

lemma dbl_const2: "dbl (5 / 100) = 3602879701896397 / 72057594037927936"
proof -
  have e: "dbl_exponent (5 / 100) = - 5" by code_simp
  have m: "round_half_even ((5 / 100) * pow2 (52 - (- 5))) = 7205759403792794" by code_simp
  show ?thesis by (subst dbl_eval[OF e m]) (simp_all add: pow2_def)
qed

lemma dbl_const3: "dbl (1 / 10) = 3602879701896397 / 36028797018963968"
proof -
  have e: "dbl_exponent (1 / 10) = - 4" by code_simp
  have m: "round_half_even ((1 / 10) * pow2 (52 - (- 4))) = 7205759403792794" by code_simp
  show ?thesis by (subst dbl_eval[OF e m]) (simp_all add: pow2_def)
qed

lemma dbl_const4: "dbl (12500000000 * (5902958103587057 / 590295810358705651712)) = 8589934592000001 / 68719476736"
proof -
  have e: "dbl_exponent (12500000000 * (5902958103587057 / 590295810358705651712)) = 16" by code_simp
  have m: "round_half_even ((12500000000 * (5902958103587057 / 590295810358705651712)) * pow2 (52 - (16))) = 8589934592000001" by code_simp
  show ?thesis by (subst dbl_eval[OF e m]) (simp_all add: pow2_def)
qed

lemma dbl_const5: "dbl ((8589934592000001 / 68719476736) * 64) = 8589934592000001 / 1073741824"
proof -
  have e: "dbl_exponent ((8589934592000001 / 68719476736) * 64) = 22" by code_simp
  have m: "round_half_even (((8589934592000001 / 68719476736) * 64) * pow2 (52 - (22))) = 8589934592000001" by code_simp
  show ?thesis by (subst dbl_eval[OF e m]) (simp_all add: pow2_def)
qed

lemma dbl_const6: "dbl ((8589934592000001 / 1073741824) * (3602879701896397 / 72057594037927936)) = 6871947673600001 / 17179869184"
proof -
  have e: "dbl_exponent ((8589934592000001 / 1073741824) * (3602879701896397 / 72057594037927936)) = 18" by code_simp
  have m: "round_half_even (((8589934592000001 / 1073741824) * (3602879701896397 / 72057594037927936)) * pow2 (52 - (18))) = 6871947673600001" by code_simp
  show ?thesis by (subst dbl_eval[OF e m]) (simp_all add: pow2_def)
qed

lemma dbl_const7: "dbl ((8589934592000001 / 68719476736) * (3602879701896397 / 36028797018963968)) = 6871947673600001 / 549755813888"
proof -
  have e: "dbl_exponent ((8589934592000001 / 68719476736) * (3602879701896397 / 36028797018963968)) = 13" by code_simp
  have m: "round_half_even (((8589934592000001 / 68719476736) * (3602879701896397 / 36028797018963968)) * pow2 (52 - (13))) = 6871947673600001" by code_simp
  show ?thesis by (subst dbl_eval[OF e m]) (simp_all add: pow2_def)
qed

lemmas dbl_consts = dbl_const1 dbl_const2 dbl_const3 dbl_const4 dbl_const5 dbl_const6 dbl_const7

lemma central_init_default: "central_init 1 nodes = Some (ResetCapacity
       \<lparr>m_deltaT = dbl (1 / 10 ^ 5), m_B_NIC = 100000000000, m_T = 100000, m_globalNodes = nodes,
        m_Rslot = 12500, m_scaleFactor = 1, m_globalLimit = 400000, m_rankLimit = 12500,
        m_pool = [], m_lastRunTime = - 1,
        m_globalCap = replicate (100000 + 20000) 0, m_rankCap = replicate (100000 + 20000) []\<rparr>)"
proof -
  have n: "dbl (of_nat 100000000000) = 100000000000" "dbl (100000000000 * 1) = 100000000000"
    "16 * 4 = (64 :: rat)" "dbl (100000000000 / 8) = 12500000000" "cast_uint 64 100000000000 = Some 100000000000"
    using dbl_of_nat[of 100000000000] dbl_of_nat[of 12500000000] by (simp_all add: cast_uint_def)
  have f: "\<lfloor>6871947673600001 / 17179869184 :: rat\<rfloor> = 400000" "\<lfloor>6871947673600001 / 549755813888 :: rat\<rfloor> = 12500" by (rule floor_unique; simp)+
  have c: "cast_uint 64 (6871947673600001 / 17179869184) = Some 400000" "cast_uint 64 (6871947673600001 / 549755813888) = Some 12500"
    unfolding cast_uint_def f by simp_all
  show ?thesis
    by (simp only: central_init_def Let_def n bind.simps dbl_consts c) simp
qed
end
