(* ===== verification/Moe_Central_Properties.thy ===== *)
theory Moe_Central_Properties
  imports Moe_Central_Admission
begin

text \<open>The properties of the centralised MoE scheduler.\<close>

definition small_central :: central where
  "small_central = \<lparr>m_deltaT = 1 / 4, m_B_NIC = 1000, m_T = 4, m_globalNodes = 1, m_Rslot = 10,
     m_scaleFactor = 1, m_globalLimit = 20, m_rankLimit = 20,
     m_pool = [(7, \<lparr>ts_taskId = 7, readyTimes = [(0, 0)], b_ir = [(0, 25)], d_i = 25, t_seen = 0,
        scheduled = False, allowedTime = - 1, ts_b = 25, span = 3, ts_groupSize = 1\<rparr>)],
     m_lastRunTime = - 1, m_globalCap = replicate 4 20, m_rankCap = replicate 4 []\<rparr>"

definition small_task :: moe_task where
  "small_task = \<lparr>taskId = 7, startTime = 0, sendFlows = [(1, 25)], expectedRecvFlows = [(0, 5), (1, 5)],
     computationTime = 0, dependencies = [], groupSize = 1\<rparr>"

lemma small_central_inv: "central_inv small_central []"
  by (auto simp: small_central_def central_inv_def ledger_ok_def cfg_ok_def pool_grants_def granted_def
      granted_rank_def left_def task_ok_def max_load_def)

lemma small_slot: "slot_at 0 small_central = Some 0"
  by (simp add: slot_at_def small_central_def cast_uint_def)

lemma small_load: "local_load 0 small_task = 25"
  by (simp add: local_load_def small_task_def u64_add_def)

text \<open>
  C1. However the ranks report, every check returns, and the grants of the run - for each check
  one grant for every task it has newly scheduled, with the release time, the span and the loads
  that the pool holds for the task at that moment - never exceed the capacity of a slot, globally
  or for a rank. The ledger of the code is exactly what these grants leave: for every slot and
  every rank the remaining capacity and the granted bytes add up to the limit. A task is scheduled
  exactly when it holds its one grant, after its quorum has reported.
\<close>

theorem admissions_never_oversubscribe:
  assumes "central_init scale nodes = Some s" "\<forall>x \<in> set xs. report_ok s x"
  shows "\<exists>bs s' gs. admissions xs s = Some (bs, s') \<and> run_grants s xs s' gs \<and> ledger_ok s' gs \<and>
    pool_grants s' (m_pool s') gs \<and>
    (\<forall>i r. granted gs i \<le> m_globalLimit s \<and> granted_rank gs r i \<le> m_rankLimit s)"
proof -
  from admissions_inv[OF central_init_establishes[OF assms(1)] assms(2)] obtain bs s' gs where
    "admissions xs s = Some (bs, s')" "run_grants s xs s' gs" "central_inv s' gs" "config s' = config s" by auto
  moreover from this have "ledger_ok s' gs" "pool_grants s' (m_pool s') gs" by (simp_all add: central_inv_def)
  ultimately show ?thesis using ledger_ok_safe[of s' gs] by (intro exI[of _ bs] exI[of _ s'] exI[of _ gs]) simp
qed

theorem admissions_never_oversubscribe_witness:
  "\<exists>s bs s' gs. central_init 1 1 = Some s \<and> admissions [(0, 0, small_task), (0, 1, small_task)] s = Some (bs, s') \<and>
    run_grants s [(0, 0, small_task), (0, 1, small_task)] s' gs \<and> ledger_ok s' gs \<and>
    (\<forall>i r. granted gs i \<le> m_globalLimit s \<and> granted_rank gs r i \<le> m_rankLimit s)"
proof -
  obtain s where s: "central_init 1 1 = Some s" "m_Rslot s = 12500"
    using central_init_default[of 1] by (simp add: ResetCapacity_def)
  have "\<forall>x \<in> set [(0, 0, small_task), (0, 1, small_task)]. report_ok s x"
    using s(2) by (simp add: report_ok_def local_load_def small_task_def u64_add_def max_load_def slot_at_def cast_uint_def)
  from admissions_never_oversubscribe[OF s(1) this] s(1) show ?thesis by blast
qed

text \<open>
  C2. The scheduling pass of the code - two nested capacity loops over a mutable ledger, with
  jumps behind full slots and a ledger that grows on demand - computes the abstract allocation:
  the pending tasks in order of their bottleneck get the first window in which the grants made
  so far leave room.
\<close>

theorem RunScheduling_is_first_fit:
  assumes "central_inv s gs" "slot_at now s = Some cur" "cur \<le> 2 ^ 30"
  shows "\<exists>s' gs'. RunScheduling now s = Some s' \<and> central_inv s' gs' \<and>
    alloc_tasks s cur (sort_by (sjf_less (m_pool s)) (pendingTasks s)) (m_pool s, gs) = (m_pool s', gs')"
  using RunScheduling_refines[OF assms] by blast

theorem RunScheduling_is_first_fit_witness:
  "\<exists>s' gs'. RunScheduling 0 small_central = Some s' \<and> central_inv s' gs' \<and>
    alloc_tasks small_central 0 [7] (m_pool small_central, []) = (m_pool s', gs')"
proof -
  have "sort_by (sjf_less (m_pool small_central)) (pendingTasks small_central) = [7]"
    by (simp add: sort_by_def pendingTasks_def small_central_def quorum_def targetQuorum_def)
  with RunScheduling_is_first_fit[OF small_central_inv small_slot] show ?thesis by simp
qed

text \<open>
  C3. A rank is admitted only after the start time of its task, for a task that holds a grant with
  its quorum complete. If an earlier check had scheduled the task, the release time of its run of
  slots plus the jitter of the rank has come; otherwise this very check has granted the run, and
  its release time has come.
\<close>

theorem admitted_only_granted:
  assumes "central_inv s gs" "local_load rk t \<le> max_load s" "slot_at now s = Some cur" "cur \<le> 2 ^ 30"
    and "CheckAdmission now rk t s = Some (True, s')"
  shows "startTime t \<le> now \<and> (\<exists>new g ts. central_inv s' (gs @ new) \<and> granted_by s s' new \<and>
    gr_task g = taskId t \<and> map_of (m_pool s') (taskId t) = Some ts \<and> scheduled ts \<and> quorum s' ts \<and>
    allowedTime ts = dbl (of_nat (gr_start g) * m_deltaT s') \<and>
    (if taskId t \<in> scheduled_tasks s then g \<in> set gs \<and> dbl (allowedTime ts + jitter rk) \<le> now
     else g \<in> set new \<and> allowedTime ts \<le> now))"
proof -
  from CheckAdmission_inv[OF assms(1-4)] assms(5) obtain new where
    inv: "central_inv s' (gs @ new)" and new: "granted_by s s' new" by auto
  from CheckAdmission_admits[OF assms(1,5)] obtain ts where
    ts: "startTime t \<le> now" "map_of (m_pool s') (taskId t) = Some ts" "scheduled ts"
      "if taskId t \<in> scheduled_tasks s then dbl (allowedTime ts + jitter rk) \<le> now else allowedTime ts \<le> now" by blast
  from inv ts have "taskId t \<in> gr_task ` set (gs @ new)" by (simp add: central_inv_def pool_grants_def)
  then obtain g where g: "g \<in> set (gs @ new)" "gr_task g = taskId t" by (metis imageE)
  from new have "gr_task ` set new = scheduled_tasks s' - scheduled_tasks s" by (simp add: granted_by_def)
  with scheduled_tasks_inv[OF assms(1)] g have "if taskId t \<in> scheduled_tasks s then g \<in> set gs else g \<in> set new"
    by (metis DiffD2 Un_iff image_eqI set_append)
  moreover from inv g ts have "quorum s' ts" "allowedTime ts = dbl (of_nat (gr_start g) * m_deltaT s')"
    unfolding central_inv_def pool_grants_def by fastforce+
  ultimately show ?thesis using inv new g ts
    by (intro conjI exI[of _ new] exI[of _ g] exI[of _ ts]) (auto split: if_splits)
qed

definition granted_central :: central where
  "granted_central = small_central\<lparr>m_pool := [(7, \<lparr>ts_taskId = 7, readyTimes = [(0, 0)], b_ir = [(0, 25)],
     d_i = 25, t_seen = 0, scheduled = True, allowedTime = 0, ts_b = 25, span = 3, ts_groupSize = 1\<rparr>)],
     m_globalCap := [12, 12, 12, 20], m_rankCap := [[(0, 12)], [(0, 12)], [(0, 12)], []]\<rparr>"

lemma granted_central_ledger:
  "ledger_ok granted_central [\<lparr>gr_task = 7, gr_start = 0, gr_span = 3, gr_load = 25, gr_ranks = [(0, 25)]\<rparr>]"
  unfolding ledger_ok_def
  by (simp add: granted_central_def small_central_def granted_def granted_rank_def covers_def
      rank_share_def left_def All_less_Suc)

lemma granted_central_inv:
  "central_inv granted_central [\<lparr>gr_task = 7, gr_start = 0, gr_span = 3, gr_load = 25, gr_ranks = [(0, 25)]\<rparr>]"
  using granted_central_ledger
  by (simp add: central_inv_def) (simp add: granted_central_def small_central_def cfg_ok_def pool_grants_def
      task_ok_def max_load_def quorum_def targetQuorum_def)

theorem admitted_only_granted_witness:
  "\<exists>s' new ts. CheckAdmission 0 0 small_task granted_central = Some (True, s') \<and>
    granted_by granted_central s' new \<and> map_of (m_pool s') 7 = Some ts \<and> scheduled ts \<and>
    quorum s' ts \<and> 7 \<in> scheduled_tasks granted_central \<and> dbl (allowedTime ts + jitter 0) \<le> 0"
proof -
  obtain s' where s': "CheckAdmission 0 0 small_task granted_central = Some (True, s')"
    by (simp add: CheckAdmission_def register_report_def small_task_def granted_central_def small_central_def
        pool_set_def jitter_def)
  have "local_load 0 small_task \<le> max_load granted_central" "slot_at 0 granted_central = Some 0"
    using small_slot by (simp_all add: small_load max_load_def small_central_def granted_central_def slot_at_def)
  moreover have "7 \<in> scheduled_tasks granted_central" by (simp add: scheduled_tasks_def granted_central_def)
  ultimately show ?thesis using admitted_only_granted[OF granted_central_inv _ _ _ s', of 0] s'
    by (auto simp: small_task_def)
qed

end
