(* ===== verification/Ipv4_Address.thy ===== *)
theory Ipv4_Address
  imports Ns3_Prelude
begin

text \<open>
  \<open>Ipv4Address\<close> and \<open>Ipv4Mask\<close> (\<open>src/network/utils/ipv4-address.h\<close> and \<open>.cc\<close>): the numeric
  operations. Construction from dotted strings (\<open>inet_pton\<close>), printing and the
  \<open>m_initialized\<close> flag, which only the string constructors clear, are not modelled.
\<close>

datatype ipv4 = Ipv4 (addr: u32)
datatype ipv4_mask = Mask (mask_bits: u32)

text \<open>\<open>operator<\<close> orders addresses by their number.\<close>

instantiation ipv4 :: linorder
begin

definition less_eq_ipv4 :: "ipv4 \<Rightarrow> ipv4 \<Rightarrow> bool" where
  "less_eq_ipv4 a b \<longleftrightarrow> addr a \<le> addr b"

definition less_ipv4 :: "ipv4 \<Rightarrow> ipv4 \<Rightarrow> bool" where
  "less_ipv4 a b \<longleftrightarrow> addr a < addr b"

instance
  by standard (auto simp: less_eq_ipv4_def less_ipv4_def intro: ipv4.expand)

end

definition ipv4_eq :: "ipv4 \<Rightarrow> ipv4 \<Rightarrow> bool" where
  "ipv4_eq a b \<longleftrightarrow> addr a = addr b"

definition ipv4_less :: "ipv4 \<Rightarrow> ipv4 \<Rightarrow> bool" where
  "ipv4_less a b \<longleftrightarrow> addr a < addr b"

definition Mask_of_prefix :: "nat \<Rightarrow> ipv4_mask option" where
  "Mask_of_prefix plen = (if plen \<le> 32 then Some (Mask (if 0 < plen then push_bit (32 - plen) 0xffffffff else 0)) else None)"

definition Mask_IsMatch :: "ipv4_mask \<Rightarrow> ipv4 \<Rightarrow> ipv4 \<Rightarrow> bool" where
  "Mask_IsMatch m a b \<longleftrightarrow> addr a AND mask_bits m = addr b AND mask_bits m"

definition Mask_GetInverse :: "ipv4_mask \<Rightarrow> u32" where
  "Mask_GetInverse m = NOT (mask_bits m)"

definition Mask_GetLoopback :: ipv4_mask where "Mask_GetLoopback = Mask 0xff000000"
definition Mask_GetZero :: ipv4_mask where "Mask_GetZero = Mask 0"
definition Mask_GetOnes :: ipv4_mask where "Mask_GetOnes = Mask 0xffffffff"

text \<open>The loop of \<open>GetPrefixLength\<close> shifts until nothing is left: at most 32 times.\<close>

function prefix_loop :: "u32 \<Rightarrow> nat \<Rightarrow> nat" where
  "prefix_loop m tmp = (if m \<noteq> 0 then prefix_loop (push_bit 1 m) (Suc tmp) else tmp)"
  by auto

definition low_zeros :: "u32 \<Rightarrow> nat" where
  "low_zeros m = (LEAST n. push_bit n m = 0)"

lemma push_bit_32: "push_bit 32 (m :: u32) = 0"
  by (rule bit_word_eqI) (simp add: bit_push_bit_iff)

termination prefix_loop
proof (relation "measure (\<lambda>(m, _). low_zeros m)")
  fix m :: u32 and tmp
  assume m: "m \<noteq> 0"
  let ?n = "LEAST n. push_bit n m = 0"
  have z: "push_bit ?n m = 0" by (rule LeastI[of _ 32]) (rule push_bit_32)
  with m have "?n \<noteq> 0" by (metis push_bit_of_0 push_bit_0_id id_apply)
  then have "push_bit (?n - 1) (push_bit 1 m) = push_bit ?n m"
    unfolding push_bit_push_bit by simp
  with z have "push_bit (?n - 1) (push_bit 1 m) = 0" by (simp only:)
  then have "(LEAST n. push_bit n (push_bit 1 m) = 0) \<le> ?n - 1" by (rule Least_le)
  with \<open>?n \<noteq> 0\<close> show "((push_bit 1 m, Suc tmp), m, tmp) \<in> measure (\<lambda>(m, _). low_zeros m)"
    by (simp add: low_zeros_def)
qed simp

declare prefix_loop.simps [simp del]

definition GetPrefixLength :: "ipv4_mask \<Rightarrow> nat" where
  "GetPrefixLength m = prefix_loop (mask_bits m) 0"

definition CombineMask :: "ipv4 \<Rightarrow> ipv4_mask \<Rightarrow> ipv4" where
  "CombineMask a m = Ipv4 (addr a AND mask_bits m)"

definition GetBroadcast :: ipv4 where "GetBroadcast = Ipv4 0xffffffff"
definition GetAny :: ipv4 where "GetAny = Ipv4 0"
definition GetZero :: ipv4 where "GetZero = Ipv4 0"
definition GetLoopback :: ipv4 where "GetLoopback = Ipv4 0x7f000001"

definition GetSubnetDirectedBroadcast :: "ipv4 \<Rightarrow> ipv4_mask \<Rightarrow> ipv4 option" where
  "GetSubnetDirectedBroadcast a m = (if m = Mask_GetOnes then None else Some (Ipv4 (addr a OR Mask_GetInverse m)))"

definition IsSubnetDirectedBroadcast :: "ipv4 \<Rightarrow> ipv4_mask \<Rightarrow> bool" where
  "IsSubnetDirectedBroadcast a m \<longleftrightarrow> (if m = Mask_GetOnes then False else addr a OR mask_bits m = addr GetBroadcast)"

definition IsAny :: "ipv4 \<Rightarrow> bool" where "IsAny a \<longleftrightarrow> addr a = 0"
definition IsLocalhost :: "ipv4 \<Rightarrow> bool" where "IsLocalhost a \<longleftrightarrow> addr a = 0x7f000001"
definition IsBroadcast :: "ipv4 \<Rightarrow> bool" where "IsBroadcast a \<longleftrightarrow> addr a = 0xffffffff"

definition IsMulticast :: "ipv4 \<Rightarrow> bool" where
  "IsMulticast a \<longleftrightarrow> 0xe0000000 \<le> addr a \<and> addr a \<le> 0xefffffff"

definition IsLocalMulticast :: "ipv4 \<Rightarrow> bool" where
  "IsLocalMulticast a \<longleftrightarrow> addr a AND 0xffffff00 = 0xe0000000"

text \<open>\<open>operator==\<close> and \<open>operator<\<close> are the equality and the order of the type.\<close>

lemma ipv4_eq_eq [simp]: "ipv4_eq a b \<longleftrightarrow> a = b"
  by (auto simp: ipv4_eq_def intro: ipv4.expand)

lemma ipv4_less_less [simp]: "ipv4_less a b \<longleftrightarrow> a < b"
  by (simp add: ipv4_less_def less_ipv4_def)

lemma ipv4_less_fun [simp]: "ipv4_less = (<)"
  by (intro ext) simp

lemma Mask_IsMatch_Combine: "Mask_IsMatch m a b \<longleftrightarrow> CombineMask a m = CombineMask b m"
  by (simp add: Mask_IsMatch_def CombineMask_def)

lemma CombineMask_idem [simp]: "CombineMask (CombineMask a m) m = CombineMask a m"
  by (simp add: CombineMask_def ac_simps)

text \<open>The loop counts the shifts that clear the mask.\<close>

definition ones_from :: "nat \<Rightarrow> u32" where
  "ones_from k = push_bit k (- 1)"

lemma bit_ones_from: "bit (ones_from k) i \<longleftrightarrow> k \<le> i \<and> i < 32"
  by (auto simp: ones_from_def bit_push_bit_iff simp del: push_bit_minus_one_eq_not_mask)

lemma ones_from_step: "push_bit 1 (ones_from k) = ones_from (Suc k)"
  unfolding ones_from_def push_bit_push_bit by simp

lemma ones_from_zero: "ones_from k = 0 \<longleftrightarrow> 32 \<le> k"
proof
  assume "ones_from k = 0"
  then have "\<not> bit (ones_from k) k" by simp
  then show "32 \<le> k" by (simp add: bit_ones_from)
next
  assume "32 \<le> k"
  then show "ones_from k = 0" by (intro bit_word_eqI) (simp add: bit_ones_from)
qed

lemma prefix_loop_push: "k \<le> 32 \<Longrightarrow> prefix_loop (ones_from k) n = n + (32 - k)"
proof (induction "32 - k" arbitrary: k n)
  case 0
  then have "ones_from k = 0" by (simp add: ones_from_zero)
  with 0 show ?case by (simp add: prefix_loop.simps[of 0])
next
  case (Suc d)
  then have "ones_from k \<noteq> 0" by (simp add: ones_from_zero)
  then have "prefix_loop (ones_from k) n = prefix_loop (ones_from (Suc k)) (Suc n)"
    unfolding ones_from_step[symmetric] by (subst prefix_loop.simps) (simp only: if_True not_False_eq_True)
  also have "\<dots> = Suc n + (32 - Suc k)" using Suc by (intro Suc.hyps(1)) auto
  finally show ?case using Suc by simp
qed

lemma Mask_prefix_length:
  assumes "Mask_of_prefix n = Some m"
  shows "GetPrefixLength m = n"
proof -
  have ones: "(0xffffffff :: u32) = - 1" by simp
  from assms have n: "n \<le> 32" "mask_bits m = (if 0 < n then push_bit (32 - n) (- 1) else 0)"
    unfolding Mask_of_prefix_def ones by (auto split: if_splits)
  have "mask_bits m = ones_from (32 - n)"
    using n ones_from_zero[of 32] by (cases "n = 0") (simp_all add: ones_from_def)
  with prefix_loop_push[of "32 - n" 0] n(1) show ?thesis by (simp add: GetPrefixLength_def)
qed

lemma subnet_broadcast:
  assumes "GetSubnetDirectedBroadcast a m = Some b"
  shows "IsSubnetDirectedBroadcast b m" "CombineMask b m = CombineMask a m"
proof -
  from assms have b: "b = Ipv4 (addr a OR NOT (mask_bits m))" "m \<noteq> Mask_GetOnes"
    by (auto simp: GetSubnetDirectedBroadcast_def Mask_GetInverse_def split: if_splits)
  have "(addr a OR NOT (mask_bits m)) OR mask_bits m = - 1"
    by (rule bit_word_eqI) (auto simp: bit_or_iff bit_not_iff)
  with b show "IsSubnetDirectedBroadcast b m" by (simp add: IsSubnetDirectedBroadcast_def GetBroadcast_def)
  have "(addr a OR NOT (mask_bits m)) AND mask_bits m = addr a AND mask_bits m"
    by (rule bit_word_eqI) (auto simp: bit_or_iff bit_not_iff bit_and_iff)
  with b show "CombineMask b m = CombineMask a m" by (simp add: CombineMask_def)
qed

end
