(* ===== verification/Ipv4_Generator.thy ===== *)
theory Ipv4_Generator
  imports Ipv4_Address
begin

text \<open>
  \<open>Ipv4AddressGeneratorImpl\<close> (\<open>src/internet/model/ipv4-address-generator.cc\<close>): a counter of
  networks and addresses per prefix length, and the list of allocated blocks used to detect
  collisions. \<open>None\<close> is an \<open>NS_ABORT_MSG\<close> or, outside test mode, the fatal error of a collision.
\<close>

record net_state =
  ns_mask :: u32
  ns_shift :: nat
  ns_network :: u32
  ns_addr :: u32
  ns_addrMax :: u32

record entry =
  addrLow :: u32
  addrHigh :: u32

record generator =
  m_netTable :: "net_state list"
  m_entries :: "entry list"
  m_test :: bool

definition N_BITS :: nat where "N_BITS = 32"
definition MOST_SIGNIFICANT_BIT :: u32 where "MOST_SIGNIFICANT_BIT = 0x80000000"

primrec reset_loop :: "nat list \<Rightarrow> u32 \<Rightarrow> net_state list" where
  "reset_loop [] m = []"
| "reset_loop (i # is) m = \<lparr>ns_mask = m, ns_shift = N_BITS - i, ns_network = 1, ns_addr = 1, ns_addrMax = NOT m\<rparr> #
     reset_loop is (drop_bit 1 m OR MOST_SIGNIFICANT_BIT)"

definition Reset :: generator where
  "Reset = \<lparr>m_netTable = reset_loop [0..<N_BITS] 0, m_entries = [], m_test = False\<rparr>"

text \<open>The loop of \<open>MaskToIndex\<close>, over the counter \<open>i\<close>.\<close>

fun index_loop :: "nat list \<Rightarrow> u32 \<Rightarrow> nat option" where
  "index_loop [] m = None"
| "index_loop (i # is) m =
     (if m AND 1 \<noteq> 0 then (let index = N_BITS - i in if 0 < index \<and> index < N_BITS then Some index else None)
      else index_loop is (drop_bit 1 m))"

definition MaskToIndex :: "ipv4_mask \<Rightarrow> nat option" where
  "MaskToIndex m = index_loop [0..<N_BITS] (mask_bits m)"

definition Init :: "ipv4 \<Rightarrow> ipv4_mask \<Rightarrow> ipv4 \<Rightarrow> generator \<Rightarrow> generator option" where
  "Init net m a g =
     (if addr net AND NOT (mask_bits m) \<noteq> 0 then None
      else if addr a AND mask_bits m \<noteq> 0 then None
      else do {
        index \<leftarrow> MaskToIndex m;
        let e = m_netTable g ! index;
        let e1 = e\<lparr>ns_network := drop_bit (ns_shift e) (addr net)\<rparr>;
        if addr a \<le> ns_addrMax e1
        then Some (g\<lparr>m_netTable := (m_netTable g)[index := e1\<lparr>ns_addr := addr a\<rparr>]\<rparr>)
        else None
      })"

definition GetNetwork :: "generator \<Rightarrow> ipv4_mask \<Rightarrow> ipv4 option" where
  "GetNetwork g m = do {
     index \<leftarrow> MaskToIndex m;
     let e = m_netTable g ! index;
     Some (Ipv4 (push_bit (ns_shift e) (ns_network e)))
   }"

definition NextNetwork :: "ipv4_mask \<Rightarrow> generator \<Rightarrow> (ipv4 \<times> generator) option" where
  "NextNetwork m g = do {
     index \<leftarrow> MaskToIndex m;
     let e = m_netTable g ! index;
     let e1 = e\<lparr>ns_network := ns_network e + 1\<rparr>;
     Some (Ipv4 (push_bit (ns_shift e1) (ns_network e1)), g\<lparr>m_netTable := (m_netTable g)[index := e1]\<rparr>)
   }"

definition InitAddress :: "ipv4 \<Rightarrow> ipv4_mask \<Rightarrow> generator \<Rightarrow> generator option" where
  "InitAddress a m g = do {
     index \<leftarrow> MaskToIndex m;
     let e = m_netTable g ! index;
     if addr a \<le> ns_addrMax e then Some (g\<lparr>m_netTable := (m_netTable g)[index := e\<lparr>ns_addr := addr a\<rparr>]\<rparr>) else None
   }"

definition GetAddress :: "generator \<Rightarrow> ipv4_mask \<Rightarrow> ipv4 option" where
  "GetAddress g m = do {
     index \<leftarrow> MaskToIndex m;
     let e = m_netTable g ! index;
     Some (Ipv4 (push_bit (ns_shift e) (ns_network e) OR ns_addr e))
   }"

text \<open>
  The loop of \<open>AddAllocated\<close>: \<open>Inl\<close> is a collision, \<open>Inr\<close> the updated list. A new block is
  inserted before the entry at which the loop breaks, or at the end.
\<close>

fun add_entries :: "u32 \<Rightarrow> entry list \<Rightarrow> unit + entry list" where
  "add_entries a [] = Inr [\<lparr>addrLow = a, addrHigh = a\<rparr>]"
| "add_entries a (i # is) =
     (if addrLow i \<le> a \<and> a \<le> addrHigh i then Inl ()
      else if a < addrLow i - 1 then Inr (\<lparr>addrLow = a, addrHigh = a\<rparr> # i # is)
      else if a = addrHigh i + 1 then
        (case is of
           [] \<Rightarrow> Inr [i\<lparr>addrHigh := a\<rparr>]
         | j # _ \<Rightarrow> if a = addrLow j then Inl () else Inr (i\<lparr>addrHigh := a\<rparr> # is))
      else if a = addrLow i - 1 then Inr (i\<lparr>addrLow := a\<rparr> # is)
      else map_sum id (\<lambda>js. i # js) (add_entries a is))"

definition AddAllocated :: "ipv4 \<Rightarrow> generator \<Rightarrow> (bool \<times> generator) option" where
  "AddAllocated address g =
     (if addr address = 0 then None
      else case add_entries (addr address) (m_entries g) of
        Inl _ \<Rightarrow> if m_test g then Some (False, g) else None
      | Inr es \<Rightarrow> Some (True, g\<lparr>m_entries := es\<rparr>))"

definition NextAddress :: "ipv4_mask \<Rightarrow> generator \<Rightarrow> (ipv4 \<times> generator) option" where
  "NextAddress m g = do {
     index \<leftarrow> MaskToIndex m;
     let e = m_netTable g ! index;
     if ns_addr e \<le> ns_addrMax e then do {
       let a = Ipv4 (push_bit (ns_shift e) (ns_network e) OR ns_addr e);
       let g1 = g\<lparr>m_netTable := (m_netTable g)[index := e\<lparr>ns_addr := ns_addr e + 1\<rparr>]\<rparr>;
       (_, g2) \<leftarrow> AddAllocated a g1;
       Some (a, g2)
     } else None
   }"

definition IsAddressAllocated :: "generator \<Rightarrow> ipv4 \<Rightarrow> bool option" where
  "IsAddressAllocated g address =
     (if addr address = 0 then None
      else Some (\<exists>e \<in> set (m_entries g). addrLow e \<le> addr address \<and> addr address \<le> addrHigh e))"

definition IsNetworkAllocated :: "generator \<Rightarrow> ipv4 \<Rightarrow> ipv4_mask \<Rightarrow> bool option" where
  "IsNetworkAllocated g address m =
     (if address \<noteq> CombineMask address m then None
      else Some (\<not> (\<exists>e \<in> set (m_entries g). address = CombineMask (Ipv4 (addrLow e)) m \<or>
             address = CombineMask (Ipv4 (addrHigh e)) m)))"

definition TestMode :: "generator \<Rightarrow> generator" where
  "TestMode g = g\<lparr>m_test := True\<rparr>"

subsection \<open>The allocated set\<close>

text \<open>The specification: the set of addresses in the blocks, which are ordered and disjoint.\<close>

definition block :: "entry \<Rightarrow> u32 set" where
  "block e = {addrLow e..addrHigh e}"

definition allocated :: "entry list \<Rightarrow> u32 set" where
  "allocated es = (\<Union>e \<in> set es. block e)"

fun entries_ok :: "entry list \<Rightarrow> bool" where
  "entries_ok [] \<longleftrightarrow> True"
| "entries_ok (e # es) \<longleftrightarrow> 0 < addrLow e \<and> addrLow e \<le> addrHigh e \<and>
     (\<forall>f \<in> set es. addrHigh e < addrLow f) \<and> entries_ok es"

lemma allocated_simps [simp]:
  "allocated [] = {}" "allocated (e # es) = block e \<union> allocated es"
  by (simp_all add: allocated_def)

lemma unat_pred: "0 < (a :: u32) \<Longrightarrow> unat (a - 1) = unat a - 1"
  by (simp add: unat_minus_le word_le_nat_alt word_less_nat_alt)

lemma unat_succ: "b + 1 \<noteq> (0 :: u32) \<Longrightarrow> unat (b + 1) = unat b + 1"
proof -
  assume "b + 1 \<noteq> 0"
  then have "unat (b + 1) \<noteq> 0" by (simp add: unat_eq_0)
  then show ?thesis using unsigned_less[of b, where 'a = nat] by (simp add: unat_word_ariths mod_Suc split: if_splits)
qed

lemma block_iff: "x \<in> block e \<longleftrightarrow> unat (addrLow e) \<le> unat x \<and> unat x \<le> unat (addrHigh e)"
  by (simp add: block_def word_le_nat_alt)

lemma block_single: "block \<lparr>addrLow = a, addrHigh = a\<rparr> = {a}"
  by (simp add: block_def)

lemma block_up: "a = addrHigh e + 1 \<Longrightarrow> a \<noteq> 0 \<Longrightarrow> addrLow e \<le> addrHigh e \<Longrightarrow>
    block (e\<lparr>addrHigh := a\<rparr>) = insert a (block e)"
  using unat_succ[of "addrHigh e"]
  by (auto simp: block_iff word_le_nat_alt le_Suc_eq set_eq_iff word_unat_eq_iff)

lemma block_down: "a = addrLow e - 1 \<Longrightarrow> 0 < addrLow e \<Longrightarrow> addrLow e \<le> addrHigh e \<Longrightarrow>
    block (e\<lparr>addrLow := a\<rparr>) = insert a (block e)"
  using unat_pred[of "addrLow e"]
  by (auto simp: block_iff word_le_nat_alt word_less_nat_alt set_eq_iff word_unat_eq_iff)

lemma entries_ok_above: "entries_ok (e # es) \<Longrightarrow> x \<le> addrHigh e \<Longrightarrow> x \<notin> allocated es"
  by (fastforce simp: allocated_def block_def)

lemma add_entries_spec:
  assumes "entries_ok es" "0 < a"
  shows "case add_entries a es of
      Inl _ \<Rightarrow> a \<in> allocated es
    | Inr es' \<Rightarrow> a \<notin> allocated es \<and> entries_ok es' \<and> allocated es' = insert a (allocated es) \<and>
        (\<forall>l. l < a \<longrightarrow> (\<forall>f \<in> set es. l < addrLow f) \<longrightarrow> (\<forall>f \<in> set es'. l < addrLow f))"
  using assms
proof (induction a es rule: add_entries.induct)
  case (1 a)
  then show ?case by (simp add: block_single)
next
  case (2 a i es)
  have ok: "0 < addrLow i" "addrLow i \<le> addrHigh i" "\<forall>f \<in> set es. addrHigh i < addrLow f" "entries_ok es"
    using "2.prems"(1) by simp_all
  have a0: "a \<noteq> 0" using "2.prems"(2) by simp
  note above = entries_ok_above[OF "2.prems"(1)]
  note nat = word_less_nat_alt word_le_nat_alt unat_pred[OF ok(1)]
  consider (hit) "addrLow i \<le> a \<and> a \<le> addrHigh i"
    | (before) "\<not> (addrLow i \<le> a \<and> a \<le> addrHigh i)" "a < addrLow i - 1"
    | (up) "\<not> (addrLow i \<le> a \<and> a \<le> addrHigh i)" "\<not> a < addrLow i - 1" "a = addrHigh i + 1"
    | (down) "\<not> (addrLow i \<le> a \<and> a \<le> addrHigh i)" "\<not> a < addrLow i - 1" "a \<noteq> addrHigh i + 1" "a = addrLow i - 1"
    | (rec) "\<not> (addrLow i \<le> a \<and> a \<le> addrHigh i)" "\<not> a < addrLow i - 1" "a \<noteq> addrHigh i + 1" "a \<noteq> addrLow i - 1"
    by blast
  then show ?case
  proof cases
    case hit
    then show ?thesis by (simp add: block_def)
  next
    case before
    then have lt: "a < addrLow i" by (simp add: nat)
    with ok(2) have "a < addrHigh i" by simp
    with above[of a] have "a \<notin> allocated es" by simp
    moreover have "a \<notin> block i" using lt by (simp add: block_def not_le)
    ultimately have "a \<notin> allocated (i # es)" by simp
    moreover have "\<forall>f \<in> set es. a < addrLow f" using ok(3) \<open>a < addrHigh i\<close> by (meson less_trans)
    ultimately show ?thesis using before lt "2.prems" by (simp add: block_single)
  next
    case up
    have ua: "unat a = unat (addrHigh i) + 1" using up(3) a0 unat_succ[of "addrHigh i"] by simp
    have nb: "a \<notin> block i" using ua by (simp add: block_iff)
    have bl: "block (i\<lparr>addrHigh := a\<rparr>) = insert a (block i)" by (rule block_up[OF up(3) a0 ok(2)])
    show ?thesis
    proof (cases "\<exists>j js. es = j # js \<and> a = addrLow j")
      case True
      then obtain j js where j: "es = j # js" "a = addrLow j" by blast
      with ok(4) have "a \<in> block j" by (simp add: block_def)
      with j up show ?thesis by simp
    next
      case False
      then have eq: "add_entries a (i # es) = Inr (i\<lparr>addrHigh := a\<rparr> # es)"
        using up by (auto split: list.splits)
      have lows: "a < addrLow f" if "f \<in> set es" for f
      proof (cases es)
        case Nil
        with that show ?thesis by simp
      next
        case (Cons j js)
        have "addrHigh i < addrLow j" "a \<noteq> addrLow j" using ok(3) False Cons by auto
        then have "a < addrLow j" using ua by (simp add: word_less_nat_alt word_unat_eq_iff)
        moreover have "addrLow j \<le> addrLow f" using ok(4) that Cons by (auto simp: less_imp_le intro: order_trans)
        ultimately show ?thesis by simp
      qed
      then have "a \<notin> allocated es" by (force simp: allocated_def block_def)
      moreover have "addrLow i \<le> a" using ok(2) ua by (simp add: word_le_nat_alt)
      ultimately show ?thesis unfolding eq using nb bl lows ok by simp
    qed
  next
    case down
    have ua: "unat a = unat (addrLow i) - 1" using down(4) unat_pred[OF ok(1)] by simp
    have lt: "a < addrLow i" using ua ok(1) by (simp add: word_less_nat_alt)
    with ok(2) have "a \<le> addrHigh i" by simp
    moreover have "a \<notin> block i" using lt by (simp add: block_def not_le)
    ultimately have "a \<notin> allocated (i # es)" using above[of a] by simp
    with down block_down[OF down(4) ok(1,2)] ok "2.prems"(2) \<open>a \<le> addrHigh i\<close> show ?thesis by simp
  next
    case rec
    have gt: "addrHigh i < a" using rec ok by (auto simp: nat word_unat_eq_iff)
    have IH: "case add_entries a es of
        Inl _ \<Rightarrow> a \<in> allocated es
      | Inr es' \<Rightarrow> a \<notin> allocated es \<and> entries_ok es' \<and> allocated es' = insert a (allocated es) \<and>
          (\<forall>l. l < a \<longrightarrow> (\<forall>f \<in> set es. l < addrLow f) \<longrightarrow> (\<forall>f \<in> set es'. l < addrLow f))"
      using rec ok(4) "2.prems"(2) by (intro "2.IH")
    have nb: "a \<notin> block i" using gt by (simp add: block_def not_le)
    show ?thesis
    proof (cases "add_entries a es")
      case (Inl u)
      with IH rec show ?thesis by simp
    next
      case (Inr es')
      with IH have es': "a \<notin> allocated es" "entries_ok es'" "allocated es' = insert a (allocated es)"
        "\<And>l. l < a \<Longrightarrow> \<forall>f \<in> set es. l < addrLow f \<Longrightarrow> \<forall>f \<in> set es'. l < addrLow f" by auto
      have "add_entries a (i # es) = Inr (i # es')" using rec Inr by simp
      moreover have "\<forall>f \<in> set es'. addrHigh i < addrLow f" using es'(4)[OF gt] ok(3) by blast
      ultimately show ?thesis using es' nb ok by (auto simp: insert_commute)
    qed
  qed
qed

subsection \<open>Masks and table entries\<close>

text \<open>The table keeps, at index \<open>i\<close>, the state of the networks with an \<open>i\<close>-bit prefix.\<close>

definition gen_ok :: "generator \<Rightarrow> bool" where
  "gen_ok g \<longleftrightarrow> length (m_netTable g) = 32 \<and> entries_ok (m_entries g) \<and>
     (\<forall>i < 32. ns_shift (m_netTable g ! i) = 32 - i \<and> ns_addrMax (m_netTable g ! i) = mask (32 - i))"

definition proper_mask :: "ipv4_mask \<Rightarrow> nat \<Rightarrow> bool" where
  "proper_mask m n \<longleftrightarrow> 0 < n \<and> n < 32 \<and> Mask_of_prefix n = Some m"

lemma proper_mask_bits: "proper_mask m n \<Longrightarrow> mask_bits m = NOT (mask (32 - n))"
proof -
  assume "proper_mask m n"
  then have "mask_bits m = push_bit (32 - n) 0xffffffff"
    by (auto simp: proper_mask_def Mask_of_prefix_def)
  moreover have "(0xffffffff :: u32) = - 1" by simp
  ultimately show ?thesis by (simp only: push_bit_minus_one_eq_not_mask)
qed

lemma index_loop_spec:
  assumes "\<And>i. i < k \<Longrightarrow> \<not> bit (w :: u32) i" "bit w k" "0 < k" "k < 32" "j \<le> k"
  shows "index_loop [j..<32] (drop_bit j w) = Some (32 - k)"
  using assms(5)
proof (induction "k - j" arbitrary: j)
  case 0
  then have "j = k" by simp
  then have "bit (drop_bit j w) 0" using assms(2) by (simp add: bit_drop_bit_eq)
  then have "drop_bit j w AND 1 \<noteq> 0" by (simp add: and_one_eq bit_0 odd_iff_mod_2_eq_one)
  then show ?case using assms(3,4) \<open>j = k\<close> by (simp add: upt_conv_Cons N_BITS_def Let_def)
next
  case (Suc d)
  then have j: "j < k" by simp
  then have "\<not> bit (drop_bit j w) 0" using assms(1) by (simp add: bit_drop_bit_eq)
  then have "drop_bit j w AND 1 = 0" by (simp add: and_one_eq bit_0 even_iff_mod_2_eq_zero)
  moreover have "drop_bit 1 (drop_bit j w) = drop_bit (Suc j) w" by (simp add: drop_bit_drop_bit)
  moreover have "index_loop [Suc j..<32] (drop_bit (Suc j) w) = Some (32 - k)"
    using Suc j by (intro Suc.hyps(1)) auto
  ultimately show ?case using j assms(4) by (simp add: upt_conv_Cons)
qed

lemma proper_mask_index:
  assumes "proper_mask m n"
  shows "MaskToIndex m = Some n"
proof -
  have n: "0 < n" "n < 32" using assms by (simp_all add: proper_mask_def)
  have b: "bit (mask_bits m) i \<longleftrightarrow> 32 - n \<le> i \<and> i < 32" for i
    using proper_mask_bits[OF assms] by (auto simp: bit_not_iff bit_mask_iff)
  have "index_loop [0..<32] (drop_bit 0 (mask_bits m)) = Some (32 - (32 - n))"
    by (rule index_loop_spec) (use n b in auto)
  with n show ?thesis by (simp add: MaskToIndex_def N_BITS_def)
qed

lemma length_reset_loop [simp]: "length (reset_loop is m) = length is"
  by (induction "is" arbitrary: m) auto

lemma reset_loop_nth:
  assumes "k < d" "d + j \<le> 32" "m = NOT (mask (32 - j))"
  shows "ns_shift (reset_loop [j..<j + d] m ! k) = 32 - (j + k) \<and>
    ns_addrMax (reset_loop [j..<j + d] m ! k) = mask (32 - (j + k))"
  using assms
proof (induction d arbitrary: j k m)
  case (Suc d)
  have up: "[j..<j + Suc d] = j # [Suc j..<Suc j + d]" by (simp add: upt_conv_Cons del: upt_Suc)
  have step: "drop_bit 1 m OR MOST_SIGNIFICANT_BIT = NOT (mask (32 - Suc j))"
  proof (rule bit_word_eqI)
    fix i assume "i < LENGTH(32)"
    then have i: "i < 32" by simp
    have "MOST_SIGNIFICANT_BIT = push_bit 31 1" by (simp add: MOST_SIGNIFICANT_BIT_def)
    moreover have "bit (push_bit 31 (1 :: u32)) i \<longleftrightarrow> i = 31"
      using i by (auto simp: bit_push_bit_iff bit_1_iff simp del: push_bit_of_1)
    ultimately have "bit MOST_SIGNIFICANT_BIT i \<longleftrightarrow> i = 31" by (simp only:)
    then show "bit (drop_bit 1 m OR MOST_SIGNIFICANT_BIT) i = bit (NOT (mask (32 - Suc j)) :: u32) i"
      using i Suc.prems by (auto simp: bit_or_iff bit_drop_bit_eq bit_not_iff bit_mask_iff)
  qed
  show ?case
  proof (cases k)
    case 0
    then show ?thesis unfolding up using Suc.prems by (simp add: N_BITS_def)
  next
    case (Suc k')
    have "k' < d" "d + Suc j \<le> 32" using Suc.prems Suc by simp_all
    from Suc.IH[OF this step] Suc show ?thesis unfolding up by simp
  qed
qed simp

lemma Reset_ok: "gen_ok Reset"
proof -
  have eq: "(0 :: u32) = NOT (mask (32 - 0))" by (rule bit_word_eqI) (simp add: bit_not_iff bit_mask_iff)
  have "ns_shift (reset_loop [0..<0 + 32] 0 ! i) = 32 - (0 + i) \<and>
      ns_addrMax (reset_loop [0..<0 + 32] 0 ! i) = mask (32 - (0 + i))" if "i < 32" for i
    by (rule reset_loop_nth[OF that _ eq]) simp
  then show ?thesis
    unfolding gen_ok_def Reset_def N_BITS_def generator.simps add_0 by (simp only: length_reset_loop length_upt) simp
qed

lemma gen_ok_update:
  assumes "gen_ok g" "n < 32"
    and "ns_shift e = ns_shift (m_netTable g ! n)" "ns_addrMax e = ns_addrMax (m_netTable g ! n)"
  shows "gen_ok (g\<lparr>m_netTable := (m_netTable g)[n := e]\<rparr>)"
  using assms by (auto simp: gen_ok_def nth_list_update)

lemma unat_power_lower32: "s < 32 \<Longrightarrow> unat (2 ^ s :: u32) = 2 ^ s"
proof -
  assume "s < 32"
  then have "(2 :: nat) ^ s < 2 ^ 32" by (rule power_strict_increasing) simp
  moreover have "(2 :: u32) ^ s = of_nat (2 ^ s)" by simp
  ultimately show ?thesis by (simp only: unsigned_of_nat) (simp add: take_bit_eq_mod)
qed

lemma mask_combine:
  assumes "ad \<le> mask s" "s < 32"
  shows "(push_bit s net OR ad) AND NOT (mask s) = (push_bit s net :: u32)"
proof (rule bit_word_eqI)
  fix i assume "i < LENGTH(32)"
  have pos: "(2 :: u32) ^ s \<noteq> 0" using assms(2) by (simp add: exp_eq_zero_iff)
  then have "0 < (2 :: u32) ^ s" by (simp only: word_gt_0 not_False_eq_True)
  then have "unat (2 ^ s - 1 :: u32) = unat (2 ^ s :: u32) - 1" "0 < unat (2 ^ s :: u32)"
    using unat_pred[of "2 ^ s"] by (simp_all only: word_less_nat_alt unsigned_0)
  then have "unat (mask s :: u32) < unat (2 ^ s :: u32)" unfolding mask_eq_exp_minus_1 by linarith
  then have "ad < 2 ^ s" using assms(1) by (simp add: word_le_nat_alt word_less_nat_alt)
  then have lt: "unat ad < 2 ^ s" using assms(2) by (simp add: word_less_nat_alt unat_power_lower32)
  have "i < s" if "bit ad i"
  proof (rule ccontr)
    assume "\<not> i < s"
    then have "(2 :: nat) ^ s \<le> 2 ^ i" by simp
    with lt have "unat ad < 2 ^ i" by (rule less_le_trans)
    then have "unat ad div 2 ^ i = 0" by (rule div_less)
    then have "\<not> bit (unat ad) i" by (simp add: bit_iff_odd)
    with that show False by (simp only: bit_unsigned_iff) (use bit_imp_le_length[OF that] in simp)
  qed
  then show "bit ((push_bit s net OR ad) AND NOT (mask s)) i = bit (push_bit s net) i"
    by (auto simp: bit_and_iff bit_or_iff bit_not_iff bit_mask_iff bit_push_bit_iff)
qed

subsection \<open>Properties\<close>

text \<open>
  C28. Duplicate detection is exact: \<open>AddAllocated\<close> reports a collision (fatal outside test mode)
  exactly for an address that is in a block already, otherwise the blocks cover that address and
  what they covered before, stay ordered and disjoint, and \<open>IsAddressAllocated\<close> reads them back.
\<close>

theorem AddAllocated_exact:
  assumes "gen_ok g" "addr a \<noteq> 0"
  shows "if addr a \<in> allocated (m_entries g)
    then AddAllocated a g = (if m_test g then Some (False, g) else None)
    else \<exists>es. AddAllocated a g = Some (True, g\<lparr>m_entries := es\<rparr>) \<and> gen_ok (g\<lparr>m_entries := es\<rparr>) \<and>
      allocated es = insert (addr a) (allocated (m_entries g)) \<and>
      (\<forall>b. addr b \<noteq> 0 \<longrightarrow> IsAddressAllocated (g\<lparr>m_entries := es\<rparr>) b =
        Some (b = a \<or> IsAddressAllocated g b = Some True))"
proof -
  have ok: "entries_ok (m_entries g)" using assms(1) by (simp add: gen_ok_def)
  have pos: "0 < addr a" using assms(2) by (simp add: word_gt_0)
  note spec = add_entries_spec[OF ok pos]
  have is_alloc: "IsAddressAllocated h b = Some (addr b \<in> allocated (m_entries h))" if "addr b \<noteq> 0" for h b
    using that by (auto simp: IsAddressAllocated_def allocated_def block_def)
  show ?thesis
  proof (cases "add_entries (addr a) (m_entries g)")
    case (Inl u)
    with spec assms(2) show ?thesis by (simp add: AddAllocated_def)
  next
    case (Inr es)
    with spec have es: "addr a \<notin> allocated (m_entries g)" "entries_ok es"
      "allocated es = insert (addr a) (allocated (m_entries g))" by auto
    have "addr b = addr a \<longleftrightarrow> b = a" for b by (auto intro: ipv4.expand)
    with es Inr assms is_alloc show ?thesis by (auto simp: AddAllocated_def gen_ok_def)
  qed
qed

definition some_blocks :: generator where
  "some_blocks = Reset\<lparr>m_entries := [\<lparr>addrLow = 0x0a000001, addrHigh = 0x0a000005\<rparr>,
     \<lparr>addrLow = 0x0a000007, addrHigh = 0x0a000007\<rparr>]\<rparr>"

lemma some_blocks_ok: "gen_ok some_blocks"
  using Reset_ok by (simp add: some_blocks_def gen_ok_def)

theorem AddAllocated_exact_witness:
  "AddAllocated (Ipv4 0x0a000003) some_blocks = None \<and>
   (\<exists>es. AddAllocated (Ipv4 0x0a000006) some_blocks = Some (True, some_blocks\<lparr>m_entries := es\<rparr>) \<and>
     allocated es = insert 0x0a000006 (allocated (m_entries some_blocks)))"
  using AddAllocated_exact[OF some_blocks_ok, of "Ipv4 0x0a000003"] AddAllocated_exact[OF some_blocks_ok, of "Ipv4 0x0a000006"]
  by (auto simp: some_blocks_def Reset_def block_def)

text \<open>
  C29. \<open>NextAddress\<close> succeeds exactly when the address counter is within the subnet and the address
  is new; then it returns the address \<open>GetAddress\<close> announced, which lies in the current network
  of its mask, was never handed out before, and is recorded.
\<close>

theorem NextAddress_fresh:
  assumes "gen_ok g" "\<not> m_test g" "proper_mask m n" "GetAddress g m = Some a"
  shows "if ns_addr (m_netTable g ! n) \<le> ns_addrMax (m_netTable g ! n) \<and> addr a \<noteq> 0 \<and> addr a \<notin> allocated (m_entries g)
    then \<exists>g'. NextAddress m g = Some (a, g') \<and> gen_ok g' \<and> GetNetwork g m = Some (CombineMask a m) \<and>
      GetNetwork g' m = GetNetwork g m \<and> allocated (m_entries g') = insert (addr a) (allocated (m_entries g)) \<and>
      ns_addr (m_netTable g' ! n) = ns_addr (m_netTable g ! n) + 1
    else NextAddress m g = None"
proof -
  let ?e = "m_netTable g ! n"
  have n: "0 < n" "n < 32" using assms(3) by (simp_all add: proper_mask_def)
  have idx: "MaskToIndex m = Some n" by (rule proper_mask_index[OF assms(3)])
  have a: "a = Ipv4 (push_bit (ns_shift ?e) (ns_network ?e) OR ns_addr ?e)"
    using assms(4) by (simp add: GetAddress_def idx Let_def)
  let ?g1 = "g\<lparr>m_netTable := (m_netTable g)[n := ?e\<lparr>ns_addr := ns_addr ?e + 1\<rparr>]\<rparr>"
  have ok1: "gen_ok ?g1" by (rule gen_ok_update[OF assms(1) n(2)]) simp_all
  have next_eq: "NextAddress m g = (if ns_addr ?e \<le> ns_addrMax ?e
      then Option.bind (AddAllocated a ?g1) (\<lambda>(_, g2). Some (a, g2)) else None)"
    using a by (simp add: NextAddress_def idx Let_def)
  show ?thesis
  proof (cases "ns_addr ?e \<le> ns_addrMax ?e \<and> addr a \<noteq> 0 \<and> addr a \<notin> allocated (m_entries g)")
    case True
    have "entries_ok (m_entries g)" "0 < addr a" using assms(1) True by (simp_all add: gen_ok_def word_gt_0)
    from add_entries_spec[OF this] True obtain es where
      es: "add_entries (addr a) (m_entries g) = Inr es" "entries_ok es"
      "allocated es = insert (addr a) (allocated (m_entries g))"
      by (auto split: sum.splits)
    let ?g2 = "?g1\<lparr>m_entries := es\<rparr>"
    have "NextAddress m g = Some (a, ?g2)" using next_eq True es(1) by (simp add: AddAllocated_def)
    moreover have "gen_ok ?g2" using ok1 es(2) by (simp add: gen_ok_def)
    moreover have "GetNetwork g m = Some (CombineMask a m)"
    proof -
      have "ns_shift ?e = 32 - n" "ns_addrMax ?e = mask (32 - n)" using assms(1) n by (simp_all add: gen_ok_def)
      then have "(push_bit (ns_shift ?e) (ns_network ?e) OR ns_addr ?e) AND mask_bits m = push_bit (ns_shift ?e) (ns_network ?e)"
        unfolding proper_mask_bits[OF assms(3)] using True n by (simp add: mask_combine)
      then show ?thesis by (simp add: GetNetwork_def idx a CombineMask_def Let_def)
    qed
    moreover have "GetNetwork ?g2 m = GetNetwork g m"
      using assms(1) n by (simp add: GetNetwork_def idx gen_ok_def Let_def)
    ultimately show ?thesis using True es(3) assms(1) n by (simp add: gen_ok_def)
  next
    case False
    have "NextAddress m g = None"
    proof (cases "ns_addr ?e \<le> ns_addrMax ?e \<and> addr a \<noteq> 0")
      case True
      with False have "addr a \<in> allocated (m_entries g)" by blast
      moreover have "entries_ok (m_entries g)" "0 < addr a" using assms(1) True by (simp_all add: gen_ok_def word_gt_0)
      ultimately have "add_entries (addr a) (m_entries g) = Inl ()"
        using add_entries_spec[of "m_entries g" "addr a"] by (auto split: sum.splits)
      with assms(2) next_eq show ?thesis by (simp add: AddAllocated_def)
    qed (use next_eq in \<open>auto simp: AddAllocated_def\<close>)
    with False show ?thesis by simp
  qed
qed

lemma slash24: "proper_mask (Mask 0xffffff00) 24"
  by (simp add: proper_mask_def Mask_of_prefix_def)

lemma Reset_24: "m_netTable Reset ! 24 = \<lparr>ns_mask = 0xffffff00, ns_shift = 8, ns_network = 1, ns_addr = 1, ns_addrMax = 0xff\<rparr>"
  by code_simp

theorem NextAddress_fresh_witness:
  "\<exists>g'. NextAddress (Mask 0xffffff00) Reset = Some (Ipv4 0x101, g') \<and> gen_ok g' \<and>
    allocated (m_entries g') = insert 0x101 (allocated (m_entries Reset))"
proof -
  have "GetAddress Reset (Mask 0xffffff00) = Some (Ipv4 0x101)"
    by (simp add: GetAddress_def proper_mask_index[OF slash24] Reset_24)
  moreover have "\<not> m_test Reset" "m_entries Reset = []" by (simp_all add: Reset_def)
  ultimately show ?thesis
    using NextAddress_fresh[OF Reset_ok _ slash24, of "Ipv4 0x101"] by (auto simp: Reset_24)
qed

text \<open>
  What \<open>Init\<close> accepts is what the next calls return: the network, and the network combined with
  the base address, as the documentation of the class promises; networks of other prefix lengths
  are not touched.
\<close>

theorem Init_roundtrip:
  assumes "gen_ok g" "proper_mask m n" "Init net m a g = Some g'"
  shows "GetNetwork g' m = Some net \<and> GetAddress g' m = Some (Ipv4 (addr net OR addr a)) \<and> gen_ok g' \<and>
    m_entries g' = m_entries g \<and> (\<forall>m' k. proper_mask m' k \<longrightarrow> k \<noteq> n \<longrightarrow> GetAddress g' m' = GetAddress g m')"
proof -
  have n: "0 < n" "n < 32" using assms(2) by (simp_all add: proper_mask_def)
  have idx: "MaskToIndex m = Some n" by (rule proper_mask_index[OF assms(2)])
  let ?e = "(m_netTable g ! n)\<lparr>ns_network := drop_bit (ns_shift (m_netTable g ! n)) (addr net), ns_addr := addr a\<rparr>"
  have g': "g' = g\<lparr>m_netTable := (m_netTable g)[n := ?e]\<rparr>" and z: "addr net AND NOT (mask_bits m) = 0"
    using assms(3) by (auto simp: Init_def idx Let_def split: if_splits)
  have sh: "ns_shift ?e = 32 - n" "length (m_netTable g) = 32" using assms(1) n by (simp_all add: gen_ok_def)
  have "push_bit (32 - n) (drop_bit (32 - n) (addr net)) = addr net"
  proof (rule bit_word_eqI)
    fix i assume "i < LENGTH(32)"
    have "\<not> bit (addr net AND mask (32 - n)) i" using z by (simp add: proper_mask_bits[OF assms(2)])
    then show "bit (push_bit (32 - n) (drop_bit (32 - n) (addr net))) i = bit (addr net) i"
      using \<open>i < LENGTH(32)\<close> by (auto simp: bit_push_bit_iff bit_drop_bit_eq bit_and_iff bit_mask_iff)
  qed
  with sh n have "GetNetwork g' m = Some net" "GetAddress g' m = Some (Ipv4 (addr net OR addr a))"
    by (simp_all add: GetNetwork_def GetAddress_def idx g' Let_def)
  moreover have "gen_ok g'" unfolding g' by (rule gen_ok_update[OF assms(1) n(2)]) simp_all
  moreover have "GetAddress g' m' = GetAddress g m'" if "proper_mask m' k" "k \<noteq> n" for m' k
    using that proper_mask_index[of m' k] by (simp add: GetAddress_def g' Let_def)
  ultimately show ?thesis by (simp add: g')
qed

theorem Init_roundtrip_witness:
  "\<exists>g'. Init (Ipv4 0x0a010200) (Mask 0xffffff00) (Ipv4 5) Reset = Some g' \<and>
    GetNetwork g' (Mask 0xffffff00) = Some (Ipv4 0x0a010200) \<and> GetAddress g' (Mask 0xffffff00) = Some (Ipv4 0x0a010205)"
proof -
  obtain g' where g': "Init (Ipv4 0x0a010200) (Mask 0xffffff00) (Ipv4 5) Reset = Some g'"
    by (simp add: Init_def proper_mask_index[OF slash24] Reset_24 Let_def)
  with Init_roundtrip[OF Reset_ok slash24 g'] show ?thesis by simp
qed

text \<open>
  \<open>IsNetworkAllocated\<close> is not what its documentation says: it returns \<open>false\<close> when the end of an
  allocated block lies in the network (\<open>true\<close> is documented), and it looks at the ends of the
  blocks only, so a network all of whose addresses are allocated can be reported like a free one.
\<close>

theorem IsNetworkAllocated_inverted:
  assumes "gen_ok g"
  shows "(IsNetworkAllocated g net m = Some False \<longrightarrow> (\<exists>x \<in> allocated (m_entries g). CombineMask (Ipv4 x) m = net)) \<and>
    (m_entries g = [] \<longrightarrow> CombineMask net m = net \<longrightarrow> IsNetworkAllocated g net m = Some True) \<and>
    (let full = Reset\<lparr>m_entries := [\<lparr>addrLow = 0x0a0000ff, addrHigh = 0x0a000200\<rparr>]\<rparr> in gen_ok full \<and>
      (\<forall>x. CombineMask (Ipv4 x) (Mask 0xffffff00) = Ipv4 0x0a000100 \<longrightarrow> x \<in> allocated (m_entries full)) \<and>
      IsNetworkAllocated full (Ipv4 0x0a000100) (Mask 0xffffff00) = Some True)"
proof -
  have "\<exists>x \<in> allocated (m_entries g). CombineMask (Ipv4 x) m = net" if "IsNetworkAllocated g net m = Some False"
  proof -
    from that obtain e where e: "e \<in> set (m_entries g)"
      "net = CombineMask (Ipv4 (addrLow e)) m \<or> net = CombineMask (Ipv4 (addrHigh e)) m"
      by (auto simp: IsNetworkAllocated_def split: if_splits)
    have "addrLow f \<le> addrHigh f" if "entries_ok es" "f \<in> set es" for es f
      using that by (induction es) auto
    with assms e(1) have "addrLow e \<in> block e" "addrHigh e \<in> block e" by (auto simp: block_def gen_ok_def)
    with e show ?thesis by (auto simp: allocated_def)
  qed
  moreover have "x \<in> {0x0a0000ff..0x0a000200}" if "x AND 0xffffff00 = 0x0a000100" for x :: u32
  proof -
    have m: "(0xffffff00 :: u32) = NOT (mask 8)" by (simp flip: minus_exp_eq_not_mask)
    have "drop_bit 8 x = drop_bit 8 (x AND 0xffffff00)"
      unfolding m by (rule bit_word_eqI) (auto simp: bit_drop_bit_eq bit_and_iff bit_not_iff bit_mask_iff dest: bit_imp_le_length)
    then have "unat (drop_bit 8 x) = unat (drop_bit 8 (0x0a000100 :: u32))" using that by simp
    then have "unat x div 256 = 0x0a0001" by (simp add: drop_bit_eq_div unat_div_distrib)
    then have "0x0a000100 \<le> unat x \<and> unat x \<le> 0x0a0001ff" by linarith
    then show ?thesis by (simp add: word_le_nat_alt)
  qed
  ultimately show ?thesis
    using Reset_ok by (auto simp: IsNetworkAllocated_def gen_ok_def CombineMask_def block_def Let_def)
qed

theorem IsNetworkAllocated_inverted_witness:
  "IsNetworkAllocated Reset (Ipv4 0x0a000000) (Mask 0xffffff00) = Some True \<and>
   (\<exists>x \<in> allocated (m_entries some_blocks). CombineMask (Ipv4 x) (Mask 0xffffff00) = Ipv4 0x0a000000)"
proof -
  have "IsNetworkAllocated some_blocks (Ipv4 0x0a000000) (Mask 0xffffff00) = Some False"
    by (simp add: IsNetworkAllocated_def some_blocks_def CombineMask_def)
  moreover have "m_entries Reset = []" "CombineMask (Ipv4 0x0a000000) (Mask 0xffffff00) = Ipv4 0x0a000000"
    by (simp_all add: Reset_def CombineMask_def)
  ultimately show ?thesis
    using IsNetworkAllocated_inverted[OF Reset_ok, of "Ipv4 0x0a000000" "Mask 0xffffff00"]
      IsNetworkAllocated_inverted[OF some_blocks_ok, of "Ipv4 0x0a000000" "Mask 0xffffff00"] by blast
qed

text \<open>
  \<open>NextNetwork\<close> advances the network by one (modulo the number of networks of the prefix) and
  leaves the address counter where it is; the documentation says that it resets the address to the
  base address of the initialisation.
\<close>

theorem NextNetwork_keeps_address:
  assumes "gen_ok g" "proper_mask m n"
  shows "\<exists>g'. NextNetwork m g = Some (Ipv4 (push_bit (32 - n) (ns_network (m_netTable g ! n) + 1)), g') \<and>
    GetNetwork g' m = Some (Ipv4 (push_bit (32 - n) (ns_network (m_netTable g ! n) + 1))) \<and>
    ns_addr (m_netTable g' ! n) = ns_addr (m_netTable g ! n) \<and> gen_ok g' \<and> m_entries g' = m_entries g"
proof -
  have n: "0 < n" "n < 32" using assms(2) by (simp_all add: proper_mask_def)
  have idx: "MaskToIndex m = Some n" by (rule proper_mask_index[OF assms(2)])
  have sh: "ns_shift (m_netTable g ! n) = 32 - n" "length (m_netTable g) = 32" using assms(1) n by (simp_all add: gen_ok_def)
  let ?g = "g\<lparr>m_netTable := (m_netTable g)[n := (m_netTable g ! n)\<lparr>ns_network := ns_network (m_netTable g ! n) + 1\<rparr>]\<rparr>"
  have "gen_ok ?g" by (rule gen_ok_update[OF assms(1) n(2)]) simp_all
  then show ?thesis using sh n by (intro exI[of _ ?g]) (simp add: NextNetwork_def GetNetwork_def idx Let_def)
qed

theorem NextNetwork_keeps_address_witness:
  "\<exists>g'. NextNetwork (Mask 0xffffff00) Reset = Some (Ipv4 0x200, g') \<and> ns_addr (m_netTable g' ! 24) = 1"
  using NextNetwork_keeps_address[OF Reset_ok slash24] by (auto simp: Reset_24)

end
