(* ===== verification/Wire_Buffer.thy ===== *)
theory Wire_Buffer
  imports Ipv4_Address
begin

text \<open>
  Reading and writing packet headers: \<open>Buffer::Iterator\<close> (\<open>src/network/model/buffer.h\<close> and
  \<open>.cc\<close>) and \<open>WriteTo\<close>/\<open>ReadFrom\<close> of \<open>src/network/utils/address-utils.cc\<close>. A writer is the
  list of bytes it appends; a reader consumes bytes from the front and is \<open>None\<close> when it runs
  past the end, where the source asserts. The zero area in the middle of a buffer is an
  optimisation of the storage and is not modelled.
\<close>

type_synonym bytes = "u8 list"

definition WriteU8 :: "u8 \<Rightarrow> bytes" where
  "WriteU8 d = [d]"

definition WriteHtonU16 :: "u16 \<Rightarrow> bytes" where
  "WriteHtonU16 d = [ucast (drop_bit 8 d AND 0xff), ucast (d AND 0xff)]"

definition WriteHtonU32 :: "u32 \<Rightarrow> bytes" where
  "WriteHtonU32 d = [ucast (drop_bit 24 d AND 0xff), ucast (drop_bit 16 d AND 0xff),
     ucast (drop_bit 8 d AND 0xff), ucast (d AND 0xff)]"

definition WriteHtonU64 :: "u64 \<Rightarrow> bytes" where
  "WriteHtonU64 d = [ucast (drop_bit 56 d AND 0xff), ucast (drop_bit 48 d AND 0xff),
     ucast (drop_bit 40 d AND 0xff), ucast (drop_bit 32 d AND 0xff), ucast (drop_bit 24 d AND 0xff),
     ucast (drop_bit 16 d AND 0xff), ucast (drop_bit 8 d AND 0xff), ucast (d AND 0xff)]"

fun ReadU8 :: "bytes \<Rightarrow> (u8 \<times> bytes) option" where
  "ReadU8 [] = None"
| "ReadU8 (b # bs) = Some (b, bs)"

text \<open>One step of the multi-byte readers: \<open>retval <<= 8; retval |= byte\<close>.\<close>

definition shift_in :: "'a::len word \<Rightarrow> u8 \<Rightarrow> 'a word" where
  "shift_in r b = push_bit 8 r OR ucast b"

definition ReadNtohU16 :: "bytes \<Rightarrow> (u16 \<times> bytes) option" where
  "ReadNtohU16 s = do {
     (b0, s) \<leftarrow> ReadU8 s; (b1, s) \<leftarrow> ReadU8 s;
     Some (shift_in (ucast b0) b1, s)
   }"

definition ReadNtohU32 :: "bytes \<Rightarrow> (u32 \<times> bytes) option" where
  "ReadNtohU32 s = do {
     (b0, s) \<leftarrow> ReadU8 s; (b1, s) \<leftarrow> ReadU8 s; (b2, s) \<leftarrow> ReadU8 s; (b3, s) \<leftarrow> ReadU8 s;
     Some (shift_in (shift_in (shift_in (ucast b0) b1) b2) b3, s)
   }"

definition ReadNtohU64 :: "bytes \<Rightarrow> (u64 \<times> bytes) option" where
  "ReadNtohU64 s = do {
     (b0, s) \<leftarrow> ReadU8 s; (b1, s) \<leftarrow> ReadU8 s; (b2, s) \<leftarrow> ReadU8 s; (b3, s) \<leftarrow> ReadU8 s;
     (b4, s) \<leftarrow> ReadU8 s; (b5, s) \<leftarrow> ReadU8 s; (b6, s) \<leftarrow> ReadU8 s; (b7, s) \<leftarrow> ReadU8 s;
     Some (shift_in (shift_in (shift_in (shift_in (shift_in (shift_in (shift_in (ucast b0) b1) b2) b3) b4) b5) b6) b7, s)
   }"

definition WriteTo_Ipv4 :: "ipv4 \<Rightarrow> bytes" where
  "WriteTo_Ipv4 a = WriteHtonU32 (addr a)"

definition ReadFrom_Ipv4 :: "bytes \<Rightarrow> (ipv4 \<times> bytes) option" where
  "ReadFrom_Ipv4 s = map_option (\<lambda>(w, s). (Ipv4 w, s)) (ReadNtohU32 s)"

definition Ipv4_Serialize :: "ipv4 \<Rightarrow> bytes" where
  "Ipv4_Serialize a = WriteHtonU32 (addr a)"

fun Ipv4_Deserialize :: "bytes \<Rightarrow> ipv4 option" where
  "Ipv4_Deserialize [b0, b1, b2, b3] = Some (Ipv4 (shift_in (shift_in (shift_in (shift_in 0 b0) b1) b2) b3))"
| "Ipv4_Deserialize _ = None"

subsection \<open>Round trips\<close>

lemma and_ff: "(d :: 'a::len word) AND 0xff = take_bit 8 d"
proof -
  have "(0xff :: 'a word) = mask 8" by (simp add: mask_eq_exp_minus_1)
  then show ?thesis by (simp only: take_bit_eq_mask)
qed

lemma bit_shift_in:
  "bit (shift_in (r :: 'a::len word) b) i \<longleftrightarrow> i < LENGTH('a) \<and> (if i < 8 then bit b i else bit r (i - 8))"
  by (cases "i < 8") (auto simp: shift_in_def bit_or_iff bit_push_bit_iff bit_ucast_iff dest: bit_imp_le_length)

lemma bit_byte: "bit (ucast (drop_bit k (d :: 'a::len word) AND 0xff) :: u8) i \<longleftrightarrow> i < 8 \<and> bit d (k + i)"
  by (auto simp: and_ff bit_ucast_iff bit_take_bit_iff bit_drop_bit_eq dest: bit_imp_le_length)

lemma bit_byte0: "bit (ucast ((d :: 'a::len word) AND 0xff) :: u8) i \<longleftrightarrow> i < 8 \<and> bit d i"
  using bit_byte[of 0 d i] by simp

lemma bit_byte_top:
  "bit (ucast (ucast (drop_bit k (d :: 'a::len word) AND 0xff) :: u8) :: 'a word) i \<longleftrightarrow> i < LENGTH('a) \<and> i < 8 \<and> bit d (k + i)"
  by (simp only: bit_ucast_iff[where a = "ucast (drop_bit k d AND 0xff) :: u8"] bit_byte)

lemma ReadNtohU16_Write [simp]: "ReadNtohU16 (WriteHtonU16 d @ s) = Some (d, s)"
proof -
  let ?w = "shift_in (ucast (ucast (drop_bit 8 d AND 0xff) :: u8)) (ucast (d AND 0xff)) :: u16"
  have "bit ?w i = bit d i" if i: "i < 16" for i
  proof (cases "i < 8")
    case False
    with i obtain j where "i = 8 + j" "j < 8" using le_Suc_ex[of 8 i] by auto
    then show ?thesis by (simp only: bit_shift_in bit_byte_top bit_byte bit_byte0) simp
  qed (simp only: bit_shift_in bit_byte0, simp)
  then have "?w = d" by (intro bit_word_eqI) simp
  then show ?thesis by (simp add: ReadNtohU16_def WriteHtonU16_def)
qed

lemma ReadNtohU32_Write [simp]: "ReadNtohU32 (WriteHtonU32 d @ s) = Some (d, s)"
proof -
  let ?w = "shift_in (shift_in (shift_in (ucast (ucast (drop_bit 24 d AND 0xff) :: u8)) (ucast (drop_bit 16 d AND 0xff)))
      (ucast (drop_bit 8 d AND 0xff))) (ucast (d AND 0xff)) :: u32"
  have "bit ?w i = bit d i" if i: "i < 32" for i
  proof -
    consider "i < 8" | j where "i = 8 + j" "j < 8" | j where "i = 16 + j" "j < 8" | j where "i = 24 + j" "j < 8"
    proof -
      assume a: "i < 8 \<Longrightarrow> thesis" "\<And>j. i = 8 + j \<Longrightarrow> j < 8 \<Longrightarrow> thesis" "\<And>j. i = 16 + j \<Longrightarrow> j < 8 \<Longrightarrow> thesis"
        "\<And>j. i = 24 + j \<Longrightarrow> j < 8 \<Longrightarrow> thesis"
      consider "i < 8" | "8 \<le> i" "i < 16" | "16 \<le> i" "i < 24" | "24 \<le> i" by linarith
      then show thesis
        by cases (use a(1) a(2)[of "i - 8"] a(3)[of "i - 16"] a(4)[of "i - 24"] i in auto)
    qed
    then show ?thesis by cases (simp_all only: bit_shift_in bit_byte_top bit_byte bit_byte0, simp_all add: bit_drop_bit_eq)
  qed
  then have "?w = d" by (intro bit_word_eqI) simp
  then show ?thesis by (simp add: ReadNtohU32_def WriteHtonU32_def)
qed

lemma ReadU8_Write [simp]: "ReadU8 (WriteU8 d @ s) = Some (d, s)"
  by (simp add: WriteU8_def)

lemma ReadFrom_WriteTo [simp]: "ReadFrom_Ipv4 (WriteTo_Ipv4 a @ s) = Some (a, s)"
  by (simp add: ReadFrom_Ipv4_def WriteTo_Ipv4_def)

lemma length_Write [simp]:
  "length (WriteU8 b) = 1" "length (WriteHtonU16 h) = 2" "length (WriteHtonU32 w) = 4"
  "length (WriteHtonU64 d) = 8" "length (WriteTo_Ipv4 a) = 4"
  by (simp_all add: WriteU8_def WriteHtonU16_def WriteHtonU32_def WriteHtonU64_def WriteTo_Ipv4_def)

end
