(* ===== verification/Aodv_Packet.thy ===== *)
theory Aodv_Packet
  imports Wire_Buffer
begin

text \<open>
  The AODV message headers (\<open>src/aodv/model/aodv-packet.cc\<close>): the type header, RREQ, RREP,
  RREP-ACK and RERR, their flags and their wire formats. Lifetimes of the interface are
  milliseconds, as \<open>Time::GetMilliSeconds\<close> and \<open>MilliSeconds\<close> convert them.
\<close>

datatype MessageType = AODVTYPE_RREQ | AODVTYPE_RREP | AODVTYPE_RERR | AODVTYPE_RREP_ACK

fun MessageType_code :: "MessageType \<Rightarrow> u8" where
  "MessageType_code AODVTYPE_RREQ = 1"
| "MessageType_code AODVTYPE_RREP = 2"
| "MessageType_code AODVTYPE_RERR = 3"
| "MessageType_code AODVTYPE_RREP_ACK = 4"

definition MessageType_of :: "u8 \<Rightarrow> MessageType option" where
  "MessageType_of c = (if c = 1 then Some AODVTYPE_RREQ else if c = 2 then Some AODVTYPE_RREP
     else if c = 3 then Some AODVTYPE_RERR else if c = 4 then Some AODVTYPE_RREP_ACK else None)"

record type_header =
  th_type :: MessageType
  th_valid :: bool

definition TypeHeader_Serialize :: "type_header \<Rightarrow> bytes" where
  "TypeHeader_Serialize h = WriteU8 (MessageType_code (th_type h))"

text \<open>A header is filled in place: \<open>h0\<close> is the object \<open>Deserialize\<close> is called on.\<close>

definition TypeHeader_Deserialize :: "type_header \<Rightarrow> bytes \<Rightarrow> (type_header \<times> bytes) option" where
  "TypeHeader_Deserialize h0 s = do {
     (type, s) \<leftarrow> ReadU8 s;
     Some (case MessageType_of type of
        Some t \<Rightarrow> \<lparr>th_type = t, th_valid = True\<rparr>
      | None \<Rightarrow> h0\<lparr>th_valid := False\<rparr>, s)
   }"

text \<open>A bit of a flags byte.\<close>

definition set_flag :: "nat \<Rightarrow> bool \<Rightarrow> u8 \<Rightarrow> u8" where
  "set_flag n f flags = (if f then flags OR push_bit n 1 else flags AND NOT (push_bit n 1))"

definition get_flag :: "nat \<Rightarrow> u8 \<Rightarrow> bool" where
  "get_flag n flags \<longleftrightarrow> flags AND push_bit n 1 \<noteq> 0"

subsection \<open>RREQ\<close>

record rreq =
  rq_flags :: u8
  rq_reserved :: u8
  rq_hopCount :: u8
  rq_requestID :: u32
  rq_dst :: ipv4
  rq_dstSeqNo :: u32
  rq_origin :: ipv4
  rq_originSeqNo :: u32

definition Rreq_GetSerializedSize :: nat where "Rreq_GetSerializedSize = 23"

definition Rreq_Serialize :: "rreq \<Rightarrow> bytes" where
  "Rreq_Serialize h = WriteU8 (rq_flags h) @ WriteU8 (rq_reserved h) @ WriteU8 (rq_hopCount h) @
     WriteHtonU32 (rq_requestID h) @ WriteTo_Ipv4 (rq_dst h) @ WriteHtonU32 (rq_dstSeqNo h) @
     WriteTo_Ipv4 (rq_origin h) @ WriteHtonU32 (rq_originSeqNo h)"

definition Rreq_Deserialize :: "bytes \<Rightarrow> (rreq \<times> bytes) option" where
  "Rreq_Deserialize s0 = do {
     (flags, s) \<leftarrow> ReadU8 s0;
     (reserved, s) \<leftarrow> ReadU8 s;
     (hop, s) \<leftarrow> ReadU8 s;
     (rid, s) \<leftarrow> ReadNtohU32 s;
     (dst, s) \<leftarrow> ReadFrom_Ipv4 s;
     (dseq, s) \<leftarrow> ReadNtohU32 s;
     (orig, s) \<leftarrow> ReadFrom_Ipv4 s;
     (oseq, s) \<leftarrow> ReadNtohU32 s;
     ns_assert (length s0 - length s = Rreq_GetSerializedSize);
     Some (\<lparr>rq_flags = flags, rq_reserved = reserved, rq_hopCount = hop, rq_requestID = rid, rq_dst = dst,
            rq_dstSeqNo = dseq, rq_origin = orig, rq_originSeqNo = oseq\<rparr>, s)
   }"

definition SetGratuitousRrep :: "bool \<Rightarrow> rreq \<Rightarrow> rreq" where
  "SetGratuitousRrep f h = h\<lparr>rq_flags := set_flag 5 f (rq_flags h)\<rparr>"
definition GetGratuitousRrep :: "rreq \<Rightarrow> bool" where
  "GetGratuitousRrep h = get_flag 5 (rq_flags h)"
definition SetDestinationOnly :: "bool \<Rightarrow> rreq \<Rightarrow> rreq" where
  "SetDestinationOnly f h = h\<lparr>rq_flags := set_flag 4 f (rq_flags h)\<rparr>"
definition GetDestinationOnly :: "rreq \<Rightarrow> bool" where
  "GetDestinationOnly h = get_flag 4 (rq_flags h)"
definition SetUnknownSeqno :: "bool \<Rightarrow> rreq \<Rightarrow> rreq" where
  "SetUnknownSeqno f h = h\<lparr>rq_flags := set_flag 3 f (rq_flags h)\<rparr>"
definition GetUnknownSeqno :: "rreq \<Rightarrow> bool" where
  "GetUnknownSeqno h = get_flag 3 (rq_flags h)"

definition Rreq_eq :: "rreq \<Rightarrow> rreq \<Rightarrow> bool" where
  "Rreq_eq h o' \<longleftrightarrow> rq_flags h = rq_flags o' \<and> rq_reserved h = rq_reserved o' \<and> rq_hopCount h = rq_hopCount o' \<and>
     rq_requestID h = rq_requestID o' \<and> ipv4_eq (rq_dst h) (rq_dst o') \<and> rq_dstSeqNo h = rq_dstSeqNo o' \<and>
     ipv4_eq (rq_origin h) (rq_origin o') \<and> rq_originSeqNo h = rq_originSeqNo o'"

subsection \<open>RREP\<close>

record rrep =
  rp_flags :: u8
  rp_prefixSize :: u8
  rp_hopCount :: u8
  rp_dst :: ipv4
  rp_dstSeqNo :: u32
  rp_origin :: ipv4
  rp_lifeTime :: u32

text \<open>\<open>uint32_t (lifeTime.GetMilliSeconds ())\<close> truncates the 64-bit count.\<close>

definition RrepHeader :: "u8 \<Rightarrow> u8 \<Rightarrow> ipv4 \<Rightarrow> u32 \<Rightarrow> ipv4 \<Rightarrow> int \<Rightarrow> rrep" where
  "RrepHeader prefixSize hopCount dst dstSeqNo origin lifeMs =
     \<lparr>rp_flags = 0, rp_prefixSize = prefixSize, rp_hopCount = hopCount, rp_dst = dst, rp_dstSeqNo = dstSeqNo,
      rp_origin = origin, rp_lifeTime = of_int lifeMs\<rparr>"

definition Rrep_GetSerializedSize :: nat where "Rrep_GetSerializedSize = 19"

definition Rrep_Serialize :: "rrep \<Rightarrow> bytes" where
  "Rrep_Serialize h = WriteU8 (rp_flags h) @ WriteU8 (rp_prefixSize h) @ WriteU8 (rp_hopCount h) @
     WriteTo_Ipv4 (rp_dst h) @ WriteHtonU32 (rp_dstSeqNo h) @ WriteTo_Ipv4 (rp_origin h) @ WriteHtonU32 (rp_lifeTime h)"

definition Rrep_Deserialize :: "bytes \<Rightarrow> (rrep \<times> bytes) option" where
  "Rrep_Deserialize s0 = do {
     (flags, s) \<leftarrow> ReadU8 s0;
     (prefixSize, s) \<leftarrow> ReadU8 s;
     (hop, s) \<leftarrow> ReadU8 s;
     (dst, s) \<leftarrow> ReadFrom_Ipv4 s;
     (dseq, s) \<leftarrow> ReadNtohU32 s;
     (orig, s) \<leftarrow> ReadFrom_Ipv4 s;
     (life, s) \<leftarrow> ReadNtohU32 s;
     ns_assert (length s0 - length s = Rrep_GetSerializedSize);
     Some (\<lparr>rp_flags = flags, rp_prefixSize = prefixSize, rp_hopCount = hop, rp_dst = dst, rp_dstSeqNo = dseq,
            rp_origin = orig, rp_lifeTime = life\<rparr>, s)
   }"

definition Rrep_SetLifeTime :: "int \<Rightarrow> rrep \<Rightarrow> rrep" where
  "Rrep_SetLifeTime ms h = h\<lparr>rp_lifeTime := of_int ms\<rparr>"
definition Rrep_GetLifeTime :: "rrep \<Rightarrow> int" where
  "Rrep_GetLifeTime h = uint (rp_lifeTime h)"
definition SetAckRequired :: "bool \<Rightarrow> rrep \<Rightarrow> rrep" where
  "SetAckRequired f h = h\<lparr>rp_flags := set_flag 6 f (rp_flags h)\<rparr>"
definition GetAckRequired :: "rrep \<Rightarrow> bool" where
  "GetAckRequired h = get_flag 6 (rp_flags h)"
definition SetPrefixSize :: "u8 \<Rightarrow> rrep \<Rightarrow> rrep" where
  "SetPrefixSize sz h = h\<lparr>rp_prefixSize := sz\<rparr>"
definition GetPrefixSize :: "rrep \<Rightarrow> u8" where
  "GetPrefixSize h = rp_prefixSize h"

definition Rrep_eq :: "rrep \<Rightarrow> rrep \<Rightarrow> bool" where
  "Rrep_eq h o' \<longleftrightarrow> rp_flags h = rp_flags o' \<and> rp_prefixSize h = rp_prefixSize o' \<and> rp_hopCount h = rp_hopCount o' \<and>
     ipv4_eq (rp_dst h) (rp_dst o') \<and> rp_dstSeqNo h = rp_dstSeqNo o' \<and> ipv4_eq (rp_origin h) (rp_origin o') \<and>
     rp_lifeTime h = rp_lifeTime o'"

definition SetHello :: "ipv4 \<Rightarrow> u32 \<Rightarrow> int \<Rightarrow> rrep \<Rightarrow> rrep" where
  "SetHello origin srcSeqNo lifetimeMs h = h\<lparr>rp_flags := 0, rp_prefixSize := 0, rp_hopCount := 0, rp_dst := origin,
     rp_dstSeqNo := srcSeqNo, rp_origin := origin, rp_lifeTime := of_int lifetimeMs\<rparr>"

subsection \<open>RREP-ACK\<close>

record rrep_ack =
  ra_reserved :: u8

definition RrepAck_GetSerializedSize :: nat where "RrepAck_GetSerializedSize = 1"

definition RrepAck_Serialize :: "rrep_ack \<Rightarrow> bytes" where
  "RrepAck_Serialize h = WriteU8 (ra_reserved h)"

definition RrepAck_Deserialize :: "bytes \<Rightarrow> (rrep_ack \<times> bytes) option" where
  "RrepAck_Deserialize s0 = do {
     (r, s) \<leftarrow> ReadU8 s0;
     ns_assert (length s0 - length s = RrepAck_GetSerializedSize);
     Some (\<lparr>ra_reserved = r\<rparr>, s)
   }"

subsection \<open>RERR\<close>

record rerr =
  re_flag :: u8
  re_reserved :: u8
  re_unreachable :: "(ipv4 \<times> u32) list"

definition RerrHeader :: rerr where
  "RerrHeader = \<lparr>re_flag = 0, re_reserved = 0, re_unreachable = []\<rparr>"

definition GetDestCount :: "rerr \<Rightarrow> u8" where
  "GetDestCount h = of_nat (length (re_unreachable h))"

definition Rerr_GetSerializedSize :: "rerr \<Rightarrow> nat" where
  "Rerr_GetSerializedSize h = 3 + 8 * unat (GetDestCount h)"

definition Rerr_Serialize :: "rerr \<Rightarrow> bytes" where
  "Rerr_Serialize h = WriteU8 (re_flag h) @ WriteU8 (re_reserved h) @ WriteU8 (GetDestCount h) @
     concat (map (\<lambda>(a, q). WriteTo_Ipv4 a @ WriteHtonU32 q) (re_unreachable h))"

fun Rerr_read :: "nat \<Rightarrow> (ipv4 \<times> u32) list \<Rightarrow> bytes \<Rightarrow> ((ipv4 \<times> u32) list \<times> bytes) option" where
  "Rerr_read 0 m s = Some (m, s)"
| "Rerr_read (Suc k) m s = do {
     (address, s) \<leftarrow> ReadFrom_Ipv4 s;
     (seqNo, s) \<leftarrow> ReadNtohU32 s;
     Rerr_read k (fst (smap_insert ipv4_less address seqNo m)) s
   }"

definition Rerr_Deserialize :: "bytes \<Rightarrow> (rerr \<times> bytes) option" where
  "Rerr_Deserialize s0 = do {
     (flag, s) \<leftarrow> ReadU8 s0;
     (reserved, s) \<leftarrow> ReadU8 s;
     (dest, s) \<leftarrow> ReadU8 s;
     (m, s) \<leftarrow> Rerr_read (unat dest) [] s;
     let h = \<lparr>re_flag = flag, re_reserved = reserved, re_unreachable = m\<rparr>;
     ns_assert (length s0 - length s = Rerr_GetSerializedSize h);
     Some (h, s)
   }"

definition SetNoDelete :: "bool \<Rightarrow> rerr \<Rightarrow> rerr" where
  "SetNoDelete f h = h\<lparr>re_flag := set_flag 0 f (re_flag h)\<rparr>"
definition GetNoDelete :: "rerr \<Rightarrow> bool" where
  "GetNoDelete h = get_flag 0 (re_flag h)"

definition AddUnDestination :: "ipv4 \<Rightarrow> u32 \<Rightarrow> rerr \<Rightarrow> (bool \<times> rerr) option" where
  "AddUnDestination dst seqNo h =
     (if smap_find ipv4_less dst (re_unreachable h) \<noteq> None then Some (True, h)
      else if GetDestCount h < 255
      then Some (True, h\<lparr>re_unreachable := fst (smap_insert ipv4_less dst seqNo (re_unreachable h))\<rparr>)
      else None)"

definition RemoveUnDestination :: "rerr \<Rightarrow> ((ipv4 \<times> u32) option \<times> rerr)" where
  "RemoveUnDestination h = (case re_unreachable h of
     [] \<Rightarrow> (None, h)
   | un # m \<Rightarrow> (Some un, h\<lparr>re_unreachable := m\<rparr>))"

definition Rerr_Clear :: "rerr \<Rightarrow> rerr" where
  "Rerr_Clear h = h\<lparr>re_unreachable := [], re_flag := 0, re_reserved := 0\<rparr>"

text \<open>The comparison walks both maps for \<open>GetDestCount\<close> steps.\<close>

definition Rerr_eq :: "rerr \<Rightarrow> rerr \<Rightarrow> bool" where
  "Rerr_eq h o' \<longleftrightarrow> re_flag h = re_flag o' \<and> re_reserved h = re_reserved o' \<and> GetDestCount h = GetDestCount o' \<and>
     (\<forall>(a, b) \<in> set (zip (take (unat (GetDestCount h)) (re_unreachable h)) (re_unreachable o')).
        ipv4_eq (fst a) (fst b) \<and> snd a = snd b)"

end
