(* ===== verification/Aodv_Packet_Properties.thy ===== *)
theory Aodv_Packet_Properties
  imports Aodv_Packet
begin

text \<open>The properties of the AODV headers.\<close>

subsection \<open>Lemmas\<close>

lemma length_ReadU8: "ReadU8 s = Some (x, s') \<Longrightarrow> s = WriteU8 x @ s'"
  by (cases s) (auto simp: WriteU8_def)

lemma bit_top_byte: "bit (ucast (b :: u8) :: u32) i \<longleftrightarrow> i < 8 \<and> bit b i"
  by (auto simp: bit_ucast_iff dest: bit_imp_le_length)

lemma WriteHtonU32_Read:
  assumes "ReadNtohU32 s = Some (w, s')"
  shows "s = WriteHtonU32 w @ s'"
proof -
  from assms obtain b0 b1 b2 b3 where s: "s = b0 # b1 # b2 # b3 # s'"
    and w: "w = shift_in (shift_in (shift_in (ucast b0) b1) b2) b3"
    by (auto simp: ReadNtohU32_def split: Option.bind_splits elim!: ReadU8.elims)
  have bits: "bit w i \<longleftrightarrow> i < 32 \<and> (if i < 8 then bit b3 i else if i - 8 < 8 then bit b2 (i - 8)
      else if i - 8 - 8 < 8 then bit b1 (i - 8 - 8) else i - 8 - 8 - 8 < 8 \<and> bit b0 (i - 8 - 8 - 8))" for i
    unfolding w by (simp only: bit_shift_in bit_top_byte) auto
  have "bit (ucast (drop_bit 24 w AND 0xff) :: u8) n = bit b0 n" "bit (ucast (drop_bit 16 w AND 0xff) :: u8) n = bit b1 n"
    "bit (ucast (drop_bit 8 w AND 0xff) :: u8) n = bit b2 n" "bit (ucast (w AND 0xff) :: u8) n = bit b3 n" if "n < 8" for n
    using that unfolding bit_byte0 bit_drop_bit_eq comp_def bits by simp_all
  then have "ucast (drop_bit 24 w AND 0xff) = b0" "ucast (drop_bit 16 w AND 0xff) = b1"
    "ucast (drop_bit 8 w AND 0xff) = b2" "ucast (w AND 0xff) = b3"
    by (auto intro!: bit_word_eqI)
  then show ?thesis by (simp add: s WriteHtonU32_def)
qed

lemma WriteTo_ReadFrom: "ReadFrom_Ipv4 s = Some (a, s') \<Longrightarrow> s = WriteTo_Ipv4 a @ s'"
  by (auto simp: ReadFrom_Ipv4_def WriteTo_Ipv4_def dest: WriteHtonU32_Read)

lemma MessageType_of_code [simp]: "MessageType_of (MessageType_code t) = Some t"
  by (cases t) (simp_all add: MessageType_of_def)

lemma get_set_flag: "n < 8 \<Longrightarrow> m < 8 \<Longrightarrow> get_flag n (set_flag m f flags) = (if n = m then f else get_flag n flags)"
proof -
  assume n: "n < 8" "m < 8"
  have g: "get_flag n w \<longleftrightarrow> bit w n" for w
    using n by (auto simp: get_flag_def and_exp_eq_0_iff_not_bit push_bit_of_1)
  show ?thesis using n unfolding g set_flag_def
    by (auto simp: bit_or_iff bit_and_iff bit_not_iff push_bit_of_1 bit_exp_iff)
qed

subsection \<open>The entries of an RERR\<close>

abbreviation un_bytes :: "(ipv4 \<times> u32) list \<Rightarrow> bytes" where
  "un_bytes xs \<equiv> concat (map (\<lambda>(a, q). WriteTo_Ipv4 a @ WriteHtonU32 q) xs)"

abbreviation insert_all_un :: "(ipv4 \<times> u32) list \<Rightarrow> (ipv4 \<times> u32) list \<Rightarrow> (ipv4 \<times> u32) list" where
  "insert_all_un xs m \<equiv> foldl (\<lambda>m (a, q). fst (smap_insert (<) a q m)) m xs"

lemma Rerr_read_bytes: "Rerr_read (length xs) m (un_bytes xs @ s) = Some (insert_all_un xs m, s)"
  by (induction xs arbitrary: m) auto

lemma length_un_bytes [simp]: "length (un_bytes xs) = 8 * length xs"
  by (induction xs) auto

lemma insert_un: "smap_ok m \<Longrightarrow> smap_ok (fst (smap_insert (<) a q m)) \<and>
    (length (fst (smap_insert (<) (a :: ipv4) q m)) = length m + (if a \<in> fst ` set m then 0 else 1)) \<and>
    fst ` set (fst (smap_insert (<) a q m)) = insert a (fst ` set m) \<and>
    (a \<notin> fst ` set m \<longrightarrow> mset (fst (smap_insert (<) a q m)) = add_mset (a, q) (mset m))"
proof (cases "a \<in> fst ` set m")
  case True
  assume "smap_ok m"
  with True show ?thesis by (auto simp: smap_insert_old)
next
  case False
  assume ok: "smap_ok m"
  have "mset (smap_set (<) a q m) = add_mset (a, q) (mset m)" by (rule mset_smap_set_new[OF False])
  moreover from arg_cong[OF this, of size] have "length (smap_set (<) a q m) = length m + 1" by simp
  ultimately show ?thesis using False ok by (simp add: smap_insert_new smap_ok_set set_smap_set)
qed

lemma insert_all_un_spec:
  assumes "smap_ok m"
  shows "smap_ok (insert_all_un xs m) \<and> length (insert_all_un xs m) \<le> length m + length xs \<and>
    (length (insert_all_un xs m) = length m + length xs \<longleftrightarrow> distinct (map fst xs) \<and> fst ` set xs \<inter> fst ` set m = {}) \<and>
    (distinct (map fst xs) \<and> fst ` set xs \<inter> fst ` set m = {} \<longrightarrow> mset (insert_all_un xs m) = mset xs + mset m)"
  using assms
proof (induction xs arbitrary: m)
  case (Cons x xs)
  obtain a q where x: "x = (a, q)" by force
  let ?m = "fst (smap_insert (<) a q m)"
  note un = insert_un[OF Cons.prems, of a q]
  from un have ok: "smap_ok ?m" by blast
  note IH = Cons.IH[OF ok]
  show ?case
  proof (cases "a \<in> fst ` set m")
    case True
    with un IH show ?thesis by (auto simp: x)
  next
    case False
    with un have m: "length ?m = Suc (length m)" "fst ` set ?m = insert a (fst ` set m)"
      "mset ?m = add_mset (a, q) (mset m)" by auto
    have "distinct (map fst (x # xs)) \<and> fst ` set (x # xs) \<inter> fst ` set m = {} \<longleftrightarrow>
        distinct (map fst xs) \<and> fst ` set xs \<inter> fst ` set ?m = {}"
      using False m(2) by (auto simp: x)
    with IH m show ?thesis by (auto simp: x)
  qed
qed simp

lemma sorted_insert_id: "smap_ok xs \<Longrightarrow> insert_all_un xs [] = xs"
proof -
  assume ok: "smap_ok xs"
  have "distinct (map fst xs)" by (rule smap_ok_distinct[OF ok])
  with insert_all_un_spec[of "[]" xs] have s: "smap_ok (insert_all_un xs [])" "mset (insert_all_un xs []) = mset xs" by auto
  have set: "set (insert_all_un xs []) = set xs" using s(2) by (rule mset_eq_setD)
  then have "set (map fst (insert_all_un xs [])) = set (map fst xs)" by simp
  with s(1) ok have eq: "map fst (insert_all_un xs []) = map fst xs"
    using strict_sorted_equal[of "map fst xs" "map fst (insert_all_un xs [])"] by blast
  have "inj_on fst (set (insert_all_un xs []) \<union> set xs)"
    using \<open>distinct (map fst xs)\<close> unfolding set by (simp add: distinct_map)
  from inj_on_map_eq_map[OF this] eq show ?thesis by blast
qed

lemma count_255: "length xs \<le> 255 \<Longrightarrow> unat (of_nat (length xs) :: u8) = length xs"
  by (simp add: unsigned_of_nat take_bit_eq_mod)

lemma Rerr_parse:
  assumes "length xs \<le> 255"
  shows "Rerr_Deserialize (WriteU8 fl @ WriteU8 rs @ WriteU8 (of_nat (length xs)) @ un_bytes xs @ s) =
    (if distinct (map fst xs) then Some (\<lparr>re_flag = fl, re_reserved = rs, re_unreachable = insert_all_un xs []\<rparr>, s) else None)"
proof -
  note sp = insert_all_un_spec[of "[]" xs]
  have "length (insert_all_un xs []) \<le> 255" using sp assms by simp
  then have u: "unat (of_nat (length (insert_all_un xs [])) :: u8) = length (insert_all_un xs [])" by (rule count_255)
  have "Rerr_Deserialize (WriteU8 fl @ WriteU8 rs @ WriteU8 (of_nat (length xs)) @ un_bytes xs @ s) =
    Option.bind (ns_assert (length xs = length (insert_all_un xs [])))
      (\<lambda>_. Some (\<lparr>re_flag = fl, re_reserved = rs, re_unreachable = insert_all_un xs []\<rparr>, s))"
    using u by (simp add: Rerr_Deserialize_def count_255[OF assms] Rerr_read_bytes Rerr_GetSerializedSize_def GetDestCount_def)
  moreover have "length xs = length (insert_all_un xs []) \<longleftrightarrow> distinct (map fst xs)" using sp by auto
  ultimately show ?thesis by (simp add: ns_assert_def)
qed

lemma plain_roundtrips:
  "TypeHeader_Deserialize h0 (TypeHeader_Serialize t @ s) = Some (\<lparr>th_type = th_type t, th_valid = True\<rparr>, s)"
  "Rreq_Deserialize (Rreq_Serialize q @ s) = Some (q, s)" "length (Rreq_Serialize q) = Rreq_GetSerializedSize"
  "Rrep_Deserialize (Rrep_Serialize p @ s) = Some (p, s)" "length (Rrep_Serialize p) = Rrep_GetSerializedSize"
  "RrepAck_Deserialize (RrepAck_Serialize a @ s) = Some (a, s)" "length (RrepAck_Serialize a) = RrepAck_GetSerializedSize"
  by (simp_all add: TypeHeader_Deserialize_def TypeHeader_Serialize_def Rreq_Deserialize_def Rreq_Serialize_def
      Rreq_GetSerializedSize_def Rrep_Deserialize_def Rrep_Serialize_def Rrep_GetSerializedSize_def
      RrepAck_Deserialize_def RrepAck_Serialize_def RrepAck_GetSerializedSize_def)

lemma Rerr_roundtrip:
  assumes "smap_ok (re_unreachable e)" "length (re_unreachable e) \<le> 255"
  shows "Rerr_Deserialize (Rerr_Serialize e @ s) = Some (e, s)" "length (Rerr_Serialize e) = Rerr_GetSerializedSize e"
proof -
  have "Rerr_Serialize e @ s = WriteU8 (re_flag e) @ WriteU8 (re_reserved e) @
      WriteU8 (of_nat (length (re_unreachable e))) @ un_bytes (re_unreachable e) @ s"
    by (simp add: Rerr_Serialize_def GetDestCount_def)
  with Rerr_parse[OF assms(2)] smap_ok_distinct[OF assms(1)] sorted_insert_id[OF assms(1)]
  show "Rerr_Deserialize (Rerr_Serialize e @ s) = Some (e, s)" by simp
  show "length (Rerr_Serialize e) = Rerr_GetSerializedSize e"
    by (simp add: Rerr_Serialize_def Rerr_GetSerializedSize_def GetDestCount_def count_255[OF assms(2)])
qed

subsection \<open>Properties\<close>

text \<open>
  C30. Every AODV header reads back what it wrote, whatever follows it, and occupies exactly its
  \<open>GetSerializedSize\<close>; the type header accepts exactly the four message codes.
\<close>

theorem Aodv_headers_roundtrip:
  assumes "smap_ok (re_unreachable e)" "length (re_unreachable e) \<le> 255"
  shows "TypeHeader_Deserialize h0 (TypeHeader_Serialize t @ s) = Some (\<lparr>th_type = th_type t, th_valid = True\<rparr>, s) \<and>
    Rreq_Deserialize (Rreq_Serialize q @ s) = Some (q, s) \<and> length (Rreq_Serialize q) = Rreq_GetSerializedSize \<and>
    Rrep_Deserialize (Rrep_Serialize p @ s) = Some (p, s) \<and> length (Rrep_Serialize p) = Rrep_GetSerializedSize \<and>
    RrepAck_Deserialize (RrepAck_Serialize a @ s) = Some (a, s) \<and> length (RrepAck_Serialize a) = RrepAck_GetSerializedSize \<and>
    Rerr_Deserialize (Rerr_Serialize e @ s) = Some (e, s) \<and> length (Rerr_Serialize e) = Rerr_GetSerializedSize e"
  using assms plain_roundtrips Rerr_roundtrip[OF assms] by simp

theorem Aodv_headers_roundtrip_witness:
  "Rerr_Deserialize (Rerr_Serialize \<lparr>re_flag = 1, re_reserved = 0, re_unreachable = [(Ipv4 1, 5), (Ipv4 2, 6)]\<rparr>) =
    Some (\<lparr>re_flag = 1, re_reserved = 0, re_unreachable = [(Ipv4 1, 5), (Ipv4 2, 6)]\<rparr>, [])"
  using Aodv_headers_roundtrip[of "\<lparr>re_flag = 1, re_reserved = 0, re_unreachable = [(Ipv4 1, 5), (Ipv4 2, 6)]\<rparr>" _ _ "[]"]
  by (simp add: less_ipv4_def)

text \<open>
  Conversely the bytes an RREQ, RREP or RREP-ACK was read from are the serialization of the header
  that was read: two different packets never read as the same message.
\<close>

theorem Aodv_headers_canonical:
  "(Rreq_Deserialize s = Some (q, s1) \<longrightarrow> s = Rreq_Serialize q @ s1) \<and>
   (Rrep_Deserialize s = Some (p, s2) \<longrightarrow> s = Rrep_Serialize p @ s2) \<and>
   (RrepAck_Deserialize s = Some (a, s3) \<longrightarrow> s = RrepAck_Serialize a @ s3)"
proof -
  note rd = WriteTo_ReadFrom WriteHtonU32_Read length_ReadU8
  have "s = Rreq_Serialize q @ s1" if "Rreq_Deserialize s = Some (q, s1)"
    using that by (auto simp: Rreq_Deserialize_def Rreq_Serialize_def split: Option.bind_splits dest!: rd)
  moreover have "s = Rrep_Serialize p @ s2" if "Rrep_Deserialize s = Some (p, s2)"
    using that by (auto simp: Rrep_Deserialize_def Rrep_Serialize_def split: Option.bind_splits dest!: rd)
  moreover have "s = RrepAck_Serialize a @ s3" if "RrepAck_Deserialize s = Some (a, s3)"
    using that by (auto simp: RrepAck_Deserialize_def RrepAck_Serialize_def split: Option.bind_splits dest!: rd)
  ultimately show ?thesis by blast
qed

theorem Aodv_headers_canonical_witness:
  "RrepAck_Deserialize [7, 9] = Some (\<lparr>ra_reserved = 7\<rparr>, [9]) \<and> [7, 9] = RrepAck_Serialize \<lparr>ra_reserved = 7\<rparr> @ [9]"
proof -
  have "RrepAck_Deserialize [7, 9] = Some (\<lparr>ra_reserved = 7\<rparr>, [9])"
    by (simp add: RrepAck_Deserialize_def RrepAck_GetSerializedSize_def)
  with Aodv_headers_canonical[of "[7, 9]"] show ?thesis by blast
qed

text \<open>
  C31. An RERR of up to 255 entries is accepted exactly when no destination is listed twice; it is then
  read as the ordered map of its entries. A repeated destination makes the map smaller than the
  packet, and the size assertion at the end of \<open>Deserialize\<close> stops the simulation.
\<close>

theorem Rerr_duplicate_aborts:
  assumes "length xs \<le> 255"
  shows "case Rerr_Deserialize (WriteU8 fl @ WriteU8 rs @ WriteU8 (of_nat (length xs)) @ un_bytes xs @ s) of
      None \<Rightarrow> \<not> distinct (map fst xs)
    | Some (h, s') \<Rightarrow> distinct (map fst xs) \<and> s' = s \<and> re_flag h = fl \<and> re_reserved h = rs \<and>
        smap_ok (re_unreachable h) \<and> mset (re_unreachable h) = mset xs"
  using insert_all_un_spec[of "[]" xs] by (simp add: Rerr_parse[OF assms])

theorem Rerr_duplicate_aborts_witness:
  "Rerr_Deserialize [0, 0, 2, 10, 0, 0, 1, 0, 0, 0, 5, 10, 0, 0, 1, 0, 0, 0, 6] = None"
proof -
  have "length [(Ipv4 0x0a000001, 5 :: u32), (Ipv4 0x0a000001, 6)] \<le> 255" by simp
  from Rerr_duplicate_aborts[OF this, where fl = 0 and rs = 0 and s = "[]"] show ?thesis
    by (simp add: WriteU8_def WriteTo_Ipv4_def WriteHtonU32_def split: option.splits)
qed

text \<open>
  The RERR list under \<open>AddUnDestination\<close> and \<open>RemoveUnDestination\<close>: it stays an ordered map of at
  most 255 destinations, an entry that is there is never overwritten, a new one is added with its
  sequence number, and the call asserts exactly for a new destination in a full list. Removing
  repeatedly yields every entry once.
\<close>

theorem Rerr_destinations:
  assumes "smap_ok (re_unreachable h)" "length (re_unreachable h) \<le> 255"
  shows "case AddUnDestination dst q h of
      None \<Rightarrow> dst \<notin> fst ` set (re_unreachable h) \<and> length (re_unreachable h) = 255
    | Some (b, h') \<Rightarrow> b \<and> smap_ok (re_unreachable h') \<and> length (re_unreachable h') \<le> 255 \<and>
        map_of (re_unreachable h') = (map_of (re_unreachable h))(dst \<mapsto>
          case map_of (re_unreachable h) dst of None \<Rightarrow> q | Some q0 \<Rightarrow> q0) \<and>
        (re_unreachable h' = [] \<or> (\<exists>un h''. RemoveUnDestination h' = (Some un, h'') \<and>
          re_unreachable h' = un # re_unreachable h''))"
proof -
  let ?m = "re_unreachable h"
  have u: "unat (GetDestCount h) = length ?m" using count_255[OF assms(2)] by (simp add: GetDestCount_def)
  then have lt: "GetDestCount h < 255 \<longleftrightarrow> length ?m < 255" by (simp add: word_less_nat_alt)
  have find: "smap_find ipv4_less dst ?m = map_of ?m dst" by simp
  have rm: "re_unreachable h' = [] \<or> (\<exists>un h''. RemoveUnDestination h' = (Some un, h'') \<and>
      re_unreachable h' = un # re_unreachable h'')" for h'
    by (cases "re_unreachable h'") (auto simp: RemoveUnDestination_def)
  show ?thesis
  proof (cases "dst \<in> fst ` set ?m")
    case True
    then obtain q0 where "map_of ?m dst = Some q0" by (metis map_of_eq_None_iff not_None_eq)
    moreover from this have "AddUnDestination dst q h = Some (True, h)" by (simp add: AddUnDestination_def find)
    ultimately show ?thesis using assms rm[of h] by (simp add: map_upd_triv)
  next
    case False
    then have none: "map_of ?m dst = None" by (simp add: map_of_eq_None_iff)
    have ins: "fst (smap_insert (<) dst q ?m) = smap_set (<) dst q ?m" using smap_insert_new[OF False] by simp
    have "length (smap_set (<) dst q ?m) = length ?m + 1" using insert_un[OF assms(1), of dst q] False ins by simp
    with False none assms lt rm[of "h\<lparr>re_unreachable := smap_set (<) dst q ?m\<rparr>"] show ?thesis
      by (simp add: AddUnDestination_def ins map_of_smap_set smap_ok_set)
  qed
qed

theorem Rerr_destinations_witness:
  "case AddUnDestination (Ipv4 3) 9 RerrHeader of None \<Rightarrow> False
   | Some (b, h') \<Rightarrow> b \<and> map_of (re_unreachable h') = [Ipv4 3 \<mapsto> 9]"
  using Rerr_destinations[of RerrHeader "Ipv4 3" 9] by (simp add: RerrHeader_def split: option.splits prod.splits)

text \<open>
  The accessors of the headers: each flag reads back what was set and no other flag of the byte
  changes; a lifetime is kept modulo \<open>2 ^ 32\<close> milliseconds.
\<close>

theorem Aodv_flags_independent:
  "GetGratuitousRrep (SetGratuitousRrep f h) = f \<and> GetDestinationOnly (SetGratuitousRrep f h) = GetDestinationOnly h \<and>
   GetUnknownSeqno (SetGratuitousRrep f h) = GetUnknownSeqno h \<and>
   GetDestinationOnly (SetDestinationOnly f h) = f \<and> GetGratuitousRrep (SetDestinationOnly f h) = GetGratuitousRrep h \<and>
   GetUnknownSeqno (SetDestinationOnly f h) = GetUnknownSeqno h \<and>
   GetUnknownSeqno (SetUnknownSeqno f h) = f \<and> GetGratuitousRrep (SetUnknownSeqno f h) = GetGratuitousRrep h \<and>
   GetDestinationOnly (SetUnknownSeqno f h) = GetDestinationOnly h \<and>
   GetAckRequired (SetAckRequired f p) = f \<and> GetNoDelete (SetNoDelete f e) = f \<and>
   Rrep_GetLifeTime (Rrep_SetLifeTime ms p) = ms mod 2 ^ 32 \<and> GetAckRequired (SetHello a n ms p) = False"
proof -
  have "GetAckRequired (SetHello a n ms p) = False" by (simp add: GetAckRequired_def SetHello_def get_flag_def)
  moreover have "Rrep_GetLifeTime (Rrep_SetLifeTime ms p) = ms mod 2 ^ 32"
    by (simp add: Rrep_GetLifeTime_def Rrep_SetLifeTime_def unsigned_of_int take_bit_eq_mod)
  ultimately show ?thesis
    by (simp add: GetGratuitousRrep_def SetGratuitousRrep_def GetDestinationOnly_def SetDestinationOnly_def
        GetUnknownSeqno_def SetUnknownSeqno_def GetAckRequired_def SetAckRequired_def GetNoDelete_def SetNoDelete_def
        get_set_flag)
qed

end
