(* ===== verification/Ipv4_Header.thy ===== *)
theory Ipv4_Header
  imports Wire_Buffer
begin

text \<open>
  The IPv4 header (\<open>src/internet/model/ipv4-header.cc\<close>) and the Internet checksum of
  \<open>Buffer::Iterator::CalculateIpChecksum\<close> (\<open>src/network/model/buffer.cc\<close>). The bit fields of the
  class keep their widths; \<open>m_flags\<close> has three bits, of which the setters use two. \<open>None\<close> is a read
  past the end of the buffer or the abort of \<open>SetFragmentOffset\<close>. Printing is not modelled.
\<close>

record ipv4_header =
  ip_calcChecksum :: bool
  ip_payloadSize :: u16
  ip_identification :: u16
  ip_tos :: u8
  ip_ttl :: u8
  ip_protocol :: u8
  ip_flags :: "3 word"
  ip_fragmentOffset :: u16
  ip_source :: ipv4
  ip_destination :: ipv4
  ip_checksum :: u16
  ip_goodChecksum :: bool
  ip_headerSize :: u16

definition Ipv4Header :: ipv4_header where
  "Ipv4Header = \<lparr>ip_calcChecksum = False, ip_payloadSize = 0, ip_identification = 0, ip_tos = 0, ip_ttl = 0,
     ip_protocol = 0, ip_flags = 0, ip_fragmentOffset = 0, ip_source = Ipv4 0x66666666,
     ip_destination = Ipv4 0x66666666, ip_checksum = 0, ip_goodChecksum = True, ip_headerSize = 20\<rparr>"

definition EnableChecksum :: "ipv4_header \<Rightarrow> ipv4_header" where
  "EnableChecksum h = h\<lparr>ip_calcChecksum := True\<rparr>"

definition SetDscp :: "u8 \<Rightarrow> ipv4_header \<Rightarrow> ipv4_header" where
  "SetDscp dscp h = h\<lparr>ip_tos := (ip_tos h AND 0x3) OR push_bit 2 dscp\<rparr>"

definition SetEcn :: "u8 \<Rightarrow> ipv4_header \<Rightarrow> ipv4_header" where
  "SetEcn ecn h = h\<lparr>ip_tos := (ip_tos h AND 0xFC) OR ecn\<rparr>"

definition GetDscp :: "ipv4_header \<Rightarrow> u8" where
  "GetDscp h = drop_bit 2 (ip_tos h AND 0xFC)"

definition GetEcn :: "ipv4_header \<Rightarrow> u8" where
  "GetEcn h = ip_tos h AND 0x3"

text \<open>\<open>DONT_FRAGMENT\<close> is bit 0 of the flags, \<open>MORE_FRAGMENTS\<close> is bit 1.\<close>

definition SetMoreFragments :: "ipv4_header \<Rightarrow> ipv4_header" where
  "SetMoreFragments h = h\<lparr>ip_flags := ip_flags h OR 2\<rparr>"

definition SetLastFragment :: "ipv4_header \<Rightarrow> ipv4_header" where
  "SetLastFragment h = h\<lparr>ip_flags := ip_flags h AND NOT 2\<rparr>"

definition IsLastFragment :: "ipv4_header \<Rightarrow> bool" where
  "IsLastFragment h \<longleftrightarrow> ip_flags h AND 2 = 0"

definition SetDontFragment :: "ipv4_header \<Rightarrow> ipv4_header" where
  "SetDontFragment h = h\<lparr>ip_flags := ip_flags h OR 1\<rparr>"

definition SetMayFragment :: "ipv4_header \<Rightarrow> ipv4_header" where
  "SetMayFragment h = h\<lparr>ip_flags := ip_flags h AND NOT 1\<rparr>"

definition IsDontFragment :: "ipv4_header \<Rightarrow> bool" where
  "IsDontFragment h \<longleftrightarrow> ip_flags h AND 1 \<noteq> 0"

definition SetFragmentOffset :: "u16 \<Rightarrow> ipv4_header \<Rightarrow> ipv4_header option" where
  "SetFragmentOffset offsetBytes h =
     do { ns_assert (offsetBytes AND 7 = 0); Some (h\<lparr>ip_fragmentOffset := offsetBytes\<rparr>) }"

subsection \<open>The Internet checksum\<close>

text \<open>\<open>ReadU16\<close> and \<open>WriteU16\<close> put the low byte first.\<close>

definition WriteU16 :: "u16 \<Rightarrow> bytes" where
  "WriteU16 d = [ucast (d AND 0xff), ucast (drop_bit 8 d AND 0xff)]"

definition ReadU16 :: "bytes \<Rightarrow> (u16 \<times> bytes) option" where
  "ReadU16 s = do { (b0, s) \<leftarrow> ReadU8 s; (b1, s) \<leftarrow> ReadU8 s; Some (shift_in (ucast b1) b0, s) }"

fun sum_words :: "nat \<Rightarrow> u32 \<Rightarrow> bytes \<Rightarrow> (u32 \<times> bytes) option" where
  "sum_words 0 acc s = Some (acc, s)"
| "sum_words (Suc n) acc s = do { (w, s) \<leftarrow> ReadU16 s; sum_words n (acc + ucast w) s }"

function fold_carry :: "u32 \<Rightarrow> u32" where
  "fold_carry acc = (if drop_bit 16 acc \<noteq> 0 then fold_carry ((acc AND 0xffff) + drop_bit 16 acc) else acc)"
  by auto

definition CalculateIpChecksum :: "nat \<Rightarrow> u32 \<Rightarrow> bytes \<Rightarrow> u16 option" where
  "CalculateIpChecksum sz initial s = do {
     (acc, s) \<leftarrow> sum_words (sz div 2) initial s;
     acc \<leftarrow> (if odd sz then do { (b, _) \<leftarrow> ReadU8 s; Some (acc + ucast b) } else Some acc);
     Some (ucast (NOT (fold_carry acc)))
   }"

lemma low_16: "unat (acc AND 0xffff) = unat acc mod 65536" for acc :: u32
proof -
  have "acc AND 0xffff = take_bit 16 acc" by (simp only: take_bit_eq_mask) (simp add: mask_eq_exp_minus_1)
  then show ?thesis by (simp only: unsigned_take_bit_eq) (simp add: take_bit_eq_mod)
qed

lemma high_16: "unat (drop_bit 16 acc) = unat acc div 65536" for acc :: u32
proof -
  have "take_bit 32 (unat acc) = unat acc" using unsigned_less[of acc] by (intro take_bit_nat_eq_self) simp
  then show ?thesis by (simp only: unsigned_drop_bit_eq) (simp add: drop_bit_eq_div)
qed

lemma carry_split: "unat ((acc AND 0xffff) + drop_bit 16 acc) = unat acc mod 65536 + unat acc div 65536" for acc :: u32
proof -
  have "unat acc < 4294967296" using unsigned_less[of acc] by simp
  then have "unat acc mod 65536 + unat acc div 65536 < 4294967296" by linarith
  then show ?thesis by (simp only: unat_word_ariths low_16 high_16) simp
qed

lemma drop_16: "drop_bit 16 acc = 0 \<longleftrightarrow> unat acc < 65536" for acc :: u32
proof -
  have "drop_bit 16 acc = 0 \<longleftrightarrow> unat (drop_bit 16 acc) = 0" by (simp only: unat_eq_0)
  then show ?thesis unfolding high_16 by (simp add: div_eq_0_iff)
qed

termination fold_carry
proof (relation "measure unat")
  fix acc :: u32 assume "drop_bit 16 acc \<noteq> 0"
  then have "65536 \<le> unat acc" by (simp add: drop_16)
  then have "unat acc mod 65536 + unat acc div 65536 < unat acc"
    using div_mult_mod_eq[of "unat acc" 65536] div_greater_zero_iff[of "unat acc" 65536] by linarith
  then show "((acc AND 0xffff) + drop_bit 16 acc, acc) \<in> measure unat" by (simp add: carry_split)
qed simp

declare fold_carry.simps [simp del]

subsection \<open>Serialization\<close>

definition flags_byte :: "ipv4_header \<Rightarrow> u8" where
  "flags_byte h =
     (ucast (drop_bit 8 (drop_bit 3 (ip_fragmentOffset h))) AND 0x1f)
       OR (if IsDontFragment h then 0x40 else 0) OR (if \<not> IsLastFragment h then 0x20 else 0)"

definition header_bytes :: "u16 \<Rightarrow> ipv4_header \<Rightarrow> bytes" where
  "header_bytes checksum h =
     WriteU8 0x45 @ WriteU8 (ip_tos h) @ WriteHtonU16 (ip_payloadSize h + 20) @ WriteHtonU16 (ip_identification h)
       @ WriteU8 (flags_byte h) @ WriteU8 (ucast (drop_bit 3 (ip_fragmentOffset h) AND 0xff))
       @ WriteU8 (ip_ttl h) @ WriteU8 (ip_protocol h) @ WriteU16 checksum
       @ WriteHtonU32 (addr (ip_source h)) @ WriteHtonU32 (addr (ip_destination h))"

text \<open>The checksum field is written as 0, and then overwritten with the checksum of the 20 bytes.\<close>

definition Ipv4Header_Serialize :: "ipv4_header \<Rightarrow> bytes option" where
  "Ipv4Header_Serialize h =
     (if ip_calcChecksum h then map_option (\<lambda>c. header_bytes c h) (CalculateIpChecksum 20 0 (header_bytes 0 h))
      else Some (header_bytes 0 h))"

definition Ipv4Header_Deserialize :: "ipv4_header \<Rightarrow> bytes \<Rightarrow> (u32 \<times> ipv4_header) option" where
  "Ipv4Header_Deserialize h start = do {
     (verIhl, s) \<leftarrow> ReadU8 start;
     let headerSize = (ucast (verIhl AND 0x0f) :: u16) * 4;
     if drop_bit 4 verIhl \<noteq> 4 then Some (0, h)
     else do {
       (tos, s) \<leftarrow> ReadU8 s;
       (sz, s) \<leftarrow> ReadNtohU16 s;
       (ident, s) \<leftarrow> ReadNtohU16 s;
       (flags, s) \<leftarrow> ReadU8 s;
       (low, s) \<leftarrow> ReadU8 s;
       (ttl, s) \<leftarrow> ReadU8 s;
       (protocol, s) \<leftarrow> ReadU8 s;
       (checksum, s) \<leftarrow> ReadU16 s;
       (source, s) \<leftarrow> ReadNtohU32 s;
       (destination, s) \<leftarrow> ReadNtohU32 s;
       good \<leftarrow> (if ip_calcChecksum h then map_option (\<lambda>c. c = 0) (CalculateIpChecksum (unat headerSize) 0 start)
          else Some (ip_goodChecksum h));
       Some (ucast headerSize, h\<lparr>ip_tos := tos, ip_payloadSize := sz - headerSize, ip_identification := ident,
          ip_flags := (if flags AND 0x40 \<noteq> 0 then 1 else 0) OR (if flags AND 0x20 \<noteq> 0 then 2 else 0),
          ip_fragmentOffset := push_bit 3 (shift_in (ucast (flags AND 0x1f)) low),
          ip_ttl := ttl, ip_protocol := protocol, ip_checksum := checksum, ip_source := Ipv4 source,
          ip_destination := Ipv4 destination, ip_goodChecksum := good, ip_headerSize := headerSize\<rparr>)
     }
   }"


subsection \<open>What the checksum computes\<close>

text \<open>The bytes as 16-bit numbers, low byte first, and the one's complement sum: a sum modulo 65535 in which only 0 is 0.\<close>

fun le_words :: "bytes \<Rightarrow> nat list" where
  "le_words (a # b # bs) = (unat a + 256 * unat b) # le_words bs"
| "le_words _ = []"

definition ones_sum :: "nat \<Rightarrow> nat" where
  "ones_sum n = (if n = 0 then 0 else Suc ((n - 1) mod 65535))"

lemma ones_sum_le: "ones_sum n \<le> 65535"
  by (simp add: ones_sum_def Suc_le_eq)

lemma ones_sum_small: "n \<le> 65535 \<Longrightarrow> ones_sum n = n"
  by (simp add: ones_sum_def)

lemma ones_sum_top: "ones_sum n = 65535 \<longleftrightarrow> 0 < n \<and> n mod 65535 = 0"
  by (cases n) (auto simp: ones_sum_def mod_Suc)

lemma ones_sum_mod: "ones_sum n mod 65535 = n mod 65535"
  by (cases n) (auto simp: ones_sum_def mod_Suc_eq)

lemma ones_sum_carry: "ones_sum (n mod 65536 + n div 65536) = ones_sum n"
proof (cases "n = 0")
  case False
  have "n = 65536 * (n div 65536) + n mod 65536" by simp
  then have n: "n = 65535 * (n div 65536) + (n mod 65536 + n div 65536)" by linarith
  with False have pos: "0 < n mod 65536 + n div 65536" by linarith
  from n pos have "n - 1 = 65535 * (n div 65536) + (n mod 65536 + n div 65536 - 1)" by linarith
  then have "(n - 1) mod 65535 = (n mod 65536 + n div 65536 - 1) mod 65535" by (metis mod_mult_self4 add.commute)
  with pos False show ?thesis by (simp add: ones_sum_def)
qed simp

lemma fold_carry_unat: "unat (fold_carry acc) = ones_sum (unat acc)"
proof (induction acc rule: fold_carry.induct)
  case (1 acc)
  show ?case
  proof (cases "drop_bit 16 acc = 0")
    case True
    then show ?thesis by (simp add: fold_carry.simps[of acc] drop_16 ones_sum_small)
  next
    case False
    then show ?thesis using 1 by (simp add: fold_carry.simps[of acc] carry_split ones_sum_carry)
  qed
qed

lemma unat_u8: "unat (b :: u8) < 256"
  using unsigned_less[of b, where ?'a = nat] by (simp del: unsigned_less)

lemma unat_shift_in: "unat (shift_in (ucast (b :: u8)) a :: u16) = unat a + 256 * unat b"
proof -
  have "(push_bit 8 (ucast b) :: u16) AND ucast a = 0"
    by (rule bit_word_eqI) (auto simp: bit_and_iff bit_push_bit_iff bit_ucast_iff dest: bit_imp_le_length)
  then have e: "shift_in (ucast b) a = (push_bit 8 (ucast b) :: u16) + ucast a" by (simp add: shift_in_def disjunctive_add_eq_or)
  have b: "unat b < 256" "unat a < 256" by (simp_all add: unat_u8)
  then have p: "unat (push_bit 8 (ucast b) :: u16) = 256 * unat b"
    by (simp only: unsigned_push_bit_eq) (simp add: push_bit_eq_mult unsigned_ucast_eq take_bit_nat_eq_self)
  have "unat (ucast a :: u16) = unat a" using b by (simp add: unsigned_ucast_eq take_bit_nat_eq_self)
  with e p b show ?thesis by (simp add: unat_word_ariths)
qed

lemma le_words_sum: "sum_list (le_words bs) \<le> 65535 * length bs"
proof (induction bs rule: le_words.induct)
  case (1 a b bs)
  show ?case using 1 unat_u8[of a] unat_u8[of b] by simp
qed simp_all

lemma sum_words_eq:
  "length bs = 2 * n \<Longrightarrow> unat acc + sum_list (le_words bs) < 4294967296 \<Longrightarrow>
    \<exists>acc'. sum_words n acc (bs @ s) = Some (acc', s) \<and> unat acc' = unat acc + sum_list (le_words bs)"
proof (induction n arbitrary: acc bs)
  case (Suc n)
  then obtain a b bs' where bs: "bs = a # b # bs'" "length bs' = 2 * n"
    by (cases bs rule: le_words.cases) auto
  let ?w = "shift_in (ucast b) a :: u16"
  have "unat ?w < 65536" using unsigned_less[of ?w] by simp
  then have w: "unat (ucast ?w :: u32) = unat a + 256 * unat b"
    by (simp add: unsigned_ucast_eq unat_shift_in take_bit_nat_eq_self)
  have u: "unat (acc + ucast ?w) = unat acc + (unat a + 256 * unat b)"
    using Suc.prems w by (simp add: bs unat_word_ariths)
  from Suc.IH[OF bs(2), of "acc + ucast ?w"] Suc.prems u show ?case
    by (auto simp: bs ReadU16_def)
qed simp

lemma checksum_value:
  assumes "length bs = 2 * n" "n \<le> 32768"
  shows "CalculateIpChecksum (2 * n) 0 (bs @ s) = Some (NOT (of_nat (ones_sum (sum_list (le_words bs)))))"
proof -
  have l: "sum_list (le_words bs) < 4294967296" using le_words_sum[of bs] assms by simp
  from sum_words_eq[OF assms(1), of 0 s] l obtain acc where
    a: "sum_words n 0 (bs @ s) = Some (acc, s)" "unat acc = sum_list (le_words bs)" by auto
  have "fold_carry acc = of_nat (ones_sum (sum_list (le_words bs)))"
    using fold_carry_unat[of acc] a(2) by (metis of_nat_unat ucast_id)
  moreover have "ucast (NOT (of_nat k :: u32)) = (NOT (of_nat k) :: u16)" for k
    by (rule bit_word_eqI) (auto simp: bit_ucast_iff bit_not_iff bit_of_nat_iff)
  ultimately show ?thesis using a by (simp add: CalculateIpChecksum_def)
qed

subsection \<open>Reading back what was written\<close>

lemma ReadU16_Write [simp]: "ReadU16 (WriteU16 d @ s) = Some (d, s)"
  using ReadNtohU16_Write[of d s] by (simp add: ReadU16_def WriteU16_def ReadNtohU16_def WriteHtonU16_def)

lemma length_WriteU16 [simp]: "length (WriteU16 d) = 2"
  by (simp add: WriteU16_def)

lemma test_bit: "n < LENGTH('a) \<Longrightarrow> x AND 2 ^ n = 0 \<longleftrightarrow> \<not> bit (x :: 'a::len word) n"
  by (auto simp: and_exp_eq_0_iff_not_bit)

lemma flag_tests: "x AND 1 = 0 \<longleftrightarrow> \<not> bit x 0" "x AND 2 = 0 \<longleftrightarrow> \<not> bit x 1" "x AND 4 = 0 \<longleftrightarrow> \<not> bit x 2" for x :: "3 word"
  using test_bit[of 0 x] test_bit[of 1 x] test_bit[of 2 x] by simp_all

lemma byte_tests: "x AND 0x40 = 0 \<longleftrightarrow> \<not> bit x 6" "x AND 0x20 = 0 \<longleftrightarrow> \<not> bit x 5" for x :: u8
  using test_bit[of 6 x] test_bit[of 5 x] by simp_all

lemma byte_bits: "bit (0x40 :: int) n \<longleftrightarrow> n = 6" "bit (0x20 :: int) n \<longleftrightarrow> n = 5" "bit (0x1f :: int) n \<longleftrightarrow> n < 5"
  using bit_exp_iff[of 6 n, where ?'a = int] bit_exp_iff[of 5 n, where ?'a = int] bit_mask_iff[of 5 n, where ?'a = int]
  by (auto simp: mask_eq_exp_minus_1 dest: sym)

lemma flag_bits:
  "flags_byte h AND 0x40 \<noteq> 0 \<longleftrightarrow> IsDontFragment h"
  "flags_byte h AND 0x20 \<noteq> 0 \<longleftrightarrow> \<not> IsLastFragment h"
  "flags_byte h AND 0x1f = ucast (drop_bit 11 (ip_fragmentOffset h))"
proof -
  show "flags_byte h AND 0x40 \<noteq> 0 \<longleftrightarrow> IsDontFragment h" "flags_byte h AND 0x20 \<noteq> 0 \<longleftrightarrow> \<not> IsLastFragment h"
    unfolding byte_tests by (simp_all add: flags_byte_def bit_or_iff bit_and_iff byte_bits)
  show "flags_byte h AND 0x1f = ucast (drop_bit 11 (ip_fragmentOffset h))"
    by (rule bit_word_eqI) (auto simp: flags_byte_def bit_or_iff bit_and_iff byte_bits bit_ucast_iff bit_drop_bit_eq
      dest: bit_imp_le_length)
qed

lemma flags_back:
  assumes "ip_flags h AND 4 = 0"
  shows "(if IsDontFragment h then 1 else 0) OR (if \<not> IsLastFragment h then 2 else 0) = ip_flags h"
proof (rule bit_word_eqI)
  fix n assume "n < LENGTH(3)"
  then consider "n = 0" | "n = 1" | "n = 2" by (auto simp: less_Suc_eq numeral_3_eq_3)
  then show "bit ((if IsDontFragment h then 1 else 0) OR (if \<not> IsLastFragment h then 2 else 0) :: 3 word) n = bit (ip_flags h) n"
    using assms unfolding IsDontFragment_def IsLastFragment_def flag_tests
    by cases (auto simp: bit_or_iff bit_2_iff bit_1_iff simp del: bit_0)
qed

lemma offset_back:
  assumes "off AND 7 = 0"
  shows "push_bit 3 (shift_in (ucast (ucast (drop_bit 11 off) :: u8)) (ucast (drop_bit 3 off AND 0xff))) = (off :: u16)"
proof (rule bit_word_eqI)
  fix n assume n: "n < LENGTH(16)"
  have "off AND 7 = take_bit 3 off" by (simp only: take_bit_eq_mask) (simp add: mask_eq_exp_minus_1)
  with assms have "bit (take_bit 3 off) i = False" for i by simp
  then have z: "\<not> bit off i" if "i < 3" for i using that by (simp only: bit_take_bit_iff) simp
  show "bit (push_bit 3 (shift_in (ucast (ucast (drop_bit 11 off) :: u8)) (ucast (drop_bit 3 off AND 0xff))) :: u16) n = bit off n"
    using n z[of n] by (cases "n < 3")
      (auto simp: bit_push_bit_iff bit_shift_in bit_ucast_iff bit_drop_bit_eq and_ff bit_take_bit_iff dest: bit_imp_le_length)
qed

text \<open>The fields a well-formed header has: an aligned offset, two flags, and no options.\<close>

definition header_ok :: "ipv4_header \<Rightarrow> bool" where
  "header_ok h \<longleftrightarrow> ip_fragmentOffset h AND 7 = 0 \<and> ip_flags h AND 4 = 0 \<and> ip_headerSize h = 20"

lemma length_header_bytes [simp]: "length (header_bytes c h) = 20"
  by (simp add: header_bytes_def)

lemma Deserialize_header_bytes:
  assumes "header_ok h" and "good = (if ip_calcChecksum h0 then CalculateIpChecksum 20 0 (header_bytes c h @ s) = Some 0 else ip_goodChecksum h0)"
  shows "Ipv4Header_Deserialize h0 (header_bytes c h @ s) =
    Some (20, h\<lparr>ip_calcChecksum := ip_calcChecksum h0, ip_checksum := c, ip_goodChecksum := good\<rparr>)"
proof -
  have v: "CalculateIpChecksum 20 0 (header_bytes c h @ s) \<noteq> None"
    using checksum_value[of "header_bytes c h" 10 s] by simp
  show ?thesis
    using assms(1) v unfolding assms(2)
    by (auto simp: Ipv4Header_Deserialize_def header_bytes_def header_ok_def flag_bits flags_back offset_back
      intro!: ipv4_header.equality)
qed

subsection \<open>The checksum of a header\<close>

lemma le_words_append: "even (length xs) \<Longrightarrow> le_words (xs @ ys) = le_words xs @ le_words ys"
  by (induction xs rule: le_words.induct) auto

lemma le_words_WriteU16: "le_words (WriteU16 d) = [unat d]"
proof -
  have "Some (shift_in (ucast (ucast (drop_bit 8 d AND 0xff) :: u8)) (ucast (d AND 0xff)) :: u16, []) = Some (d, [] :: bytes)"
    using ReadU16_Write[of d "[]"] by (simp add: ReadU16_def WriteU16_def)
  then show ?thesis using unat_shift_in[of "ucast (drop_bit 8 d AND 0xff)" "ucast (d AND 0xff)"]
    by (simp add: WriteU16_def del: unat_shift_in)
qed

lemma unat_not: "unat (NOT w) = 65535 - unat w" for w :: u16
proof -
  have "NOT w = - 1 - w" by (simp add: not_eq_complement)
  moreover have "unat (- 1 :: u16) = 65535" by (simp add: unsigned_minus_1_eq_mask mask_eq_exp_minus_1)
  ultimately show ?thesis using unat_minus_le[of w "- 1"] by simp
qed

lemma checksum_good:
  assumes "length bs = 2 * n" "n \<le> 32768"
  shows "CalculateIpChecksum (2 * n) 0 (bs @ s) = Some 0 \<longleftrightarrow>
    0 < sum_list (le_words bs) \<and> sum_list (le_words bs) mod 65535 = 0"
proof -
  let ?k = "ones_sum (sum_list (le_words bs))"
  have k: "unat (of_nat ?k :: u16) = ?k" using ones_sum_le[of "sum_list (le_words bs)"] by (simp add: unat_of_nat)
  have "NOT (of_nat ?k :: u16) = 0 \<longleftrightarrow> (of_nat ?k :: u16) = - 1"
    by (metis bit.double_compl bit.compl_zero)
  also have "\<dots> \<longleftrightarrow> ?k = 65535" using k by (auto simp: word_unat_eq_iff unsigned_minus_1_eq_mask mask_eq_exp_minus_1)
  finally show ?thesis using checksum_value[OF assms, of s] by (simp add: ones_sum_top)
qed

lemma header_sum:
  "sum_list (le_words (header_bytes c h)) = unat c + sum_list (le_words (header_bytes 0 h))"
  "0 < sum_list (le_words (header_bytes c h))"
  by (simp_all add: header_bytes_def le_words_append le_words_WriteU16 WriteU8_def WriteHtonU16_def WriteHtonU32_def)

lemma Serialize_checksum:
  assumes "ip_calcChecksum h"
  obtains c where "Ipv4Header_Serialize h = Some (header_bytes c h)"
    "\<And>s. CalculateIpChecksum 20 0 (header_bytes c h @ s) = Some 0"
proof -
  let ?S = "sum_list (le_words (header_bytes 0 h))"
  let ?c = "NOT (of_nat (ones_sum ?S)) :: u16"
  have c: "unat ?c = 65535 - ones_sum ?S"
    using ones_sum_le[of ?S] by (simp add: unat_not unat_of_nat)
  have "(?S + (65535 - ones_sum ?S)) mod 65535 = 0"
    using ones_sum_mod[of ?S] ones_sum_le[of ?S] by (metis le_add_diff_inverse mod_add_left_eq mod_self)
  then have "CalculateIpChecksum 20 0 (header_bytes ?c h @ s) = Some 0" for s
    using checksum_good[of "header_bytes ?c h" 10 s] header_sum[of ?c h] c by (simp add: add.commute)
  moreover have "Ipv4Header_Serialize h = Some (header_bytes ?c h)"
    using assms checksum_value[of "header_bytes 0 h" 10 "[]"] by (simp add: Ipv4Header_Serialize_def)
  ultimately show thesis by (rule that[rotated])
qed

lemma header_read_back:
  assumes "header_ok h" "ip_calcChecksum h0 \<longrightarrow> ip_calcChecksum h"
  shows "\<exists>bs c. Ipv4Header_Serialize h = Some bs \<and> length bs = 20 \<and>
    Ipv4Header_Deserialize h0 (bs @ s) = Some (20, h\<lparr>ip_calcChecksum := ip_calcChecksum h0, ip_checksum := c,
      ip_goodChecksum := ip_calcChecksum h0 \<or> ip_goodChecksum h0\<rparr>)"
proof (cases "ip_calcChecksum h")
  case True
  obtain c where "Ipv4Header_Serialize h = Some (header_bytes c h)"
    "\<And>s. CalculateIpChecksum 20 0 (header_bytes c h @ s) = Some 0" using Serialize_checksum[OF True] by metis
  with Deserialize_header_bytes[OF assms(1) refl, of h0 c s] show ?thesis by auto
next
  case False
  with Deserialize_header_bytes[OF assms(1) refl, of h0 0 s] assms(2) show ?thesis
    by (auto simp: Ipv4Header_Serialize_def)
qed

subsection \<open>Properties\<close>

text \<open>
  C23. An IPv4 header is read back as it was written. The 20 bytes of a well-formed header, followed by any
  bytes, are read as the header itself with the checksum on the wire, and when both sides compute
  checksums the checksum is accepted.
\<close>

theorem header_roundtrip:
  assumes "header_ok h" "ip_calcChecksum h0 \<longrightarrow> ip_calcChecksum h"
  shows "\<exists>bs c. Ipv4Header_Serialize h = Some bs \<and> length bs = 20 \<and>
    Ipv4Header_Deserialize h0 (bs @ s) = Some (20, h\<lparr>ip_calcChecksum := ip_calcChecksum h0, ip_checksum := c,
      ip_goodChecksum := ip_calcChecksum h0 \<or> ip_goodChecksum h0\<rparr>)"
  by (rule header_read_back[OF assms])

definition sample_header :: ipv4_header where
  "sample_header = Ipv4Header\<lparr>ip_calcChecksum := True, ip_payloadSize := 1480, ip_identification := 7, ip_ttl := 64,
     ip_protocol := 17, ip_flags := 2, ip_fragmentOffset := 1480, ip_source := Ipv4 0x0A000001, ip_destination := Ipv4 0x0A000002\<rparr>"

lemma sample_header_ok: "header_ok sample_header"
  by (simp add: header_ok_def sample_header_def Ipv4Header_def)

theorem header_roundtrip_witness:
  "\<exists>bs c. Ipv4Header_Serialize sample_header = Some bs \<and> length bs = 20 \<and>
    Ipv4Header_Deserialize (EnableChecksum Ipv4Header) (bs @ [1, 2, 3]) =
      Some (20, sample_header\<lparr>ip_checksum := c, ip_goodChecksum := True\<rparr>)"
  using header_roundtrip[OF sample_header_ok, of "EnableChecksum Ipv4Header" "[1, 2, 3]"]
  by (simp add: EnableChecksum_def sample_header_def Ipv4Header_def)

lemma Deserialize_20:
  assumes "length bs = 20" "bs ! 0 = 0x45" "ip_calcChecksum h0"
  shows "\<exists>h'. Ipv4Header_Deserialize h0 (bs @ s) = Some (20, h') \<and>
    (ip_goodChecksum h' \<longleftrightarrow> CalculateIpChecksum 20 0 (bs @ s) = Some 0)"
proof -
  have take: "\<exists>b ys. xs = b # ys \<and> length ys = n" if "length xs = Suc n" for xs :: bytes and n
    using that by (simp add: length_Suc_conv)
  from assms(1) obtain b0 b1 b2 b3 b4 b5 b6 b7 b8 b9 bs' where 1: "bs = b0 # b1 # b2 # b3 # b4 # b5 # b6 # b7 # b8 # b9 # bs'" "length bs' = 10"
    by (auto simp: length_Suc_conv eval_nat_numeral)
  from 1(2) obtain c0 c1 c2 c3 c4 c5 c6 c7 c8 c9 where 2: "bs' = [c0, c1, c2, c3, c4, c5, c6, c7, c8, c9]"
    by (auto simp: length_Suc_conv eval_nat_numeral)
  have "CalculateIpChecksum 20 0 (bs @ s) \<noteq> None" using checksum_value[of bs 10 s] assms(1) by simp
  then show ?thesis
    using assms(2,3) unfolding 1 2 by (auto simp: Ipv4Header_Deserialize_def ReadNtohU16_def ReadNtohU32_def ReadU16_def)
qed

lemma sum_update_word:
  assumes "2 * i + 1 < length bs"
  shows "sum_list (le_words (bs[2 * i := x, 2 * i + 1 := y])) + (unat (bs ! (2 * i)) + 256 * unat (bs ! (2 * i + 1))) =
    sum_list (le_words bs) + (unat x + 256 * unat y)"
  using assms
proof (induction bs arbitrary: i rule: le_words.induct)
  case (1 a b bs)
  then show ?case
  proof (cases i)
    case (Suc j)
    then show ?thesis using 1(1)[of j] 1(2) by simp
  qed simp
qed simp_all

definition pair :: "u8 \<Rightarrow> u8 \<Rightarrow> nat" where
  "pair a b = unat a + 256 * unat b"

lemma pair_eq: "pair a b = pair x y \<longleftrightarrow> a = x \<and> b = y"
proof
  assume e: "pair a b = pair x y"
  have "pair a b mod 256 = unat a" "pair x y mod 256 = unat x" "pair a b div 256 = unat b" "pair x y div 256 = unat y"
    using unat_u8[of a] unat_u8[of b] unat_u8[of x] unat_u8[of y] by (simp_all add: pair_def)
  with e show "a = x \<and> b = y" by (simp add: word_unat_eq_iff)
qed simp

lemma pair_ends: "pair 0 0 = 0" "pair 0xff 0xff = 65535" "pair a b \<le> 65535"
  using unat_u8[of a] unat_u8[of b] by (simp_all add: pair_def)

lemma pair_mod:
  assumes "pair a b mod 65535 = pair x y mod 65535"
  shows "[a, b] = [x, y] \<or> {[a, b], [x, y]} = {[0, 0], [0xff, 0xff]}"
proof -
  have m: "n mod 65535 = (if n = 65535 then 0 else n)" if "n \<le> 65535" for n :: nat using that by simp
  have "pair a b = pair x y \<or> pair a b = pair 0 0 \<and> pair x y = pair 0xff 0xff \<or> pair a b = pair 0xff 0xff \<and> pair x y = pair 0 0"
    using assms m[OF pair_ends(3), of a b] m[OF pair_ends(3), of x y] unfolding pair_ends(1,2) by (auto split: if_splits)
  then show ?thesis unfolding pair_eq by auto
qed

text \<open>
  C24. A corrupted header is recognised, except where its first byte is. In a header written with a checksum,
  let one of the ten 16-bit words be replaced by another one that keeps the first byte (the version and the
  length): the checksum is refused, unless one of the two words is 0 and the other 65535, which are the
  same number in one's complement. But when the version is changed, \<open>Deserialize\<close> gives up before it
  computes a checksum: it takes nothing from the packet and leaves the header as it was constructed, with its
  checksum marked as good, so that the test of \<open>Receive\<close> does not see the corruption.
\<close>

theorem header_corruption_detected:
  assumes "ip_calcChecksum h" "Ipv4Header_Serialize h = Some bs" "ip_calcChecksum h0" "i < 10"
  shows "((i = 0 \<longrightarrow> x = bs ! 0) \<longrightarrow> [bs ! (2 * i), bs ! (2 * i + 1)] \<noteq> [x, y] \<longrightarrow>
      {[bs ! (2 * i), bs ! (2 * i + 1)], [x, y]} \<noteq> {[0, 0], [0xff, 0xff]} \<longrightarrow>
      (\<exists>h'. Ipv4Header_Deserialize h0 (bs[2 * i := x, 2 * i + 1 := y] @ s) = Some (20, h') \<and> \<not> ip_goodChecksum h')) \<and>
    (i = 0 \<longrightarrow> drop_bit 4 x \<noteq> 4 \<longrightarrow> Ipv4Header_Deserialize h0 (bs[2 * i := x, 2 * i + 1 := y] @ s) = Some (0, h0))"
proof (intro conjI impI)
  obtain c where c: "bs = header_bytes c h" "CalculateIpChecksum 20 0 (header_bytes c h @ []) = Some 0"
    using Serialize_checksum[OF assms(1)] assms(2) by (metis option.inject)
  let ?bs = "bs[2 * i := x, 2 * i + 1 := y]" and ?a = "bs ! (2 * i)" and ?b = "bs ! (2 * i + 1)"
  have l: "length bs = 20" "bs ! 0 = 0x45" by (simp_all add: c(1), simp add: header_bytes_def WriteU8_def)
  {
    assume first: "i = 0 \<longrightarrow> x = bs ! 0" and ne: "[?a, ?b] \<noteq> [x, y]" "{[?a, ?b], [x, y]} \<noteq> {[0, 0], [0xff, 0xff]}"
    have "?bs ! 0 = 0x45" using l first by (cases "i = 0") simp_all
    then obtain h' where h': "Ipv4Header_Deserialize h0 (?bs @ s) = Some (20, h')"
      "ip_goodChecksum h' \<longleftrightarrow> CalculateIpChecksum 20 0 (?bs @ s) = Some 0"
      using Deserialize_20[of ?bs h0 s] l assms(3) by auto
    have S: "sum_list (le_words bs) mod 65535 = 0" using checksum_good[of bs 10 "[]"] c l by simp
    have sum: "sum_list (le_words ?bs) + (unat ?a + 256 * unat ?b) = sum_list (le_words bs) + (unat x + 256 * unat y)"
      using l assms(4) by (intro sum_update_word) simp
    have "sum_list (le_words ?bs) mod 65535 \<noteq> 0"
    proof
      assume "sum_list (le_words ?bs) mod 65535 = 0"
      with sum S have "pair ?a ?b mod 65535 = pair x y mod 65535"
        unfolding pair_def by (metis add.left_neutral mod_add_left_eq)
      from pair_mod[OF this] ne show False by (auto simp: insert_commute)
    qed
    then have "\<not> ip_goodChecksum h'" using h'(2) checksum_good[of ?bs 10 s] l by simp
    with h'(1) show "\<exists>h'. Ipv4Header_Deserialize h0 (?bs @ s) = Some (20, h') \<and> \<not> ip_goodChecksum h'" by blast
  }
  assume "i = 0" "drop_bit 4 x \<noteq> 4"
  moreover obtain b0 b1 bs' where "bs = b0 # b1 # bs'" using l(1) by (auto simp: length_Suc_conv eval_nat_numeral)
  ultimately show "Ipv4Header_Deserialize h0 (?bs @ s) = Some (0, h0)"
    by (simp add: Ipv4Header_Deserialize_def)
qed

definition sample_bytes :: bytes where
  "sample_bytes = the (Ipv4Header_Serialize sample_header)"

theorem header_corruption_detected_witness:
  "(\<exists>h'. Ipv4Header_Deserialize (EnableChecksum Ipv4Header) (sample_bytes[16 := 1, 17 := 1] @ []) = Some (20, h')
    \<and> \<not> ip_goodChecksum h') \<and>
  (let h0 = EnableChecksum Ipv4Header in
    Ipv4Header_Deserialize h0 (sample_bytes[0 := 0x65, 1 := 0] @ []) = Some (0, h0) \<and> ip_goodChecksum h0)"
proof -
  obtain c where c: "Ipv4Header_Serialize sample_header = Some (header_bytes c sample_header)"
    by (rule Serialize_checksum[of sample_header]) (simp_all add: sample_header_def)
  then have "sample_bytes ! 16 = 10" "sample_bytes ! 17 = 0"
    by (simp_all add: sample_bytes_def header_bytes_def WriteU8_def WriteHtonU16_def WriteU16_def WriteHtonU32_def sample_header_def)
  with c have "\<exists>h'. Ipv4Header_Deserialize (EnableChecksum Ipv4Header) (sample_bytes[16 := 1, 17 := 1] @ []) = Some (20, h')
    \<and> \<not> ip_goodChecksum h'"
    using header_corruption_detected[of sample_header sample_bytes "EnableChecksum Ipv4Header" 8 1 1 "[]"]
    by (simp add: sample_bytes_def EnableChecksum_def, simp add: sample_header_def doubleton_eq_iff)
  moreover have "drop_bit 4 (0x65 :: u8) \<noteq> 4" by simp
  ultimately show ?thesis
    using header_corruption_detected[of sample_header sample_bytes "EnableChecksum Ipv4Header" 0 "0x65" 0 "[]"] c
    by (simp add: sample_bytes_def EnableChecksum_def Ipv4Header_def Let_def) (simp add: sample_header_def)
qed

end
