(* ===== verification/Ipv4_Interface.thy ===== *)
theory Ipv4_Interface
  imports Ipv4_Header
begin

text \<open>
  \<open>Ipv4InterfaceAddress\<close> and \<open>Ipv4Interface\<close> (\<open>src/internet/model/ipv4-interface-address.cc\<close>,
  \<open>ipv4-interface.cc\<close>): the addresses of an interface, its state, the record it keeps of the packets it
  sends, and \<open>Send\<close>. A net device is what the interface asks of it; devices, ARP caches and hardware
  addresses are numbers, 0 a null pointer. The result of \<open>ArpL3Protocol::Lookup\<close> is a parameter.
  \<open>None\<close> is a failed assertion or a fatal error.
\<close>

subsection \<open>Interface addresses\<close>

datatype iface_scope = HOST | LINK | GLOBAL

record iface_addr =
  ia_local :: ipv4
  ia_mask :: ipv4_mask
  ia_broadcast :: ipv4
  ia_scope :: iface_scope
  ia_secondary :: bool

definition Ipv4InterfaceAddress :: "ipv4 \<Rightarrow> ipv4_mask \<Rightarrow> iface_addr" where
  "Ipv4InterfaceAddress a m =
     \<lparr>ia_local = a, ia_mask = m, ia_broadcast = Ipv4 (addr a OR NOT (mask_bits m)),
      ia_scope = (if ipv4_eq a GetLoopback then HOST else GLOBAL), ia_secondary = False\<rparr>"

definition unset_address :: ipv4 where "unset_address = Ipv4 0x66666666"

definition unset_iface :: iface_addr where
  "unset_iface = \<lparr>ia_local = unset_address, ia_mask = Mask 0x66666666, ia_broadcast = unset_address,
     ia_scope = GLOBAL, ia_secondary = False\<rparr>"

definition IsInSameSubnet :: "iface_addr \<Rightarrow> ipv4 \<Rightarrow> bool" where
  "IsInSameSubnet a b \<longleftrightarrow> ipv4_eq (CombineMask (ia_local a) (ia_mask a)) (CombineMask b (ia_mask a))"

subsection \<open>Interfaces\<close>

record net_device =
  nd_id :: nat
  nd_loopback :: bool
  nd_needsArp :: bool
  nd_multicast :: bool
  nd_mtu :: u16

record ipv4_interface =
  if_up :: bool
  if_forwarding :: bool
  if_metric :: u16
  if_addrs :: "iface_addr list"
  if_device :: net_device
  if_tc :: bool
  if_cache :: nat
  if_draining :: bool
  if_src_record :: "(ipv4 \<times> ipv4) list"
  if_src_repetitive :: "(ipv4 \<times> ipv4) list"
  if_src_count :: u32

definition Ipv4Interface :: "net_device \<Rightarrow> nat \<Rightarrow> ipv4_interface" where
  "Ipv4Interface device cache =
     \<lparr>if_up = False, if_forwarding = True, if_metric = 1, if_addrs = [], if_device = device, if_tc = False,
      if_cache = (if nd_needsArp device then cache else 0), if_draining = False, if_src_record = [], if_src_repetitive = [],
      if_src_count = 0\<rparr>"

definition Interface_AddAddress :: "iface_addr \<Rightarrow> ipv4_interface \<Rightarrow> ipv4_interface" where
  "Interface_AddAddress a i = i\<lparr>if_addrs := if_addrs i @ [a]\<rparr>"

definition Interface_GetAddress :: "ipv4_interface \<Rightarrow> nat \<Rightarrow> iface_addr option" where
  "Interface_GetAddress i index = (if index < length (if_addrs i) then Some (if_addrs i ! index) else None)"

definition Interface_RemoveAddress_at :: "nat \<Rightarrow> ipv4_interface \<Rightarrow> (iface_addr \<times> ipv4_interface) option" where
  "Interface_RemoveAddress_at index i =
     (if index < length (if_addrs i)
      then Some (if_addrs i ! index, i\<lparr>if_addrs := take index (if_addrs i) @ drop (Suc index) (if_addrs i)\<rparr>) else None)"

definition Interface_RemoveAddress :: "ipv4 \<Rightarrow> ipv4_interface \<Rightarrow> iface_addr \<times> ipv4_interface" where
  "Interface_RemoveAddress a i =
     (if ipv4_eq a GetLoopback then (unset_iface, i)
      else case erase_first (\<lambda>x. ipv4_eq (ia_local x) a) (if_addrs i) of
        Some (x, xs) \<Rightarrow> (x, i\<lparr>if_addrs := xs\<rparr>)
      | None \<Rightarrow> (unset_iface, i))"

text \<open>
  \<open>record_packet\<close> keeps the pairs of addresses it has seen, and a list of at most 1000 pairs. The write to
  that list is an access out of range when the list is shorter than the index.
\<close>

definition record_packet :: "ipv4_header \<Rightarrow> ipv4_interface \<Rightarrow> ipv4_interface option" where
  "record_packet h i = do {
     let x = (ip_source h, ip_destination h);
     let cnt = if_src_count i + 1;
     let rep = (if length (if_src_repetitive i) < 1000 then if_src_repetitive i @ [x] else if_src_repetitive i);
     (cnt, rep) \<leftarrow> (if 1000 \<le> cnt then do {
         let c = cnt mod 1000;
         ns_assert (unat c < length rep);
         Some (c, rep[unat c := x])
       } else Some (cnt, rep));
     let seen = (\<exists>p \<in> set (if_src_record i). ipv4_eq (fst p) (ip_source h) \<and> ipv4_eq (snd p) (ip_destination h));
     Some (i\<lparr>if_src_count := cnt, if_src_repetitive := rep,
       if_src_record := (if seen then if_src_record i else if_src_record i @ [x])\<rparr>)
   }"

datatype hardware_destination = DeviceBroadcast | DeviceMulticast ipv4 | Hardware nat

datatype interface_out =
    ToLoopback ipv4_header bytes
  | ToSelf ipv4_header bytes
  | ToQueueDisc hardware_destination ipv4_header bytes

definition resolve :: "(ipv4 \<Rightarrow> nat option) \<Rightarrow> ipv4 \<Rightarrow> ipv4_interface \<Rightarrow> hardware_destination option option" where
  "resolve arp dest i =
     (if \<not> nd_needsArp (if_device i) then Some (Some DeviceBroadcast)
      else if IsBroadcast dest then Some (Some DeviceBroadcast)
      else if IsMulticast dest then do { ns_assert (nd_multicast (if_device i)); Some (Some (DeviceMulticast dest)) }
      else if \<exists>a \<in> set (if_addrs i). IsSubnetDirectedBroadcast dest (ia_mask a) then Some (Some DeviceBroadcast)
      else Some (map_option Hardware (arp dest)))"

definition Interface_Send :: "(ipv4 \<Rightarrow> nat option) \<Rightarrow> bytes \<Rightarrow> ipv4_header \<Rightarrow> ipv4 \<Rightarrow> ipv4_interface \<Rightarrow>
    (interface_out list \<times> ipv4_interface) option" where
  "Interface_Send arp p hdr dest i0 = do {
     i \<leftarrow> record_packet hdr i0;
     if \<not> if_up i \<and> \<not> if_draining i then Some ([], i)
     else if nd_loopback (if_device i) then Some ([ToLoopback hdr p], i)
     else do {
       ns_assert (if_tc i);
       if \<exists>a \<in> set (if_addrs i). ipv4_eq dest (ia_local a) then Some ([ToSelf hdr p], i)
       else do {
         hw \<leftarrow> resolve arp dest i;
         Some (case hw of Some d \<Rightarrow> [ToQueueDisc d hdr p] | None \<Rightarrow> [], i)
       }
     }
   }"

subsection \<open>The record of the packets sent\<close>

fun record_packets :: "ipv4_header list \<Rightarrow> ipv4_interface \<Rightarrow> ipv4_interface option" where
  "record_packets [] i = Some i"
| "record_packets (h # hs) i = do { i' \<leftarrow> record_packet h i; record_packets hs i' }"

definition addresses :: "ipv4_header \<Rightarrow> ipv4 \<times> ipv4" where
  "addresses h = (ip_source h, ip_destination h)"

text \<open>What the two lists hold after the packets \<open>hs\<close>.\<close>

definition recorded :: "ipv4_header list \<Rightarrow> (ipv4 \<times> ipv4) list" where
  "recorded hs = rev (remdups (rev (map addresses hs)))"

definition kept :: "(ipv4 \<times> ipv4) list \<Rightarrow> (ipv4 \<times> ipv4) list" where
  "kept xs = (if length xs < 1000 then xs else (take 1000 xs)[0 := xs ! (1000 * (length xs div 1000) - 1)])"

definition fresh_record :: "ipv4_interface \<Rightarrow> bool" where
  "fresh_record i \<longleftrightarrow> if_src_record i = [] \<and> if_src_repetitive i = [] \<and> if_src_count i = 0"

lemma record_packets_append: "record_packets (hs @ hs') i = Option.bind (record_packets hs i) (record_packets hs')"
  by (induction hs arbitrary: i) (auto split: bind_splits)

lemma kept_snoc:
  assumes "cnt = (of_nat (length xs mod 1000) :: u32)" "rep = (if length (kept xs) < 1000 then kept xs @ [x] else kept xs)"
  shows "1000 \<le> cnt + 1 \<longleftrightarrow> length xs mod 1000 = 999"
    "length xs mod 1000 = 999 \<Longrightarrow> unat ((cnt + 1) mod 1000) = 0 \<and> (cnt + 1) mod 1000 = of_nat (Suc (length xs) mod 1000)
       \<and> rep \<noteq> [] \<and> rep[0 := x] = kept (xs @ [x])"
    "length xs mod 1000 \<noteq> 999 \<Longrightarrow> cnt + 1 = of_nat (Suc (length xs) mod 1000) \<and> rep = kept (xs @ [x])"
proof -
  let ?n = "length xs"
  have lt: "?n mod 1000 < 1000" by simp
  have c: "cnt + 1 = of_nat (Suc (?n mod 1000))" unfolding assms(1) by simp
  have u: "unat (cnt + 1) = Suc (?n mod 1000)" unfolding c using lt by (subst unat_of_nat) (simp del: of_nat_Suc)
  show iff: "1000 \<le> cnt + 1 \<longleftrightarrow> ?n mod 1000 = 999" using u lt by (auto simp: word_le_nat_alt)
  {
    assume m: "?n mod 1000 = 999"
    then have s: "Suc ?n mod 1000 = 0" "Suc ?n div 1000 = Suc (?n div 1000)" by (simp_all add: mod_Suc div_Suc)
    have n: "Suc ?n = 1000 * Suc (?n div 1000)" using m div_mult_mod_eq[of ?n 1000] by simp
    have "cnt + 1 = 1000" using u m by (simp add: word_unat_eq_iff)
    moreover have "rep[0 := x] = kept (xs @ [x])" "rep \<noteq> []"
    proof -
      show "rep \<noteq> []" using assms(2) by (auto split: if_splits simp: kept_def)
      have last: "(xs @ [x]) ! (1000 * (Suc ?n div 1000) - 1) = x" using n s(2) by (simp add: nth_append)
      show "rep[0 := x] = kept (xs @ [x])"
      proof (cases "?n < 1000")
        case True
        then have "?n = 999" using m by simp
        then show ?thesis using last by (simp add: assms(2) kept_def)
      next
        case False
        then show ?thesis using last by (simp add: assms(2) kept_def)
      qed
    qed
    ultimately show "unat ((cnt + 1) mod 1000) = 0 \<and> (cnt + 1) mod 1000 = of_nat (Suc ?n mod 1000) \<and> rep \<noteq> [] \<and> rep[0 := x] = kept (xs @ [x])"
      using s by simp
  next
    assume m: "?n mod 1000 \<noteq> 999"
    then have s: "Suc ?n mod 1000 = Suc (?n mod 1000)" "Suc ?n div 1000 = ?n div 1000" by (auto simp: mod_Suc div_Suc)
    have "rep = kept (xs @ [x])"
    proof (cases "?n < 1000")
      case True
      then have "?n < 999" using m by auto
      then show ?thesis by (simp add: assms(2) kept_def)
    next
      case False
      then have "1000 * (?n div 1000) - 1 < ?n" using div_mult_mod_eq[of ?n 1000] by linarith
      then show ?thesis using False s(2) by (simp add: assms(2) kept_def nth_append)
    qed
    with c s show "cnt + 1 = of_nat (Suc ?n mod 1000) \<and> rep = kept (xs @ [x])" by simp
  }
qed

lemma pair_in: "(\<exists>p \<in> S. ipv4_eq (fst p) a \<and> ipv4_eq (snd p) b) \<longleftrightarrow> (a, b) \<in> S"
  by force

text \<open>
  C27. What an interface records of the packets it sends. After any sequence of packets, \<open>packet_src_record\<close>
  holds each pair of addresses once, in the order of its first packet. The list of at most 1000 recent
  pairs is no ring: once it is full, only its first place is ever written again, once in a thousand
  packets, and the other 999 keep the pairs of the first packets.
\<close>

theorem record_packets_spec:
  assumes "fresh_record i"
  shows "\<exists>i'. record_packets hs i = Some i' \<and> if_src_record i' = recorded hs \<and> if_src_repetitive i' = kept (map addresses hs) \<and>
    if_src_count i' = of_nat (length hs mod 1000)"
proof (induction hs rule: rev_induct)
  case Nil
  then show ?case using assms by (simp add: fresh_record_def recorded_def kept_def)
next
  case (snoc h hs)
  then obtain i' where i': "record_packets hs i = Some i'" "if_src_record i' = recorded hs" "if_src_repetitive i' = kept (map addresses hs)"
    "if_src_count i' = of_nat (length (map addresses hs) mod 1000)" by auto
  have seen: "(\<exists>p \<in> set (if_src_record i'). ipv4_eq (fst p) (ip_source h) \<and> ipv4_eq (snd p) (ip_destination h)) \<longleftrightarrow>
      addresses h \<in> set (map addresses hs)"
    unfolding pair_in by (simp add: i'(2) recorded_def addresses_def)
  have rec: "recorded (hs @ [h]) = (if addresses h \<in> set (map addresses hs) then recorded hs else recorded hs @ [addresses h])"
    by (simp add: recorded_def)
  note k = kept_snoc(1)[OF i'(4) refl] kept_snoc(2,3)[OF i'(4) refl, of "addresses h"]
  show ?case
  proof (cases "length hs mod 1000 = 999")
    case True
    then show ?thesis using k(1,2) seen rec i'(1-3)
      by (auto simp: record_packets_append record_packet_def addresses_def[symmetric] Let_def)
  next
    case False
    then show ?thesis using k(1,3) seen rec i'(1-3)
      by (auto simp: record_packets_append record_packet_def addresses_def[symmetric] Let_def)
  qed
qed

definition plain_interface :: ipv4_interface where
  "plain_interface = Ipv4Interface \<lparr>nd_id = 1, nd_loopback = False, nd_needsArp = True, nd_multicast = True, nd_mtu = 1500\<rparr> 1"

lemma plain_interface_fresh: "fresh_record plain_interface"
  by (simp add: fresh_record_def plain_interface_def Ipv4Interface_def)

theorem record_packets_spec_witness:
  "\<exists>i'. record_packets [Ipv4Header, Ipv4Header] plain_interface = Some i' \<and> if_src_record i' = [addresses Ipv4Header] \<and>
    if_src_repetitive i' = [addresses Ipv4Header, addresses Ipv4Header]"
  using record_packets_spec[OF plain_interface_fresh, of "[Ipv4Header, Ipv4Header]"] by (auto simp: recorded_def kept_def)

text \<open>
  A packet that is recorded is sent on only by an interface that is up or draining; \<open>Send\<close> keeps
  everything but the record.
\<close>

lemma Interface_Send_down:
  assumes "Interface_Send arp p hdr dest i = Some (os, i')" "\<not> if_up i" "\<not> if_draining i"
  shows "os = []"
proof -
  from assms(1) obtain j where j: "record_packet hdr i = Some j" by (auto simp: Interface_Send_def bind_eq_Some_conv)
  then have "if_up j = if_up i" "if_draining j = if_draining i"
    by (auto simp: record_packet_def Let_def bind_eq_Some_conv split: if_splits prod.splits)
  with assms j show ?thesis by (simp add: Interface_Send_def)
qed

end
