(* ===== verification/Aodv_Rtable.thy ===== *)
theory Aodv_Rtable
  imports Ipv4_Interface
begin

text \<open>
  The AODV routing table (\<open>src/aodv/model/aodv-rtable.cc\<close>): entries with their precursor lists,
  and the table as an ordered map from destinations. \<open>now\<close> is \<open>Simulator::Now ()\<close>; times are
  integers (steps), so executions in which the sum of two \<open>Time\<close> values leaves the 64-bit range
  are outside the model. The route object an entry points to is modelled by its destination,
  gateway, source and device; copies of an entry share it in the code, and every caller that changes
  it through a copy writes the copy back. Output devices are numbers, 0 the null pointer. The
  acknowledgement timer and the unused \<open>m_routeRequestTimeout\<close> are not part of the model.
\<close>

type_synonym time = int

datatype RouteFlags = VALID | INVALID | IN_SEARCH

record rt_entry =
  rt_dst :: ipv4
  rt_nextHop :: ipv4
  rt_source :: ipv4
  rt_dev :: nat
  rt_iface :: iface_addr
  rt_validSeqNo :: bool
  rt_seqNo :: u32
  rt_hops :: u16
  rt_lifeTime :: time
  rt_flag :: RouteFlags
  rt_reqCount :: u8
  rt_precursors :: "ipv4 list"
  rt_unidirectional :: bool
  rt_blackListTimeout :: time

definition RoutingTableEntry :: "time \<Rightarrow> nat \<Rightarrow> ipv4 \<Rightarrow> bool \<Rightarrow> u32 \<Rightarrow> iface_addr \<Rightarrow> u16 \<Rightarrow> ipv4 \<Rightarrow> time \<Rightarrow> rt_entry" where
  "RoutingTableEntry now dev dst vSeqNo seqNo iface hops nextHop lifetime =
     \<lparr>rt_dst = dst, rt_nextHop = nextHop, rt_source = ia_local iface, rt_dev = dev, rt_iface = iface, rt_validSeqNo = vSeqNo, rt_seqNo = seqNo,
      rt_hops = hops, rt_lifeTime = lifetime + now, rt_flag = VALID, rt_reqCount = 0, rt_precursors = [],
      rt_unidirectional = False, rt_blackListTimeout = now\<rparr>"

definition LookupPrecursor :: "ipv4 \<Rightarrow> rt_entry \<Rightarrow> bool" where
  "LookupPrecursor i e \<longleftrightarrow> (\<exists>p \<in> set (rt_precursors e). ipv4_eq p i)"

definition InsertPrecursor :: "ipv4 \<Rightarrow> rt_entry \<Rightarrow> bool \<times> rt_entry" where
  "InsertPrecursor i e =
     (if \<not> LookupPrecursor i e then (True, e\<lparr>rt_precursors := rt_precursors e @ [i]\<rparr>) else (False, e))"

definition DeletePrecursor :: "ipv4 \<Rightarrow> rt_entry \<Rightarrow> bool \<times> rt_entry" where
  "DeletePrecursor i e =
     (let ps = filter (\<lambda>p. \<not> ipv4_eq p i) (rt_precursors e)
      in if length ps = length (rt_precursors e) then (False, e) else (True, e\<lparr>rt_precursors := ps\<rparr>))"

definition DeleteAllPrecursors :: "rt_entry \<Rightarrow> rt_entry" where
  "DeleteAllPrecursors e = e\<lparr>rt_precursors := []\<rparr>"

definition IsPrecursorListEmpty :: "rt_entry \<Rightarrow> bool" where
  "IsPrecursorListEmpty e \<longleftrightarrow> rt_precursors e = []"

definition GetPrecursors :: "rt_entry \<Rightarrow> ipv4 list \<Rightarrow> ipv4 list" where
  "GetPrecursors e prec =
     (if IsPrecursorListEmpty e then prec
      else foldl (\<lambda>prec i. if \<exists>j \<in> set prec. ipv4_eq j i then prec else prec @ [i]) prec (rt_precursors e))"

definition Invalidate :: "time \<Rightarrow> time \<Rightarrow> rt_entry \<Rightarrow> rt_entry" where
  "Invalidate now badLinkLifetime e =
     (if rt_flag e = INVALID then e
      else e\<lparr>rt_flag := INVALID, rt_reqCount := 0, rt_lifeTime := badLinkLifetime + now\<rparr>)"

text \<open>The setters callers use, and the default constructed entry.\<close>

definition SetLifeTime :: "time \<Rightarrow> time \<Rightarrow> rt_entry \<Rightarrow> rt_entry" where
  "SetLifeTime now lt e = e\<lparr>rt_lifeTime := lt + now\<rparr>"

definition IncrementRreqCnt :: "rt_entry \<Rightarrow> rt_entry" where
  "IncrementRreqCnt e = e\<lparr>rt_reqCount := rt_reqCount e + 1\<rparr>"

definition default_entry :: "time \<Rightarrow> rt_entry" where
  "default_entry now = RoutingTableEntry now 0 unset_address False 0 unset_iface 0 unset_address now"

definition GetLifeTime :: "time \<Rightarrow> rt_entry \<Rightarrow> time" where
  "GetLifeTime now e = rt_lifeTime e - now"

subsection \<open>The table\<close>

record rtable =
  m_ipv4AddressEntry :: "(ipv4 \<times> rt_entry) list"
  m_badLinkLifetime :: time

definition RoutingTable :: "time \<Rightarrow> rtable" where
  "RoutingTable bad = \<lparr>m_ipv4AddressEntry = [], m_badLinkLifetime = bad\<rparr>"

fun purge_entries :: "time \<Rightarrow> time \<Rightarrow> (ipv4 \<times> rt_entry) list \<Rightarrow> (ipv4 \<times> rt_entry) list" where
  "purge_entries now bad [] = []"
| "purge_entries now bad ((d, e) # es) =
     (if GetLifeTime now e < 0 then
        (if rt_flag e = INVALID then purge_entries now bad es
         else if rt_flag e = VALID then (d, Invalidate now bad e) # purge_entries now bad es
         else (d, e) # purge_entries now bad es)
      else (d, e) # purge_entries now bad es)"

definition Purge :: "time \<Rightarrow> rtable \<Rightarrow> rtable" where
  "Purge now t = t\<lparr>m_ipv4AddressEntry := purge_entries now (m_badLinkLifetime t) (m_ipv4AddressEntry t)\<rparr>"

definition LookupRoute :: "time \<Rightarrow> ipv4 \<Rightarrow> rtable \<Rightarrow> rt_entry option \<times> rtable" where
  "LookupRoute now i t = (let t' = Purge now t in (smap_find ipv4_less i (m_ipv4AddressEntry t'), t'))"

text \<open>
  \<open>LookupValidRoute\<close> fills its out parameter also when it returns \<open>false\<close> for a route that is
  not valid; the flag is the first component.
\<close>

definition LookupValidRoute :: "time \<Rightarrow> ipv4 \<Rightarrow> rtable \<Rightarrow> bool \<times> rt_entry option \<times> rtable" where
  "LookupValidRoute now i t = (let (r, t') = LookupRoute now i t in
     case r of None \<Rightarrow> (False, None, t') | Some rt \<Rightarrow> (rt_flag rt = VALID, Some rt, t'))"

definition DeleteRoute :: "time \<Rightarrow> ipv4 \<Rightarrow> rtable \<Rightarrow> bool \<times> rtable" where
  "DeleteRoute now dst t = (let t' = Purge now t in
     (smap_find ipv4_less dst (m_ipv4AddressEntry t') \<noteq> None,
      t'\<lparr>m_ipv4AddressEntry := smap_erase ipv4_less dst (m_ipv4AddressEntry t')\<rparr>))"

definition AddRoute :: "time \<Rightarrow> rt_entry \<Rightarrow> rtable \<Rightarrow> bool \<times> rtable" where
  "AddRoute now rt t = (let t' = Purge now t;
     rt' = (if rt_flag rt \<noteq> IN_SEARCH then rt\<lparr>rt_reqCount := 0\<rparr> else rt);
     (es, b) = smap_insert ipv4_less (rt_dst rt') rt' (m_ipv4AddressEntry t')
     in (b, t'\<lparr>m_ipv4AddressEntry := es\<rparr>))"

definition Update :: "rt_entry \<Rightarrow> rtable \<Rightarrow> bool \<times> rtable" where
  "Update rt t =
     (if smap_find ipv4_less (rt_dst rt) (m_ipv4AddressEntry t) = None then (False, t)
      else (True, t\<lparr>m_ipv4AddressEntry := smap_set ipv4_less (rt_dst rt)
             (if rt_flag rt \<noteq> IN_SEARCH then rt\<lparr>rt_reqCount := 0\<rparr> else rt) (m_ipv4AddressEntry t)\<rparr>))"

definition SetEntryState :: "ipv4 \<Rightarrow> RouteFlags \<Rightarrow> rtable \<Rightarrow> bool \<times> rtable" where
  "SetEntryState i state t = (case smap_find ipv4_less i (m_ipv4AddressEntry t) of
     None \<Rightarrow> (False, t)
   | Some e \<Rightarrow> (True, t\<lparr>m_ipv4AddressEntry := smap_set ipv4_less i (e\<lparr>rt_flag := state, rt_reqCount := 0\<rparr>)
       (m_ipv4AddressEntry t)\<rparr>))"

definition GetListOfDestinationWithNextHop :: "time \<Rightarrow> ipv4 \<Rightarrow> rtable \<Rightarrow> (ipv4 \<times> u32) list \<times> rtable" where
  "GetListOfDestinationWithNextHop now nextHop t = (let t' = Purge now t in
     (foldl (\<lambda>unreachable (d, e). if ipv4_eq (rt_nextHop e) nextHop
         then fst (smap_insert ipv4_less d (rt_seqNo e) unreachable) else unreachable)
       [] (m_ipv4AddressEntry t'), t'))"

definition InvalidateRoutesWithDst :: "time \<Rightarrow> (ipv4 \<times> u32) list \<Rightarrow> rtable \<Rightarrow> rtable" where
  "InvalidateRoutesWithDst now unreachable t = (let t' = Purge now t in
     t'\<lparr>m_ipv4AddressEntry := map (\<lambda>(i, e). (i, foldl (\<lambda>e (j, _).
         if ipv4_eq i j \<and> rt_flag e = VALID then Invalidate now (m_badLinkLifetime t') e else e) e unreachable))
       (m_ipv4AddressEntry t')\<rparr>)"

definition DeleteAllRoutesFromInterface :: "iface_addr \<Rightarrow> rtable \<Rightarrow> rtable" where
  "DeleteAllRoutesFromInterface iface t =
     t\<lparr>m_ipv4AddressEntry := filter (\<lambda>(d, e). rt_iface e \<noteq> iface) (m_ipv4AddressEntry t)\<rparr>"

definition MarkLinkAsUnidirectional :: "ipv4 \<Rightarrow> time \<Rightarrow> rtable \<Rightarrow> bool \<times> rtable" where
  "MarkLinkAsUnidirectional neighbor blacklistTimeout t =
     (case smap_find ipv4_less neighbor (m_ipv4AddressEntry t) of
        None \<Rightarrow> (False, t)
      | Some e \<Rightarrow> (True, t\<lparr>m_ipv4AddressEntry := smap_set ipv4_less neighbor
          (e\<lparr>rt_unidirectional := True, rt_blackListTimeout := blacklistTimeout, rt_reqCount := 0\<rparr>)
          (m_ipv4AddressEntry t)\<rparr>))"

definition RoutingTable_Clear :: "rtable \<Rightarrow> rtable" where
  "RoutingTable_Clear t = t\<lparr>m_ipv4AddressEntry := []\<rparr>"

subsection \<open>The invariant and the abstract table\<close>

text \<open>The abstract table maps a destination to its entry; the key is the entry's destination.\<close>

definition rt_ok :: "rtable \<Rightarrow> bool" where
  "rt_ok t \<longleftrightarrow> smap_ok (m_ipv4AddressEntry t) \<and> (\<forall>(d, e) \<in> set (m_ipv4AddressEntry t). rt_dst e = d)"

abbreviation routes :: "rtable \<Rightarrow> ipv4 \<Rightarrow> rt_entry option" where
  "routes t \<equiv> map_of (m_ipv4AddressEntry t)"

definition purged :: "time \<Rightarrow> time \<Rightarrow> rt_entry \<Rightarrow> rt_entry option" where
  "purged now bad e =
     (if rt_lifeTime e < now then (case rt_flag e of INVALID \<Rightarrow> None | VALID \<Rightarrow> Some (Invalidate now bad e) | IN_SEARCH \<Rightarrow> Some e)
      else Some e)"

lemma Invalidate_simps [simp]:
  "rt_dst (Invalidate now bad e) = rt_dst e" "rt_flag (Invalidate now bad e) = INVALID"
  "rt_nextHop (Invalidate now bad e) = rt_nextHop e" "rt_seqNo (Invalidate now bad e) = rt_seqNo e"
  by (simp_all add: Invalidate_def)

lemma purge_entries_set: "(d, e') \<in> set (purge_entries now bad es) \<longleftrightarrow> (\<exists>e. (d, e) \<in> set es \<and> purged now bad e = Some e')"
proof (induction es rule: purge_entries.induct)
  case (2 now bad d' e es)
  then show ?case by (cases "rt_flag e") (auto simp: purged_def GetLifeTime_def)
qed simp

lemma purge_entries_ok: "smap_ok es \<Longrightarrow> smap_ok (purge_entries now bad es)"
proof (induction now bad es rule: purge_entries.induct)
  case (2 now bad d e es)
  have "\<forall>x \<in> fst ` set (purge_entries now bad es). d < x" using "2.prems" by (force simp: purge_entries_set)
  with 2 show ?case by auto
qed simp

lemma Purge_simps [simp]: "m_badLinkLifetime (Purge now t) = m_badLinkLifetime t"
  by (simp add: Purge_def)

lemma rt_okD: "rt_ok t \<Longrightarrow> smap_ok (m_ipv4AddressEntry t)"
  by (simp add: rt_ok_def)

lemma purged_dst: "purged now bad e = Some e' \<Longrightarrow> rt_dst e' = rt_dst e"
  by (auto simp: purged_def split: if_splits RouteFlags.splits)

lemma rt_ok_mem: "rt_ok t \<Longrightarrow> (d, e) \<in> set (m_ipv4AddressEntry t) \<Longrightarrow> rt_dst e = d"
  by (auto simp: rt_ok_def)

lemma Purge_ok: "rt_ok t \<Longrightarrow> rt_ok (Purge now t)"
proof -
  assume t: "rt_ok t"
  have "rt_dst e' = d" if m: "(d, e') \<in> set (m_ipv4AddressEntry (Purge now t))" for d e'
  proof -
    from m obtain e where "(d, e) \<in> set (m_ipv4AddressEntry t)" "purged now (m_badLinkLifetime t) e = Some e'"
      by (auto simp: Purge_def purge_entries_set)
    then show ?thesis using t by (simp add: purged_dst rt_ok_mem)
  qed
  with t show ?thesis by (auto simp: rt_ok_def Purge_def purge_entries_ok)
qed

lemma Purge_routes:
  assumes "rt_ok t"
  shows "routes (Purge now t) d = Option.bind (routes t d) (purged now (m_badLinkLifetime t))"
proof -
  have d: "distinct (map fst (m_ipv4AddressEntry t))" "distinct (map fst (m_ipv4AddressEntry (Purge now t)))"
    using assms Purge_ok[OF assms] by (auto simp: rt_ok_def intro: smap_ok_distinct)
  have "routes (Purge now t) d = Some e' \<longleftrightarrow> Option.bind (routes t d) (purged now (m_badLinkLifetime t)) = Some e'" for e'
    using map_of_eq_Some_iff[OF d(1)] map_of_eq_Some_iff[OF d(2)]
    by (auto simp: Purge_def purge_entries_set bind_eq_Some_conv)
  then show ?thesis by (metis not_Some_eq)
qed

lemma rt_ok_set: "rt_ok t \<Longrightarrow> rt_dst e = d \<Longrightarrow> rt_ok (t\<lparr>m_ipv4AddressEntry := smap_set (<) d e (m_ipv4AddressEntry t)\<rparr>)"
proof -
  have "(d', e') \<in> set (smap_set (<) d e m) \<Longrightarrow> (d', e') = (d, e) \<or> (d', e') \<in> set m" for d' e' and m :: "(ipv4 \<times> rt_entry) list"
    by (induction m) (auto split: if_splits)
  then show "rt_ok t \<Longrightarrow> rt_dst e = d \<Longrightarrow> rt_ok (t\<lparr>m_ipv4AddressEntry := smap_set (<) d e (m_ipv4AddressEntry t)\<rparr>)"
    by (fastforce simp: rt_ok_def smap_ok_set)
qed

lemma rt_ok_erase: "rt_ok t \<Longrightarrow> rt_ok (t\<lparr>m_ipv4AddressEntry := smap_erase (<) d (m_ipv4AddressEntry t)\<rparr>)"
  using smap_erase_subset[of "(<)" d "m_ipv4AddressEntry t"] by (auto simp: rt_ok_def smap_ok_erase)

lemma rt_ok_dst: "rt_ok t \<Longrightarrow> routes t d = Some e \<Longrightarrow> rt_dst e = d"
  by (auto simp: rt_ok_def dest!: map_of_SomeD)

end
