(* ===== verification/Aodv_Rtable_Properties.thy ===== *)
theory Aodv_Rtable_Properties
  imports Aodv_Rtable
begin

text \<open>
  What the AODV routing table guarantees: each operation refined to an operation on the map from
  destinations to entries, the life cycle of a route, what a valid look-up means after any
  sequence of calls, and the handling of a broken link.
\<close>

subsection \<open>Every operation as a map operation\<close>

abbreviation bad_life :: "rtable \<Rightarrow> time" where "bad_life \<equiv> m_badLinkLifetime"

definition reset_count :: "rt_entry \<Rightarrow> rt_entry" where
  "reset_count e = (if rt_flag e \<noteq> IN_SEARCH then e\<lparr>rt_reqCount := 0\<rparr> else e)"

lemma reset_count_simps [simp]:
  "rt_dst (reset_count e) = rt_dst e" "rt_flag (reset_count e) = rt_flag e" "rt_lifeTime (reset_count e) = rt_lifeTime e"
  by (simp_all add: reset_count_def)

lemma AddRoute_new: "routes (Purge now t) (rt_dst e) = None \<Longrightarrow> AddRoute now e t =
   (True, (Purge now t)\<lparr>m_ipv4AddressEntry := smap_set (<) (rt_dst e) (reset_count e) (m_ipv4AddressEntry (Purge now t))\<rparr>)"
  using smap_insert_new[of "rt_dst e" "m_ipv4AddressEntry (Purge now t)"]
  by (auto simp: AddRoute_def Let_def reset_count_def map_of_eq_None_iff)

lemma AddRoute_old: "rt_ok t \<Longrightarrow> routes (Purge now t) (rt_dst e) = Some e0 \<Longrightarrow> AddRoute now e t = (False, Purge now t)"
proof -
  assume t: "rt_ok t" and e: "routes (Purge now t) (rt_dst e) = Some e0"
  have "rt_dst e \<in> fst ` set (m_ipv4AddressEntry (Purge now t))" using map_of_SomeD[OF e] by force
  from smap_insert_old[OF rt_okD[OF Purge_ok[OF t]] this] show ?thesis
    by (simp add: AddRoute_def Let_def)
qed

lemma AddRoute_cases:
  assumes "rt_ok t"
  obtains (new) "routes (Purge now t) (rt_dst e) = None" "AddRoute now e t =
     (True, (Purge now t)\<lparr>m_ipv4AddressEntry := smap_set (<) (rt_dst e) (reset_count e) (m_ipv4AddressEntry (Purge now t))\<rparr>)"
  | (old) e0 where "routes (Purge now t) (rt_dst e) = Some e0" "AddRoute now e t = (False, Purge now t)"
  using AddRoute_new AddRoute_old[OF assms] by (cases "routes (Purge now t) (rt_dst e)") blast+

lemma AddRoute_ok: "rt_ok t \<Longrightarrow> rt_ok (snd (AddRoute now e t))"
  by (rule AddRoute_cases[of t now e]) (simp_all add: Purge_ok rt_ok_set)

lemma Update_ok: "rt_ok t \<Longrightarrow> rt_ok (snd (Update e t))"
  by (simp add: Update_def rt_ok_set)

lemma SetEntryState_ok: "rt_ok t \<Longrightarrow> rt_ok (snd (SetEntryState d f t))"
  by (auto simp: SetEntryState_def rt_ok_set rt_ok_dst split: option.split)

lemma MarkLinkAsUnidirectional_ok: "rt_ok t \<Longrightarrow> rt_ok (snd (MarkLinkAsUnidirectional d b t))"
  by (auto simp: MarkLinkAsUnidirectional_def rt_ok_set rt_ok_dst split: option.split)

lemma DeleteRoute_ok: "rt_ok t \<Longrightarrow> rt_ok (snd (DeleteRoute now d t))"
  by (simp add: DeleteRoute_def Let_def rt_ok_erase Purge_ok)

lemma filter_ok: "rt_ok t \<Longrightarrow> rt_ok (t\<lparr>m_ipv4AddressEntry := filter P (m_ipv4AddressEntry t)\<rparr>)"
  by (auto simp: rt_ok_def sorted_wrt_map sorted_wrt_filter)

lemma DeleteAllRoutesFromInterface_ok: "rt_ok t \<Longrightarrow> rt_ok (DeleteAllRoutesFromInterface i t)"
  by (simp add: DeleteAllRoutesFromInterface_def filter_ok)

definition break_entry :: "time \<Rightarrow> time \<Rightarrow> (ipv4 \<times> u32) list \<Rightarrow> ipv4 \<Rightarrow> rt_entry \<Rightarrow> rt_entry" where
  "break_entry now bad u i e = (if i \<in> fst ` set u \<and> rt_flag e = VALID then Invalidate now bad e else e)"

lemma break_fold: "foldl (\<lambda>e (j, _). if i = j \<and> rt_flag e = VALID then Invalidate now bad e else e) e u
   = break_entry now bad u i e"
  by (induction u arbitrary: e) (auto simp: break_entry_def)

lemma InvalidateRoutesWithDst_eq: "InvalidateRoutesWithDst now u t = (Purge now t)\<lparr>m_ipv4AddressEntry :=
   map (\<lambda>(i, e). (i, break_entry now (bad_life t) u i e)) (m_ipv4AddressEntry (Purge now t))\<rparr>"
  by (simp add: InvalidateRoutesWithDst_def Let_def break_fold)

lemma InvalidateRoutesWithDst_ok: "rt_ok t \<Longrightarrow> rt_ok (InvalidateRoutesWithDst now u t)"
  by (drule Purge_ok[where now = now])
    (auto simp: InvalidateRoutesWithDst_eq rt_ok_def comp_def case_prod_beta break_entry_def)

lemma InvalidateRoutesWithDst_routes:
  "routes (InvalidateRoutesWithDst now u t) d = map_option (break_entry now (bad_life t) u d) (routes (Purge now t) d)"
proof -
  have "map_of (map (\<lambda>(i, e). (i, f i e)) m) d = map_option (f d) (map_of m d)" for f :: "ipv4 \<Rightarrow> rt_entry \<Rightarrow> rt_entry" and m
    by (induction m) auto
  then show ?thesis by (simp add: InvalidateRoutesWithDst_eq)
qed


subsection \<open>Sequences of calls\<close>

text \<open>The calls the routing protocol makes, each at its simulation time.\<close>

datatype rtable_call =
  CallLookup ipv4 | CallDelete ipv4 | CallAdd rt_entry | CallUpdate rt_entry | CallSetState ipv4 RouteFlags
| CallUnreachable ipv4 | CallInvalidate "(ipv4 \<times> u32) list" | CallDeleteIface iface_addr | CallMark ipv4 time | CallPurge | CallClear

fun rtable_do :: "time \<times> rtable_call \<Rightarrow> rtable \<Rightarrow> rtable" where
  "rtable_do (now, CallLookup d) t = snd (snd (LookupValidRoute now d t))"
| "rtable_do (now, CallDelete d) t = snd (DeleteRoute now d t)"
| "rtable_do (now, CallAdd e) t = snd (AddRoute now e t)"
| "rtable_do (now, CallUpdate e) t = snd (Update e t)"
| "rtable_do (now, CallSetState d f) t = snd (SetEntryState d f t)"
| "rtable_do (now, CallUnreachable h) t = snd (GetListOfDestinationWithNextHop now h t)"
| "rtable_do (now, CallInvalidate u) t = InvalidateRoutesWithDst now u t"
| "rtable_do (now, CallDeleteIface i) t = DeleteAllRoutesFromInterface i t"
| "rtable_do (now, CallMark d b) t = snd (MarkLinkAsUnidirectional d b t)"
| "rtable_do (now, CallPurge) t = Purge now t"
| "rtable_do (now, CallClear) t = RoutingTable_Clear t"

lemma rtable_do_ok: "rt_ok t \<Longrightarrow> rt_ok (rtable_do c t)"
proof (induction c t rule: rtable_do.induct)
  case (1 now d t)
  then show ?case by (simp add: LookupValidRoute_def LookupRoute_def Let_def Purge_ok split: option.split)
next
  case (6 now h t)
  then show ?case by (simp add: GetListOfDestinationWithNextHop_def Let_def Purge_ok)
next
  case (11 now t)
  then show ?case by (simp add: RoutingTable_Clear_def rt_ok_def)
qed (simp_all add: DeleteRoute_ok AddRoute_ok Update_ok SetEntryState_ok InvalidateRoutesWithDst_ok
  DeleteAllRoutesFromInterface_ok MarkLinkAsUnidirectional_ok Purge_ok)

lemma rtable_calls_ok: "rt_ok t \<Longrightarrow> rt_ok (fold rtable_do cs t)"
  by (induction cs arbitrary: t) (simp_all add: rtable_do_ok)

lemma RoutingTable_ok: "rt_ok (RoutingTable bad)"
  by (simp add: RoutingTable_def rt_ok_def)

lemma LookupValidRoute_eq: "LookupValidRoute now d t =
   (case routes (Purge now t) d of None \<Rightarrow> (False, None, Purge now t) | Some e \<Rightarrow> (rt_flag e = VALID, Some e, Purge now t))"
  by (simp add: LookupValidRoute_def LookupRoute_def Let_def split: option.split)

definition live :: "time \<Rightarrow> rt_entry \<Rightarrow> bool" where
  "live now e \<longleftrightarrow> rt_flag e = VALID \<and> now \<le> rt_lifeTime e"

lemma purged_valid: "purged now bad e = Some e' \<and> rt_flag e' = VALID \<longleftrightarrow> e' = e \<and> live now e"
  by (auto simp: purged_def live_def split: if_splits RouteFlags.splits)

lemma valid_lookup_iff:
  assumes t: "rt_ok t"
  shows "LookupValidRoute now d t = (True, Some e, Purge now t) \<longleftrightarrow> routes t d = Some e \<and> live now e"
proof -
  have "LookupValidRoute now d t = (True, Some e, Purge now t) \<longleftrightarrow> routes (Purge now t) d = Some e \<and> rt_flag e = VALID"
    by (auto simp: LookupValidRoute_eq split: option.splits)
  also have "\<dots> \<longleftrightarrow> (\<exists>e0. routes t d = Some e0 \<and> purged now (bad_life t) e0 = Some e \<and> rt_flag e = VALID)"
    by (auto simp: Purge_routes[OF t] bind_eq_Some_conv)
  also have "\<dots> \<longleftrightarrow> routes t d = Some e \<and> live now e" by (auto simp: purged_valid)
  finally show ?thesis .
qed

lemma valid_lookup_shape: "fst (LookupValidRoute now d t) \<longleftrightarrow> (\<exists>e. LookupValidRoute now d t = (True, Some e, Purge now t))"
  by (auto simp: LookupValidRoute_eq split: option.splits)

text \<open>
  C32. After any sequence of calls on a fresh routing table, at any times, \<open>LookupValidRoute\<close>
  succeeds exactly when the table holds an entry for the destination asked for that is \<open>VALID\<close>
  and not expired, and then returns that entry, whose own destination is the one asked for.
\<close>

theorem valid_routes_are_live:
  assumes "t = fold rtable_do calls (RoutingTable bad)"
  shows "(fst (LookupValidRoute now d t) \<longleftrightarrow> (\<exists>e. routes t d = Some e \<and> live now e)) \<and>
    (\<forall>e t'. LookupValidRoute now d t = (True, Some e, t') \<longrightarrow> routes t d = Some e \<and> live now e \<and> rt_dst e = d)"
proof -
  have t: "rt_ok t" unfolding assms by (rule rtable_calls_ok[OF RoutingTable_ok])
  have "t' = Purge now t" if "LookupValidRoute now d t = (True, Some e, t')" for e t'
    using that by (auto simp: LookupValidRoute_eq split: option.splits)
  then show ?thesis using valid_lookup_iff[OF t] by (auto simp: valid_lookup_shape rt_ok_dst[OF t])
qed

definition route_a :: rt_entry where
  "route_a = RoutingTableEntry 0 1 (Ipv4 0x0A000002) True 7 (Ipv4InterfaceAddress (Ipv4 0x0A000001) (Mask 0xFF000000)) 2 (Ipv4 0x0A000003) 30"

theorem valid_routes_are_live_witness:
  "(\<exists>e. routes (fold rtable_do [(0, CallAdd route_a), (5, CallLookup (Ipv4 1))] (RoutingTable 15)) (Ipv4 0x0A000002) = Some e \<and> live 20 e)
   \<and> fst (LookupValidRoute 20 (Ipv4 0x0A000002) (fold rtable_do [(0, CallAdd route_a), (5, CallLookup (Ipv4 1))] (RoutingTable 15)))
   \<and> \<not> fst (LookupValidRoute 31 (Ipv4 0x0A000002) (fold rtable_do [(0, CallAdd route_a), (5, CallLookup (Ipv4 1))] (RoutingTable 15)))"
proof -
  let ?t = "fold rtable_do [(0, CallAdd route_a), (5, CallLookup (Ipv4 1))] (RoutingTable 15)"
  have r: "routes ?t (Ipv4 0x0A000002) = Some route_a"
    by (simp add: RoutingTable_def route_a_def RoutingTableEntry_def AddRoute_def Purge_def Let_def LookupValidRoute_def
      LookupRoute_def GetLifeTime_def)
  have l: "live 20 route_a" "\<not> live 31 route_a" by (simp_all add: live_def route_a_def RoutingTableEntry_def)
  show ?thesis
    using valid_routes_are_live[OF refl, of 20 "Ipv4 0x0A000002" "[(0, CallAdd route_a), (5, CallLookup (Ipv4 1))]" 15]
      valid_routes_are_live[OF refl, of 31 "Ipv4 0x0A000002" "[(0, CallAdd route_a), (5, CallLookup (Ipv4 1))]" 15] r l by simp
qed

subsection \<open>Adding, updating and deleting\<close>

lemma smap_set_routes: "rt_ok t \<Longrightarrow> routes (t\<lparr>m_ipv4AddressEntry := smap_set (<) d e (m_ipv4AddressEntry t)\<rparr>) = (routes t)(d \<mapsto> e)"
  by (simp add: map_of_smap_set rt_okD)

text \<open>
  \<open>AddRoute\<close> never overwrites: it succeeds exactly when the purged table has no entry for the
  destination, and then adds the entry (its request counter reset unless a search is under way);
  when it fails the table is only purged. \<open>Update\<close> never inserts: it succeeds exactly when the
  destination has an entry, which it replaces. Neither touches another destination's entry beyond the purge.
\<close>

theorem AddRoute_Update_spec:
  assumes t: "rt_ok t"
  shows "(case AddRoute now e t of (added, t') \<Rightarrow>
      (added \<longleftrightarrow> routes (Purge now t) (rt_dst e) = None) \<and>
      routes t' = (if added then (routes (Purge now t))(rt_dst e \<mapsto> reset_count e) else routes (Purge now t)))
    \<and> (case Update e t of (updated, t') \<Rightarrow>
      (updated \<longleftrightarrow> routes t (rt_dst e) \<noteq> None) \<and>
      routes t' = (if updated then (routes t)(rt_dst e \<mapsto> reset_count e) else routes t))
    \<and> (case DeleteRoute now d t of (deleted, t') \<Rightarrow>
      (deleted \<longleftrightarrow> routes (Purge now t) d \<noteq> None) \<and> routes t' = (routes (Purge now t))(d := None))"
proof (intro conjI)
  show "case AddRoute now e t of (added, t') \<Rightarrow> (added \<longleftrightarrow> routes (Purge now t) (rt_dst e) = None) \<and>
      routes t' = (if added then (routes (Purge now t))(rt_dst e \<mapsto> reset_count e) else routes (Purge now t))"
    by (rule AddRoute_cases[OF t, of now e]) (simp_all add: map_of_smap_set rt_okD[OF Purge_ok[OF t]])
  show "case Update e t of (updated, t') \<Rightarrow> (updated \<longleftrightarrow> routes t (rt_dst e) \<noteq> None) \<and>
      routes t' = (if updated then (routes t)(rt_dst e \<mapsto> reset_count e) else routes t)"
    by (auto simp: Update_def map_of_smap_set rt_okD[OF t] reset_count_def)
  show "case DeleteRoute now d t of (deleted, t') \<Rightarrow> (deleted \<longleftrightarrow> routes (Purge now t) d \<noteq> None) \<and>
      routes t' = (routes (Purge now t))(d := None)"
    by (simp add: DeleteRoute_def Let_def map_of_smap_erase rt_okD Purge_ok t)
qed

theorem AddRoute_Update_spec_witness:
  "fst (AddRoute 0 route_a (RoutingTable 15)) \<and> \<not> fst (AddRoute 3 route_a (snd (AddRoute 0 route_a (RoutingTable 15))))
   \<and> \<not> fst (Update route_a (RoutingTable 15))"
proof -
  have t: "rt_ok (RoutingTable 15)" by (rule RoutingTable_ok)
  have a: "routes (Purge 3 (snd (AddRoute 0 route_a (RoutingTable 15)))) (rt_dst route_a) \<noteq> None"
    by (simp add: RoutingTable_def route_a_def RoutingTableEntry_def AddRoute_def Purge_def Let_def GetLifeTime_def)
  have e: "routes (Purge 0 (RoutingTable 15)) d = None" "routes (RoutingTable 15) d = None" for d
    by (simp_all add: RoutingTable_def Purge_def)
  show ?thesis
    using AddRoute_Update_spec[OF t, of 0 route_a, unfolded case_prod_beta]
      AddRoute_Update_spec[OF AddRoute_ok[OF t, of 0 route_a], of 3 route_a, unfolded case_prod_beta] a e by metis
qed

subsection \<open>The life cycle of a route\<close>

lemma Purge_step: "rt_ok t \<Longrightarrow> routes t d = Some e \<Longrightarrow> routes (Purge now t) d = purged now (bad_life t) e"
  by (simp add: Purge_routes)

lemma fold_Purge_bad [simp]: "bad_life (fold Purge ts t) = bad_life t"
  by (induction ts arbitrary: t) simp_all

lemma fold_Purge_none: "rt_ok t \<Longrightarrow> routes t d = None \<Longrightarrow> routes (fold Purge ts t) d = None"
  by (induction ts arbitrary: t) (simp_all add: Purge_routes Purge_ok)

lemma fold_Purge_invalid: "rt_ok t \<Longrightarrow> routes t d = Some e \<Longrightarrow> rt_flag e = INVALID \<Longrightarrow>
   routes (fold Purge ts t) d = (if \<forall>n \<in> set ts. n \<le> rt_lifeTime e then Some e else None)"
proof (induction ts arbitrary: t)
  case (Cons n ts)
  have "routes (Purge n t) d = (if n \<le> rt_lifeTime e then Some e else None)"
    using Cons.prems by (simp add: Purge_step purged_def)
  then show ?case using Cons.IH[OF Purge_ok[OF Cons.prems(1)], of n] Cons.prems fold_Purge_none[OF Purge_ok[OF Cons.prems(1)]]
    by (cases "n \<le> rt_lifeTime e") simp_all
qed simp

lemma fold_Purge_search: "rt_ok t \<Longrightarrow> routes t d = Some e \<Longrightarrow> rt_flag e = IN_SEARCH \<Longrightarrow> routes (fold Purge ts t) d = Some e"
  by (induction ts arbitrary: t) (simp_all add: Purge_step purged_def Purge_ok)

text \<open>
  C33. The life cycle of a \<open>VALID\<close> route that nothing updates, under purges at any times: it stays as
  it is while no purge comes after its expiration time; the first purge that does turns it
  \<open>INVALID\<close> with the bad-link lifetime counted from that purge; and it is deleted by the first later
  purge after this second deadline. An entry whose route search is under way is never purged.
\<close>

theorem route_life_cycle:
  assumes "rt_ok t" and "routes t d = Some e"
  shows "routes (fold Purge ts t) d = (case rt_flag e of
      IN_SEARCH \<Rightarrow> Some e
    | INVALID \<Rightarrow> (if \<forall>n \<in> set ts. n \<le> rt_lifeTime e then Some e else None)
    | VALID \<Rightarrow> (case dropWhile (\<lambda>n. n \<le> rt_lifeTime e) ts of
          [] \<Rightarrow> Some e
        | n # later \<Rightarrow> (if \<forall>m \<in> set later. m \<le> bad_life t + n then Some (Invalidate n (bad_life t) e) else None)))"
proof (cases "rt_flag e")
  case VALID
  have "routes (fold Purge ts t) d = (case dropWhile (\<lambda>n. n \<le> rt_lifeTime e) ts of [] \<Rightarrow> Some e
        | n # later \<Rightarrow> (if \<forall>m \<in> set later. m \<le> bad_life t + n then Some (Invalidate n (bad_life t) e) else None))"
    using assms
  proof (induction ts arbitrary: t)
    case (Cons n ts)
    show ?case
    proof (cases "n \<le> rt_lifeTime e")
      case True
      then have "routes (Purge n t) d = Some e" using Cons.prems by (simp add: Purge_step purged_def)
      from Cons.IH[OF Purge_ok[OF Cons.prems(1)] this, unfolded Purge_simps] True show ?thesis by simp
    next
      case False
      then have "routes (Purge n t) d = Some (Invalidate n (bad_life t) e)"
        using Cons.prems VALID by (simp add: Purge_step purged_def)
      from fold_Purge_invalid[OF Purge_ok[OF Cons.prems(1)] this] False VALID show ?thesis
        by (simp add: Invalidate_def)
    qed
  qed simp
  with VALID show ?thesis by simp
qed (use assms fold_Purge_invalid fold_Purge_search in auto)

theorem route_life_cycle_witness:
  "routes (fold Purge [10, 31, 40] (snd (AddRoute 0 route_a (RoutingTable 15)))) (Ipv4 0x0A000002) = Some (Invalidate 31 15 route_a)
   \<and> routes (fold Purge [10, 31, 47] (snd (AddRoute 0 route_a (RoutingTable 15)))) (Ipv4 0x0A000002) = None"
proof -
  have r: "routes (snd (AddRoute 0 route_a (RoutingTable 15))) (Ipv4 0x0A000002) = Some route_a"
    by (simp add: RoutingTable_def route_a_def RoutingTableEntry_def AddRoute_def Purge_def Let_def)
  have b: "bad_life (snd (AddRoute 0 route_a (RoutingTable 15))) = 15" "rt_flag route_a = VALID" "rt_lifeTime route_a = 30"
    by (simp_all add: RoutingTable_def route_a_def RoutingTableEntry_def AddRoute_def Purge_def Let_def)
  show ?thesis
    using route_life_cycle[OF AddRoute_ok[OF RoutingTable_ok] r, of "[10, 31, 40]"]
      route_life_cycle[OF AddRoute_ok[OF RoutingTable_ok] r, of "[10, 31, 47]"] b by simp
qed

subsection \<open>Link breaks\<close>

definition via :: "ipv4 \<Rightarrow> rt_entry \<Rightarrow> bool" where
  "via hop e \<longleftrightarrow> rt_nextHop e = hop"

lemma unreachable_fold:
  "smap_ok (m :: (ipv4 \<times> rt_entry) list) \<Longrightarrow> smap_ok u \<Longrightarrow> fst ` set u \<inter> fst ` set m = {} \<Longrightarrow>
   map_of (foldl (\<lambda>u (d, e). if rt_nextHop e = hop then fst (smap_insert (<) d (rt_seqNo e) u) else u) u m) d =
   (case map_of m d of Some e \<Rightarrow> if via hop e then Some (rt_seqNo e) else map_of u d | None \<Rightarrow> map_of u d)"
proof (induction m arbitrary: u)
  case (Cons p m)
  obtain d' e where p: "p = (d', e)" by (cases p)
  have d': "d' \<notin> fst ` set u" "d' \<notin> fst ` set m" using Cons.prems p by auto
  show ?case
  proof (cases "rt_nextHop e = hop")
    case True
    have "fst ` set (smap_set (<) d' (rt_seqNo e) u) \<inter> fst ` set m = {}"
      using Cons.prems d' p by (auto simp: set_smap_set)
    with Cons.IH[of "smap_set (<) d' (rt_seqNo e) u"] Cons.prems p True d' show ?thesis
      by (auto simp: smap_insert_new smap_specs via_def map_of_eq_None_iff[THEN iffD2] split: option.split)
  next
    case False
    with Cons p d' show ?thesis by (auto simp: via_def map_of_eq_None_iff[THEN iffD2] split: option.split)
  qed
qed simp

lemma unreachable_routes:
  assumes "rt_ok t" and "GetListOfDestinationWithNextHop now hop t = (u, t')"
  shows "t' = Purge now t"
    and "map_of u d = Option.bind (routes (Purge now t) d) (\<lambda>e. if via hop e then Some (rt_seqNo e) else None)"
proof -
  have "GetListOfDestinationWithNextHop now hop t =
      (foldl (\<lambda>u (d, e). if rt_nextHop e = hop then fst (smap_insert (<) d (rt_seqNo e) u) else u) []
         (m_ipv4AddressEntry (Purge now t)), Purge now t)"
    unfolding GetListOfDestinationWithNextHop_def Let_def ipv4_less_fun ipv4_eq_eq ..
  with assms show "t' = Purge now t"
    and "map_of u d = Option.bind (routes (Purge now t) d) (\<lambda>e. if via hop e then Some (rt_seqNo e) else None)"
    using unreachable_fold[OF rt_okD[OF Purge_ok[OF assms(1), of now]], of "[]" hop d]
    by (auto split: option.splits)
qed

lemma purged_twice: "0 \<le> b \<Longrightarrow> Option.bind (purged now b e) (purged now b) = purged now b e"
  by (cases "rt_flag e") (auto simp: purged_def Invalidate_def)

lemma Purge_again: "0 \<le> bad_life t \<Longrightarrow> rt_ok t \<Longrightarrow> routes (Purge now (Purge now t)) d = routes (Purge now t) d"
  by (cases "routes t d") (simp_all add: Purge_routes Purge_ok purged_twice)

text \<open>
  The reaction to a broken link: collecting the destinations reached through the lost next hop
  and invalidating those destinations leaves the rest of the (purged) table as it is and turns
  every valid route through that hop \<open>INVALID\<close>, kept for the bad-link lifetime, so no look-up of a valid
  route through that hop succeeds; the list of destinations collected holds exactly those entries,
  with their sequence numbers.
\<close>

theorem link_break_invalidates:
  assumes t: "rt_ok t" and bad: "0 \<le> bad_life t"
    and g: "GetListOfDestinationWithNextHop now hop t = (u, t1)"
  shows "map_of u d = (case routes (Purge now t) d of Some e \<Rightarrow> if via hop e then Some (rt_seqNo e) else None | None \<Rightarrow> None)
    \<and> routes (InvalidateRoutesWithDst now u t1) d =
        map_option (\<lambda>e. if via hop e \<and> rt_flag e = VALID then Invalidate now (bad_life t) e else e) (routes (Purge now t) d)
    \<and> (\<forall>e t'. LookupValidRoute now d (InvalidateRoutesWithDst now u t1) = (True, Some e, t') \<longrightarrow> rt_nextHop e \<noteq> hop)"
proof -
  have t1: "t1 = Purge now t" and u: "map_of u d = Option.bind (routes (Purge now t) d) (\<lambda>e. if via hop e then Some (rt_seqNo e) else None)"
    using unreachable_routes[OF t g] by auto
  have dom: "d \<in> fst ` set u \<longleftrightarrow> (\<exists>e. routes (Purge now t) d = Some e \<and> via hop e)"
    using u by (simp add: dom_map_of_conv_image_fst[symmetric] domIff split: bind_split)
  have r: "routes (InvalidateRoutesWithDst now u t1) d =
      map_option (\<lambda>e. if via hop e \<and> rt_flag e = VALID then Invalidate now (bad_life t) e else e) (routes (Purge now t) d)"
  proof (cases "routes (Purge now t) d")
    case (Some e)
    then have "d \<in> fst ` set u \<longleftrightarrow> via hop e" using dom by simp
    then show ?thesis using Some
      by (simp add: InvalidateRoutesWithDst_routes t1 Purge_again[OF bad t] break_entry_def)
  qed (simp add: InvalidateRoutesWithDst_routes t1 Purge_again[OF bad t])
  have ok: "rt_ok (InvalidateRoutesWithDst now u t1)" by (simp add: t1 InvalidateRoutesWithDst_ok Purge_ok t)
  have n: "rt_nextHop e \<noteq> hop" if "LookupValidRoute now d (InvalidateRoutesWithDst now u t1) = (True, Some e, t')" for e t'
  proof -
    have "routes (InvalidateRoutesWithDst now u t1) d = Some e \<and> live now e"
      using that valid_lookup_iff[OF ok, of now d e] by (auto simp: LookupValidRoute_eq split: option.splits)
    then have "map_option (\<lambda>e. if via hop e \<and> rt_flag e = VALID then Invalidate now (bad_life t) e else e)
        (routes (Purge now t) d) = Some e" and "rt_flag e = VALID" using r by (simp_all add: live_def)
    then obtain e0 where "e = (if via hop e0 \<and> rt_flag e0 = VALID then Invalidate now (bad_life t) e0 else e0)" "rt_flag e = VALID"
      by blast
    then show ?thesis by (cases "rt_nextHop e0 = hop"; cases "rt_flag e0") (simp_all add: via_def)
  qed
  have m: "map_of u d = (case routes (Purge now t) d of Some e \<Rightarrow> if via hop e then Some (rt_seqNo e) else None | None \<Rightarrow> None)"
    unfolding u by (cases "routes (Purge now t) d") simp_all
  show ?thesis by (intro conjI allI impI m r) (rule n)
qed

theorem link_break_invalidates_witness:
  "\<exists>u. GetListOfDestinationWithNextHop 5 (Ipv4 0x0A000003) (snd (AddRoute 0 route_a (RoutingTable 15)))
          = (u, Purge 5 (snd (AddRoute 0 route_a (RoutingTable 15))))
      \<and> map_of u (Ipv4 0x0A000002) = Some 7
      \<and> routes (InvalidateRoutesWithDst 5 u (Purge 5 (snd (AddRoute 0 route_a (RoutingTable 15))))) (Ipv4 0x0A000002)
          = Some (Invalidate 5 15 route_a)"
proof -
  let ?t = "snd (AddRoute 0 route_a (RoutingTable 15))"
  have g: "GetListOfDestinationWithNextHop 5 (Ipv4 0x0A000003) ?t
      = (fst (GetListOfDestinationWithNextHop 5 (Ipv4 0x0A000003) ?t), Purge 5 ?t)"
    by (simp add: GetListOfDestinationWithNextHop_def Let_def)
  have b: "bad_life ?t = 15" and r: "routes (Purge 5 ?t) (Ipv4 0x0A000002) = Some route_a" and v: "via (Ipv4 0x0A000003) route_a"
      "rt_seqNo route_a = 7" "rt_flag route_a = VALID"
    by (simp_all add: RoutingTable_def route_a_def RoutingTableEntry_def AddRoute_def Purge_def Let_def via_def GetLifeTime_def)
  have c: "0 \<le> bad_life ?t" using b by simp
  note f = link_break_invalidates[OF AddRoute_ok[OF RoutingTable_ok] c g, of "Ipv4 0x0A000002"]
  have "map_of (fst (GetListOfDestinationWithNextHop 5 (Ipv4 0x0A000003) ?t)) (Ipv4 0x0A000002) = Some 7"
    using f[THEN conjunct1] r v by simp
  moreover have "routes (InvalidateRoutesWithDst 5 (fst (GetListOfDestinationWithNextHop 5 (Ipv4 0x0A000003) ?t)) (Purge 5 ?t))
      (Ipv4 0x0A000002) = Some (Invalidate 5 15 route_a)"
    using f[THEN conjunct2, THEN conjunct1] r v b by simp
  ultimately show ?thesis using g by blast
qed

end
