(* ===== verification/Aodv_Id_Cache.thy ===== *)
theory Aodv_Id_Cache
  imports Ipv4_Address
begin

text \<open>
  The cache of packet identifiers (\<open>src/aodv/model/aodv-id-cache.cc\<close>, \<open>aodv-dpd.cc\<close>) that RREQ
  handling and duplicate packet detection share. Its entries expire by simulation time, so the
  whole behaviour is that of a map from identifiers to expiry times.
\<close>

record unique_id =
  uq_context :: ipv4
  uq_id :: u32
  uq_expire :: int

record id_cache =
  m_idCache :: "unique_id list"
  m_lifetime :: int

definition IsExpired :: "int \<Rightarrow> unique_id \<Rightarrow> bool" where
  "IsExpired now u \<longleftrightarrow> uq_expire u < now"

definition IdCache_Purge :: "int \<Rightarrow> id_cache \<Rightarrow> id_cache" where
  "IdCache_Purge now c = c\<lparr>m_idCache := filter (\<lambda>u. \<not> IsExpired now u) (m_idCache c)\<rparr>"

definition IdCache_IsDuplicate :: "int \<Rightarrow> ipv4 \<Rightarrow> u32 \<Rightarrow> id_cache \<Rightarrow> bool \<times> id_cache" where
  "IdCache_IsDuplicate now a i c =
     (let c' = IdCache_Purge now c in
      if \<exists>u \<in> set (m_idCache c'). ipv4_eq (uq_context u) a \<and> uq_id u = i then (True, c')
      else (False, c'\<lparr>m_idCache := m_idCache c' @ [\<lparr>uq_context = a, uq_id = i, uq_expire = m_lifetime c' + now\<rparr>]\<rparr>))"

definition IdCache_GetSize :: "int \<Rightarrow> id_cache \<Rightarrow> nat \<times> id_cache" where
  "IdCache_GetSize now c = (let c' = IdCache_Purge now c in (length (m_idCache c'), c'))"

definition IdCache_SetLifetime :: "int \<Rightarrow> id_cache \<Rightarrow> id_cache" where
  "IdCache_SetLifetime l c = c\<lparr>m_lifetime := l\<rparr>"

text \<open>Duplicate packet detection passes the 64-bit packet uid to the 32-bit parameter.\<close>

definition Dpd_IsDuplicate :: "int \<Rightarrow> ipv4 \<Rightarrow> u64 \<Rightarrow> id_cache \<Rightarrow> bool \<times> id_cache" where
  "Dpd_IsDuplicate now source uid c = IdCache_IsDuplicate now source (ucast uid) c"

subsection \<open>The abstract cache\<close>

text \<open>A query for a key answers whether the key is held and unexpired, and renews it when not.\<close>

type_synonym id_key = "ipv4 \<times> u32"

fun spec_query :: "int \<times> int \<times> id_key \<Rightarrow> (id_key \<Rightarrow> int option) \<Rightarrow> bool \<times> (id_key \<Rightarrow> int option)" where
  "spec_query (now, life, k) m = (case m k of
     Some e \<Rightarrow> if now \<le> e then (True, m) else (False, m(k \<mapsto> life + now))
   | None \<Rightarrow> (False, m(k \<mapsto> life + now)))"

fun cache_query :: "int \<times> int \<times> id_key \<Rightarrow> id_cache \<Rightarrow> bool \<times> id_cache" where
  "cache_query (now, life, (a, i)) c = IdCache_IsDuplicate now a i (IdCache_SetLifetime life c)"

fun answers :: "('q \<Rightarrow> 's \<Rightarrow> bool \<times> 's) \<Rightarrow> 'q list \<Rightarrow> 's \<Rightarrow> bool list" where
  "answers step [] s = []"
| "answers step (q # qs) s = (let (b, s') = step q s in b # answers step qs s')"

definition uq_key :: "unique_id \<Rightarrow> id_key" where
  "uq_key u = (uq_context u, uq_id u)"

text \<open>
  The simulation: what the list and the map say of the present and the future agrees; what has
  expired may differ.
\<close>

definition cache_rel :: "int \<Rightarrow> id_cache \<Rightarrow> (id_key \<Rightarrow> int option) \<Rightarrow> bool" where
  "cache_rel now c m \<longleftrightarrow> (\<forall>k e. now \<le> e \<longrightarrow> (m k = Some e \<longleftrightarrow> (\<exists>u \<in> set (m_idCache c). uq_key u = k \<and> uq_expire u = e)))"

lemma cache_rel_mono: "cache_rel t c m \<Longrightarrow> t \<le> now \<Longrightarrow> cache_rel now c m"
  by (auto simp: cache_rel_def)

lemma IsDuplicate_eq: "cache_query (now, life, k) c =
   (if \<exists>u \<in> set (m_idCache c). uq_key u = k \<and> now \<le> uq_expire u
    then (True, IdCache_Purge now (IdCache_SetLifetime life c))
    else (False, (IdCache_Purge now (IdCache_SetLifetime life c))\<lparr>m_idCache := filter (\<lambda>u. now \<le> uq_expire u) (m_idCache c)
            @ [\<lparr>uq_context = fst k, uq_id = snd k, uq_expire = life + now\<rparr>]\<rparr>))"
  by (cases k) (auto simp: IdCache_IsDuplicate_def Let_def IdCache_Purge_def IdCache_SetLifetime_def IsExpired_def uq_key_def not_less)

lemma query_step:
  assumes "cache_rel now c m"
  shows "fst (cache_query (now, life, k) c) = fst (spec_query (now, life, k) m)
    \<and> cache_rel now (snd (cache_query (now, life, k) c)) (snd (spec_query (now, life, k) m))"
proof -
  have R: "\<And>k e. now \<le> e \<Longrightarrow> m k = Some e \<longleftrightarrow> (\<exists>u \<in> set (m_idCache c). uq_key u = k \<and> uq_expire u = e)"
    using assms unfolding cache_rel_def by blast
  have held: "(\<exists>u \<in> set (m_idCache c). uq_key u = k \<and> now \<le> uq_expire u) \<longleftrightarrow> (\<exists>e. m k = Some e \<and> now \<le> e)"
    using R by metis
  show ?thesis
  proof (cases "\<exists>u \<in> set (m_idCache c). uq_key u = k \<and> now \<le> uq_expire u")
    case True
    then obtain e where "m k = Some e" "now \<le> e" using held by blast
    then have s: "spec_query (now, life, k) m = (True, m)" by simp
    have c: "cache_query (now, life, k) c = (True, IdCache_Purge now (IdCache_SetLifetime life c))"
      by (simp only: IsDuplicate_eq True if_True)
    have "cache_rel now (IdCache_Purge now (IdCache_SetLifetime life c)) m"
      using R unfolding cache_rel_def IdCache_Purge_def IdCache_SetLifetime_def IsExpired_def by fastforce
    then show ?thesis by (simp only: s c fst_conv snd_conv simp_thms)
  next
    case False
    then have s: "spec_query (now, life, k) m = (False, m(k \<mapsto> life + now))"
      using held by (auto split: option.split)
    define n where "n = \<lparr>uq_context = fst k, uq_id = snd k, uq_expire = life + now\<rparr>"
    have n: "uq_key n = k" "uq_expire n = life + now" by (simp_all add: n_def uq_key_def)
    have "(m(k \<mapsto> life + now)) k' = Some e \<longleftrightarrow>
        (\<exists>u \<in> set (filter (\<lambda>u. now \<le> uq_expire u) (m_idCache c) @ [n]). uq_key u = k' \<and> uq_expire u = e)" if "now \<le> e" for k' e
    proof (cases "k' = k")
      case True
      then show ?thesis using False that n by auto
    next
      case neq: False
      then show ?thesis using R[OF that, of k'] that n by auto
    qed
    note sim = this
    have c: "cache_query (now, life, k) c = (False, (IdCache_Purge now (IdCache_SetLifetime life c))
        \<lparr>m_idCache := filter (\<lambda>u. now \<le> uq_expire u) (m_idCache c)
            @ [n]\<rparr>)"
      by (simp only: IsDuplicate_eq False if_False n_def)
    have "m_idCache (snd (cache_query (now, life, k) c)) = filter (\<lambda>u. now \<le> uq_expire u) (m_idCache c) @ [n]"
      by (simp add: c)
    with sim have "cache_rel now (snd (cache_query (now, life, k) c)) (m(k \<mapsto> life + now))"
      unfolding cache_rel_def by simp
    then show ?thesis by (simp only: s c fst_conv snd_conv simp_thms)
  qed
qed

lemma answers_refine:
  "sorted_wrt (\<le>) (t # map fst qs) \<Longrightarrow> cache_rel t c m \<Longrightarrow> answers cache_query qs c = answers spec_query qs m"
proof (induction qs arbitrary: t c m)
  case (Cons q qs)
  obtain now life k where q: "q = (now, life, k)" by (cases q) auto
  have "cache_rel now c m" using Cons.prems q by (intro cache_rel_mono[OF Cons.prems(2)]) simp
  from query_step[OF this, of life k] have
    s: "fst (cache_query q c) = fst (spec_query q m)" "cache_rel now (snd (cache_query q c)) (snd (spec_query q m))"
    unfolding q by auto
  have "answers cache_query qs (snd (cache_query q c)) = answers spec_query qs (snd (spec_query q m))"
    using Cons.prems q by (intro Cons.IH[OF _ s(2)]) auto
  with s(1) show ?case by (simp add: case_prod_beta)
qed simp

text \<open>
  C34. The identifier cache is a map from identifiers to expiry times: for any sequence of queries in
  the order of simulation time, with any lifetimes set in between, \<open>IsDuplicate\<close> answers as the
  map does - \<open>true\<close> exactly for an identifier accepted before and not yet expired, which a repeated
  query does not prolong.
\<close>

theorem IdCache_refines_map:
  assumes "sorted_wrt (\<le>) (map fst queries)"
  shows "answers cache_query queries \<lparr>m_idCache = [], m_lifetime = l\<rparr> = answers spec_query queries (\<lambda>_. None)"
proof (cases queries)
  case (Cons q qs)
  have "cache_rel (fst q) \<lparr>m_idCache = [], m_lifetime = l\<rparr> (\<lambda>_. None)" by (simp add: cache_rel_def)
  moreover have "sorted_wrt (\<le>) (fst q # map fst queries)" using assms Cons by auto
  ultimately show ?thesis by (rule answers_refine[rotated])
qed simp

theorem IdCache_refines_map_witness:
  "sorted_wrt (\<le>) (map fst [(0, 5, (Ipv4 7, 1)), (3, 5, (Ipv4 7, 1)), (6, 5, (Ipv4 7, 1 :: u32) :: id_key) :: int \<times> int \<times> id_key])
   \<and> answers cache_query [(0, 5, (Ipv4 7, 1)), (3, 5, (Ipv4 7, 1)), (6, 5, (Ipv4 7, 1))] \<lparr>m_idCache = [], m_lifetime = 0\<rparr>
     = [False, True, False]"
  using IdCache_refines_map[of "[(0, 5, (Ipv4 7, 1)), (3, 5, (Ipv4 7, 1)), (6, 5, (Ipv4 7, 1))]" 0] by simp

end
