(* ===== verification/Aodv_Queue.thy ===== *)
theory Aodv_Queue
  imports Ipv4_Address
begin

text \<open>
  The queue of packets that wait for a route (\<open>src/aodv/model/aodv-rqueue.cc\<close>). The forward and
  error callbacks an entry carries belong to the environment: \<open>Drop\<close> calls the error callback,
  which the model records by returning the dropped entries, in the order of the calls.
  \<open>None\<close> is the access to the front of an empty vector.
\<close>

record ip_header =
  ih_source :: ipv4
  ih_destination :: ipv4
  ih_ttl :: u8

text \<open>
  A packet is its uid and the interface of its \<open>DeferredRouteOutputTag\<close>, when it carries that tag;
  \<open>-1\<close> stands for no interface.
\<close>

record packet =
  pk_uid :: u64
  pk_tag :: "int option"

record queue_entry =
  qe_packet :: packet
  qe_header :: ip_header
  qe_expire :: int

definition QueueEntry :: "int \<Rightarrow> packet \<Rightarrow> ip_header \<Rightarrow> queue_entry" where
  "QueueEntry now p h = \<lparr>qe_packet = p, qe_header = h, qe_expire = now + now\<rparr>"

definition SetExpireTime :: "int \<Rightarrow> int \<Rightarrow> queue_entry \<Rightarrow> queue_entry" where
  "SetExpireTime now x e = e\<lparr>qe_expire := x + now\<rparr>"

definition GetExpireTime :: "int \<Rightarrow> queue_entry \<Rightarrow> int" where
  "GetExpireTime now e = qe_expire e - now"

record rqueue =
  m_queue :: "queue_entry list"
  m_maxLen :: nat
  m_queueTimeout :: int

definition entry_expired :: "int \<Rightarrow> queue_entry \<Rightarrow> bool" where
  "entry_expired now e \<longleftrightarrow> GetExpireTime now e < 0"

definition entry_dst :: "queue_entry \<Rightarrow> ipv4" where
  "entry_dst e = ih_destination (qe_header e)"

definition RequestQueue_Purge :: "int \<Rightarrow> rqueue \<Rightarrow> queue_entry list \<times> rqueue" where
  "RequestQueue_Purge now q =
     (filter (entry_expired now) (m_queue q), q\<lparr>m_queue := filter (\<lambda>e. \<not> entry_expired now e) (m_queue q)\<rparr>)"

definition RequestQueue_GetSize :: "int \<Rightarrow> rqueue \<Rightarrow> nat \<times> queue_entry list \<times> rqueue" where
  "RequestQueue_GetSize now q = (let (d, q1) = RequestQueue_Purge now q in (length (m_queue q1), d, q1))"

definition Enqueue :: "int \<Rightarrow> queue_entry \<Rightarrow> rqueue \<Rightarrow> (bool \<times> queue_entry list \<times> rqueue) option" where
  "Enqueue now entry q = (let (d, q1) = RequestQueue_Purge now q in
     if \<exists>i \<in> set (m_queue q1). pk_uid (qe_packet i) = pk_uid (qe_packet entry) \<and> ipv4_eq (entry_dst i) (entry_dst entry)
     then Some (False, d, q1)
     else let entry' = SetExpireTime now (m_queueTimeout q1) entry in
       if length (m_queue q1) = m_maxLen q1 then
         (case m_queue q1 of
            [] \<Rightarrow> None
          | front # rest \<Rightarrow> Some (True, d @ [front], q1\<lparr>m_queue := rest @ [entry']\<rparr>))
       else Some (True, d, q1\<lparr>m_queue := m_queue q1 @ [entry']\<rparr>))"

definition DropPacketWithDst :: "int \<Rightarrow> ipv4 \<Rightarrow> rqueue \<Rightarrow> queue_entry list \<times> rqueue" where
  "DropPacketWithDst now dst q = (let (d, q1) = RequestQueue_Purge now q in
     (d @ filter (\<lambda>e. ipv4_eq (entry_dst e) dst) (m_queue q1),
      q1\<lparr>m_queue := filter (\<lambda>e. \<not> ipv4_eq (entry_dst e) dst) (m_queue q1)\<rparr>))"

definition Dequeue :: "int \<Rightarrow> ipv4 \<Rightarrow> rqueue \<Rightarrow> queue_entry option \<times> queue_entry list \<times> rqueue" where
  "Dequeue now dst q = (let (d, q1) = RequestQueue_Purge now q in
     case erase_first (\<lambda>e. ipv4_eq (entry_dst e) dst) (m_queue q1) of
       None \<Rightarrow> (None, d, q1)
     | Some (e, es) \<Rightarrow> (Some e, d, q1\<lparr>m_queue := es\<rparr>))"

definition Find :: "ipv4 \<Rightarrow> rqueue \<Rightarrow> bool" where
  "Find dst q \<longleftrightarrow> (\<exists>e \<in> set (m_queue q). ipv4_eq (entry_dst e) dst)"

definition SetMaxQueueLen :: "nat \<Rightarrow> rqueue \<Rightarrow> rqueue" where
  "SetMaxQueueLen n q = q\<lparr>m_maxLen := n\<rparr>"

definition SetQueueTimeout :: "int \<Rightarrow> rqueue \<Rightarrow> rqueue" where
  "SetQueueTimeout x q = q\<lparr>m_queueTimeout := x\<rparr>"

subsection \<open>Sequences of calls\<close>

datatype rq_call = RqEnqueue queue_entry | RqDequeue ipv4 | RqDropDst ipv4 | RqGetSize | RqFind ipv4

text \<open>What a call accepts into the queue, delivers from it, and drops.\<close>

record rq_log =
  accepted :: "queue_entry list"
  delivered :: "queue_entry list"
  dropped :: "queue_entry list"

fun rq_do :: "int \<times> rq_call \<Rightarrow> rq_log \<times> rqueue \<Rightarrow> (rq_log \<times> rqueue) option" where
  "rq_do (now, RqEnqueue e) (l, q) = map_option (\<lambda>(b, d, q').
     (l\<lparr>accepted := accepted l @ (if b then [SetExpireTime now (m_queueTimeout q) e] else []), dropped := dropped l @ d\<rparr>, q'))
     (Enqueue now e q)"
| "rq_do (now, RqDequeue dst) (l, q) = (case Dequeue now dst q of (r, d, q') \<Rightarrow>
     Some (l\<lparr>delivered := delivered l @ (case r of None \<Rightarrow> [] | Some e \<Rightarrow> [e]), dropped := dropped l @ d\<rparr>, q'))"
| "rq_do (now, RqDropDst dst) (l, q) = (case DropPacketWithDst now dst q of (d, q') \<Rightarrow> Some (l\<lparr>dropped := dropped l @ d\<rparr>, q'))"
| "rq_do (now, RqGetSize) (l, q) = (case RequestQueue_GetSize now q of (n, d, q') \<Rightarrow> Some (l\<lparr>dropped := dropped l @ d\<rparr>, q'))"
| "rq_do (now, RqFind dst) (l, q) = Some (l, q)"

fun rq_run :: "(int \<times> rq_call) list \<Rightarrow> rq_log \<times> rqueue \<Rightarrow> (rq_log \<times> rqueue) option" where
  "rq_run [] s = Some s"
| "rq_run (c # cs) s = Option.bind (rq_do c s) (rq_run cs)"

definition rq_inv :: "rq_log \<times> rqueue \<Rightarrow> bool" where
  "rq_inv s \<longleftrightarrow> (case s of (l, q) \<Rightarrow>
     mset (accepted l) = mset (delivered l) + mset (dropped l) + mset (m_queue q) \<and>
     length (m_queue q) \<le> m_maxLen q \<and>
     distinct (map (\<lambda>e. (pk_uid (qe_packet e), entry_dst e)) (m_queue q)))"

abbreviation rq_id :: "queue_entry \<Rightarrow> u64 \<times> ipv4" where
  "rq_id e \<equiv> (pk_uid (qe_packet e), entry_dst e)"

lemma Purge_split: "RequestQueue_Purge now q = (d, q1) \<Longrightarrow>
   mset (m_queue q) = mset d + mset (m_queue q1) \<and> length (m_queue q1) \<le> length (m_queue q) \<and> m_maxLen q1 = m_maxLen q
   \<and> m_queueTimeout q1 = m_queueTimeout q \<and> (distinct (map rq_id (m_queue q)) \<longrightarrow> distinct (map rq_id (m_queue q1)))"
  by (auto simp: RequestQueue_Purge_def distinct_map_filter intro: multiset_partition[of "mset _", simplified])

lemma Enqueue_cases:
  assumes P: "RequestQueue_Purge now q = (d, q1)" and ok: "0 < m_maxLen q1"
  obtains (dup) "Enqueue now e q = Some (False, d, q1)"
  | (full) front rest where "m_queue q1 = front # rest" "length (m_queue q1) = m_maxLen q1"
      "rq_id e \<notin> rq_id ` set (m_queue q1)"
      "Enqueue now e q = Some (True, d @ [front], q1\<lparr>m_queue := rest @ [SetExpireTime now (m_queueTimeout q1) e]\<rparr>)"
  | (room) "length (m_queue q1) \<noteq> m_maxLen q1" "rq_id e \<notin> rq_id ` set (m_queue q1)"
      "Enqueue now e q = Some (True, d, q1\<lparr>m_queue := m_queue q1 @ [SetExpireTime now (m_queueTimeout q1) e]\<rparr>)"
proof -
  let ?dup = "\<exists>i \<in> set (m_queue q1). pk_uid (qe_packet i) = pk_uid (qe_packet e) \<and> ipv4_eq (entry_dst i) (entry_dst e)"
  have d: "?dup \<longleftrightarrow> rq_id e \<in> rq_id ` set (m_queue q1)" by (auto simp: image_iff eq_commute)
  show ?thesis
  proof (cases "?dup")
    case True
    then have "Enqueue now e q = Some (False, d, q1)" by (simp only: Enqueue_def P Let_def prod.case if_True)
    then show ?thesis by (rule dup)
  next
    case False
    note E = False Enqueue_def P Let_def prod.case if_False
    show ?thesis
    proof (cases "length (m_queue q1) = m_maxLen q1")
      case True
      then obtain front rest where q1: "m_queue q1 = front # rest" using ok by (cases "m_queue q1") auto
      with True have "Enqueue now e q =
          Some (True, d @ [front], q1\<lparr>m_queue := rest @ [SetExpireTime now (m_queueTimeout q1) e]\<rparr>)"
        using False[unfolded q1] by (simp only: Enqueue_def P Let_def prod.case if_False q1 True[unfolded q1] if_True list.case)
      with full q1 True False d show ?thesis by blast
    next
      case ne: False
      then have "Enqueue now e q = Some (True, d, q1\<lparr>m_queue := m_queue q1 @ [SetExpireTime now (m_queueTimeout q1) e]\<rparr>)"
        by (simp only: E if_False)
      with room ne False d show ?thesis by blast
    qed
  qed
qed

lemma SetExpireTime_id [simp]: "rq_id (SetExpireTime now x e) = rq_id e"
  "pk_uid (qe_packet (SetExpireTime now x e)) = pk_uid (qe_packet e)" "entry_dst (SetExpireTime now x e) = entry_dst e"
  by (simp_all add: SetExpireTime_def entry_dst_def)

lemma rq_do_inv:
  assumes "rq_inv (l, q)" and "0 < m_maxLen q"
  shows "\<exists>l' q'. rq_do c (l, q) = Some (l', q') \<and> rq_inv (l', q') \<and> m_maxLen q' = m_maxLen q"
proof -
  obtain now k where c: "c = (now, k)" by (cases c)
  obtain d q1 where P: "RequestQueue_Purge now q = (d, q1)" by (cases "RequestQueue_Purge now q")
  note Q = Purge_split[OF P]
  have inv: "mset (accepted l) = mset (delivered l) + mset (dropped l) + (mset d + mset (m_queue q1))"
    "length (m_queue q1) \<le> m_maxLen q1" "distinct (map rq_id (m_queue q1))"
    using assms Q by (auto simp: rq_inv_def)
  have pos: "0 < m_maxLen q1" using assms Q by simp
  show ?thesis
  proof (cases k)
    case (RqEnqueue e)
    show ?thesis
    proof (rule Enqueue_cases[OF P pos, of e])
      assume "Enqueue now e q = Some (False, d, q1)"
      then show ?thesis using inv Q by (simp add: c RqEnqueue rq_inv_def)
    next
      fix front rest
      assume "m_queue q1 = front # rest" "length (m_queue q1) = m_maxLen q1" "rq_id e \<notin> rq_id ` set (m_queue q1)"
        "Enqueue now e q = Some (True, d @ [front], q1\<lparr>m_queue := rest @ [SetExpireTime now (m_queueTimeout q1) e]\<rparr>)"
      then show ?thesis using inv Q by (simp add: c RqEnqueue rq_inv_def)
    next
      assume "length (m_queue q1) \<noteq> m_maxLen q1" "rq_id e \<notin> rq_id ` set (m_queue q1)"
        "Enqueue now e q = Some (True, d, q1\<lparr>m_queue := m_queue q1 @ [SetExpireTime now (m_queueTimeout q1) e]\<rparr>)"
      then show ?thesis using inv Q by (simp add: c RqEnqueue rq_inv_def)
    qed
  next
    case (RqDequeue dst)
    show ?thesis
    proof (cases "erase_first (\<lambda>e. ipv4_eq (entry_dst e) dst) (m_queue q1)")
      case None
      then have "rq_do c (l, q) = Some (l\<lparr>dropped := dropped l @ d\<rparr>, q1)"
        by (simp only: c RqDequeue rq_do.simps Dequeue_def P Let_def prod.case option.case) simp
      then show ?thesis using inv Q by (simp add: rq_inv_def)
    next
      case (Some r)
      obtain e es where r: "r = (e, es)" by (cases r)
      have "rq_do c (l, q) = Some (l\<lparr>delivered := delivered l @ [e], dropped := dropped l @ d\<rparr>, q1\<lparr>m_queue := es\<rparr>)"
        by (simp only: c RqDequeue rq_do.simps Dequeue_def P Let_def prod.case option.case Some r)
      moreover from erase_first_SomeD(3,4)[OF Some[unfolded r]] obtain as bs
        where "m_queue q1 = as @ e # bs" "es = as @ bs" "mset (m_queue q1) = add_mset e (mset es)" by blast
      ultimately show ?thesis using inv Q by (auto simp: rq_inv_def)
    qed
  next
    case (RqDropDst dst)
    have "mset (m_queue q1) = mset (filter (\<lambda>e. ipv4_eq (entry_dst e) dst) (m_queue q1)) + mset (filter (\<lambda>e. \<not> ipv4_eq (entry_dst e) dst) (m_queue q1))"
      by (simp only: mset_filter multiset_partition)
    then show ?thesis using inv Q P
      by (auto simp: c RqDropDst DropPacketWithDst_def rq_inv_def distinct_map_filter intro: order_trans[OF length_filter_le])
  next
    case RqGetSize
    then show ?thesis using inv Q P by (auto simp: c RequestQueue_GetSize_def rq_inv_def)
  next
    case (RqFind dst)
    then show ?thesis using assms by (auto simp: c)
  qed
qed

lemma rq_run_inv: "rq_inv (l, q) \<Longrightarrow> 0 < m_maxLen q \<Longrightarrow>
   \<exists>l' q'. rq_run cs (l, q) = Some (l', q') \<and> rq_inv (l', q') \<and> m_maxLen q' = m_maxLen q"
proof (induction cs arbitrary: l q)
  case (Cons c cs)
  from rq_do_inv[OF Cons.prems, of c] obtain l' q'
    where s: "rq_do c (l, q) = Some (l', q')" "rq_inv (l', q')" "m_maxLen q' = m_maxLen q" by blast
  from Cons.IH[OF s(2)] s(3) Cons.prems(2) show ?case by (simp add: s(1))
qed simp

abbreviation empty_log :: rq_log where "empty_log \<equiv> \<lparr>accepted = [], delivered = [], dropped = []\<rparr>"

text \<open>
  C35. No packet is lost or duplicated: for a queue of positive capacity and any sequence of calls at
  any times, no call fails, every accepted packet is either delivered once, dropped once with its error
  callback, or still queued; the capacity is never exceeded, and no two queued packets have the
  same uid and destination.
\<close>

theorem queue_conserves_packets:
  assumes "0 < n"
  shows "\<exists>l q. rq_run calls (empty_log, \<lparr>m_queue = [], m_maxLen = n, m_queueTimeout = timeout\<rparr>) = Some (l, q) \<and>
     mset (accepted l) = mset (delivered l) + mset (dropped l) + mset (m_queue q) \<and>
     length (m_queue q) \<le> n \<and> distinct (map rq_id (m_queue q))"
  using rq_run_inv[of empty_log "\<lparr>m_queue = [], m_maxLen = n, m_queueTimeout = timeout\<rparr>" calls] assms
  by (auto simp: rq_inv_def)

definition waiting :: "nat \<Rightarrow> queue_entry" where
  "waiting n = \<lparr>qe_packet = \<lparr>pk_uid = of_nat n, pk_tag = None\<rparr>,
     qe_header = \<lparr>ih_source = Ipv4 1, ih_destination = Ipv4 (of_nat (n mod 2)), ih_ttl = 64\<rparr>, qe_expire = 0\<rparr>"

theorem queue_conserves_packets_witness:
  "\<exists>l q. rq_run [(0, RqEnqueue (waiting 1)), (1, RqEnqueue (waiting 2)), (2, RqEnqueue (waiting 3)), (3, RqDequeue (Ipv4 1))]
       (empty_log, \<lparr>m_queue = [], m_maxLen = 2, m_queueTimeout = 30\<rparr>) = Some (l, q)
     \<and> mset (accepted l) = mset (delivered l) + mset (dropped l) + mset (m_queue q)"
  using queue_conserves_packets[of 2 "[(0, RqEnqueue (waiting 1)), (1, RqEnqueue (waiting 2)), (2, RqEnqueue (waiting 3)),
    (3, RqDequeue (Ipv4 1))]" 30] by auto

lemma filter_erase_first:
  assumes "erase_first p xs = Some (e, es)"
  shows "filter p xs = e # filter p es" and "filter (\<lambda>x. \<not> p x) xs = filter (\<lambda>x. \<not> p x) es"
proof -
  from erase_first_SomeD(1)[OF assms] have p: "p e" .
  have "filter p xs = e # filter p es \<and> filter (\<lambda>x. \<not> p x) xs = filter (\<lambda>x. \<not> p x) es"
    using assms by (induction xs arbitrary: es) (auto split: if_splits)
  then show "filter p xs = e # filter p es" and "filter (\<lambda>x. \<not> p x) xs = filter (\<lambda>x. \<not> p x) es" by auto
qed

lemma Dequeue_eq: "Dequeue now dst q =
   (case erase_first (\<lambda>e. entry_dst e = dst) (filter (\<lambda>e. \<not> entry_expired now e) (m_queue q)) of
      None \<Rightarrow> (None, filter (entry_expired now) (m_queue q), q\<lparr>m_queue := filter (\<lambda>e. \<not> entry_expired now e) (m_queue q)\<rparr>)
    | Some (e, es) \<Rightarrow> (Some e, filter (entry_expired now) (m_queue q), q\<lparr>m_queue := es\<rparr>))"
  by (simp add: Dequeue_def RequestQueue_Purge_def cong: option.case_cong)

text \<open>
  The queue is first-in first-out for each destination: \<open>Dequeue\<close> answers with the oldest unexpired
  packet of the destination (and with none exactly when there is none), leaves the order of all
  others, and drops exactly the expired ones.
\<close>

theorem Dequeue_is_fifo:
  assumes "Dequeue now dst q = (r, d, q')"
  shows "(case r of None \<Rightarrow> [] | Some e \<Rightarrow> [e]) @ filter (\<lambda>e. entry_dst e = dst) (m_queue q') =
        filter (\<lambda>e. entry_dst e = dst \<and> now \<le> qe_expire e) (m_queue q)
    \<and> filter (\<lambda>e. entry_dst e \<noteq> dst) (m_queue q') = filter (\<lambda>e. entry_dst e \<noteq> dst \<and> now \<le> qe_expire e) (m_queue q)
    \<and> d = filter (\<lambda>e. qe_expire e < now) (m_queue q)
    \<and> (r = None \<longleftrightarrow> (\<forall>e \<in> set (m_queue q). entry_dst e = dst \<longrightarrow> qe_expire e < now))"
proof -
  let ?live = "filter (\<lambda>e. \<not> entry_expired now e) (m_queue q)"
  have x: "entry_expired now = (\<lambda>e. qe_expire e < now)" by (auto simp: entry_expired_def GetExpireTime_def)
  have f: "filter P ?live = filter (\<lambda>e. P e \<and> now \<le> qe_expire e) (m_queue q)" for P
    by (simp add: x not_less conj_commute)
  show ?thesis
  proof (cases "erase_first (\<lambda>e. entry_dst e = dst) ?live")
    case None
    then have D: "r = None" "d = filter (entry_expired now) (m_queue q)" "m_queue q' = ?live"
      using assms unfolding Dequeue_eq None option.case by auto
    have "filter (\<lambda>e. entry_dst e = dst \<and> now \<le> qe_expire e) (m_queue q) = []"
      using None by (auto simp: x filter_empty_conv)
    with None show ?thesis unfolding D f by (auto simp: x filter_empty_conv)
  next
    case (Some p)
    obtain e es where p: "p = (e, es)" by (cases p)
    then have D: "r = Some e" "d = filter (entry_expired now) (m_queue q)" "m_queue q' = es"
      using assms Some unfolding Dequeue_eq by auto
    note F = filter_erase_first[OF Some[unfolded p]]
    have "e \<in> set ?live" "entry_dst e = dst" using erase_first_SomeD(1,2)[OF Some[unfolded p]] by auto
    then have "\<exists>e \<in> set (m_queue q). entry_dst e = dst \<and> now \<le> qe_expire e" by (auto simp: x not_less)
    with F[unfolded f] show ?thesis unfolding D by (auto simp: x)
  qed
qed

theorem Dequeue_is_fifo_witness:
  "\<exists>d q'. Dequeue 5 (Ipv4 1) \<lparr>m_queue = [(waiting 1)\<lparr>qe_expire := 2\<rparr>, (waiting 2)\<lparr>qe_expire := 9\<rparr>, (waiting 3)\<lparr>qe_expire := 9\<rparr>],
       m_maxLen = 4, m_queueTimeout = 30\<rparr> = (Some ((waiting 3)\<lparr>qe_expire := 9\<rparr>), d, q')
     \<and> d = [(waiting 1)\<lparr>qe_expire := 2\<rparr>]"
proof -
  let ?q = "\<lparr>m_queue = [(waiting 1)\<lparr>qe_expire := 2\<rparr>, (waiting 2)\<lparr>qe_expire := 9\<rparr>, (waiting 3)\<lparr>qe_expire := 9\<rparr>],
       m_maxLen = 4, m_queueTimeout = 30\<rparr>"
  obtain r d q' where D: "Dequeue 5 (Ipv4 1) ?q = (r, d, q')" by (cases "Dequeue 5 (Ipv4 1) ?q") auto
  from Dequeue_is_fifo[OF D] have "d = [(waiting 1)\<lparr>qe_expire := 2\<rparr>]"
    and "(case r of None \<Rightarrow> [] | Some e \<Rightarrow> [e]) @ filter (\<lambda>e. entry_dst e = Ipv4 1) (m_queue q') = [(waiting 3)\<lparr>qe_expire := 9\<rparr>]"
    and "r \<noteq> None" by (simp_all add: waiting_def entry_dst_def)
  with D show ?thesis by (cases r) auto
qed

end
