(* ===== verification/Aodv_Neighbors.thy ===== *)
theory Aodv_Neighbors
  imports Ipv4_Address
begin

text \<open>
  The list of active neighbours (\<open>src/aodv/model/aodv-neighbor.cc\<close>). \<open>Purge\<close> reports a neighbour that
  expired or whose link failed to the callback \<open>m_handleLinkFailure\<close>; the callback does not come back to
  the list, so the model returns the addresses reported, in the order of the calls. MAC addresses are
  numbers, 0 being the default \<open>Mac48Address ()\<close>. An ARP cache is the list of its entries, as
  \<open>ArpCache::Lookup\<close> finds them.
\<close>

record arp_entry =
  ae_alive :: bool
  ae_permanent :: bool
  ae_expired :: bool
  ae_mac :: nat

type_synonym arp_cache = "nat \<times> (ipv4 \<times> arp_entry) list"

record neighbor =
  m_neighborAddress :: ipv4
  m_hardwareAddress :: nat
  m_expireTime :: int
  nb_close :: bool

record neighbors =
  m_nb :: "neighbor list"
  m_arp :: "arp_cache list"
  m_ntimer_delay :: int
  m_ntimer :: "int option"
  has_callback :: bool

definition Neighbors :: "int \<Rightarrow> neighbors" where
  "Neighbors delay = \<lparr>m_nb = [], m_arp = [], m_ntimer_delay = delay, m_ntimer = None, has_callback = False\<rparr>"

definition CloseNeighbor :: "int \<Rightarrow> neighbor \<Rightarrow> bool" where
  "CloseNeighbor now nb \<longleftrightarrow> m_expireTime nb < now \<or> nb_close nb"

definition ScheduleTimer :: "int \<Rightarrow> neighbors \<Rightarrow> neighbors" where
  "ScheduleTimer now n = n\<lparr>m_ntimer := Some (now + m_ntimer_delay n)\<rparr>"

definition Neighbors_Purge :: "int \<Rightarrow> neighbors \<Rightarrow> ipv4 list \<times> neighbors" where
  "Neighbors_Purge now n =
     (if m_nb n = [] then ([], n)
      else (if has_callback n then map m_neighborAddress (filter (CloseNeighbor now) (m_nb n)) else [],
            ScheduleTimer now (n\<lparr>m_nb := filter (\<lambda>nb. \<not> CloseNeighbor now nb) (m_nb n)\<rparr>)))"

definition find_neighbor :: "ipv4 \<Rightarrow> neighbors \<Rightarrow> neighbor option" where
  "find_neighbor a n = find (\<lambda>nb. ipv4_eq (m_neighborAddress nb) a) (m_nb n)"

definition IsNeighbor :: "int \<Rightarrow> ipv4 \<Rightarrow> neighbors \<Rightarrow> bool \<times> ipv4 list \<times> neighbors" where
  "IsNeighbor now a n = (let (d, n1) = Neighbors_Purge now n in (find_neighbor a n1 \<noteq> None, d, n1))"

definition Neighbors_GetExpireTime :: "int \<Rightarrow> ipv4 \<Rightarrow> neighbors \<Rightarrow> int \<times> ipv4 list \<times> neighbors" where
  "Neighbors_GetExpireTime now a n = (let (d, n1) = Neighbors_Purge now n in
     (case find_neighbor a n1 of Some nb \<Rightarrow> m_expireTime nb - now | None \<Rightarrow> 0, d, n1))"

fun lookup_arp :: "ipv4 \<Rightarrow> arp_cache list \<Rightarrow> nat" where
  "lookup_arp a [] = 0"
| "lookup_arp a ((_, c) # cs) = (case map_of c a of
     Some e \<Rightarrow> if (ae_alive e \<or> ae_permanent e) \<and> \<not> ae_expired e then ae_mac e else lookup_arp a cs
   | None \<Rightarrow> lookup_arp a cs)"

definition LookupMacAddress :: "ipv4 \<Rightarrow> neighbors \<Rightarrow> nat" where
  "LookupMacAddress a n = lookup_arp a (m_arp n)"

fun update_first :: "('a \<Rightarrow> bool) \<Rightarrow> ('a \<Rightarrow> 'a) \<Rightarrow> 'a list \<Rightarrow> 'a list" where
  "update_first p f [] = []"
| "update_first p f (x # xs) = (if p x then f x # xs else x # update_first p f xs)"

definition Neighbors_Update :: "int \<Rightarrow> ipv4 \<Rightarrow> int \<Rightarrow> neighbors \<Rightarrow> ipv4 list \<times> neighbors" where
  "Neighbors_Update now a expire n =
     (if find_neighbor a n \<noteq> None then
        ([], n\<lparr>m_nb := update_first (\<lambda>nb. ipv4_eq (m_neighborAddress nb) a)
           (\<lambda>nb. nb\<lparr>m_expireTime := max (expire + now) (m_expireTime nb),
                    m_hardwareAddress := (if m_hardwareAddress nb = 0 then LookupMacAddress (m_neighborAddress nb) n
                      else m_hardwareAddress nb)\<rparr>) (m_nb n)\<rparr>)
      else Neighbors_Purge now (n\<lparr>m_nb := m_nb n @
        [\<lparr>m_neighborAddress = a, m_hardwareAddress = LookupMacAddress a n, m_expireTime = expire + now, nb_close = False\<rparr>]\<rparr>))"

definition Neighbors_Clear :: "neighbors \<Rightarrow> neighbors" where
  "Neighbors_Clear n = n\<lparr>m_nb := []\<rparr>"

definition AddArpCache :: "arp_cache \<Rightarrow> neighbors \<Rightarrow> neighbors" where
  "AddArpCache c n = n\<lparr>m_arp := m_arp n @ [c]\<rparr>"

definition DelArpCache :: "nat \<Rightarrow> neighbors \<Rightarrow> neighbors" where
  "DelArpCache c n = n\<lparr>m_arp := filter (\<lambda>d. fst d \<noteq> c) (m_arp n)\<rparr>"

definition Neighbors_SetCallback :: "neighbors \<Rightarrow> neighbors" where
  "Neighbors_SetCallback n = n\<lparr>has_callback := True\<rparr>"

definition ProcessTxError :: "int \<Rightarrow> nat \<Rightarrow> neighbors \<Rightarrow> ipv4 list \<times> neighbors" where
  "ProcessTxError now mac n =
     Neighbors_Purge now (n\<lparr>m_nb := map (\<lambda>nb. if m_hardwareAddress nb = mac then nb\<lparr>nb_close := True\<rparr> else nb) (m_nb n)\<rparr>)"

subsection \<open>Facts\<close>

text \<open>
  The list holds each address once, and a link marked as failed has been purged when the call that
  marked it returns.
\<close>

definition nb_ok :: "neighbors \<Rightarrow> bool" where
  "nb_ok n \<longleftrightarrow> distinct (map m_neighborAddress (m_nb n)) \<and> (\<forall>nb \<in> set (m_nb n). \<not> nb_close nb)"

definition nb_at :: "neighbors \<Rightarrow> ipv4 \<Rightarrow> neighbor option" where
  "nb_at n a = find_neighbor a n"

lemma nb_at_iff: "distinct (map m_neighborAddress (m_nb n)) \<Longrightarrow>
   nb_at n a = Some nb \<longleftrightarrow> nb \<in> set (m_nb n) \<and> m_neighborAddress nb = a"
proof -
  have "distinct (map m_neighborAddress xs) \<Longrightarrow> find (\<lambda>nb. m_neighborAddress nb = a) xs = Some nb \<longleftrightarrow>
      nb \<in> set xs \<and> m_neighborAddress nb = a" for xs by (induction xs) auto
  then show "distinct (map m_neighborAddress (m_nb n)) \<Longrightarrow> nb_at n a = Some nb \<longleftrightarrow> nb \<in> set (m_nb n) \<and> m_neighborAddress nb = a"
    by (simp add: nb_at_def find_neighbor_def)
qed

lemma nb_at_None: "nb_at n a = None \<longleftrightarrow> a \<notin> m_neighborAddress ` set (m_nb n)"
  by (auto simp: nb_at_def find_neighbor_def find_None_iff)

lemma Purge_nb: "m_nb (snd (Neighbors_Purge now n)) = filter (\<lambda>nb. \<not> CloseNeighbor now nb) (m_nb n)"
  by (simp add: Neighbors_Purge_def ScheduleTimer_def)

lemma Purge_reports: "fst (Neighbors_Purge now n) =
   (if has_callback n then map m_neighborAddress (filter (CloseNeighbor now) (m_nb n)) else [])"
  by (simp add: Neighbors_Purge_def)

lemma Purge_nb_ok: "distinct (map m_neighborAddress (m_nb n)) \<Longrightarrow> nb_ok (snd (Neighbors_Purge now n))"
  by (auto simp: nb_ok_def Purge_nb distinct_map_filter CloseNeighbor_def)

lemma update_first_map: "(\<And>x. p x \<Longrightarrow> g (f x) = g x) \<Longrightarrow> map g (update_first p f xs) = map g xs"
  by (induction xs) auto

lemma update_first_eq_map: "distinct (map g xs) \<Longrightarrow> (\<And>x. p x \<longleftrightarrow> g x = a) \<Longrightarrow>
   update_first p f xs = map (\<lambda>x. if p x then f x else x) xs"
proof (induction xs)
  case (Cons x xs)
  show ?case
  proof (cases "p x")
    case True
    then have "\<forall>y \<in> set xs. \<not> p y" using Cons.prems(1) unfolding Cons.prems(2) by (auto simp: image_iff)
    then show ?thesis using True by (simp add: map_idI)
  qed (use Cons in simp)
qed simp

lemma Update_nb: "nb_ok n \<Longrightarrow> m_nb (snd (Neighbors_Update now a x n)) =
   (if a \<in> m_neighborAddress ` set (m_nb n) then map (\<lambda>nb. if m_neighborAddress nb = a
       then nb\<lparr>m_expireTime := max (x + now) (m_expireTime nb),
               m_hardwareAddress := (if m_hardwareAddress nb = 0 then LookupMacAddress a n else m_hardwareAddress nb)\<rparr> else nb) (m_nb n)
    else filter (\<lambda>nb. \<not> CloseNeighbor now nb)
      (m_nb n @ [\<lparr>m_neighborAddress = a, m_hardwareAddress = LookupMacAddress a n, m_expireTime = x + now, nb_close = False\<rparr>]))"
  using nb_at_None[of n a]
  by (auto simp: Neighbors_Update_def Purge_nb nb_ok_def nb_at_def
      update_first_eq_map[of m_neighborAddress "m_nb n" "\<lambda>nb. m_neighborAddress nb = a" a])

lemma nb_Update_ok: "nb_ok n \<Longrightarrow> nb_ok (snd (Neighbors_Update now a x n))"
proof -
  assume n: "nb_ok n"
  then have d: "distinct (map m_neighborAddress (m_nb n))" and c: "\<forall>nb \<in> set (m_nb n). \<not> nb_close nb"
    by (simp_all add: nb_ok_def)
  show ?thesis
  proof (cases "a \<in> m_neighborAddress ` set (m_nb n)")
    case True
    define f where "f nb = (if m_neighborAddress nb = a then nb\<lparr>m_expireTime := max (x + now) (m_expireTime nb),
        m_hardwareAddress := (if m_hardwareAddress nb = 0 then LookupMacAddress a n else m_hardwareAddress nb)\<rparr> else nb)"
      for nb :: neighbor
    have f: "m_neighborAddress (f nb) = m_neighborAddress nb" "nb_close (f nb) = nb_close nb" for nb by (simp_all add: f_def)
    have m: "m_nb (snd (Neighbors_Update now a x n)) = map f (m_nb n)"
      unfolding Update_nb[OF n] using True by (simp add: f_def[abs_def])
    show ?thesis unfolding nb_ok_def m using d c by (simp add: f comp_def)
  next
    case False
    then show ?thesis using d c by (auto simp: nb_ok_def Update_nb[OF n] distinct_map_filter)
  qed
qed

subsection \<open>What the list promises\<close>

text \<open>
  Link failure detection is complete and exact: a transmission error to a MAC address closes every
  neighbour known under that address, reports each closed or expired neighbour to the callback exactly
  once, removes exactly those, and leaves every other neighbour as it was.
\<close>

theorem neighbors_report_failures:
  assumes ok: "nb_ok n" and cb: "has_callback n" and P: "ProcessTxError now mac n = (reported, n')"
  shows "distinct reported
    \<and> set reported = {a. \<exists>nb. nb_at n a = Some nb \<and> (m_hardwareAddress nb = mac \<or> m_expireTime nb < now)}
    \<and> (\<forall>a. nb_at n' a = (if a \<in> set reported then None else nb_at n a)) \<and> nb_ok n'"
proof -
  define marked where "marked = n\<lparr>m_nb := map (\<lambda>nb. if m_hardwareAddress nb = mac then nb\<lparr>nb_close := True\<rparr> else nb) (m_nb n)\<rparr>"
  let ?gone = "\<lambda>nb. m_hardwareAddress nb = mac \<or> m_expireTime nb < now"
  have d: "distinct (map m_neighborAddress (m_nb n))" and open_link: "\<forall>nb \<in> set (m_nb n). \<not> nb_close nb" using ok by (simp_all add: nb_ok_def)
  have same: "map m_neighborAddress (m_nb marked) = map m_neighborAddress (m_nb n)"
    by (simp add: marked_def comp_def if_distrib cong: if_cong)
  have n': "reported = fst (Neighbors_Purge now marked)" "n' = snd (Neighbors_Purge now marked)"
    using P by (simp_all add: ProcessTxError_def marked_def)
  have "map m_neighborAddress (filter (CloseNeighbor now) (map f xs)) = map m_neighborAddress (filter ?gone xs)
      \<and> filter (\<lambda>nb. \<not> CloseNeighbor now nb) (map f xs) = filter (\<lambda>nb. \<not> ?gone nb) xs"
    if "\<forall>nb \<in> set xs. \<not> nb_close nb" and "f = (\<lambda>nb. if m_hardwareAddress nb = mac then nb\<lparr>nb_close := True\<rparr> else nb)" for xs f
    using that(1) unfolding that(2) by (induction xs) (auto simp: CloseNeighbor_def)
  from this[OF open_link refl] have
    r: "reported = map m_neighborAddress (filter ?gone (m_nb n))" and
    k: "m_nb n' = filter (\<lambda>nb. \<not> ?gone nb) (m_nb n)"
    using cb by (simp_all add: n' Purge_reports Purge_nb marked_def)
  have ok': "nb_ok n'" unfolding n'(2) by (rule Purge_nb_ok) (simp add: same d)
  have s: "set reported = {a. \<exists>nb. nb_at n a = Some nb \<and> ?gone nb}"
    by (auto simp: r nb_at_iff[OF d])
  have "nb_at n' a = (if a \<in> set reported then None else nb_at n a)" for a
  proof (cases "nb_at n a")
    case None
    then have "nb_at n' a = None" by (auto simp: nb_at_None k)
    with None show ?thesis by simp
  next
    case (Some nb)
    then have m: "nb \<in> set (m_nb n)" "m_neighborAddress nb = a" using nb_at_iff[OF d] by auto
    have uniq: "nb' = nb" if "nb' \<in> set (m_nb n)" "m_neighborAddress nb' = a" for nb'
      using that m d by (auto simp: distinct_map inj_on_def)
    show ?thesis
    proof (cases "?gone nb")
      case True
      then have "nb_at n' a = None" using uniq by (auto simp: nb_at_None k)
      then show ?thesis using True Some by (auto simp: s)
    next
      case False
      then have "nb_at n' a = Some nb" using m ok' by (simp add: nb_at_iff nb_ok_def k)
      then show ?thesis using False Some by (auto simp: s)
    qed
  qed
  moreover have "distinct reported" using d by (simp add: r distinct_map_filter)
  ultimately show ?thesis using s ok' by blast
qed

definition two_neighbors :: neighbors where
  "two_neighbors = (Neighbors 1)\<lparr>has_callback := True, m_nb :=
     [\<lparr>m_neighborAddress = Ipv4 1, m_hardwareAddress = 11, m_expireTime = 50, nb_close = False\<rparr>,
      \<lparr>m_neighborAddress = Ipv4 2, m_hardwareAddress = 12, m_expireTime = 50, nb_close = False\<rparr>]\<rparr>"

theorem neighbors_report_failures_witness:
  "fst (ProcessTxError 5 12 two_neighbors) = [Ipv4 2] \<and> nb_ok (snd (ProcessTxError 5 12 two_neighbors))
   \<and> nb_at (snd (ProcessTxError 5 12 two_neighbors)) (Ipv4 2) = None"
proof -
  have ok: "nb_ok two_neighbors" "has_callback two_neighbors" by (simp_all add: two_neighbors_def nb_ok_def)
  have f: "fst (ProcessTxError 5 12 two_neighbors) = [Ipv4 2]"
    by (simp add: two_neighbors_def ProcessTxError_def Neighbors_Purge_def CloseNeighbor_def)
  show ?thesis
    using neighbors_report_failures[OF ok, of 5 12 "[Ipv4 2]" "snd (ProcessTxError 5 12 two_neighbors)"] f
    by (metis list.set_intros(1) prod.collapse)
qed

end
