(* ===== verification/Aodv_Node.thy ===== *)
theory Aodv_Node
  imports Aodv_Rtable Aodv_Packet Aodv_Id_Cache Aodv_Queue Aodv_Neighbors
begin

text \<open>
  The AODV routing protocol (\<open>src/aodv/model/aodv-routing-protocol.cc\<close>): its parameters, its state
  composed of the routing table, the packet queue, the identifier caches and the neighbour list, and
  the operations its handlers share. What a node sends is appended to \<open>n_out\<close>; the random delay of
  at most 10 ms before a broadcast leaves is not modelled. \<open>None\<close> is a failed assertion, an
  undefined read, or a signed overflow in a sequence number comparison.

  The IP stack is a parameter: \<open>c_dev\<close> and \<open>c_iface\<close> give the device and the interface address of
  the interface that has a local address, \<open>c_if_of_dev\<close> the interface number of a device.
\<close>

record aodv_cfg =
  c_rreqRetries :: nat
  c_ttlStart :: u16
  c_ttlIncrement :: u16
  c_ttlThreshold :: u16
  c_timeoutBuffer :: u16
  c_rreqRateLimit :: u16
  c_rerrRateLimit :: u16
  c_activeRouteTimeout :: time
  c_netDiameter :: u32
  c_nodeTraversalTime :: time
  c_netTraversalTime :: time
  c_pathDiscoveryTime :: time
  c_myRouteTimeout :: time
  c_helloInterval :: time
  c_allowedHelloLoss :: nat
  c_deletePeriod :: time
  c_nextHopWait :: time
  c_blackListTimeout :: time
  c_maxQueueLen :: nat
  c_maxQueueTime :: time
  c_destinationOnly :: bool
  c_gratuitousReply :: bool
  c_enableHello :: bool
  c_dev :: "ipv4 \<Rightarrow> nat"
  c_iface :: "ipv4 \<Rightarrow> iface_addr"
  c_if_of_dev :: "nat \<Rightarrow> int"

datatype aodv_out =
    OutRreq (out_socket: nat) (out_dest: ipv4) (out_ttl: u8) rreq
  | OutRrep (out_socket: nat) (out_dest: ipv4) (out_ttl: u8) rrep
  | OutRrepAck (out_socket: nat) (out_dest: ipv4) (out_ttl: u8) rrep_ack
  | OutRerr (out_socket: nat) (out_dest: ipv4) (out_ttl: u8) rerr
  | OutForward rt_entry packet ip_header
  | OutDropped queue_entry
  | OutRetryRequest time ipv4

record aodv_node =
  n_table :: rtable
  n_queue :: rqueue
  n_requestId :: u32
  n_seqNo :: u32
  n_rreqIdCache :: id_cache
  n_dpd :: id_cache
  n_nb :: neighbors
  n_rreqCount :: u16
  n_rerrCount :: u16
  n_htimer :: "time option"
  n_rreqTimer :: "time option"
  n_rerrTimer :: "time option"
  n_addressReqTimer :: "(ipv4 \<times> time) list"
  n_lastBcastTime :: time
  n_socketAddresses :: "(nat \<times> iface_addr) list"
  n_out :: "aodv_out list"

text \<open>
  The parameters of a node that is created with the defaults: those of the constructor, which the
  attributes repeat, except that \<open>EnableHello\<close> is true by its attribute. A time step is a nanosecond.
\<close>

abbreviation ms :: "int \<Rightarrow> time" where "ms n \<equiv> n * 1000000"
abbreviation sec :: "int \<Rightarrow> time" where "sec n \<equiv> n * 1000000000"

definition default_cfg :: "(ipv4 \<Rightarrow> nat) \<Rightarrow> (ipv4 \<Rightarrow> iface_addr) \<Rightarrow> (nat \<Rightarrow> int) \<Rightarrow> aodv_cfg" where
  "default_cfg dev iface if_of_dev =
    (let node = ms 40; net = 2 * 35 * node; path = 2 * net; active = sec 3; hello = sec 1 in
     \<lparr>c_rreqRetries = 2, c_ttlStart = 1, c_ttlIncrement = 2, c_ttlThreshold = 7, c_timeoutBuffer = 2,
      c_rreqRateLimit = 10, c_rerrRateLimit = 10, c_activeRouteTimeout = active, c_netDiameter = 35,
      c_nodeTraversalTime = node, c_netTraversalTime = net, c_pathDiscoveryTime = path,
      c_myRouteTimeout = 2 * max path active, c_helloInterval = hello, c_allowedHelloLoss = 2,
      c_deletePeriod = 5 * max active hello, c_nextHopWait = node + ms 10, c_blackListTimeout = 2 * net,
      c_maxQueueLen = 64, c_maxQueueTime = sec 30, c_destinationOnly = False, c_gratuitousReply = True,
      c_enableHello = True, c_dev = dev, c_iface = iface, c_if_of_dev = if_of_dev\<rparr>)"

text \<open>
  A node with its AODV sockets. The loopback and broadcast routes that \<open>SetIpv4\<close> and
  \<open>NotifyInterfaceUp\<close> install and the hello timer that \<open>DoInitialize\<close> starts are not part of this state.
\<close>

definition RoutingProtocol :: "aodv_cfg \<Rightarrow> (nat \<times> iface_addr) list \<Rightarrow> aodv_node" where
  "RoutingProtocol cfg sockets =
     \<lparr>n_table = RoutingTable (c_deletePeriod cfg),
      n_queue = \<lparr>m_queue = [], m_maxLen = c_maxQueueLen cfg, m_queueTimeout = c_maxQueueTime cfg\<rparr>,
      n_requestId = 0, n_seqNo = 0,
      n_rreqIdCache = \<lparr>m_idCache = [], m_lifetime = c_pathDiscoveryTime cfg\<rparr>,
      n_dpd = \<lparr>m_idCache = [], m_lifetime = c_pathDiscoveryTime cfg\<rparr>,
      n_nb = Neighbors_SetCallback (Neighbors (c_helloInterval cfg)),
      n_rreqCount = 0, n_rerrCount = 0, n_htimer = None, n_rreqTimer = None, n_rerrTimer = None,
      n_addressReqTimer = [], n_lastBcastTime = 0, n_socketAddresses = sockets, n_out = []\<rparr>"

definition emit :: "aodv_out list \<Rightarrow> aodv_node \<Rightarrow> aodv_node" where
  "emit os s = s\<lparr>n_out := n_out s @ os\<rparr>"

definition SetMaxQueueLen_node :: "nat \<Rightarrow> aodv_node \<Rightarrow> aodv_node" where
  "SetMaxQueueLen_node n s = s\<lparr>n_queue := SetMaxQueueLen n (n_queue s)\<rparr>"

definition SetMaxQueueTime_node :: "time \<Rightarrow> aodv_node \<Rightarrow> aodv_node" where
  "SetMaxQueueTime_node x s = s\<lparr>n_queue := SetQueueTimeout x (n_queue s)\<rparr>"

subsection \<open>Calls to the routing table\<close>

text \<open>A look-up fills its out parameter \<open>rt\<close> only when it finds an entry.\<close>

definition lookup_route :: "time \<Rightarrow> ipv4 \<Rightarrow> rt_entry \<Rightarrow> aodv_node \<Rightarrow> bool \<times> rt_entry \<times> aodv_node" where
  "lookup_route now d rt s = (case LookupRoute now d (n_table s) of (r, t) \<Rightarrow>
     (r \<noteq> None, case r of None \<Rightarrow> rt | Some e \<Rightarrow> e, s\<lparr>n_table := t\<rparr>))"

definition lookup_valid_route :: "time \<Rightarrow> ipv4 \<Rightarrow> rt_entry \<Rightarrow> aodv_node \<Rightarrow> bool \<times> rt_entry \<times> aodv_node" where
  "lookup_valid_route now d rt s = (case LookupValidRoute now d (n_table s) of (ok, r, t) \<Rightarrow>
     (ok, case r of None \<Rightarrow> rt | Some e \<Rightarrow> e, s\<lparr>n_table := t\<rparr>))"

definition add_route :: "time \<Rightarrow> rt_entry \<Rightarrow> aodv_node \<Rightarrow> aodv_node" where
  "add_route now e s = s\<lparr>n_table := snd (AddRoute now e (n_table s))\<rparr>"

definition update_route :: "rt_entry \<Rightarrow> aodv_node \<Rightarrow> aodv_node" where
  "update_route e s = s\<lparr>n_table := snd (Update e (n_table s))\<rparr>"

definition delete_route :: "time \<Rightarrow> ipv4 \<Rightarrow> aodv_node \<Rightarrow> aodv_node" where
  "delete_route now d s = s\<lparr>n_table := snd (DeleteRoute now d (n_table s))\<rparr>"

definition UpdateRouteLifeTime :: "time \<Rightarrow> ipv4 \<Rightarrow> time \<Rightarrow> aodv_node \<Rightarrow> bool \<times> aodv_node" where
  "UpdateRouteLifeTime now a lifetime s =
     (let (found, rt, s1) = lookup_route now a (default_entry now) s in
      if found \<and> rt_flag rt = VALID
      then (True, update_route (SetLifeTime now (max lifetime (GetLifeTime now rt)) (rt\<lparr>rt_reqCount := 0\<rparr>)) s1)
      else (False, s1))"

text \<open>
  In the branch that refreshes the lifetime, the code changes its local copy of the entry and does not
  write it back to the table.
\<close>

definition UpdateRouteToNeighbor :: "aodv_cfg \<Rightarrow> time \<Rightarrow> ipv4 \<Rightarrow> ipv4 \<Rightarrow> aodv_node \<Rightarrow> aodv_node" where
  "UpdateRouteToNeighbor cfg now sender receiver s =
     (let (found, toNeighbor, s1) = lookup_route now sender (default_entry now) s;
          dev = c_dev cfg receiver; iface = c_iface cfg receiver in
      if \<not> found
      then add_route now (RoutingTableEntry now dev sender False 0 iface 1 sender (c_activeRouteTimeout cfg)) s1
      else if rt_validSeqNo toNeighbor \<and> rt_hops toNeighbor = 1 \<and> rt_dev toNeighbor = dev
      then (let toNeighbor' = SetLifeTime now (max (c_activeRouteTimeout cfg) (GetLifeTime now toNeighbor)) toNeighbor in s1)
      else update_route (RoutingTableEntry now dev sender False 0 iface 1 sender
             (max (c_activeRouteTimeout cfg) (GetLifeTime now toNeighbor))) s1)"

subsection \<open>Sockets\<close>

definition IsMyOwnAddress :: "ipv4 \<Rightarrow> aodv_node \<Rightarrow> bool" where
  "IsMyOwnAddress src s \<longleftrightarrow> (\<exists>(_, iface) \<in> set (n_socketAddresses s). ipv4_eq src (ia_local iface))"

definition FindSocketWithInterfaceAddress :: "iface_addr \<Rightarrow> aodv_node \<Rightarrow> nat option" where
  "FindSocketWithInterfaceAddress a s = map_option fst (find (\<lambda>(_, iface). iface = a) (n_socketAddresses s))"

text \<open>The destination of a broadcast: all hosts on a /32 interface, directed to the subnet otherwise.\<close>

definition broadcast_of :: "iface_addr \<Rightarrow> ipv4" where
  "broadcast_of iface = (if ia_mask iface = Mask_GetOnes then GetBroadcast else ia_broadcast iface)"

subsection \<open>Route error messages\<close>

definition collect_ifaces :: "time \<Rightarrow> ipv4 list \<Rightarrow> aodv_node \<Rightarrow> iface_addr list \<times> aodv_node" where
  "collect_ifaces now precursors s =
     foldl (\<lambda>(ifaces, s) p. let (ok, toPrecursor, s') = lookup_valid_route now p (default_entry now) s in
        (if ok \<and> rt_iface toPrecursor \<notin> set ifaces then ifaces @ [rt_iface toPrecursor] else ifaces, s'))
       ([], s) precursors"

fun broadcast_rerr :: "iface_addr list \<Rightarrow> rerr \<Rightarrow> aodv_node \<Rightarrow> aodv_node option" where
  "broadcast_rerr [] h s = Some s"
| "broadcast_rerr (i # is) h s = do {
     socket \<leftarrow> FindSocketWithInterfaceAddress i s;
     broadcast_rerr is h (emit [OutRerr socket (broadcast_of i) 1 h] s)
   }"

definition SendRerrMessage :: "aodv_cfg \<Rightarrow> time \<Rightarrow> rerr \<Rightarrow> ipv4 list \<Rightarrow> aodv_node \<Rightarrow> aodv_node option" where
  "SendRerrMessage cfg now h precursors s =
     (if precursors = [] then Some s
      else if n_rerrCount s = c_rerrRateLimit cfg then do { ns_assert (n_rerrTimer s \<noteq> None); Some s }
      else if length precursors = 1 then
        (let p = hd precursors; (ok, toPrecursor, s1) = lookup_valid_route now p (default_entry now) s in
         if ok then do {
           socket \<leftarrow> FindSocketWithInterfaceAddress (rt_iface toPrecursor) s1;
           Some ((emit [OutRerr socket p 1 h] s1)\<lparr>n_rerrCount := n_rerrCount s1 + 1\<rparr>)
         } else Some s1)
      else (let (ifaces, s1) = collect_ifaces now precursors s in broadcast_rerr ifaces h s1))"

text \<open>
  The loop that fills an RERR with unreachable destinations and collects the precursors of each. When
  the header refuses a destination, the message is sent and the same destination tried again.
\<close>

function (sequential) rerr_loop :: "aodv_cfg \<Rightarrow> time \<Rightarrow> (ipv4 \<times> u32) list \<Rightarrow> rerr \<Rightarrow> ipv4 list \<Rightarrow> aodv_node \<Rightarrow>
    (rerr \<times> ipv4 list \<times> aodv_node) option" where
  "rerr_loop cfg now [] h prec s = Some (h, prec, s)"
| "rerr_loop cfg now ((d, q) # us) h prec s =
     (case AddUnDestination d q h of
        None \<Rightarrow> None
      | Some (added, h') \<Rightarrow>
          if \<not> added then
            (case SendRerrMessage cfg now h' prec s of
               None \<Rightarrow> None
             | Some s' \<Rightarrow> rerr_loop cfg now ((d, q) # us) (Rerr_Clear h') prec s')
          else (let (_, toDst, s') = lookup_route now d (default_entry now) s
                in rerr_loop cfg now us h' (GetPrecursors toDst prec) s'))"
  by pat_completeness auto

lemma AddUnDestination_True: "AddUnDestination d q h = Some (b, h') \<Longrightarrow> b"
  by (auto simp: AddUnDestination_def split: if_splits)

termination rerr_loop
  by (relation "measure (\<lambda>(_, _, us, _). length us)") (auto dest: AddUnDestination_True)

definition finish_rerr :: "aodv_cfg \<Rightarrow> time \<Rightarrow> rerr \<times> ipv4 list \<times> aodv_node \<Rightarrow> aodv_node option" where
  "finish_rerr cfg now r = (case r of (h, prec, s) \<Rightarrow>
     if GetDestCount h \<noteq> 0 then SendRerrMessage cfg now h prec s else Some s)"

definition SendRerrWhenBreaksLinkToNextHop :: "aodv_cfg \<Rightarrow> time \<Rightarrow> ipv4 \<Rightarrow> aodv_node \<Rightarrow> aodv_node option" where
  "SendRerrWhenBreaksLinkToNextHop cfg now nextHop s =
     (let (found, toNextHop, s1) = lookup_route now nextHop (default_entry now) s in
      if \<not> found then Some s1
      else do {
        let precursors = GetPrecursors toNextHop [];
        (_, h) \<leftarrow> AddUnDestination nextHop (rt_seqNo toNextHop) RerrHeader;
        let (unreachable, t) = GetListOfDestinationWithNextHop now nextHop (n_table s1);
        r \<leftarrow> rerr_loop cfg now unreachable h precursors (s1\<lparr>n_table := t\<rparr>);
        s2 \<leftarrow> finish_rerr cfg now r;
        let unreachable' = fst (smap_insert ipv4_less nextHop (rt_seqNo toNextHop) unreachable);
        Some (s2\<lparr>n_table := InvalidateRoutesWithDst now unreachable' (n_table s2)\<rparr>)
      })"

text \<open>
  The neighbour list calls \<open>SendRerrWhenBreaksLinkToNextHop\<close> for each link it closes: when it is updated,
  when its timer calls \<open>Purge\<close>, and after a transmission error.
\<close>

fun close_links :: "aodv_cfg \<Rightarrow> time \<Rightarrow> ipv4 list \<Rightarrow> aodv_node \<Rightarrow> aodv_node option" where
  "close_links cfg now [] s = Some s"
| "close_links cfg now (a # as) s = do { s' \<leftarrow> SendRerrWhenBreaksLinkToNextHop cfg now a s; close_links cfg now as s' }"

definition nb_update :: "aodv_cfg \<Rightarrow> time \<Rightarrow> ipv4 \<Rightarrow> time \<Rightarrow> aodv_node \<Rightarrow> aodv_node option" where
  "nb_update cfg now a expire s = (case Neighbors_Update now a expire (n_nb s) of (closed, nb) \<Rightarrow>
     map_option (\<lambda>s'. s'\<lparr>n_nb := nb\<rparr>) (close_links cfg now closed s))"

definition nb_purge :: "aodv_cfg \<Rightarrow> time \<Rightarrow> aodv_node \<Rightarrow> aodv_node option" where
  "nb_purge cfg now s = (case Neighbors_Purge now (n_nb s) of (closed, nb) \<Rightarrow>
     map_option (\<lambda>s'. s'\<lparr>n_nb := nb\<rparr>) (close_links cfg now closed s))"

definition NotifyTxError :: "aodv_cfg \<Rightarrow> time \<Rightarrow> nat \<Rightarrow> aodv_node \<Rightarrow> aodv_node option" where
  "NotifyTxError cfg now mac s = (case ProcessTxError now mac (n_nb s) of (closed, nb) \<Rightarrow>
     map_option (\<lambda>s'. s'\<lparr>n_nb := nb\<rparr>) (close_links cfg now closed s))"

fun broadcast_to :: "(nat \<times> iface_addr) list \<Rightarrow> (nat \<Rightarrow> ipv4 \<Rightarrow> aodv_out) \<Rightarrow> aodv_out list" where
  "broadcast_to [] m = []"
| "broadcast_to ((k, iface) # ss) m = m k (broadcast_of iface) # broadcast_to ss m"

definition SendRerrWhenNoRouteToForward :: "aodv_cfg \<Rightarrow> time \<Rightarrow> ipv4 \<Rightarrow> u32 \<Rightarrow> ipv4 \<Rightarrow> aodv_node \<Rightarrow> aodv_node option" where
  "SendRerrWhenNoRouteToForward cfg now dst dstSeqNo origin s =
     (if n_rerrCount s = c_rerrRateLimit cfg then do { ns_assert (n_rerrTimer s \<noteq> None); Some s }
      else do {
        (_, h) \<leftarrow> AddUnDestination dst dstSeqNo RerrHeader;
        let (ok, toOrigin, s1) = lookup_valid_route now origin (default_entry now) s;
        if ok then do {
          socket \<leftarrow> FindSocketWithInterfaceAddress (rt_iface toOrigin) s1;
          Some (emit [OutRerr socket (rt_nextHop toOrigin) 1 h] s1)
        } else Some (emit (broadcast_to (n_socketAddresses s1) (\<lambda>k d. OutRerr k d 1 h)) s1)
      })"

end
