(* ===== verification/Aodv_Discovery.thy ===== *)
theory Aodv_Discovery
  imports Aodv_Node
begin

text \<open>
  Route discovery: sending and retrying route requests with an expanding ring search, and the
  handling of a received request with the replies to it
  (\<open>src/aodv/model/aodv-routing-protocol.cc\<close>, \<open>SendRequest\<close> to \<open>SendReplyByIntermediateNode\<close>).
\<close>

subsection \<open>Requests\<close>

text \<open>\<open>rt.GetHop () + m_ttlIncrement\<close> is an \<open>int\<close>; it is stored in 16 bits.\<close>

definition request_ttl :: "aodv_cfg \<Rightarrow> rt_entry \<Rightarrow> u16" where
  "request_ttl cfg rt =
     (if rt_flag rt \<noteq> IN_SEARCH
      then min (rt_hops rt + c_ttlIncrement cfg) (ucast (c_netDiameter cfg))
      else (let ttl = rt_hops rt + c_ttlIncrement cfg in
            if c_ttlThreshold cfg < ttl then ucast (c_netDiameter cfg) else ttl))"

definition at_diameter :: "aodv_cfg \<Rightarrow> u16 \<Rightarrow> bool" where
  "at_diameter cfg ttl \<longleftrightarrow> (ucast ttl :: u32) = c_netDiameter cfg"

text \<open>
  The retry timer. \<open>backoffFactor\<close> has 16 bits, the shifted 1 is a 32-bit \<open>int\<close>: a shift by 31 or more
  is undefined.
\<close>

definition ScheduleRreqRetry :: "aodv_cfg \<Rightarrow> time \<Rightarrow> ipv4 \<Rightarrow> aodv_node \<Rightarrow> aodv_node option" where
  "ScheduleRreqRetry cfg now dst s = do {
     let (_, rt, s1) = lookup_route now dst (default_entry now) s;
     retry \<leftarrow> (if (ucast (rt_hops rt) :: u32) < c_netDiameter cfg
       then Some (2 * c_nodeTraversalTime cfg * (int (unat (rt_hops rt)) + int (unat (c_timeoutBuffer cfg))))
       else do {
         ns_assert (0 < rt_reqCount rt);
         let backoffFactor = unat (rt_reqCount rt) - 1;
         ns_assert (backoffFactor < 31);
         Some (c_netTraversalTime cfg * 2 ^ backoffFactor)
       });
     Some (s1\<lparr>n_addressReqTimer := smap_set ipv4_less dst (now + retry) (n_addressReqTimer s1)\<rparr>)
   }"

fun send_rreqs :: "time \<Rightarrow> u16 \<Rightarrow> rreq \<Rightarrow> (nat \<times> iface_addr) list \<Rightarrow> aodv_node \<Rightarrow> aodv_node" where
  "send_rreqs now ttl h [] s = s"
| "send_rreqs now ttl h ((k, iface) # ss) s =
     (let h' = h\<lparr>rq_origin := ia_local iface\<rparr>;
          (_, c) = IdCache_IsDuplicate now (ia_local iface) (rq_requestID h) (n_rreqIdCache s)
      in send_rreqs now ttl h ss (emit [OutRreq k (broadcast_of iface) (ucast ttl) h']
           (s\<lparr>n_rreqIdCache := c, n_lastBcastTime := now\<rparr>)))"

definition RreqHeader :: rreq where
  "RreqHeader = \<lparr>rq_flags = 0, rq_reserved = 0, rq_hopCount = 0, rq_requestID = 0, rq_dst = unset_address,
     rq_dstSeqNo = 0, rq_origin = unset_address, rq_originSeqNo = 0\<rparr>"

text \<open>The table update of a request: the entry is put in search, its hop count is the ring's TTL.\<close>

definition search_entry :: "aodv_cfg \<Rightarrow> time \<Rightarrow> ipv4 \<Rightarrow> rreq \<Rightarrow> aodv_node \<Rightarrow> u16 \<times> rreq \<times> aodv_node" where
  "search_entry cfg now dst h s =
     (let (found, rt, s1) = lookup_route now dst (default_entry now) s in
      if found then
        (let ttl = request_ttl cfg rt;
             rt1 = (if at_diameter cfg ttl then IncrementRreqCnt rt else rt);
             h' = (if rt_validSeqNo rt1 then h\<lparr>rq_dstSeqNo := rt_seqNo rt1\<rparr> else SetUnknownSeqno True h);
             rt2 = SetLifeTime now (c_pathDiscoveryTime cfg) (rt1\<lparr>rt_hops := ttl, rt_flag := IN_SEARCH\<rparr>)
         in (ttl, h', update_route rt2 s1))
      else
        (let ttl = c_ttlStart cfg;
             e = RoutingTableEntry now 0 dst False 0 unset_iface ttl unset_address (c_pathDiscoveryTime cfg);
             e1 = (if at_diameter cfg ttl then IncrementRreqCnt e else e)
         in (ttl, SetUnknownSeqno True h, add_route now (e1\<lparr>rt_flag := IN_SEARCH\<rparr>) s1)))"

definition timer_left :: "time \<Rightarrow> time option \<Rightarrow> time" where
  "timer_left now t = (case t of None \<Rightarrow> 0 | Some x \<Rightarrow> x - now)"

definition SendRequest :: "aodv_cfg \<Rightarrow> time \<Rightarrow> ipv4 \<Rightarrow> aodv_node \<Rightarrow> aodv_node option" where
  "SendRequest cfg now dst s =
     (if n_rreqCount s = c_rreqRateLimit cfg
      then Some (emit [OutRetryRequest (timer_left now (n_rreqTimer s) + 100000) dst] s)
      else
        (let s0 = s\<lparr>n_rreqCount := n_rreqCount s + 1\<rparr>;
             (ttl, h1, s1) = search_entry cfg now dst (RreqHeader\<lparr>rq_dst := dst\<rparr>) s0;
             h2 = (if c_gratuitousReply cfg then SetGratuitousRrep True h1 else h1);
             h3 = (if c_destinationOnly cfg then SetDestinationOnly True h2 else h2);
             s2 = s1\<lparr>n_seqNo := n_seqNo s1 + 1, n_requestId := n_requestId s1 + 1\<rparr>;
             h4 = h3\<lparr>rq_originSeqNo := n_seqNo s2, rq_requestID := n_requestId s2\<rparr>;
             s3 = send_rreqs now ttl h4 (n_socketAddresses s2) s2
         in ScheduleRreqRetry cfg now dst s3))"

subsection \<open>Packets that wait for a route\<close>

text \<open>
  The loop over \<open>Dequeue\<close> returns in the middle when a packet was bound to another interface: that
  packet is gone, and the ones behind it stay.
\<close>

function send_queue :: "(nat \<Rightarrow> int) \<Rightarrow> time \<Rightarrow> ipv4 \<Rightarrow> rt_entry \<Rightarrow> rqueue \<Rightarrow> aodv_out list \<times> rqueue" where
  "send_queue if_of now dst route q =
     (case Dequeue now dst q of
        (None, d, q') \<Rightarrow> (map OutDropped d, q')
      | (Some e, d, q') \<Rightarrow>
          (let p = qe_packet e; h = qe_header e;
               mismatch = (case pk_tag p of None \<Rightarrow> False | Some i \<Rightarrow> i \<noteq> - 1 \<and> i \<noteq> if_of (rt_dev route))
           in if mismatch then (map OutDropped d, q')
              else (let (os, q'') = send_queue if_of now dst route q' in
                (map OutDropped d @ OutForward route (p\<lparr>pk_tag := None\<rparr>)
                    (h\<lparr>ih_source := rt_source route, ih_ttl := ih_ttl h + 1\<rparr>) # os, q''))))"
  by pat_completeness auto

lemma Dequeue_shorter: "Dequeue now dst q = (Some e, d, q') \<Longrightarrow> length (m_queue q') < length (m_queue q)"
proof -
  assume "Dequeue now dst q = (Some e, d, q')"
  then have "erase_first (\<lambda>e. entry_dst e = dst) (filter (\<lambda>e. \<not> entry_expired now e) (m_queue q)) = Some (e, m_queue q')"
    unfolding Dequeue_eq by (auto split: option.splits)
  from erase_first_SomeD(4)[OF this] obtain as bs
    where "filter (\<lambda>e. \<not> entry_expired now e) (m_queue q) = as @ e # bs" "m_queue q' = as @ bs" by blast
  then show ?thesis
    using length_filter_le[of "\<lambda>e. \<not> entry_expired now e" "m_queue q"] by simp
qed

termination send_queue
  by (relation "measure (\<lambda>(_, _, _, _, q). length (m_queue q))") (auto dest: Dequeue_shorter[OF sym] Dequeue_shorter)

declare send_queue.simps [simp del]

definition SendPacketFromQueue :: "aodv_cfg \<Rightarrow> time \<Rightarrow> ipv4 \<Rightarrow> rt_entry \<Rightarrow> aodv_node \<Rightarrow> aodv_node" where
  "SendPacketFromQueue cfg now dst route s =
     (let (os, q) = send_queue (c_if_of_dev cfg) now dst route (n_queue s) in emit os (s\<lparr>n_queue := q\<rparr>))"

definition drop_packets :: "time \<Rightarrow> ipv4 \<Rightarrow> aodv_node \<Rightarrow> aodv_node" where
  "drop_packets now dst s =
     (let (d, q) = DropPacketWithDst now dst (n_queue s) in emit (map OutDropped d) (s\<lparr>n_queue := q\<rparr>))"

definition stop_search :: "time \<Rightarrow> ipv4 \<Rightarrow> aodv_node \<Rightarrow> aodv_node" where
  "stop_search now dst s =
     drop_packets now dst (delete_route now dst (s\<lparr>n_addressReqTimer := smap_erase ipv4_less dst (n_addressReqTimer s)\<rparr>))"

definition RouteRequestTimerExpire :: "aodv_cfg \<Rightarrow> time \<Rightarrow> ipv4 \<Rightarrow> aodv_node \<Rightarrow> aodv_node option" where
  "RouteRequestTimerExpire cfg now dst s =
     (let (ok, toDst, s1) = lookup_valid_route now dst (default_entry now) s in
      if ok then Some (SendPacketFromQueue cfg now dst toDst s1)
      else if unat (rt_reqCount toDst) = c_rreqRetries cfg then Some (stop_search now dst s1)
      else if rt_flag toDst = IN_SEARCH then SendRequest cfg now dst s1
      else Some (stop_search now dst s1))"

definition DeferredRouteOutput :: "aodv_cfg \<Rightarrow> time \<Rightarrow> packet \<Rightarrow> ip_header \<Rightarrow> aodv_node \<Rightarrow> aodv_node option" where
  "DeferredRouteOutput cfg now p h s = do {
     (queued, d, q) \<leftarrow> Enqueue now (QueueEntry now p h) (n_queue s);
     let s1 = emit (map OutDropped d) (s\<lparr>n_queue := q\<rparr>);
     if queued then
       (let (found, rt, s2) = lookup_route now (ih_destination h) (default_entry now) s1 in
        if \<not> found \<or> rt_flag rt \<noteq> IN_SEARCH \<and> found then SendRequest cfg now (ih_destination h) s2 else Some s2)
     else Some s1
   }"

definition RreqRateLimitTimerExpire :: "time \<Rightarrow> aodv_node \<Rightarrow> aodv_node" where
  "RreqRateLimitTimerExpire now s = s\<lparr>n_rreqCount := 0, n_rreqTimer := Some (now + sec 1)\<rparr>"

definition RerrRateLimitTimerExpire :: "time \<Rightarrow> aodv_node \<Rightarrow> aodv_node" where
  "RerrRateLimitTimerExpire now s = s\<lparr>n_rerrCount := 0, n_rerrTimer := Some (now + sec 1)\<rparr>"

definition AckTimerExpire :: "ipv4 \<Rightarrow> time \<Rightarrow> aodv_node \<Rightarrow> aodv_node" where
  "AckTimerExpire neighbor blacklistTimeout s =
     s\<lparr>n_table := snd (MarkLinkAsUnidirectional neighbor blacklistTimeout (n_table s))\<rparr>"

definition Start_node :: "aodv_cfg \<Rightarrow> time \<Rightarrow> aodv_node \<Rightarrow> aodv_node" where
  "Start_node cfg now s =
     s\<lparr>n_nb := (if c_enableHello cfg then ScheduleTimer now (n_nb s) else n_nb s),
       n_rreqTimer := Some (now + sec 1), n_rerrTimer := Some (now + sec 1)\<rparr>"

end
