(* ===== verification/Aodv_Handlers.thy ===== *)
theory Aodv_Handlers
  imports Aodv_Discovery
begin

text \<open>
  The handlers of received control messages and of data packets
  (\<open>src/aodv/model/aodv-routing-protocol.cc\<close>, \<open>RecvAodv\<close>, \<open>RecvRequest\<close>, \<open>RecvReply\<close>, \<open>RecvError\<close>,
  \<open>RouteOutput\<close>, \<open>Forwarding\<close>).
\<close>

text \<open>
  \<open>int32_t (a) - int32_t (b)\<close>: the subtraction of two signed 32-bit numbers is undefined when the
  difference does not fit.
\<close>

definition seq_diff :: "u32 \<Rightarrow> u32 \<Rightarrow> int option" where
  "seq_diff a b = (let d = sint a - sint b in if - (2 ^ 31) \<le> d \<and> d < 2 ^ 31 then Some d else None)"

text \<open>\<open>Time::GetMilliSeconds\<close> truncates; \<open>RrepHeader\<close> counts in milliseconds.\<close>

definition to_ms :: "time \<Rightarrow> int" where
  "to_ms t = (if 0 \<le> t then t div 1000000 else - ((- t) div 1000000))"

subsection \<open>Replies\<close>

definition SendReply :: "aodv_cfg \<Rightarrow> rreq \<Rightarrow> rt_entry \<Rightarrow> aodv_node \<Rightarrow> aodv_node option" where
  "SendReply cfg h toOrigin s = do {
     let s1 = (if \<not> GetUnknownSeqno h \<and> rq_dstSeqNo h = n_seqNo s + 1 then s\<lparr>n_seqNo := n_seqNo s + 1\<rparr> else s);
     let r = RrepHeader 0 0 (rq_dst h) (n_seqNo s1) (rt_dst toOrigin) (to_ms (c_myRouteTimeout cfg));
     socket \<leftarrow> FindSocketWithInterfaceAddress (rt_iface toOrigin) s1;
     Some (emit [OutRrep socket (rt_nextHop toOrigin) (ucast (rt_hops toOrigin)) r] s1)
   }"

text \<open>
  For a destination one hop away an acknowledgement is requested. The code sets up the timer of a local
  copy of the next hop's entry and never schedules it, which leaves no effect but the look-up.
\<close>

definition SendReplyByIntermediateNode :: "aodv_cfg \<Rightarrow> time \<Rightarrow> rt_entry \<Rightarrow> rt_entry \<Rightarrow> bool \<Rightarrow> aodv_node \<Rightarrow> aodv_node option" where
  "SendReplyByIntermediateNode cfg now toDst toOrigin gratRep s = do {
     let r = RrepHeader 0 (ucast (rt_hops toDst)) (rt_dst toDst) (rt_seqNo toDst) (rt_dst toOrigin) (to_ms (GetLifeTime now toDst));
     let (r, s1) = (if rt_hops toDst = 1
        then (SetAckRequired True r, snd (snd (lookup_route now (rt_nextHop toOrigin) (default_entry now) s)))
        else (r, s));
     let toDst' = snd (InsertPrecursor (rt_nextHop toOrigin) toDst);
     let toOrigin' = snd (InsertPrecursor (rt_nextHop toDst') toOrigin);
     let s2 = update_route toOrigin' (update_route toDst' s1);
     socket \<leftarrow> FindSocketWithInterfaceAddress (rt_iface toOrigin') s2;
     let s3 = emit [OutRrep socket (rt_nextHop toOrigin') (ucast (rt_hops toOrigin')) r] s2;
     if gratRep then do {
       let g = RrepHeader 0 (ucast (rt_hops toOrigin')) (rt_dst toOrigin') (rt_seqNo toOrigin') (rt_dst toDst')
                 (to_ms (GetLifeTime now toOrigin'));
       socket' \<leftarrow> FindSocketWithInterfaceAddress (rt_iface toDst') s3;
       Some (emit [OutRrep socket' (rt_nextHop toDst') (ucast (rt_hops toDst')) g] s3)
     } else Some s3
   }"

definition SendReplyAck :: "time \<Rightarrow> ipv4 \<Rightarrow> aodv_node \<Rightarrow> aodv_node option" where
  "SendReplyAck now neighbor s = do {
     let (_, toNeighbor, s1) = lookup_route now neighbor (default_entry now) s;
     socket \<leftarrow> FindSocketWithInterfaceAddress (rt_iface toNeighbor) s1;
     Some (emit [OutRrepAck socket neighbor 1 \<lparr>ra_reserved = 0\<rparr>] s1)
   }"

subsection \<open>Requests\<close>

text \<open>The reverse route to the originator of a request, and the route to the node it came from.\<close>

definition reverse_route :: "aodv_cfg \<Rightarrow> time \<Rightarrow> ipv4 \<Rightarrow> ipv4 \<Rightarrow> rreq \<Rightarrow> aodv_node \<Rightarrow> (rt_entry \<times> aodv_node) option" where
  "reverse_route cfg now receiver src h s =
     (let (found, toOrigin, s1) = lookup_route now (rq_origin h) (default_entry now) s;
          minimal = 2 * c_netTraversalTime cfg - 2 * int (unat (rq_hopCount h)) * c_nodeTraversalTime cfg;
          dev = c_dev cfg receiver; iface = c_iface cfg receiver
      in if \<not> found then
           Some (toOrigin, add_route now (RoutingTableEntry now dev (rq_origin h) True (rq_originSeqNo h) iface
             (ucast (rq_hopCount h)) src minimal) s1)
         else do {
           seqNo \<leftarrow> (if rt_validSeqNo toOrigin then do {
                d \<leftarrow> seq_diff (rq_originSeqNo h) (rt_seqNo toOrigin);
                Some (if 0 < d then rq_originSeqNo h else rt_seqNo toOrigin)
              } else Some (rq_originSeqNo h));
           let e = toOrigin\<lparr>rt_seqNo := seqNo, rt_validSeqNo := True, rt_nextHop := src, rt_dev := dev, rt_iface := iface,
                    rt_hops := ucast (rq_hopCount h)\<rparr>;
           let e' = SetLifeTime now (max minimal (GetLifeTime now e)) e;
           Some (e', update_route e' s1)
         })"

definition neighbor_route :: "aodv_cfg \<Rightarrow> time \<Rightarrow> ipv4 \<Rightarrow> ipv4 \<Rightarrow> rreq \<Rightarrow> aodv_node \<Rightarrow> aodv_node" where
  "neighbor_route cfg now receiver src h s =
     (let (found, toNeighbor, s1) = lookup_route now src (default_entry now) s;
          dev = c_dev cfg receiver; iface = c_iface cfg receiver
      in if \<not> found
         then add_route now (RoutingTableEntry now dev src False (rq_originSeqNo h) iface 1 src (c_activeRouteTimeout cfg)) s1
         else update_route ((SetLifeTime now (c_activeRouteTimeout cfg) toNeighbor)
                \<lparr>rt_validSeqNo := False, rt_seqNo := rq_originSeqNo h, rt_flag := VALID, rt_dev := dev, rt_iface := iface,
                  rt_hops := 1, rt_nextHop := src\<rparr>) s1)"

text \<open>
  What the known route to the destination makes of the request: drop it, answer it, or forward it
  with the sequence number the node knows.
\<close>

datatype rreq_verdict = RreqDrop | RreqAnswer | RreqForward rreq

definition judge_rreq :: "ipv4 \<Rightarrow> rt_entry \<Rightarrow> rreq \<Rightarrow> rreq_verdict option" where
  "judge_rreq src toDst h =
     (if ipv4_eq (rt_nextHop toDst) src then Some RreqDrop
      else do {
        fresh \<leftarrow> (if GetUnknownSeqno h then Some True
                  else map_option (\<lambda>d. 0 \<le> d) (seq_diff (rt_seqNo toDst) (rq_dstSeqNo h)));
        if fresh \<and> rt_validSeqNo toDst then
          (if \<not> GetDestinationOnly h \<and> rt_flag toDst = VALID then Some RreqAnswer
           else Some (RreqForward (SetUnknownSeqno False (h\<lparr>rq_dstSeqNo := rt_seqNo toDst\<rparr>))))
        else Some (RreqForward h)
      })"

definition forward_rreq :: "time \<Rightarrow> u8 \<Rightarrow> rreq \<Rightarrow> aodv_node \<Rightarrow> aodv_node" where
  "forward_rreq now ttl h s =
     (if ttl < 2 then s
      else emit (broadcast_to (n_socketAddresses s) (\<lambda>k d. OutRreq k d (ttl - 1) h))
             (if n_socketAddresses s = [] then s else s\<lparr>n_lastBcastTime := now\<rparr>))"

definition answer_or_forward :: "aodv_cfg \<Rightarrow> time \<Rightarrow> ipv4 \<Rightarrow> u8 \<Rightarrow> rreq \<Rightarrow> rt_entry \<Rightarrow> aodv_node \<Rightarrow> aodv_node option" where
  "answer_or_forward cfg now src ttl h toOrigin s =
     (if IsMyOwnAddress (rq_dst h) s then
        (let (_, toOrigin, s1) = lookup_route now (rq_origin h) toOrigin s in SendReply cfg h toOrigin s1)
      else
        (let (found, toDst, s1) = lookup_route now (rq_dst h) (default_entry now) s in
         if \<not> found then Some (forward_rreq now ttl h s1)
         else do {
           verdict \<leftarrow> judge_rreq src toDst h;
           case verdict of
             RreqDrop \<Rightarrow> Some s1
           | RreqAnswer \<Rightarrow>
               (let (_, toOrigin, s2) = lookup_route now (rq_origin h) toOrigin s1
                in SendReplyByIntermediateNode cfg now toDst toOrigin (GetGratuitousRrep h) s2)
           | RreqForward h' \<Rightarrow> Some (forward_rreq now ttl h' s1)
         }))"

definition RecvRequest :: "aodv_cfg \<Rightarrow> time \<Rightarrow> u8 \<Rightarrow> rreq \<Rightarrow> ipv4 \<Rightarrow> ipv4 \<Rightarrow> aodv_node \<Rightarrow> aodv_node option" where
  "RecvRequest cfg now ttl h receiver src s =
     (let (found, toPrev, s1) = lookup_route now src (default_entry now) s in
      if found \<and> rt_unidirectional toPrev then Some s1
      else
        (let (dup, c) = IdCache_IsDuplicate now (rq_origin h) (rq_requestID h) (n_rreqIdCache s1);
             s2 = s1\<lparr>n_rreqIdCache := c\<rparr>
         in if dup then Some s2
            else do {
              let h1 = h\<lparr>rq_hopCount := rq_hopCount h + 1\<rparr>;
              (toOrigin, s3) \<leftarrow> reverse_route cfg now receiver src h1 s2;
              let s4 = neighbor_route cfg now receiver src h1 s3;
              s5 \<leftarrow> nb_update cfg now src (int (c_allowedHelloLoss cfg) * c_helloInterval cfg) s4;
              answer_or_forward cfg now src ttl h1 toOrigin s5
            }))"

subsection \<open>Replies received\<close>

definition ProcessHello :: "aodv_cfg \<Rightarrow> time \<Rightarrow> rrep \<Rightarrow> ipv4 \<Rightarrow> aodv_node \<Rightarrow> aodv_node option" where
  "ProcessHello cfg now h receiver s =
     (let (found, toNeighbor, s1) = lookup_route now (rp_dst h) (default_entry now) s;
          dev = c_dev cfg receiver; iface = c_iface cfg receiver;
          hello = int (c_allowedHelloLoss cfg) * c_helloInterval cfg;
          s2 = (if \<not> found
            then add_route now (RoutingTableEntry now dev (rp_dst h) True (rp_dstSeqNo h) iface 1 (rp_dst h) (ms (Rrep_GetLifeTime h))) s1
            else update_route ((SetLifeTime now (max hello (GetLifeTime now toNeighbor)) toNeighbor)
              \<lparr>rt_seqNo := rp_dstSeqNo h, rt_validSeqNo := True, rt_flag := VALID, rt_dev := dev, rt_iface := iface,
                rt_hops := 1, rt_nextHop := rp_dst h\<rparr>) s1)
      in if c_enableHello cfg then nb_update cfg now (rp_dst h) hello s2 else Some s2)"

text \<open>Whether a reply replaces the route the table has.\<close>

definition reply_supersedes :: "rrep \<Rightarrow> rt_entry \<Rightarrow> bool option" where
  "reply_supersedes h toDst =
     (if \<not> rt_validSeqNo toDst then Some True
      else do {
        d \<leftarrow> seq_diff (rp_dstSeqNo h) (rt_seqNo toDst);
        Some (if 0 < d then True
          else if rp_dstSeqNo h = rt_seqNo toDst \<and> rt_flag toDst \<noteq> VALID then True
          else rp_dstSeqNo h = rt_seqNo toDst \<and> (ucast (rp_hopCount h) :: u16) < rt_hops toDst)
      })"

definition learn_route :: "time \<Rightarrow> rrep \<Rightarrow> rt_entry \<Rightarrow> aodv_node \<Rightarrow> (rt_entry \<times> aodv_node) option" where
  "learn_route now h newEntry s =
     (let (found, toDst, s1) = lookup_route now (rp_dst h) (default_entry now) s in
      if found then do {
        replace \<leftarrow> reply_supersedes h toDst;
        Some (toDst, if replace then update_route newEntry s1 else s1)
      } else Some (toDst, add_route now newEntry s1))"

text \<open>The four precursor lists a forwarded reply updates.\<close>

definition add_precursor :: "time \<Rightarrow> ipv4 \<Rightarrow> ipv4 \<Rightarrow> aodv_node \<Rightarrow> aodv_node" where
  "add_precursor now d p s = (let (_, e, s1) = lookup_route now d (default_entry now) s
     in update_route (snd (InsertPrecursor p e)) s1)"

definition update_precursors :: "time \<Rightarrow> rrep \<Rightarrow> rt_entry \<Rightarrow> rt_entry \<Rightarrow> aodv_node \<Rightarrow> rt_entry \<times> aodv_node" where
  "update_precursors now h toDst0 toOrigin s =
     (let (ok, toDst, s1) = lookup_valid_route now (rp_dst h) toDst0 s in
      if \<not> ok then (toOrigin, s1)
      else
        (let toDst' = snd (InsertPrecursor (rt_nextHop toOrigin) toDst);
             s2 = update_route toDst' s1;
             s3 = add_precursor now (rt_nextHop toDst') (rt_nextHop toOrigin) s2;
             toOrigin' = snd (InsertPrecursor (rt_nextHop toDst') toOrigin);
             s4 = update_route toOrigin' s3
         in (toOrigin', add_precursor now (rt_nextHop toOrigin') (rt_nextHop toDst') s4)))"

definition forward_reply :: "aodv_cfg \<Rightarrow> time \<Rightarrow> u8 \<Rightarrow> rrep \<Rightarrow> rt_entry \<Rightarrow> aodv_node \<Rightarrow> aodv_node option" where
  "forward_reply cfg now ttl h toDst s =
     (let (found, toOrigin, s1) = lookup_route now (rp_origin h) (default_entry now) s in
      if \<not> found \<or> rt_flag toOrigin = IN_SEARCH then Some s1
      else
        (let toOrigin1 = SetLifeTime now (max (c_activeRouteTimeout cfg) (GetLifeTime now toOrigin)) toOrigin;
             (toOrigin2, s2) = update_precursors now h toDst toOrigin1 (update_route toOrigin1 s1)
         in if ttl < 2 then Some s2
            else do {
              socket \<leftarrow> FindSocketWithInterfaceAddress (rt_iface toOrigin2) s2;
              Some (emit [OutRrep socket (rt_nextHop toOrigin2) (ttl - 1) h] s2)
            }))"

text \<open>A reply to the node's own request: the search ends, and the packets that waited are sent.\<close>

definition complete_search :: "aodv_cfg \<Rightarrow> time \<Rightarrow> ipv4 \<Rightarrow> rt_entry \<Rightarrow> rt_entry \<Rightarrow> aodv_node \<Rightarrow> aodv_node" where
  "complete_search cfg now dst newEntry toDst s =
     (let s1 = (if rt_flag toDst = IN_SEARCH
         then (update_route newEntry s)\<lparr>n_addressReqTimer := smap_erase ipv4_less dst (n_addressReqTimer s)\<rparr>
         else s);
          (_, toDst', s2) = lookup_route now dst toDst s1
      in SendPacketFromQueue cfg now dst toDst' s2)"

definition RecvReply :: "aodv_cfg \<Rightarrow> time \<Rightarrow> u8 \<Rightarrow> rrep \<Rightarrow> ipv4 \<Rightarrow> ipv4 \<Rightarrow> aodv_node \<Rightarrow> aodv_node option" where
  "RecvReply cfg now ttl h receiver sender s =
     (let h1 = h\<lparr>rp_hopCount := rp_hopCount h + 1\<rparr>; dst = rp_dst h1 in
      if ipv4_eq dst (rp_origin h1) then ProcessHello cfg now h1 receiver s
      else do {
        let newEntry = RoutingTableEntry now (c_dev cfg receiver) dst True (rp_dstSeqNo h1) (c_iface cfg receiver)
              (ucast (rp_hopCount h1)) sender (ms (Rrep_GetLifeTime h1));
        (toDst, s1) \<leftarrow> learn_route now h1 newEntry s;
        (h2, s2) \<leftarrow> (if GetAckRequired h1
           then map_option (\<lambda>s'. (SetAckRequired False h1, s')) (SendReplyAck now sender s1)
           else Some (h1, s1));
        if IsMyOwnAddress (rp_origin h2) s2 then Some (complete_search cfg now dst newEntry toDst s2)
        else forward_reply cfg now ttl h2 toDst s2
      })"

definition RecvReplyAck :: "time \<Rightarrow> ipv4 \<Rightarrow> aodv_node \<Rightarrow> aodv_node" where
  "RecvReplyAck now neighbor s =
     (let (found, rt, s1) = lookup_route now neighbor (default_entry now) s in
      if found then update_route (rt\<lparr>rt_flag := VALID\<rparr>) s1 else s1)"

subsection \<open>Errors received\<close>

fun take_unreachable :: "(ipv4 \<times> u32) list \<Rightarrow> (ipv4 \<times> u32) list \<Rightarrow> (ipv4 \<times> u32) list \<Rightarrow> (ipv4 \<times> u32) list" where
  "take_unreachable via [] u = u"
| "take_unreachable via ((d, q) # uns) u =
     take_unreachable via uns (if \<exists>(i, _) \<in> set via. ipv4_eq i d then fst (smap_insert ipv4_less d q u) else u)"

definition RecvError :: "aodv_cfg \<Rightarrow> time \<Rightarrow> rerr \<Rightarrow> ipv4 \<Rightarrow> aodv_node \<Rightarrow> aodv_node option" where
  "RecvError cfg now h src s = do {
     let (dstWithNextHopSrc, t) = GetListOfDestinationWithNextHop now src (n_table s);
     let unreachable = take_unreachable dstWithNextHopSrc (re_unreachable h) [];
     r \<leftarrow> rerr_loop cfg now unreachable (h\<lparr>re_unreachable := []\<rparr>) [] (s\<lparr>n_table := t\<rparr>);
     s1 \<leftarrow> finish_rerr cfg now r;
     Some (s1\<lparr>n_table := InvalidateRoutesWithDst now unreachable (n_table s1)\<rparr>)
   }"

text \<open>
  \<open>RecvAodv\<close>: a message is its bytes and the TTL of its socket tag; the type header selects the handler,
  and a message of unknown type is dropped.
\<close>

definition RecvAodv :: "aodv_cfg \<Rightarrow> time \<Rightarrow> u8 \<Rightarrow> bytes \<Rightarrow> ipv4 \<Rightarrow> ipv4 \<Rightarrow> aodv_node \<Rightarrow> aodv_node option" where
  "RecvAodv cfg now ttl msg receiver sender s = do {
     let s1 = UpdateRouteToNeighbor cfg now sender receiver s;
     (th, rest) \<leftarrow> TypeHeader_Deserialize \<lparr>th_type = AODVTYPE_RREQ, th_valid = True\<rparr> msg;
     if \<not> th_valid th then Some s1
     else case th_type th of
       AODVTYPE_RREQ \<Rightarrow> do { (h, _) \<leftarrow> Rreq_Deserialize rest; RecvRequest cfg now ttl h receiver sender s1 }
     | AODVTYPE_RREP \<Rightarrow> do { (h, _) \<leftarrow> Rrep_Deserialize rest; RecvReply cfg now ttl h receiver sender s1 }
     | AODVTYPE_RERR \<Rightarrow> do { (h, _) \<leftarrow> Rerr_Deserialize rest; RecvError cfg now h sender s1 }
     | AODVTYPE_RREP_ACK \<Rightarrow> Some (RecvReplyAck now sender s1)
   }"

subsection \<open>Data packets\<close>

definition Forwarding :: "aodv_cfg \<Rightarrow> time \<Rightarrow> packet \<Rightarrow> ip_header \<Rightarrow> aodv_node \<Rightarrow> (bool \<times> aodv_node) option" where
  "Forwarding cfg now p h s =
     (let dst = ih_destination h; origin = ih_source h; life = c_activeRouteTimeout cfg;
          s0 = s\<lparr>n_table := Purge now (n_table s)\<rparr>;
          (found, toDst, s1) = lookup_route now dst (default_entry now) s0
      in if found \<and> rt_flag toDst = VALID then do {
           let s2 = snd (UpdateRouteLifeTime now origin life s1);
           let s3 = snd (UpdateRouteLifeTime now dst life s2);
           let s4 = snd (UpdateRouteLifeTime now (rt_nextHop toDst) life s3);
           let (_, toOrigin, s5) = lookup_route now origin (default_entry now) s4;
           let s6 = snd (UpdateRouteLifeTime now (rt_nextHop toOrigin) life s5);
           s7 \<leftarrow> nb_update cfg now (rt_nextHop toDst) life s6;
           s8 \<leftarrow> nb_update cfg now (rt_nextHop toOrigin) life s7;
           Some (True, emit [OutForward toDst p h] s8)
         }
         else map_option (Pair False) (SendRerrWhenNoRouteToForward cfg now dst
                (if found \<and> rt_validSeqNo toDst then rt_seqNo toDst else 0) origin s1))"

text \<open>
  \<open>RouteOutput\<close> for a packet: the answer is no route (\<open>None\<close>), the loopback route that defers the
  packet, or the route of the table. \<open>oif\<close> is the device the caller asks for, 0 for any.
\<close>

datatype route_answer = NoRoute | Loopback | Route rt_entry

definition RouteOutput :: "aodv_cfg \<Rightarrow> time \<Rightarrow> ip_header \<Rightarrow> nat \<Rightarrow> aodv_node \<Rightarrow> route_answer \<times> aodv_node" where
  "RouteOutput cfg now h oif s =
     (if n_socketAddresses s = [] then (NoRoute, s)
      else
        (let dst = ih_destination h; (ok, rt, s1) = lookup_valid_route now dst (default_entry now) s in
         if ok then
           (if oif \<noteq> 0 \<and> rt_dev rt \<noteq> oif then (NoRoute, s1)
            else (let s2 = snd (UpdateRouteLifeTime now dst (c_activeRouteTimeout cfg) s1);
                      s3 = snd (UpdateRouteLifeTime now (rt_nextHop rt) (c_activeRouteTimeout cfg) s2)
                  in (Route rt, s3)))
         else (Loopback, s1)))"

subsection \<open>Hello messages\<close>

definition SendHello :: "aodv_cfg \<Rightarrow> aodv_node \<Rightarrow> aodv_node" where
  "SendHello cfg s =
     emit (map (\<lambda>(k, iface). OutRrep k (broadcast_of iface) 1
        (RrepHeader 0 0 (ia_local iface) (n_seqNo s) (ia_local iface)
          (to_ms (int (c_allowedHelloLoss cfg) * c_helloInterval cfg)))) (n_socketAddresses s)) s"

definition HelloTimerExpire :: "aodv_cfg \<Rightarrow> time \<Rightarrow> aodv_node \<Rightarrow> aodv_node" where
  "HelloTimerExpire cfg now s =
     (let (offset, s1) = (if 0 < n_lastBcastTime s then (now - n_lastBcastTime s, s) else (0, SendHello cfg s))
      in s1\<lparr>n_htimer := Some (now + max 0 (c_helloInterval cfg - offset)), n_lastBcastTime := 0\<rparr>)"

end
