(* ===== verification/Aodv_Node_Facts.thy ===== *)
theory Aodv_Node_Facts
  imports Aodv_Handlers Aodv_Rtable_Properties
begin

text \<open>
  The invariant of an AODV node: its table, queue and neighbour list are well formed, the rate limits
  hold, and the destinations in search are among a given set \<open>D\<close>. A step keeps the invariant for
  every \<open>D\<close> when it starts no search.
\<close>

definition searching :: "aodv_node \<Rightarrow> ipv4 \<Rightarrow> bool" where
  "searching s d \<longleftrightarrow> (\<exists>e. routes (n_table s) d = Some e \<and> rt_flag e = IN_SEARCH)"

definition queue_ok :: "rqueue \<Rightarrow> bool" where
  "queue_ok q \<longleftrightarrow> 0 < m_maxLen q \<and> length (m_queue q) \<le> m_maxLen q \<and> distinct (map rq_id (m_queue q))"

definition node_inv :: "ipv4 set \<Rightarrow> aodv_cfg \<Rightarrow> aodv_node \<Rightarrow> bool" where
  "node_inv D cfg s \<longleftrightarrow> rt_ok (n_table s) \<and> smap_ok (n_addressReqTimer s) \<and> (\<forall>d. searching s d \<longrightarrow> d \<in> D) \<and>
     n_rreqCount s \<le> c_rreqRateLimit cfg \<and> n_rerrCount s \<le> c_rerrRateLimit cfg \<and> queue_ok (n_queue s) \<and> nb_ok (n_nb s)"

text \<open>Steps that start no search and leave the timers and sockets alone.\<close>

definition keeps :: "ipv4 set \<Rightarrow> aodv_cfg \<Rightarrow> aodv_node \<Rightarrow> aodv_node \<Rightarrow> bool" where
  "keeps D cfg s s' \<longleftrightarrow> (node_inv D cfg s \<longrightarrow> node_inv D cfg s') \<and> n_addressReqTimer s' = n_addressReqTimer s
     \<and> n_socketAddresses s' = n_socketAddresses s \<and> n_rreqTimer s' = n_rreqTimer s"

named_theorems keeps_intros

lemma keeps_refl [keeps_intros]: "keeps D cfg s s"
  by (simp add: keeps_def)

lemma keeps_trans [trans]: "keeps D cfg s s1 \<Longrightarrow> keeps D cfg s1 s2 \<Longrightarrow> keeps D cfg s s2"
  by (simp add: keeps_def)

lemma keeps_inv: "keeps D cfg s s' \<Longrightarrow> node_inv D cfg s \<Longrightarrow> node_inv D cfg s'"
  by (simp add: keeps_def)

subsection \<open>The table operations\<close>

lemma purged_search: "purged now bad e = Some e' \<Longrightarrow> rt_flag e' = IN_SEARCH \<longleftrightarrow> rt_flag e = IN_SEARCH"
  by (auto simp: purged_def split: if_splits RouteFlags.splits)

lemma Purge_searching: "rt_ok t \<Longrightarrow> (\<exists>e. routes (Purge now t) d = Some e \<and> rt_flag e = IN_SEARCH) \<longleftrightarrow>
   (\<exists>e. routes t d = Some e \<and> rt_flag e = IN_SEARCH)"
proof -
  assume t: "rt_ok t"
  have "purged now b e = Some e" if "rt_flag e = IN_SEARCH" for e b using that by (simp add: purged_def)
  then show ?thesis using t by (auto simp: Purge_routes bind_eq_Some_conv purged_search)
qed

lemma table_inv:
  assumes "node_inv D cfg s" and "rt_ok t"
    and "\<And>d e. routes t d = Some e \<Longrightarrow> rt_flag e = IN_SEARCH \<Longrightarrow> d \<in> D"
  shows "node_inv D cfg (s\<lparr>n_table := t\<rparr>)"
  using assms by (auto simp: node_inv_def searching_def )

lemma searchingI: "node_inv D cfg s \<Longrightarrow> routes (n_table s) d = Some e \<Longrightarrow> rt_flag e = IN_SEARCH \<Longrightarrow> d \<in> D"
  by (auto simp: node_inv_def searching_def)

lemma keeps_Purge [keeps_intros]: "keeps D cfg s (s\<lparr>n_table := Purge now (n_table s)\<rparr>)"
  unfolding keeps_def
proof (intro conjI impI)
  assume inv: "node_inv D cfg s"
  then have "rt_ok (n_table s)" by (simp add: node_inv_def)
  then show "node_inv D cfg (s\<lparr>n_table := Purge now (n_table s)\<rparr>)"
    using inv by (intro table_inv) (auto simp: Purge_ok intro: searchingI dest: Purge_searching[THEN iffD1, OF _ exI, OF _ conjI])
qed simp_all

lemma lookup_route_eq: "lookup_route now d rt s =
   (case routes (Purge now (n_table s)) d of None \<Rightarrow> (False, rt, s\<lparr>n_table := Purge now (n_table s)\<rparr>)
    | Some e \<Rightarrow> (True, e, s\<lparr>n_table := Purge now (n_table s)\<rparr>))"
  by (simp add: lookup_route_def LookupRoute_def Let_def split: option.split)

lemma lookup_valid_eq: "lookup_valid_route now d rt s =
   (case routes (Purge now (n_table s)) d of None \<Rightarrow> (False, rt, s\<lparr>n_table := Purge now (n_table s)\<rparr>)
    | Some e \<Rightarrow> (rt_flag e = VALID, e, s\<lparr>n_table := Purge now (n_table s)\<rparr>))"
  by (simp add: lookup_valid_route_def LookupValidRoute_eq split: option.split)

lemma lookup_route_state: "lookup_route now d rt s = (f, e, s') \<Longrightarrow> s' = s\<lparr>n_table := Purge now (n_table s)\<rparr>"
  by (auto simp: lookup_route_eq split: option.splits)

lemma lookup_valid_state: "lookup_valid_route now d rt s = (f, e, s') \<Longrightarrow> s' = s\<lparr>n_table := Purge now (n_table s)\<rparr>"
  by (auto simp: lookup_valid_eq split: option.splits)

lemma keeps_lookup: "lookup_route now d rt s = (f, e, s') \<Longrightarrow> keeps D cfg s s'"
  using keeps_Purge by (auto dest: lookup_route_state)

lemma keeps_lookup_valid: "lookup_valid_route now d rt s = (f, e, s') \<Longrightarrow> keeps D cfg s s'"
  using keeps_Purge by (auto dest: lookup_valid_state)

text \<open>A search found by a look-up has its timer.\<close>

lemma lookup_found: "lookup_route now d rt s = (True, e, s') \<Longrightarrow> routes (n_table s') d = Some e"
  by (auto simp: lookup_route_eq split: option.splits)

lemma lookup_missing: "lookup_route now d rt s = (False, e, s') \<Longrightarrow> routes (n_table s') d = None \<and> e = rt"
  by (auto simp: lookup_route_eq split: option.splits)

lemma lookup_in_search: "node_inv D cfg s \<Longrightarrow> lookup_route now d rt s = (True, e, s') \<Longrightarrow>
   rt_dst e = d \<and> (rt_flag e = IN_SEARCH \<longrightarrow> d \<in> D)"
proof -
  assume inv: "node_inv D cfg s" and l: "lookup_route now d rt s = (True, e, s')"
  from keeps_inv[OF keeps_lookup[OF l] inv] have inv': "node_inv D cfg s'" .
  then show ?thesis using searchingI[OF inv' lookup_found[OF l]] rt_ok_dst[OF _ lookup_found[OF l]]
    by (auto simp: node_inv_def)
qed

lemma keeps_update:
  assumes "rt_flag e = IN_SEARCH \<Longrightarrow> node_inv D cfg s \<Longrightarrow> rt_dst e \<in> D"
  shows "keeps D cfg s (update_route e s)"
  unfolding keeps_def
proof (intro conjI impI)
  assume inv: "node_inv D cfg s"
  then have t: "rt_ok (n_table s)" by (simp add: node_inv_def)
  have r: "routes (snd (Update e (n_table s))) = (if routes (n_table s) (rt_dst e) \<noteq> None
      then (routes (n_table s))(rt_dst e \<mapsto> reset_count e) else routes (n_table s))"
    using t by (auto simp: Update_def map_of_smap_set rt_okD reset_count_def)
  have "d \<in> D" if "routes (snd (Update e (n_table s))) d = Some e'" "rt_flag e' = IN_SEARCH" for d e'
    using that assms inv searchingI[OF inv] unfolding r by (auto split: if_splits)
  then show "node_inv D cfg (update_route e s)"
    unfolding update_route_def using inv t by (intro table_inv) (auto simp: Update_ok)
qed (simp_all add: update_route_def)

lemma keeps_add:
  assumes "rt_flag e = IN_SEARCH \<Longrightarrow> node_inv D cfg s \<Longrightarrow> rt_dst e \<in> D"
  shows "keeps D cfg s (add_route now e s)"
  unfolding keeps_def
proof (intro conjI impI)
  assume inv: "node_inv D cfg s"
  then have t: "rt_ok (n_table s)" by (simp add: node_inv_def)
  have inv': "node_inv D cfg (s\<lparr>n_table := Purge now (n_table s)\<rparr>)" by (rule keeps_inv[OF keeps_Purge inv])
  have "d \<in> D" if "routes (snd (AddRoute now e (n_table s))) d = Some e'" "rt_flag e' = IN_SEARCH" for d e'
    using that assms inv searchingI[OF inv', of d e']
    by (rule_tac AddRoute_cases[OF t, of now e])
      (auto simp: map_of_smap_set rt_okD[OF Purge_ok[OF t]]  split: if_splits)
  then show "node_inv D cfg (add_route now e s)"
    unfolding add_route_def using inv t by (intro table_inv) (auto simp: AddRoute_ok)
qed (simp_all add: add_route_def)


text \<open>Parts of the state the invariant does not mention, or that change within it.\<close>

lemma keeps_fields [keeps_intros]:
  "keeps D cfg s (emit os s)" "keeps D cfg s (s\<lparr>n_rreqIdCache := c\<rparr>)" "keeps D cfg s (s\<lparr>n_lastBcastTime := t\<rparr>)"
  "keeps D cfg s (s\<lparr>n_htimer := h\<rparr>)" "keeps D cfg s (s\<lparr>n_rerrTimer := h\<rparr>)" "keeps D cfg s (s\<lparr>n_seqNo := n\<rparr>)"
  "keeps D cfg s (s\<lparr>n_requestId := n\<rparr>)"
  by (simp_all add: keeps_def node_inv_def searching_def  emit_def)

lemma keeps_invalidate [keeps_intros]: "keeps D cfg s (s\<lparr>n_table := InvalidateRoutesWithDst now u (n_table s)\<rparr>)"
  unfolding keeps_def
proof (intro conjI impI)
  assume inv: "node_inv D cfg s"
  then have t: "rt_ok (n_table s)" by (simp add: node_inv_def)
  have inv': "node_inv D cfg (s\<lparr>n_table := Purge now (n_table s)\<rparr>)" by (rule keeps_inv[OF keeps_Purge inv])
  have "d \<in> D" if "routes (InvalidateRoutesWithDst now u (n_table s)) d = Some e'" "rt_flag e' = IN_SEARCH" for d e'
    using that searchingI[OF inv', of d]
    by (auto simp: InvalidateRoutesWithDst_routes break_entry_def  split: if_splits)
  then show "node_inv D cfg (s\<lparr>n_table := InvalidateRoutesWithDst now u (n_table s)\<rparr>)"
    using inv t by (intro table_inv) (auto simp: InvalidateRoutesWithDst_ok)
qed simp_all

lemma keeps_unreachable: "GetListOfDestinationWithNextHop now h (n_table s) = (u, t) \<Longrightarrow> keeps D cfg s (s\<lparr>n_table := t\<rparr>)"
  using keeps_Purge[of D cfg s now] by (auto simp: GetListOfDestinationWithNextHop_def Let_def)

lemma keeps_mark: "keeps D cfg s (s\<lparr>n_table := snd (MarkLinkAsUnidirectional d b (n_table s))\<rparr>)"
  unfolding keeps_def
proof (intro conjI impI)
  assume inv: "node_inv D cfg s"
  then have t: "rt_ok (n_table s)" by (simp add: node_inv_def)
  have "d' \<in> D" if "routes (snd (MarkLinkAsUnidirectional d b (n_table s))) d' = Some e'" "rt_flag e' = IN_SEARCH" for d' e'
    using that searchingI[OF inv]
    by (auto simp: MarkLinkAsUnidirectional_def map_of_smap_set rt_okD[OF t] split: option.splits if_splits)
  then show "node_inv D cfg (s\<lparr>n_table := snd (MarkLinkAsUnidirectional d b (n_table s))\<rparr>)"
    using inv t by (intro table_inv) (auto simp: MarkLinkAsUnidirectional_ok)
qed simp_all

lemma keeps_rerrCount: "n_rerrCount s \<noteq> c_rerrRateLimit cfg \<Longrightarrow> keeps D cfg s (s\<lparr>n_rerrCount := n_rerrCount s + 1\<rparr>)"
  by (auto simp: keeps_def node_inv_def searching_def  intro: inc_le)

lemma keeps_nb: "(nb_ok (n_nb s) \<Longrightarrow> nb_ok nb) \<Longrightarrow> keeps D cfg s (s\<lparr>n_nb := nb\<rparr>)"
  by (simp add: keeps_def node_inv_def searching_def )

lemma keeps_queue: "(queue_ok (n_queue s) \<Longrightarrow> queue_ok q) \<Longrightarrow> keeps D cfg s (s\<lparr>n_queue := q\<rparr>)"
  by (simp add: keeps_def node_inv_def searching_def )

subsection \<open>Neighbour routes and route errors\<close>

lemma keeps_UpdateRouteLifeTime [keeps_intros]: "keeps D cfg s (snd (UpdateRouteLifeTime now a l s))"
proof -
  obtain f e s1 where l: "lookup_route now a (default_entry now) s = (f, e, s1)" by (cases "lookup_route now a (default_entry now) s") auto
  have "keeps D cfg s1 (snd (UpdateRouteLifeTime now a l s))"
    by (auto simp: UpdateRouteLifeTime_def l SetLifeTime_def keeps_refl intro!: keeps_update)
  with keeps_lookup[OF l] show ?thesis by (rule keeps_trans)
qed

lemma entry_flag [simp]: "rt_flag (RoutingTableEntry now dev d v q i h n l) = VALID"
  and entry_dst [simp]: "rt_dst (RoutingTableEntry now dev d v q i h n l) = d"
  by (simp_all add: RoutingTableEntry_def)

lemma keeps_UpdateRouteToNeighbor [keeps_intros]: "keeps D cfg s (UpdateRouteToNeighbor cfg now sender receiver s)"
proof -
  obtain f e s1 where l: "lookup_route now sender (default_entry now) s = (f, e, s1)" by (cases "lookup_route now sender (default_entry now) s") auto
  have "keeps D cfg s1 (UpdateRouteToNeighbor cfg now sender receiver s)"
    by (auto simp: UpdateRouteToNeighbor_def l Let_def keeps_refl intro!: keeps_update keeps_add)
  with keeps_lookup[OF l] show ?thesis by (rule keeps_trans)
qed

lemma keeps_collect: "collect_ifaces now ps s = (is, s') \<Longrightarrow> keeps D cfg s s'"
proof -
  have "foldl (\<lambda>(ifaces, s) p. let (ok, toPrecursor, s') = lookup_valid_route now p (default_entry now) s in
        (if ok \<and> rt_iface toPrecursor \<notin> set ifaces then ifaces @ [rt_iface toPrecursor] else ifaces, s'))
       (is0, s) ps = (is, s') \<Longrightarrow> keeps D cfg s s'" for is0
  proof (induction ps arbitrary: is0 s)
    case (Cons p ps)
    obtain f e s1 where l: "lookup_valid_route now p (default_entry now) s = (f, e, s1)"
      by (cases "lookup_valid_route now p (default_entry now) s") auto
    from Cons.prems have "keeps D cfg s1 s'" by (auto simp: l Let_def intro: Cons.IH)
    with keeps_lookup_valid[OF l] show ?case by (rule keeps_trans)
  qed (simp add: keeps_refl)
  then show "collect_ifaces now ps s = (is, s') \<Longrightarrow> keeps D cfg s s'" by (auto simp: collect_ifaces_def)
qed

lemma keeps_broadcast: "broadcast_rerr is h s = Some s' \<Longrightarrow> keeps D cfg s s'"
proof (induction "is" h s rule: broadcast_rerr.induct)
  case (2 i "is" h s)
  then obtain k where "broadcast_rerr is h (emit [OutRerr k (broadcast_of i) 1 h] s) = Some s'"
    and "FindSocketWithInterfaceAddress i s = Some k" by (auto split: Option.bind_splits)
  with keeps_fields(1) "2.IH" show ?case by (blast intro: keeps_trans)
qed (simp add: keeps_refl)

lemma keeps_SendRerrMessage: "SendRerrMessage cfg now h ps s = Some s' \<Longrightarrow> keeps D cfg s s'"
proof -
  assume S: "SendRerrMessage cfg now h ps s = Some s'"
  obtain f e s1 where l: "lookup_valid_route now (hd ps) (default_entry now) s = (f, e, s1)"
    by (cases "lookup_valid_route now (hd ps) (default_entry now) s") auto
  obtain "is" s2 where c: "collect_ifaces now ps s = (is, s2)" by (cases "collect_ifaces now ps s")
  have k: "keeps D cfg s s1" by (rule keeps_lookup_valid[OF l])
  have n: "n_rerrCount s1 = n_rerrCount s" using lookup_valid_state[OF l] by simp
  have e: "keeps D cfg s1 ((emit os s1)\<lparr>n_rerrCount := n_rerrCount s1 + 1\<rparr>)" if "n_rerrCount s \<noteq> c_rerrRateLimit cfg" for os
    using keeps_trans[OF keeps_fields(1)[of D cfg s1 os] keeps_rerrCount[of "emit os s1" cfg]] that n by (simp add: emit_def)
  consider (none) "ps = [] \<or> n_rerrCount s = c_rerrRateLimit cfg" | (one) "n_rerrCount s \<noteq> c_rerrRateLimit cfg" "length ps = 1"
    | (many) "ps \<noteq> []" "n_rerrCount s \<noteq> c_rerrRateLimit cfg" "length ps \<noteq> 1" by blast
  then show ?thesis
  proof cases
    case none
    then have "s' = s" using S by (auto simp: SendRerrMessage_def split: if_splits)
    then show ?thesis by (simp add: keeps_refl)
  next
    case one
    then have "ps \<noteq> []" by auto
    then have "s' = s1 \<or> (\<exists>os. s' = (emit os s1)\<lparr>n_rerrCount := n_rerrCount s1 + 1\<rparr>)"
      using S one by (auto simp: SendRerrMessage_def l bind_eq_Some_conv split: if_splits)
    then show ?thesis using k keeps_trans[OF k e] one by blast
  next
    case many
    then have "broadcast_rerr is h s2 = Some s'" using S by (simp add: SendRerrMessage_def c)
    then show ?thesis by (rule keeps_trans[OF keeps_collect[OF c] keeps_broadcast])
  qed
qed

lemma keeps_rerr_loop: "rerr_loop cfg now us h ps s = Some (h', ps', s') \<Longrightarrow> keeps D cfg s s'"
proof (induction cfg now us h ps s rule: rerr_loop.induct)
  case (2 cfg now d q us h prec s)
  from "2.prems" obtain b h1 where b: "AddUnDestination d q h = Some (b, h1)" by (auto split: option.splits)
  then have a: "AddUnDestination d q h = Some (True, h1)" using AddUnDestination_True[OF b] by simp
  obtain f e s1 where l: "lookup_route now d (default_entry now) s = (f, e, s1)" by (cases "lookup_route now d (default_entry now) s") auto
  have "keeps D cfg s1 s'" using "2.IH"(2)[OF a refl _ l[symmetric] refl] "2.prems" by (simp add: a l)
  with keeps_lookup[OF l] show ?case by (rule keeps_trans)
qed (simp add: keeps_refl)

lemma keeps_finish: "finish_rerr cfg now (h, ps, s) = Some s' \<Longrightarrow> keeps D cfg s s'"
  by (auto simp: finish_rerr_def keeps_refl dest: keeps_SendRerrMessage split: if_splits)

text \<open>An entry the table handed out: when it is in search, its destination is in the set.\<close>

definition known :: "ipv4 set \<Rightarrow> aodv_cfg \<Rightarrow> aodv_node \<Rightarrow> rt_entry \<Rightarrow> bool" where
  "known D cfg s e \<longleftrightarrow> (node_inv D cfg s \<longrightarrow> rt_flag e = IN_SEARCH \<longrightarrow> rt_dst e \<in> D)"

lemma default_flag [simp]: "rt_flag (default_entry now) = VALID"
  by (simp add: default_entry_def)

lemma known_flag: "rt_flag e \<noteq> IN_SEARCH \<Longrightarrow> known D cfg s e"
  by (simp add: known_def)

lemma lookup_known:
  assumes l: "lookup_route now d rt s = (f, e, s')" and rt: "known D cfg s rt"
  shows "known D cfg s e"
proof (cases f)
  case True
  then show ?thesis using lookup_in_search[of D cfg s now d rt e s'] l by (auto simp: known_def)
next
  case False
  then show ?thesis using lookup_missing[of now d rt s e s'] l rt by simp
qed

lemma lookup_known_default: "lookup_route now d (default_entry now) s = (f, e, s') \<Longrightarrow> known D cfg s e"
  by (erule lookup_known) (rule known_flag, simp)

text \<open>Writing back an entry that was read from an earlier state of the same step.\<close>

lemma keeps_update_known: 
  assumes "keeps D cfg s s1" and "known D cfg s e" and "rt_dst e' = rt_dst e" and "rt_flag e' = IN_SEARCH \<Longrightarrow> rt_flag e = IN_SEARCH"
  shows "keeps D cfg s (update_route e' s1)"
  unfolding keeps_def
proof (intro conjI impI)
  assume inv: "node_inv D cfg s"
  have "keeps D cfg s1 (update_route e' s1)"
    using assms inv by (intro keeps_update) (simp add: known_def)
  from keeps_inv[OF this keeps_inv[OF assms(1) inv]] show "node_inv D cfg (update_route e' s1)" .
qed (use assms(1) in \<open>simp_all add: keeps_def update_route_def\<close>)

subsection \<open>Link breaks\<close>

lemma keeps_SendRerrWhenBreaksLink: "SendRerrWhenBreaksLinkToNextHop cfg now a s = Some s' \<Longrightarrow> keeps D cfg s s'"
proof -
  assume S: "SendRerrWhenBreaksLinkToNextHop cfg now a s = Some s'"
  obtain f e s1 where l: "lookup_route now a (default_entry now) s = (f, e, s1)" by (cases "lookup_route now a (default_entry now) s") auto
  obtain u t where u: "GetListOfDestinationWithNextHop now a (n_table s1) = (u, t)" by (cases "GetListOfDestinationWithNextHop now a (n_table s1)")
  note k = keeps_trans[OF keeps_lookup[OF l] keeps_unreachable[OF u]]
  show ?thesis
  proof (cases f)
    case True
    with S obtain h h' ps s2 s3 u' where r: "rerr_loop cfg now u h (GetPrecursors e []) (s1\<lparr>n_table := t\<rparr>) = Some (h', ps, s2)"
      "finish_rerr cfg now (h', ps, s2) = Some s3" "s' = s3\<lparr>n_table := InvalidateRoutesWithDst now u' (n_table s3)\<rparr>"
      by (auto simp: SendRerrWhenBreaksLinkToNextHop_def l u Let_def bind_eq_Some_conv)
    show ?thesis
      unfolding r(3) by (rule keeps_trans[OF keeps_trans[OF keeps_trans[OF k keeps_rerr_loop[OF r(1)]] keeps_finish[OF r(2)]] keeps_invalidate])
  next
    case False
    then have "s' = s1" using S by (simp add: SendRerrWhenBreaksLinkToNextHop_def l)
    then show ?thesis using keeps_lookup[OF l] by simp
  qed
qed

lemma keeps_close_links: "close_links cfg now as s = Some s' \<Longrightarrow> keeps D cfg s s'"
proof (induction cfg now "as" s rule: close_links.induct)
  case (2 cfg now a "as" s)
  then obtain s1 where "SendRerrWhenBreaksLinkToNextHop cfg now a s = Some s1" "close_links cfg now as s1 = Some s'"
    by (auto simp: bind_eq_Some_conv)
  with 2 show ?case by (blast intro: keeps_trans keeps_SendRerrWhenBreaksLink)
qed (simp add: keeps_refl)

lemma node_inv_nb: "node_inv D cfg s \<Longrightarrow> nb_ok (n_nb s)" "node_inv D cfg s \<Longrightarrow> nb_ok nb \<Longrightarrow> node_inv D cfg (s\<lparr>n_nb := nb\<rparr>)"
  by (simp_all add: node_inv_def searching_def )

lemma keeps_new_nb: "keeps D cfg s s1 \<Longrightarrow> (nb_ok (n_nb s) \<Longrightarrow> nb_ok nb) \<Longrightarrow> keeps D cfg s (s1\<lparr>n_nb := nb\<rparr>)"
  by (auto simp: keeps_def node_inv_nb)

lemma ProcessTxError_ok: "nb_ok n \<Longrightarrow> nb_ok (snd (ProcessTxError now mac n))"
  unfolding ProcessTxError_def by (rule Purge_nb_ok) (simp add: nb_ok_def comp_def if_distrib cong: if_cong)

lemma keeps_nb_update: "nb_update cfg now a x s = Some s' \<Longrightarrow> keeps D cfg s s'"
  using nb_Update_ok[of "n_nb s" now a x]
  by (auto simp: nb_update_def split: prod.splits intro!: keeps_new_nb dest: keeps_close_links)

lemma keeps_nb_purge: "nb_purge cfg now s = Some s' \<Longrightarrow> keeps D cfg s s'"
  using Purge_nb_ok[of "n_nb s" now]
  by (auto simp: nb_purge_def nb_ok_def split: prod.splits intro!: keeps_new_nb dest: keeps_close_links)

lemma keeps_NotifyTxError: "NotifyTxError cfg now mac s = Some s' \<Longrightarrow> keeps D cfg s s'"
  using ProcessTxError_ok[of "n_nb s" now mac]
  by (auto simp: NotifyTxError_def split: prod.splits intro!: keeps_new_nb dest: keeps_close_links)

lemma keeps_NoRoute: "SendRerrWhenNoRouteToForward cfg now d q a s = Some s' \<Longrightarrow> keeps D cfg s s'"
proof -
  assume S: "SendRerrWhenNoRouteToForward cfg now d q a s = Some s'"
  obtain f e s1 where l: "lookup_valid_route now a (default_entry now) s = (f, e, s1)"
    by (cases "lookup_valid_route now a (default_entry now) s") auto
  have "s' = s \<or> (\<exists>os. s' = emit os s1)"
    using S by (auto simp: SendRerrWhenNoRouteToForward_def l bind_eq_Some_conv split: if_splits)
  then show ?thesis using keeps_trans[OF keeps_lookup_valid[OF l] keeps_fields(1)] keeps_refl by blast
qed

end
