(* ===== verification/Aodv_Node_Invariant.thy ===== *)
theory Aodv_Node_Invariant
  imports Aodv_Node_Facts
begin

text \<open>
  Every handler preserves the node invariant, and with it every sequence of events a node reacts to.
\<close>

subsection \<open>Packets that wait\<close>

lemma queue_ok_call: "queue_ok q \<Longrightarrow> rq_do c (empty_log, q) = Some (l, q') \<Longrightarrow> queue_ok q'"
proof -
  assume q: "queue_ok q" and c: "rq_do c (empty_log, q) = Some (l, q')"
  let ?l = "empty_log\<lparr>accepted := m_queue q\<rparr>"
  from q have "rq_inv (?l, q)" "0 < m_maxLen q" by (simp_all add: rq_inv_def queue_ok_def)
  from rq_do_inv[OF this, of c] obtain l2 q2 where
    2: "rq_do c (?l, q) = Some (l2, q2)" "rq_inv (l2, q2)" "m_maxLen q2 = m_maxLen q" by blast
  have "q2 = q'" using c 2(1) by (cases c rule: prod.exhaust, rename_tac t k, case_tac k) (auto split: prod.splits option.splits)
  then show ?thesis using 2 q by (auto simp: queue_ok_def rq_inv_def)
qed

lemma queue_ok_ops:
  assumes "queue_ok q"
  shows "Enqueue now e q = Some (b, d, q') \<Longrightarrow> queue_ok q'" "Dequeue now dst q = (r, d, q') \<Longrightarrow> queue_ok q'"
    "DropPacketWithDst now dst q = (d, q') \<Longrightarrow> queue_ok q'"
  using queue_ok_call[OF assms, of "(now, RqEnqueue e)"] queue_ok_call[OF assms, of "(now, RqDequeue dst)"]
    queue_ok_call[OF assms, of "(now, RqDropDst dst)"] by auto

lemma queue_ok_send: "queue_ok q \<Longrightarrow> send_queue if_of now dst r q = (os, q') \<Longrightarrow> queue_ok q'"
proof (induction if_of now dst r q arbitrary: os q' rule: send_queue.induct)
  case (1 if_of now dst r q)
  obtain e d q1 where D: "Dequeue now dst q = (e, d, q1)" by (cases "Dequeue now dst q") auto
  then have q1: "queue_ok q1" using queue_ok_ops(2)[OF "1.prems"(1)] by simp
  show ?case
  proof (cases e)
    case (Some a)
    note IH = "1.IH"[OF D[symmetric] Some refl refl refl refl _ q1]
    obtain os2 q2 where r: "send_queue if_of now dst r q1 = (os2, q2)" by (cases "send_queue if_of now dst r q1")
    show ?thesis
      using "1.prems"(2)[unfolded send_queue.simps[of if_of now dst r q] D Some prod.case option.case Let_def r] q1 IH[OF _ r]
      by (auto split: if_splits)
  qed (use "1.prems"(2) D q1 in \<open>auto simp: send_queue.simps[of if_of now dst r q]\<close>)
qed

lemma keeps_send_queue [keeps_intros]: "keeps D cfg s (SendPacketFromQueue cfg now dst r s)"
proof -
  obtain os q where r: "send_queue (c_if_of_dev cfg) now dst r (n_queue s) = (os, q)"
    by (cases "send_queue (c_if_of_dev cfg) now dst r (n_queue s)")
  show ?thesis unfolding SendPacketFromQueue_def r Let_def prod.case
    by (rule keeps_trans[OF keeps_queue[OF queue_ok_send[OF _ r]] keeps_fields(1)])
qed

lemma keeps_drop_packets [keeps_intros]: "keeps D cfg s (drop_packets now dst s)"
proof -
  obtain d q where r: "DropPacketWithDst now dst (n_queue s) = (d, q)" by (cases "DropPacketWithDst now dst (n_queue s)")
  show ?thesis unfolding drop_packets_def r Let_def prod.case
    by (rule keeps_trans[OF keeps_queue[OF queue_ok_ops(3)[OF _ r]] keeps_fields(1)])
qed

subsection \<open>Requests sent\<close>

lemma keeps_rreqCount: "n_rreqCount s \<noteq> c_rreqRateLimit cfg \<Longrightarrow> keeps D cfg s (s\<lparr>n_rreqCount := n_rreqCount s + 1\<rparr>)"
  by (auto simp: keeps_def node_inv_def searching_def  intro: inc_le)

lemma keeps_send_rreqs [keeps_intros]: "keeps D cfg s (send_rreqs now ttl h ss s)"
proof (induction ss arbitrary: s)
  case (Cons k ss)
  obtain k1 i where k: "k = (k1, i)" by (cases k)
  obtain b c where c: "IdCache_IsDuplicate now (ia_local i) (rq_requestID h) (n_rreqIdCache s) = (b, c)"
    by (cases "IdCache_IsDuplicate now (ia_local i) (rq_requestID h) (n_rreqIdCache s)")
  show ?case unfolding k send_rreqs.simps c Let_def prod.case
    by (rule keeps_trans[OF keeps_trans[OF keeps_trans[OF keeps_fields(2) keeps_fields(3)] keeps_fields(1)] Cons.IH])
qed (simp add: keeps_refl)

lemma keeps_search_entry: "search_entry cfg now dst h s = (ttl, h', s') \<Longrightarrow> keeps (insert dst D) cfg s s'"
proof -
  assume S: "search_entry cfg now dst h s = (ttl, h', s')"
  obtain f e s1 where l: "lookup_route now dst (default_entry now) s = (f, e, s1)" by (cases "lookup_route now dst (default_entry now) s") auto
  have "rt_dst e = dst" if "f" "node_inv (insert dst D) cfg s1"
    using rt_ok_dst[OF _ lookup_found[of now dst "default_entry now" s e s1]] that l by (simp add: node_inv_def)
  then have "keeps (insert dst D) cfg s1 s'"
    using S by (auto simp: search_entry_def l Let_def SetLifeTime_def IncrementRreqCnt_def split: if_splits
        intro!: keeps_update keeps_add)
  with keeps_lookup[OF l] show ?thesis by (rule keeps_trans)
qed

subsection \<open>How searches start and end\<close>

text \<open>The times a retry waits are positive.\<close>

definition retry_ok :: "aodv_cfg \<Rightarrow> bool" where
  "retry_ok cfg \<longleftrightarrow> 0 < c_nodeTraversalTime cfg \<and> 0 < c_netTraversalTime cfg \<and> 0 < c_timeoutBuffer cfg \<and> 0 < c_maxQueueLen cfg"

text \<open>What will take the search for \<open>d\<close> up again: a timer that runs, or a request that is put off.\<close>

definition rearmed :: "time \<Rightarrow> aodv_node \<Rightarrow> ipv4 \<Rightarrow> bool" where
  "rearmed now s d \<longleftrightarrow> (\<exists>x > now. map_of (n_addressReqTimer s) d = Some x) \<or> OutRetryRequest (timer_left now (n_rreqTimer s) + 100000) d \<in> set (n_out s)"

definition evolves :: "aodv_cfg \<Rightarrow> time \<Rightarrow> aodv_node \<Rightarrow> aodv_node \<Rightarrow> bool" where
  "evolves cfg now s s' \<longleftrightarrow> n_socketAddresses s' = n_socketAddresses s \<and> n_rreqTimer s' = n_rreqTimer s \<and>
     (node_inv UNIV cfg s \<longrightarrow> node_inv UNIV cfg s' \<and>
       (\<forall>d. searching s' d \<longrightarrow> rearmed now s' d \<or> searching s d \<and> map_of (n_addressReqTimer s') d = map_of (n_addressReqTimer s) d))"

lemma node_inv_searching: "node_inv D cfg s \<longleftrightarrow> node_inv UNIV cfg s \<and> (\<forall>d. searching s d \<longrightarrow> d \<in> D)"
  by (auto simp: node_inv_def)

lemma keeps_searching:
  assumes "\<And>D. keeps D cfg s s'" and "node_inv UNIV cfg s"
  shows "node_inv UNIV cfg s'" and "searching s' d \<Longrightarrow> searching s d"
proof -
  have "node_inv (Collect (searching s)) cfg s" using assms(2) by (subst node_inv_searching) simp
  then have "node_inv (Collect (searching s)) cfg s'" by (rule keeps_inv[OF assms(1)])
  then show "node_inv UNIV cfg s'" "searching s' d \<Longrightarrow> searching s d" by (auto simp: node_inv_searching[of "Collect (searching s)"])
qed

lemma keeps_evolves: "(\<And>D. keeps D cfg s s1) \<Longrightarrow> evolves cfg now s1 s' \<Longrightarrow> evolves cfg now s s'"
proof -
  assume k: "\<And>D. keeps D cfg s s1" and e: "evolves cfg now s1 s'"
  from k[of UNIV] have "n_addressReqTimer s1 = n_addressReqTimer s" "n_socketAddresses s1 = n_socketAddresses s" "n_rreqTimer s1 = n_rreqTimer s"
    by (simp_all add: keeps_def)
  then show ?thesis using e keeps_searching[OF k] by (auto simp: evolves_def)
qed

lemma evolves_refl: "evolves cfg now s s"
  by (simp add: evolves_def)

lemmas evolves_kept = keeps_evolves[OF _ evolves_refl]

text \<open>The end of the search for \<open>dst\<close>: it is not in search, and its timer is erased.\<close>

definition ends :: "ipv4 \<Rightarrow> aodv_cfg \<Rightarrow> aodv_node \<Rightarrow> aodv_node \<Rightarrow> bool" where
  "ends dst cfg s s' \<longleftrightarrow> n_socketAddresses s' = n_socketAddresses s \<and> n_rreqTimer s' = n_rreqTimer s \<and>
     n_addressReqTimer s' = smap_erase (<) dst (n_addressReqTimer s) \<and>
     (\<forall>D. node_inv D cfg s \<longrightarrow> node_inv (D - {dst}) cfg s')"

lemma ends_keeps: "ends dst cfg s s1 \<Longrightarrow> (\<And>D. keeps D cfg s1 s') \<Longrightarrow> ends dst cfg s s'"
  by (auto simp: ends_def keeps_def)

lemma ends_searching:
  assumes "ends dst cfg s s'" and "node_inv UNIV cfg s"
  shows "node_inv UNIV cfg s'" and "searching s' d \<Longrightarrow> searching s d \<and> d \<noteq> dst"
proof -
  have "node_inv (Collect (searching s)) cfg s" using assms(2) by (subst node_inv_searching) simp
  then have "node_inv (Collect (searching s) - {dst}) cfg s'" using assms(1) by (simp add: ends_def)
  then show "node_inv UNIV cfg s'" "searching s' d \<Longrightarrow> searching s d \<and> d \<noteq> dst"
    by (auto simp: node_inv_searching[of "Collect (searching s) - {dst}"])
qed

lemma ends_evolves: "ends dst cfg s s' \<Longrightarrow> evolves cfg now s s'"
proof -
  assume e: "ends dst cfg s s'"
  have "map_of (smap_erase (<) dst (n_addressReqTimer s)) d = map_of (n_addressReqTimer s) d"
    if "node_inv UNIV cfg s" "d \<noteq> dst" for d
    using that by (simp add: node_inv_def map_of_smap_erase)
  then show ?thesis using e ends_searching[OF e] by (auto simp: evolves_def ends_def)
qed

lemma map_of_smap_set_same: "map_of (smap_set (<) k v m) k = Some (v :: 'v)" for k :: "'k::linorder"
  by (induction m) auto

lemma ScheduleRreqRetry_spec:
  assumes ok: "retry_ok cfg" and S: "ScheduleRreqRetry cfg now dst s = Some s'"
  obtains x s1 where "now < x" "\<And>D. keeps D cfg s s1" "s' = s1\<lparr>n_addressReqTimer := smap_set (<) dst x (n_addressReqTimer s1)\<rparr>"
proof -
  obtain f e s1 where l: "lookup_route now dst (default_entry now) s = (f, e, s1)" by (cases "lookup_route now dst (default_entry now) s") auto
  from ok have pos: "0 < c_nodeTraversalTime cfg" "0 < c_netTraversalTime cfg" "0 < uint (c_timeoutBuffer cfg)"
    by (simp_all add: retry_ok_def word_less_def)
  then have "0 < 2 * c_nodeTraversalTime cfg * (int (unat (rt_hops e)) + int (unat (c_timeoutBuffer cfg)))"
    by (intro mult_pos_pos) (simp_all add: add_nonneg_pos)
  moreover have "0 < c_netTraversalTime cfg * 2 ^ k" for k using pos by simp
  moreover obtain r where "s' = s1\<lparr>n_addressReqTimer := smap_set (<) dst (now + r) (n_addressReqTimer s1)\<rparr>"
    "r = 2 * c_nodeTraversalTime cfg * (int (unat (rt_hops e)) + int (unat (c_timeoutBuffer cfg))) \<or> (\<exists>k. r = c_netTraversalTime cfg * 2 ^ k)"
    using S by (auto simp: ScheduleRreqRetry_def l Let_def bind_eq_Some_conv split: if_splits)
  ultimately obtain x where "now < x" "s' = s1\<lparr>n_addressReqTimer := smap_set (<) dst x (n_addressReqTimer s1)\<rparr>" by force
  with that keeps_lookup[OF l] show ?thesis by blast
qed

text \<open>Starting a search always leaves something that takes it up again.\<close>

lemma SendRequest_evolves:
  assumes ok: "retry_ok cfg" and S: "SendRequest cfg now dst s = Some s'"
  shows "evolves cfg now s s'" and "rearmed now s' dst"
proof -
  have "evolves cfg now s s' \<and> rearmed now s' dst"
  proof (cases "n_rreqCount s = c_rreqRateLimit cfg")
    case True
    then have s': "s' = emit [OutRetryRequest (timer_left now (n_rreqTimer s) + 100000) dst] s" using S by (simp add: SendRequest_def)
    show ?thesis unfolding s' using evolves_kept[OF keeps_fields(1)] by (auto simp: rearmed_def emit_def)
  next
    case False
    let ?s0 = "s\<lparr>n_rreqCount := n_rreqCount s + 1\<rparr>"
    obtain ttl h1 s1 where e: "search_entry cfg now dst (RreqHeader\<lparr>rq_dst := dst\<rparr>) ?s0 = (ttl, h1, s1)"
      by (cases "search_entry cfg now dst (RreqHeader\<lparr>rq_dst := dst\<rparr>) ?s0") auto
    let ?s2 = "s1\<lparr>n_seqNo := n_seqNo s1 + 1, n_requestId := n_requestId s1 + 1\<rparr>"
    obtain h where r: "ScheduleRreqRetry cfg now dst (send_rreqs now ttl h (n_socketAddresses ?s2) ?s2) = Some s'"
      using S False by (simp add: SendRequest_def e Let_def)
    from ScheduleRreqRetry_spec[OF ok r] obtain x s4 where x: "now < x" and
      k4: "\<And>D. keeps D cfg (send_rreqs now ttl h (n_socketAddresses ?s2) ?s2) s4" and
      s': "s' = s4\<lparr>n_addressReqTimer := smap_set (<) dst x (n_addressReqTimer s4)\<rparr>" by blast
    have k: "keeps (insert dst D) cfg s s4" for D
      by (rule keeps_trans[OF keeps_trans[OF keeps_trans[OF keeps_trans[OF keeps_trans[OF keeps_rreqCount[OF False] keeps_search_entry[OF e]]
        keeps_fields(6)[of _ _ s1 "n_seqNo s1 + 1"]] keeps_fields(7)] keeps_send_rreqs] k4])
    have "node_inv UNIV cfg s' \<and> (searching s' d \<longrightarrow> d = dst \<or> searching s d)
        \<and> map_of (n_addressReqTimer s') = (map_of (n_addressReqTimer s))(dst \<mapsto> x)" if "node_inv UNIV cfg s" for d
    proof -
      from that have "node_inv (insert dst (Collect (searching s))) cfg s" by (subst node_inv_searching) simp
      then have 4: "node_inv (insert dst (Collect (searching s))) cfg s4" by (rule keeps_inv[OF k])
      then show ?thesis using k[of UNIV]
        by (auto simp: s' node_inv_def searching_def smap_ok_set map_of_smap_set keeps_def)
    qed
    moreover have "n_socketAddresses s' = n_socketAddresses s \<and> n_rreqTimer s' = n_rreqTimer s" using k[of UNIV] by (simp add: s' keeps_def)
    ultimately show ?thesis using x by (auto simp: evolves_def rearmed_def s' map_of_smap_set_same)
  qed
  then show "evolves cfg now s s'" "rearmed now s' dst" by auto
qed

subsection \<open>Timers\<close>

lemma DeleteRoute_routes: "rt_ok t \<Longrightarrow> routes (snd (DeleteRoute now d t)) = (routes (Purge now t))(d := None)"
  using rt_okD[OF Purge_ok, of t now] by (simp add: DeleteRoute_def Let_def map_of_smap_erase)

text \<open>Erasing a timer after the entry of its destination has left the search.\<close>

lemma ends_erase:
  assumes "\<And>D. keeps D cfg s s1" and "node_inv UNIV cfg s \<Longrightarrow> \<not> searching s1 dst"
  shows "ends dst cfg s (s1\<lparr>n_addressReqTimer := smap_erase (<) dst (n_addressReqTimer s1)\<rparr>)"
proof -
  have "node_inv (D - {dst}) cfg (s1\<lparr>n_addressReqTimer := smap_erase (<) dst (n_addressReqTimer s1)\<rparr>)" if "node_inv D cfg s" for D
    using keeps_inv[OF assms(1) that] assms(2) that by (auto simp: node_inv_def searching_def smap_ok_erase)
  then show ?thesis using assms(1)[of UNIV] by (simp add: ends_def keeps_def)
qed

lemma ends_stop_search: "ends dst cfg s (stop_search now dst s)"
proof -
  let ?s1 = "s\<lparr>n_table := snd (DeleteRoute now dst (n_table s))\<rparr>"
  have k: "keeps D cfg s ?s1" for D
    unfolding keeps_def
  proof (intro conjI impI)
    assume inv: "node_inv D cfg s"
    then have t: "rt_ok (n_table s)" by (simp add: node_inv_def)
    have "node_inv D cfg (s\<lparr>n_table := Purge now (n_table s)\<rparr>)" by (rule keeps_inv[OF keeps_Purge inv])
    then show "node_inv D cfg ?s1"
      using inv t by (intro table_inv) (auto simp: DeleteRoute_routes[OF t] DeleteRoute_ok node_inv_def searching_def split: if_splits)
  qed simp_all
  have "\<not> searching ?s1 dst" if "node_inv UNIV cfg s"
    using that DeleteRoute_routes[of "n_table s" now dst] by (simp add: searching_def node_inv_def)
  from ends_erase[OF k this] have "ends dst cfg s (?s1\<lparr>n_addressReqTimer := smap_erase (<) dst (n_addressReqTimer s)\<rparr>)" by simp
  moreover have "stop_search now dst s = drop_packets now dst (?s1\<lparr>n_addressReqTimer := smap_erase (<) dst (n_addressReqTimer s)\<rparr>)"
    unfolding stop_search_def delete_route_def by (intro arg_cong[of _ _ "drop_packets now dst"] aodv_node.equality) simp_all
  ultimately show ?thesis using ends_keeps[OF _ keeps_drop_packets] by simp
qed

lemma RouteRequestTimerExpire_evolves:
  assumes ok: "retry_ok cfg" and S: "RouteRequestTimerExpire cfg now dst s = Some s'"
  shows "evolves cfg now s s'" and "node_inv UNIV cfg s \<Longrightarrow> searching s' dst \<Longrightarrow> rearmed now s' dst"
proof -
  obtain f e s1 where l: "lookup_valid_route now dst (default_entry now) s = (f, e, s1)"
    by (cases "lookup_valid_route now dst (default_entry now) s") auto
  note k = keeps_lookup_valid[OF l]
  have "f \<and> s' = SendPacketFromQueue cfg now dst e s1 \<or> s' = stop_search now dst s1 \<or> SendRequest cfg now dst s1 = Some s'"
    using S by (auto simp: RouteRequestTimerExpire_def l split: if_splits)
  then consider (valid) "f" "s' = SendPacketFromQueue cfg now dst e s1" | (stop) "s' = stop_search now dst s1"
    | (again) "SendRequest cfg now dst s1 = Some s'" by blast
  then have "evolves cfg now s s' \<and> (node_inv UNIV cfg s \<longrightarrow> searching s' dst \<longrightarrow> rearmed now s' dst)"
  proof cases
    case valid
    have "routes (n_table s1) dst = Some e" "rt_flag e = VALID" using l valid(1) by (auto simp: lookup_valid_eq split: option.splits)
    then have "\<not> searching s1 dst" by (simp add: searching_def)
    moreover have "searching s' dst \<Longrightarrow> searching s1 dst" by (simp add: valid(2) SendPacketFromQueue_def emit_def searching_def split: prod.splits)
    ultimately show ?thesis using keeps_evolves[OF k evolves_kept[OF keeps_send_queue]] by (auto simp: valid(2))
  next
    case stop
    then show ?thesis
      using keeps_evolves[OF k ends_evolves[OF ends_stop_search]] ends_searching[OF ends_stop_search keeps_searching(1)[OF k]] by blast
  next
    case again
    then show ?thesis using keeps_evolves[OF k] SendRequest_evolves[OF ok again] by blast
  qed
  then show "evolves cfg now s s'" "node_inv UNIV cfg s \<Longrightarrow> searching s' dst \<Longrightarrow> rearmed now s' dst" by auto
qed

lemma DeferredRouteOutput_evolves:
  assumes ok: "retry_ok cfg" and S: "DeferredRouteOutput cfg now p h s = Some s'"
  shows "evolves cfg now s s'"
proof -
  from S obtain b d q where E: "Enqueue now (QueueEntry now p h) (n_queue s) = Some (b, d, q)"
    by (auto simp: DeferredRouteOutput_def bind_eq_Some_conv)
  let ?s1 = "emit (map OutDropped d) (s\<lparr>n_queue := q\<rparr>)"
  have k: "keeps D cfg s ?s1" for D by (rule keeps_trans[OF keeps_queue[OF queue_ok_ops(1)[OF _ E]] keeps_fields(1)])
  obtain f e s2 where l: "lookup_route now (ih_destination h) (default_entry now) ?s1 = (f, e, s2)"
    by (cases "lookup_route now (ih_destination h) (default_entry now) ?s1") auto
  have "evolves cfg now ?s1 s'"
  proof (cases "b \<and> (\<not> f \<or> rt_flag e \<noteq> IN_SEARCH)")
    case True
    then have "SendRequest cfg now (ih_destination h) s2 = Some s'"
      using S by (auto simp: DeferredRouteOutput_def E l Let_def)
    then show ?thesis by (rule keeps_evolves[OF keeps_lookup[OF l] SendRequest_evolves(1)[OF ok]])
  next
    case False
    then have "s' = (if b then s2 else ?s1)" using S by (auto simp: DeferredRouteOutput_def E l Let_def)
    then show ?thesis using evolves_kept[OF keeps_lookup[OF l]] evolves_refl by simp
  qed
  then show ?thesis by (rule keeps_evolves[OF k])
qed

end
