(* ===== verification/Aodv_Runs.thy ===== *)
theory Aodv_Runs
  imports Aodv_Node_Invariant
begin

text \<open>
  The handlers of messages and data packets preserve the node invariant; the runs of a node as a
  reachability relation over all its events.
\<close>

subsection \<open>Entries that outlive a look-up\<close>

text \<open>The handlers read entries early and write them back late; \<open>s0\<close> is the state at the start of the handler.\<close>

lemma lookup_later:
  assumes k: "keeps D cfg s0 s" and l: "lookup_route now d rt s = (f, e, s')" and rt: "known D cfg s0 rt"
  shows "keeps D cfg s0 s'" and "known D cfg s0 e"
proof -
  show "keeps D cfg s0 s'" by (rule keeps_trans[OF k keeps_lookup[OF l]])
  have "known D cfg s0 e" if "node_inv D cfg s0"
    using lookup_known[OF l, of D cfg] rt that keeps_inv[OF k] by (simp add: known_def)
  then show "known D cfg s0 e" by (simp add: known_def)
qed

lemma default_known: "known D cfg s (default_entry now)"
  by (rule known_flag) simp

lemmas lookup_default_later = lookup_later[OF _ _ default_known]

lemma lookup_valid_later:
  assumes k: "keeps D cfg s0 s" and l: "lookup_valid_route now d rt s = (f, e, s')" and rt: "known D cfg s0 rt"
  shows "keeps D cfg s0 s'" and "known D cfg s0 e"
proof -
  have "lookup_route now d rt s = (routes (n_table s') d \<noteq> None, e, s')"
    using l by (auto simp: lookup_route_eq lookup_valid_eq split: option.splits)
  from lookup_later[OF k this rt] show "keeps D cfg s0 s'" "known D cfg s0 e" .
qed

lemma InsertPrecursor_simps [simp]:
  "rt_flag (snd (InsertPrecursor p e)) = rt_flag e" "rt_dst (snd (InsertPrecursor p e)) = rt_dst e"
  by (simp_all add: InsertPrecursor_def)

lemmas keeps_then = keeps_trans[OF _ keeps_fields(1)] keeps_trans[OF _ keeps_fields(2)] keeps_trans[OF _ keeps_fields(3)]
  keeps_trans[OF _ keeps_fields(6)]

subsection \<open>Requests received\<close>

lemma keeps_SendReply: "keeps D cfg s0 s \<Longrightarrow> SendReply cfg h e s = Some s' \<Longrightarrow> keeps D cfg s0 s'"
  by (auto simp: SendReply_def Let_def bind_eq_Some_conv split: if_splits intro!: keeps_then)

lemma keeps_intermediate:
  assumes S: "SendReplyByIntermediateNode cfg now toDst toOrigin g s = Some s'"
    and k: "keeps D cfg s0 s" "known D cfg s0 toDst" "known D cfg s0 toOrigin"
  shows "keeps D cfg s0 s'"
proof -
  define s1 where "s1 = (if rt_hops toDst = 1 then snd (snd (lookup_route now (rt_nextHop toOrigin) (default_entry now) s)) else s)"
  have 1: "keeps D cfg s0 s1"
    using k(1) lookup_default_later(1)[OF k(1)] by (simp add: s1_def) (metis prod.collapse)
  define e1 where "e1 = snd (InsertPrecursor (rt_nextHop toOrigin) toDst)"
  define e2 where "e2 = snd (InsertPrecursor (rt_nextHop e1) toOrigin)"
  have "keeps D cfg s0 (update_route e1 s1)" by (rule keeps_update_known[OF 1 k(2)]) (simp_all add: e1_def)
  then have 2: "keeps D cfg s0 (update_route e2 (update_route e1 s1))"
    by (rule keeps_update_known[OF _ k(3)]) (simp_all add: e2_def)
  obtain os where "s' = emit os (update_route e2 (update_route e1 s1)) \<or> (\<exists>os'. s' = emit os' (emit os (update_route e2 (update_route e1 s1))))"
    using S by (cases "rt_hops toDst = 1"; cases g)
      (auto simp: SendReplyByIntermediateNode_def Let_def s1_def e1_def e2_def bind_eq_Some_conv split: if_splits)
  with 2 show ?thesis by (auto intro: keeps_then)
qed

lemma keeps_reverse_route:
  assumes R: "reverse_route cfg now receiver src h s = Some (e, s')" and k: "keeps D cfg s0 s"
  shows "keeps D cfg s0 s'" and "known D cfg s0 e"
proof -
  obtain f e1 s1 where l: "lookup_route now (rq_origin h) (default_entry now) s = (f, e1, s1)"
    by (cases "lookup_route now (rq_origin h) (default_entry now) s") auto
  note 1 = lookup_default_later[OF k l]
  show "keeps D cfg s0 s'"
  proof (cases f)
    case True
    then show ?thesis using R
      by (auto simp: reverse_route_def l Let_def bind_eq_Some_conv SetLifeTime_def intro!: keeps_update_known[OF 1])
  next
    case False
    then have "s' = add_route now (RoutingTableEntry now (c_dev cfg receiver) (rq_origin h) True (rq_originSeqNo h)
        (c_iface cfg receiver) (ucast (rq_hopCount h)) src
        (2 * c_netTraversalTime cfg - 2 * int (unat (rq_hopCount h)) * c_nodeTraversalTime cfg)) s1"
      using R by (simp add: reverse_route_def l Let_def)
    then show ?thesis by (auto intro!: keeps_trans[OF 1(1)] keeps_add)
  qed
  have "rt_flag e = rt_flag e1 \<and> rt_dst e = rt_dst e1"
    using R by (cases f) (auto simp: reverse_route_def l Let_def bind_eq_Some_conv SetLifeTime_def)
  with 1(2) show "known D cfg s0 e" by (simp add: known_def)
qed

lemma keeps_neighbor_route: "keeps D cfg s0 s \<Longrightarrow> keeps D cfg s0 (neighbor_route cfg now receiver src h s)"
proof -
  assume k: "keeps D cfg s0 s"
  obtain f e s1 where l: "lookup_route now src (default_entry now) s = (f, e, s1)" by (cases "lookup_route now src (default_entry now) s") auto
  have "keeps D cfg s1 (neighbor_route cfg now receiver src h s)"
    by (auto simp: neighbor_route_def l Let_def intro!: keeps_update keeps_add)
  with lookup_default_later(1)[OF k l] show ?thesis by (rule keeps_trans)
qed

lemma keeps_forward_rreq: "keeps D cfg s0 s \<Longrightarrow> keeps D cfg s0 (forward_rreq now ttl h s)"
  by (simp add: forward_rreq_def keeps_then)

lemma keeps_answer:
  assumes S: "answer_or_forward cfg now src ttl h e s = Some s'" and k: "keeps D cfg s0 s" "known D cfg s0 e"
  shows "keeps D cfg s0 s'"
proof (cases "IsMyOwnAddress (rq_dst h) s")
  case True
  obtain f e1 s1 where l: "lookup_route now (rq_origin h) e s = (f, e1, s1)" by (cases "lookup_route now (rq_origin h) e s") auto
  from True S have "SendReply cfg h e1 s1 = Some s'" by (simp add: answer_or_forward_def l)
  with lookup_later(1)[OF k(1) l k(2)] show ?thesis by (rule keeps_SendReply)
next
  case False
  obtain f toDst s1 where l: "lookup_route now (rq_dst h) (default_entry now) s = (f, toDst, s1)"
    by (cases "lookup_route now (rq_dst h) (default_entry now) s") auto
  note 1 = lookup_default_later[OF k(1) l]
  obtain f2 e2 s2 where l2: "lookup_route now (rq_origin h) e s1 = (f2, e2, s2)" by (cases "lookup_route now (rq_origin h) e s1") auto
  note 2 = lookup_later[OF 1(1) l2 k(2)]
  note R = S[unfolded answer_or_forward_def l prod.case if_not_P[OF False] Let_def]
  show ?thesis
  proof (cases f)
    case True
    with R obtain v where v: "judge_rreq src toDst h = Some v" by (auto simp: bind_eq_Some_conv)
    show ?thesis using R True 1 keeps_intermediate[OF _ 2(1) 1(2) 2(2)] keeps_forward_rreq[OF 1(1)]
      by (cases v) (auto simp: v l2)
  qed (use R keeps_forward_rreq[OF 1(1)] in auto)
qed

lemma keeps_RecvRequest: "RecvRequest cfg now ttl h receiver src s = Some s' \<Longrightarrow> keeps D cfg s s'"
proof -
  assume S: "RecvRequest cfg now ttl h receiver src s = Some s'"
  obtain f toPrev s1 where l: "lookup_route now src (default_entry now) s = (f, toPrev, s1)"
    by (cases "lookup_route now src (default_entry now) s") auto
  obtain dup c where c: "IdCache_IsDuplicate now (rq_origin h) (rq_requestID h) (n_rreqIdCache s1) = (dup, c)"
    by (cases "IdCache_IsDuplicate now (rq_origin h) (rq_requestID h) (n_rreqIdCache s1)")
  have k: "keeps D cfg s (s1\<lparr>n_rreqIdCache := c\<rparr>)" by (rule keeps_trans[OF keeps_lookup[OF l] keeps_fields(2)])
  let ?h = "h\<lparr>rq_hopCount := rq_hopCount h + 1\<rparr>"
  show ?thesis
  proof (cases "f \<and> rt_unidirectional toPrev \<or> dup")
    case True
    then have "s' = s1 \<or> s' = s1\<lparr>n_rreqIdCache := c\<rparr>" using S by (auto simp: RecvRequest_def l c split: if_splits)
    then show ?thesis using k keeps_lookup[OF l] by blast
  next
    case False
    with S obtain e s3 s5 where
      r: "reverse_route cfg now receiver src ?h (s1\<lparr>n_rreqIdCache := c\<rparr>) = Some (e, s3)"
      and n: "nb_update cfg now src (int (c_allowedHelloLoss cfg) * c_helloInterval cfg) (neighbor_route cfg now receiver src ?h s3) = Some s5"
      and a: "answer_or_forward cfg now src ttl ?h e s5 = Some s'"
      by (auto simp: RecvRequest_def l c Let_def bind_eq_Some_conv)
    note r' = keeps_reverse_route[OF r k]
    show ?thesis
      by (rule keeps_answer[OF a keeps_trans[OF keeps_neighbor_route[OF r'(1)] keeps_nb_update[OF n]] r'(2)])
  qed
qed

subsection \<open>Replies, errors and data packets\<close>

lemma keeps_ProcessHello: "ProcessHello cfg now h receiver s = Some s' \<Longrightarrow> keeps D cfg s s'"
proof -
  assume S: "ProcessHello cfg now h receiver s = Some s'"
  obtain f e s1 where l: "lookup_route now (rp_dst h) (default_entry now) s = (f, e, s1)"
    by (cases "lookup_route now (rp_dst h) (default_entry now) s") auto
  define s2 where "s2 = (if \<not> f
     then add_route now (RoutingTableEntry now (c_dev cfg receiver) (rp_dst h) True (rp_dstSeqNo h) (c_iface cfg receiver) 1 (rp_dst h) (ms (Rrep_GetLifeTime h))) s1
     else update_route ((SetLifeTime now (max (int (c_allowedHelloLoss cfg) * c_helloInterval cfg) (GetLifeTime now e)) e)
       \<lparr>rt_seqNo := rp_dstSeqNo h, rt_validSeqNo := True, rt_flag := VALID, rt_dev := c_dev cfg receiver, rt_iface := c_iface cfg receiver,
         rt_hops := 1, rt_nextHop := rp_dst h\<rparr>) s1)"
  have "keeps D cfg s1 s2" unfolding s2_def by (auto intro!: keeps_update keeps_add)
  with keeps_lookup[OF l] have 2: "keeps D cfg s s2" by (rule keeps_trans)
  have "s' = s2 \<or> nb_update cfg now (rp_dst h) (int (c_allowedHelloLoss cfg) * c_helloInterval cfg) s2 = Some s'"
    using S by (auto simp: ProcessHello_def l Let_def s2_def split: if_splits)
  with 2 show ?thesis by (auto intro: keeps_trans keeps_nb_update)
qed

lemma keeps_learn_route: "learn_route now h n s = Some (e, s') \<Longrightarrow> rt_flag n \<noteq> IN_SEARCH \<Longrightarrow> keeps D cfg s s' \<and> known D cfg s e"
proof -
  assume S: "learn_route now h n s = Some (e, s')" and n: "rt_flag n \<noteq> IN_SEARCH"
  obtain f e1 s1 where l: "lookup_route now (rp_dst h) (default_entry now) s = (f, e1, s1)"
    by (cases "lookup_route now (rp_dst h) (default_entry now) s") auto
  have "keeps D cfg s1 (update_route n s1)" "keeps D cfg s1 (add_route now n s1)" using n by (auto intro: keeps_update keeps_add)
  with keeps_trans[OF keeps_lookup[OF l]] keeps_lookup[OF l] lookup_known_default[OF l] S show ?thesis
    by (auto simp: learn_route_def l bind_eq_Some_conv split: if_splits)
qed

lemma keeps_SendReplyAck: "SendReplyAck now a s = Some s' \<Longrightarrow> keeps D cfg s s'"
proof -
  assume S: "SendReplyAck now a s = Some s'"
  obtain f e s1 where l: "lookup_route now a (default_entry now) s = (f, e, s1)" by (cases "lookup_route now a (default_entry now) s") auto
  show ?thesis using S keeps_then(1)[OF keeps_lookup[OF l]] by (auto simp: SendReplyAck_def l bind_eq_Some_conv)
qed

lemma keeps_add_precursor: "keeps D cfg s0 s \<Longrightarrow> keeps D cfg s0 (add_precursor now d p s)"
proof -
  assume k: "keeps D cfg s0 s"
  obtain f e s1 where l: "lookup_route now d (default_entry now) s = (f, e, s1)" by (cases "lookup_route now d (default_entry now) s") auto
  show ?thesis using keeps_update_known[OF lookup_default_later[OF k l], of "snd (InsertPrecursor p e)"] by (simp add: add_precursor_def l)
qed

lemma keeps_update_precursors:
  assumes U: "update_precursors now h toDst0 toOrigin s = (e, s')"
    and k: "keeps D cfg s0 s" "known D cfg s0 toDst0" "known D cfg s0 toOrigin"
  shows "keeps D cfg s0 s'"
proof -
  obtain f toDst s1 where l: "lookup_valid_route now (rp_dst h) toDst0 s = (f, toDst, s1)"
    by (cases "lookup_valid_route now (rp_dst h) toDst0 s") auto
  note 1 = lookup_valid_later[OF k(1) l k(2)]
  have 2: "keeps D cfg s0 (update_route (snd (InsertPrecursor p toDst)) s1)" for p by (rule keeps_update_known[OF 1]) simp_all
  have 3: "keeps D cfg s0 s2 \<Longrightarrow> keeps D cfg s0 (update_route (snd (InsertPrecursor p toOrigin)) s2)" for p s2
    by (rule keeps_update_known[OF _ k(3)]) simp_all
  show ?thesis
    using U 1(1) keeps_add_precursor[OF 3[OF keeps_add_precursor[OF 2]]] by (auto simp: update_precursors_def l Let_def split: if_splits)
qed

lemma keeps_forward_reply:
  assumes F: "forward_reply cfg now ttl h toDst s = Some s'" and k: "keeps D cfg s0 s" "known D cfg s0 toDst"
  shows "keeps D cfg s0 s'"
proof -
  obtain f e s1 where l: "lookup_route now (rp_origin h) (default_entry now) s = (f, e, s1)"
    by (cases "lookup_route now (rp_origin h) (default_entry now) s") auto
  note 1 = lookup_default_later[OF k(1) l]
  let ?e = "SetLifeTime now (max (c_activeRouteTimeout cfg) (GetLifeTime now e)) e"
  have e: "rt_flag ?e = rt_flag e" "rt_dst ?e = rt_dst e" by (simp_all add: SetLifeTime_def)
  obtain e2 s2 where u: "update_precursors now h toDst ?e (update_route ?e s1) = (e2, s2)"
    by (cases "update_precursors now h toDst ?e (update_route ?e s1)")
  have 2: "keeps D cfg s0 s2"
    using 1 k(2) e by (intro keeps_update_precursors[OF u] keeps_update_known[OF 1]) (simp_all add: known_def)
  show ?thesis
  proof (cases "\<not> f \<or> rt_flag e = IN_SEARCH")
    case True
    then have "s' = s1" using F by (auto simp: forward_reply_def l)
    then show ?thesis using 1 by simp
  next
    case False
    then show ?thesis using F 2 keeps_then(1)[OF 2] by (auto simp: forward_reply_def l u Let_def bind_eq_Some_conv split: if_splits)
  qed
qed

lemma keeps_RecvReplyAck: "keeps D cfg s (RecvReplyAck now a s)"
proof -
  obtain f e s1 where l: "lookup_route now a (default_entry now) s = (f, e, s1)" by (cases "lookup_route now a (default_entry now) s") auto
  have "keeps D cfg s1 (RecvReplyAck now a s)" by (auto simp: RecvReplyAck_def l keeps_refl intro!: keeps_update)
  with keeps_lookup[OF l] show ?thesis by (rule keeps_trans)
qed

lemma keeps_RecvError: "RecvError cfg now h src s = Some s' \<Longrightarrow> keeps D cfg s s'"
proof -
  assume S: "RecvError cfg now h src s = Some s'"
  obtain u t where u: "GetListOfDestinationWithNextHop now src (n_table s) = (u, t)" by (cases "GetListOfDestinationWithNextHop now src (n_table s)")
  from S obtain u' h0 h' ps s2 s3 where r: "rerr_loop cfg now u' h0 [] (s\<lparr>n_table := t\<rparr>) = Some (h', ps, s2)"
    "finish_rerr cfg now (h', ps, s2) = Some s3" "s' = s3\<lparr>n_table := InvalidateRoutesWithDst now u' (n_table s3)\<rparr>"
    by (auto simp: RecvError_def u Let_def bind_eq_Some_conv)
  show ?thesis unfolding r(3)
    by (rule keeps_trans[OF keeps_trans[OF keeps_trans[OF keeps_unreachable[OF u] keeps_rerr_loop[OF r(1)]] keeps_finish[OF r(2)]] keeps_invalidate])
qed

lemma ends_complete_search:
  assumes "\<And>D. keeps D cfg s0 s" and n: "rt_flag new \<noteq> IN_SEARCH" "rt_dst new = dst"
  shows "evolves cfg now s0 (complete_search cfg now dst new toDst s)"
proof -
  define s1 where "s1 = (if rt_flag toDst = IN_SEARCH
     then (update_route new s)\<lparr>n_addressReqTimer := smap_erase ipv4_less dst (n_addressReqTimer s)\<rparr> else s)"
  obtain f e s2 where l: "lookup_route now dst toDst s1 = (f, e, s2)" by (cases "lookup_route now dst toDst s1") auto
  have C: "complete_search cfg now dst new toDst s = SendPacketFromQueue cfg now dst e s2"
    unfolding complete_search_def Let_def s1_def[symmetric] l by simp
  have k2: "keeps D cfg s1 (complete_search cfg now dst new toDst s)" for D
    unfolding C by (rule keeps_trans[OF keeps_lookup[OF l] keeps_send_queue])
  show ?thesis
  proof (cases "rt_flag toDst = IN_SEARCH")
    case True
    have k: "keeps D cfg s0 (update_route new s)" for D by (rule keeps_trans[OF assms(1)]) (use n in \<open>auto intro: keeps_update\<close>)
    have "\<not> searching (update_route new s) dst" if "node_inv UNIV cfg s0"
      using keeps_inv[OF assms(1) that] n
      by (auto simp: node_inv_def searching_def update_route_def Update_def map_of_smap_set rt_okD reset_count_def)
    from ends_erase[OF k this] have "ends dst cfg s0 s1" using True by (simp add: s1_def update_route_def)
    then show ?thesis by (rule ends_evolves[OF ends_keeps[OF _ k2]])
  next
    case False
    then have "s1 = s" by (simp add: s1_def)
    from evolves_kept[OF keeps_trans[OF assms(1) k2[unfolded this]]] show ?thesis .
  qed
qed

lemma RecvReply_evolves: "RecvReply cfg now ttl h receiver sender s = Some s' \<Longrightarrow> evolves cfg now s s'"
proof -
  assume S: "RecvReply cfg now ttl h receiver sender s = Some s'"
  let ?h = "h\<lparr>rp_hopCount := rp_hopCount h + 1\<rparr>"
  let ?new = "RoutingTableEntry now (c_dev cfg receiver) (rp_dst ?h) True (rp_dstSeqNo ?h) (c_iface cfg receiver)
              (ucast (rp_hopCount ?h)) sender (ms (Rrep_GetLifeTime ?h))"
  show ?thesis
  proof (cases "ipv4_eq (rp_dst ?h) (rp_origin ?h)")
    case True
    then have "ProcessHello cfg now ?h receiver s = Some s'" using S by (simp add: RecvReply_def)
    then show ?thesis by (rule evolves_kept[OF keeps_ProcessHello])
  next
    case False
    note S1 = S[unfolded RecvReply_def Let_def if_not_P[OF False]]
    from S1 obtain toDst s1 where r: "learn_route now ?h ?new s = Some (toDst, s1)" by (cases "learn_route now ?h ?new s") auto
    have k: "keeps D cfg s s1 \<and> known D cfg s toDst" for D by (rule keeps_learn_route[OF r]) simp
    define A where "A = (if GetAckRequired ?h then map_option (\<lambda>s'. (SetAckRequired False ?h, s')) (SendReplyAck now sender s1) else Some (?h, s1))"
    note S2 = S1[unfolded r bind.simps prod.case A_def[symmetric]]
    from S2 obtain h2 s2 where A: "A = Some (h2, s2)" by (cases A) auto
    have k2: "keeps D cfg s s2" for D
      using k[of D] A keeps_trans[OF _ keeps_SendReplyAck] by (auto simp: A_def split: if_splits)
    show ?thesis
      using S2[unfolded A bind.simps prod.case] evolves_kept[OF keeps_forward_reply[OF _ k2 conjunct2[OF k]]] ends_complete_search[OF k2]
      by (auto split: if_splits)
  qed
qed

text \<open>A message ends searches only as a reply to the node's own request.\<close>

lemma RecvAodv_evolves: "RecvAodv cfg now ttl msg receiver sender s = Some s' \<Longrightarrow> evolves cfg now s s'"
proof -
  assume S: "RecvAodv cfg now ttl msg receiver sender s = Some s'"
  let ?s1 = "UpdateRouteToNeighbor cfg now sender receiver s"
  from S obtain th rest where "TypeHeader_Deserialize \<lparr>th_type = AODVTYPE_RREQ, th_valid = True\<rparr> msg = Some (th, rest)"
    by (auto simp: RecvAodv_def Let_def bind_eq_Some_conv)
  with S have "\<not> th_valid th \<and> s' = ?s1 \<or> (\<exists>h. RecvRequest cfg now ttl h receiver sender ?s1 = Some s')
      \<or> (\<exists>h. RecvReply cfg now ttl h receiver sender ?s1 = Some s') \<or> (\<exists>h. RecvError cfg now h sender ?s1 = Some s')
      \<or> s' = RecvReplyAck now sender ?s1"
    by (cases "th_type th") (auto simp: RecvAodv_def Let_def bind_eq_Some_conv split: if_splits)
  then have "evolves cfg now ?s1 s'"
    by (auto intro: evolves_refl evolves_kept keeps_RecvRequest keeps_RecvError keeps_RecvReplyAck RecvReply_evolves)
  then show ?thesis by (rule keeps_evolves[OF keeps_UpdateRouteToNeighbor])
qed

lemma keeps_life: "keeps D cfg s0 s \<Longrightarrow> keeps D cfg s0 (snd (UpdateRouteLifeTime now a l s))"
  by (rule keeps_trans[OF _ keeps_UpdateRouteLifeTime])

lemma keeps_Forwarding: "Forwarding cfg now p h s = Some (b, s') \<Longrightarrow> keeps D cfg s s'"
proof -
  assume S: "Forwarding cfg now p h s = Some (b, s')"
  let ?life = "c_activeRouteTimeout cfg"
  obtain f e s1 where l: "lookup_route now (ih_destination h) (default_entry now) (s\<lparr>n_table := Purge now (n_table s)\<rparr>) = (f, e, s1)"
    by (cases "lookup_route now (ih_destination h) (default_entry now) (s\<lparr>n_table := Purge now (n_table s)\<rparr>)") auto
  have 1: "keeps D cfg s s1" by (rule keeps_trans[OF keeps_Purge keeps_lookup[OF l]])
  show ?thesis
  proof (cases "f \<and> rt_flag e = VALID")
    case True
    define s4 where "s4 = snd (UpdateRouteLifeTime now (rt_nextHop e) ?life (snd (UpdateRouteLifeTime now (ih_destination h) ?life
      (snd (UpdateRouteLifeTime now (ih_source h) ?life s1)))))"
    obtain g o' s5 where l5: "lookup_route now (ih_source h) (default_entry now) s4 = (g, o', s5)"
      by (cases "lookup_route now (ih_source h) (default_entry now) s4") auto
    have 5: "keeps D cfg s s5"
      by (rule keeps_trans[OF _ keeps_lookup[OF l5]]) (simp add: s4_def keeps_life 1)
    from S True obtain s7 s8 where n: "nb_update cfg now (rt_nextHop e) ?life (snd (UpdateRouteLifeTime now (rt_nextHop o') ?life s5)) = Some s7"
      "nb_update cfg now (rt_nextHop o') ?life s7 = Some s8" "s' = emit [OutForward e p h] s8"
      by (auto simp: Forwarding_def l Let_def s4_def[symmetric] l5 bind_eq_Some_conv)
    show ?thesis unfolding n(3)
      by (rule keeps_then(1)[OF keeps_trans[OF keeps_trans[OF keeps_life[OF 5] keeps_nb_update[OF n(1)]] keeps_nb_update[OF n(2)]]])
  next
    case False
    then show ?thesis using S keeps_trans[OF 1 keeps_NoRoute] by (auto simp: Forwarding_def l Let_def)
  qed
qed

lemma keeps_RouteOutput: "keeps D cfg s (snd (RouteOutput cfg now h oif s))"
proof -
  obtain f e s1 where l: "lookup_valid_route now (ih_destination h) (default_entry now) s = (f, e, s1)"
    by (cases "lookup_valid_route now (ih_destination h) (default_entry now) s") auto
  show ?thesis using keeps_lookup_valid[OF l]
    by (auto simp: RouteOutput_def l Let_def keeps_refl keeps_life)
qed

lemma keeps_HelloTimerExpire: "keeps D cfg s (HelloTimerExpire cfg now s)"
  unfolding HelloTimerExpire_def SendHello_def
  by (simp, intro conjI impI keeps_then(3) keeps_trans[OF _ keeps_fields(4)] keeps_fields(1) keeps_refl)

subsection \<open>Runs of a node\<close>

text \<open>The events a node reacts to, but for the timers of its searches and of the request rate limit.\<close>

datatype aodv_event =
    Receive u8 bytes ipv4 ipv4
  | TxError nat
  | Output ip_header nat
  | Deferred packet ip_header
  | Forward packet ip_header
  | HelloTick
  | NeighborTick
  | RerrTick

fun handle :: "aodv_cfg \<Rightarrow> time \<Rightarrow> aodv_event \<Rightarrow> aodv_node \<Rightarrow> aodv_node option" where
  "handle cfg now (Receive ttl msg receiver sender) s = RecvAodv cfg now ttl msg receiver sender s"
| "handle cfg now (TxError mac) s = NotifyTxError cfg now mac s"
| "handle cfg now (Output h oif) s = Some (snd (RouteOutput cfg now h oif s))"
| "handle cfg now (Deferred p h) s = DeferredRouteOutput cfg now p h s"
| "handle cfg now (Forward p h) s = map_option snd (Forwarding cfg now p h s)"
| "handle cfg now HelloTick s = Some (HelloTimerExpire cfg now s)"
| "handle cfg now NeighborTick s = nb_purge cfg now s"
| "handle cfg now RerrTick s = Some (RerrRateLimitTimerExpire now s)"

text \<open>
  A run has the current time, the node, the destinations whose timer expires now and has not been
  handled, and the requests that were put off. Each step starts with an empty output. Time passes
  only when nothing is due, and not beyond the next timer.
\<close>

fun retry_of :: "time \<Rightarrow> aodv_out \<Rightarrow> (time \<times> ipv4) list" where
  "retry_of t (OutRetryRequest x d) = [(t + x, d)]"
| "retry_of t _ = []"

definition put_off :: "time \<Rightarrow> aodv_node \<Rightarrow> (time \<times> ipv4) multiset" where
  "put_off t s = mset (concat (map (retry_of t) (n_out s)))"

definition still_due :: "time \<Rightarrow> aodv_node \<Rightarrow> ipv4 set \<Rightarrow> ipv4 set" where
  "still_due t s due = {d \<in> due. map_of (n_addressReqTimer s) d = Some t}"

abbreviation quiet :: "aodv_node \<Rightarrow> aodv_node" where
  "quiet s \<equiv> s\<lparr>n_out := []\<rparr>"

inductive node_run :: "aodv_cfg \<Rightarrow> (nat \<times> iface_addr) list \<Rightarrow> time \<Rightarrow> aodv_node \<Rightarrow> ipv4 set \<Rightarrow> (time \<times> ipv4) multiset \<Rightarrow> bool"
  for cfg ss where
  start: "node_run cfg ss t (Start_node cfg t (RoutingProtocol cfg ss)) {} {#}"
| event: "node_run cfg ss t s due rs \<Longrightarrow> handle cfg t ev (quiet s) = Some s' \<Longrightarrow>
    node_run cfg ss t s' (still_due t s' due) (rs + put_off t s')"
| expire: "node_run cfg ss t s due rs \<Longrightarrow> d \<in> due \<Longrightarrow> RouteRequestTimerExpire cfg t d (quiet s) = Some s' \<Longrightarrow>
    node_run cfg ss t s' (still_due t s' (due - {d})) (rs + put_off t s')"
| retry: "node_run cfg ss t s due rs \<Longrightarrow> (t, d) \<in># rs \<Longrightarrow> SendRequest cfg t d (quiet s) = Some s' \<Longrightarrow>
    node_run cfg ss t s' (still_due t s' due) (rs - {#(t, d)#} + put_off t s')"
| tick: "node_run cfg ss t s due rs \<Longrightarrow> n_rreqTimer s = Some t \<Longrightarrow> node_run cfg ss t (RreqRateLimitTimerExpire t s) due rs"
| pass: "node_run cfg ss t s {} rs \<Longrightarrow> t < t' \<Longrightarrow>
    (\<forall>d x. map_of (n_addressReqTimer s) d = Some x \<longrightarrow> t < x \<longrightarrow> t' \<le> x) \<Longrightarrow> (\<forall>(x, d) \<in># rs. t' \<le> x) \<Longrightarrow>
    (\<forall>x. n_rreqTimer s = Some x \<longrightarrow> t' \<le> x) \<Longrightarrow>
    node_run cfg ss t' s {d. map_of (n_addressReqTimer s) d = Some t'} rs"

definition pending :: "time \<Rightarrow> aodv_node \<Rightarrow> ipv4 set \<Rightarrow> (time \<times> ipv4) multiset \<Rightarrow> ipv4 \<Rightarrow> bool" where
  "pending t s due rs d \<longleftrightarrow> d \<in> due \<or> (\<exists>x > t. map_of (n_addressReqTimer s) d = Some x) \<or> (\<exists>x \<ge> t. (x, d) \<in># rs)"

definition run_inv :: "aodv_cfg \<Rightarrow> time \<Rightarrow> aodv_node \<Rightarrow> ipv4 set \<Rightarrow> (time \<times> ipv4) multiset \<Rightarrow> bool" where
  "run_inv cfg t s due rs \<longleftrightarrow> node_inv UNIV cfg s \<and> (\<forall>d. searching s d \<longrightarrow> pending t s due rs d) \<and>
     (\<forall>d \<in> due. map_of (n_addressReqTimer s) d = Some t) \<and> (\<exists>x \<ge> t. n_rreqTimer s = Some x)"

lemma quiet_simps [simp]: "node_inv D cfg (quiet s) = node_inv D cfg s" "searching (quiet s) = searching s"
  by (simp_all add: node_inv_def searching_def fun_eq_iff)

lemma handle_evolves: "retry_ok cfg \<Longrightarrow> handle cfg now ev s = Some s' \<Longrightarrow> evolves cfg now s s'"
proof (cases ev)
  case RerrTick
  assume "handle cfg now ev s = Some s'"
  then show ?thesis using RerrTick
    by (auto simp: evolves_def RerrRateLimitTimerExpire_def node_inv_def searching_def)
next
  case (Output h oif)
  assume "handle cfg now ev s = Some s'"
  then show ?thesis using Output evolves_kept[OF keeps_RouteOutput] by auto
next
  case HelloTick
  assume "handle cfg now ev s = Some s'"
  then show ?thesis using HelloTick evolves_kept[OF keeps_HelloTimerExpire] by auto
qed (auto intro: RecvAodv_evolves DeferredRouteOutput_evolves evolves_kept keeps_NotifyTxError keeps_Forwarding keeps_nb_purge)

inductive_cases node_runE: "node_run cfg ss t s due rs"

lemma rearmed_pending:
  assumes "rearmed t s d" and "n_rreqTimer s = Some x" "t \<le> x"
  shows "pending t s due (rs + put_off t s) d"
proof -
  have "(t + (timer_left t (n_rreqTimer s) + 100000), d) \<in># put_off t s"
    if "OutRetryRequest (timer_left t (n_rreqTimer s) + 100000) d \<in> set (n_out s)"
    using that by (force simp: put_off_def)
  moreover have "t \<le> t + (timer_left t (n_rreqTimer s) + 100000)" using assms by (simp add: timer_left_def)
  ultimately show ?thesis using assms(1) by (auto simp: rearmed_def pending_def)
qed

text \<open>\<open>E\<close> are the destinations whose expiry or put-off request the step has used up.\<close>

lemma evolves_run_inv:
  assumes inv: "run_inv cfg t s due rs" and ev: "evolves cfg t (quiet s) s'"
    and due: "due1 \<subseteq> due" "due - due1 \<subseteq> E" and rs: "\<And>x d. (x, d) \<in># rs \<Longrightarrow> (x, d) \<in># rs1 \<or> d \<in> E"
    and E: "\<And>d. searching s' d \<Longrightarrow> d \<in> E \<Longrightarrow> rearmed t s' d"
  shows "run_inv cfg t s' (still_due t s' due1) (rs1 + put_off t s')"
proof -
  from inv obtain x where x: "n_rreqTimer s = Some x" "t \<le> x" by (auto simp: run_inv_def)
  have x': "n_rreqTimer s' = Some x" using ev x by (simp add: evolves_def)
  have n: "node_inv UNIV cfg s'" using ev inv by (simp add: evolves_def run_inv_def)
  have "pending t s' (still_due t s' due1) (rs1 + put_off t s') d" if d: "searching s' d" for d
  proof (cases "rearmed t s' d")
    case True
    then show ?thesis by (rule rearmed_pending[OF _ x' x(2)])
  next
    case False
    with ev inv d have d': "searching s d" "map_of (n_addressReqTimer s') d = map_of (n_addressReqTimer s) d"
      by (auto simp: evolves_def run_inv_def)
    have "d \<notin> E" using False E d by blast
    moreover from inv d'(1) have "pending t s due rs d" by (simp add: run_inv_def)
    moreover have "d \<in> due \<Longrightarrow> map_of (n_addressReqTimer s') d = Some t" using inv d' by (simp add: run_inv_def)
    moreover have "(y, d) \<in># rs \<Longrightarrow> (y, d) \<in># rs1" for y using rs \<open>d \<notin> E\<close> by blast
    ultimately show ?thesis using due d'(2) by (auto simp: pending_def still_due_def)
  qed
  with n x x' show ?thesis by (auto simp: run_inv_def still_due_def)
qed

lemma start_inv: "retry_ok cfg \<Longrightarrow> run_inv cfg t (Start_node cfg t (RoutingProtocol cfg ss)) {} {#}"
  by (auto simp: run_inv_def node_inv_def searching_def Start_node_def RoutingProtocol_def RoutingTable_def rt_ok_def
      queue_ok_def nb_ok_def retry_ok_def ScheduleTimer_def Neighbors_def Neighbors_SetCallback_def)

lemma node_run_inv: "node_run cfg ss t s due rs \<Longrightarrow> retry_ok cfg \<Longrightarrow> run_inv cfg t s due rs"
proof (induction rule: node_run.induct)
  case (start t)
  then show ?case by (rule start_inv)
next
  case (event t s due rs ev s')
  then show ?case using handle_evolves[of cfg t ev "quiet s" s'] by (intro evolves_run_inv[of cfg t s due rs _ _ "{}"]) auto
next
  case (expire t s due rs d s')
  note inv = expire.IH[OF expire.prems]
  have "node_inv UNIV cfg (quiet s)" using inv by (simp add: run_inv_def)
  with RouteRequestTimerExpire_evolves[OF expire.prems expire.hyps(3)] inv show ?case
    by (intro evolves_run_inv[of cfg t s due rs _ _ "{d}"]) auto
next
  case (retry t s due rs d s')
  from SendRequest_evolves[OF retry.prems retry.hyps(3)] retry.IH[OF retry.prems] show ?case
    by (intro evolves_run_inv[of cfg t s due rs _ _ "{d}"]) (auto simp: in_diff_count)
next
  case (tick t s due rs)
  then show ?case by (auto simp: run_inv_def node_inv_def searching_def pending_def RreqRateLimitTimerExpire_def)
next
  case (pass t s rs t')
  then have "pending t s {} rs d" if "searching s d" for d using that by (simp add: run_inv_def)
  with pass show ?case by (fastforce simp: run_inv_def pending_def order_le_less)
qed

end
