(* ===== verification/Aodv_Node_Properties.thy ===== *)
theory Aodv_Node_Properties
  imports Aodv_Runs Aodv_Packet_Properties
begin

text \<open>
  What an AODV node guarantees: route searches, the messages it accepts, and the limits it keeps or
  fails to keep.
\<close>

subsection \<open>A node with one interface\<close>

definition small_iface :: iface_addr where
  "small_iface = \<lparr>ia_local = Ipv4 0x0A000001, ia_mask = Mask 0xFFFFFF00, ia_broadcast = Ipv4 0x0A0000FF, ia_scope = GLOBAL,
     ia_secondary = False\<rparr>"

definition small_cfg :: aodv_cfg where
  "small_cfg = default_cfg (\<lambda>_. 1) (\<lambda>_. small_iface) (\<lambda>_. 1)"

definition small_node :: aodv_node where
  "small_node = Start_node small_cfg 0 (RoutingProtocol small_cfg [(1, small_iface)])"

lemma small_retry_ok: "retry_ok small_cfg"
  by (simp add: retry_ok_def small_cfg_def default_cfg_def Let_def)

definition small_header :: ip_header where
  "small_header = \<lparr>ih_source = Ipv4 0x0A000001, ih_destination = Ipv4 0x0A000009, ih_ttl = 64\<rparr>"

definition searching_node :: aodv_node where
  "searching_node = the (DeferredRouteOutput small_cfg 0 \<lparr>pk_uid = 1, pk_tag = Some (- 1)\<rparr> small_header small_node)"

lemma small_deferred: "DeferredRouteOutput small_cfg 0 \<lparr>pk_uid = 1, pk_tag = Some (- 1)\<rparr> small_header small_node = Some searching_node"
proof -
  have "DeferredRouteOutput small_cfg 0 \<lparr>pk_uid = 1, pk_tag = Some (- 1)\<rparr> small_header small_node \<noteq> None" by code_simp
  then show ?thesis by (simp add: searching_node_def)
qed

lemma small_search: "map_option rt_flag (routes (n_table searching_node) (Ipv4 0x0A000009)) = Some IN_SEARCH"
  by code_simp

lemma small_timer: "n_addressReqTimer searching_node = [(Ipv4 0x0A000009, 240000000)]"
  by code_simp

subsection \<open>Searches\<close>

text \<open>
  C36. No route search is forgotten. In every state a node can reach, each destination in search has its
  timer running or due, or a put-off request that will be sent; the rate counters are within their
  limits, and the queue is within its capacity.
\<close>

theorem searches_stay_pending:
  assumes "retry_ok cfg" and "node_run cfg ss t s due rs"
  shows "(\<forall>d. searching s d \<longrightarrow> pending t s due rs d) \<and> n_rreqCount s \<le> c_rreqRateLimit cfg \<and>
    n_rerrCount s \<le> c_rerrRateLimit cfg \<and> length (m_queue (n_queue s)) \<le> m_maxLen (n_queue s)"
  using node_run_inv[OF assms(2,1)] by (simp add: run_inv_def node_inv_def queue_ok_def)

theorem searches_stay_pending_witness:
  "\<exists>due rs. node_run small_cfg [(1, small_iface)] 0 searching_node due rs \<and> searching searching_node (Ipv4 0x0A000009)
    \<and> pending 0 searching_node due rs (Ipv4 0x0A000009)"
proof -
  have "quiet small_node = small_node" by (simp add: small_node_def Start_node_def RoutingProtocol_def)
  then have "handle small_cfg 0 (Deferred \<lparr>pk_uid = 1, pk_tag = Some (- 1)\<rparr> small_header) (quiet small_node) = Some searching_node"
    using small_deferred by simp
  from node_run.event[OF node_run.start this[unfolded small_node_def]]
  have r: "node_run small_cfg [(1, small_iface)] 0 searching_node (still_due 0 searching_node {}) ({#} + put_off 0 searching_node)" .
  moreover have "searching searching_node (Ipv4 0x0A000009)" using small_search by (auto simp: searching_def)
  ultimately show ?thesis using searches_stay_pending[OF small_retry_ok r] by blast
qed

subsection \<open>Replies\<close>

definition sent :: "rt_entry \<Rightarrow> queue_entry \<Rightarrow> aodv_out" where
  "sent r e = OutForward r ((qe_packet e)\<lparr>pk_tag := None\<rparr>)
     ((qe_header e)\<lparr>ih_source := rt_source r, ih_ttl := ih_ttl (qe_header e) + 1\<rparr>)"

abbreviation due_packets :: "time \<Rightarrow> ipv4 \<Rightarrow> rqueue \<Rightarrow> queue_entry list" where
  "due_packets now dst q \<equiv> filter (\<lambda>e. entry_dst e = dst \<and> \<not> entry_expired now e) (m_queue q)"

text \<open>A packet that is not bound to an output device, or to the device of the route.\<close>

definition may_leave_by :: "(nat \<Rightarrow> int) \<Rightarrow> rt_entry \<Rightarrow> queue_entry \<Rightarrow> bool" where
  "may_leave_by if_of r e \<longleftrightarrow> (case pk_tag (qe_packet e) of None \<Rightarrow> True | Some i \<Rightarrow> i = - 1 \<or> i = if_of (rt_dev r))"

text \<open>The loop over the queue sends what is in front of the first packet bound to another device, and loses that one.\<close>

lemma send_queue_due:
  "\<exists>q'. send_queue if_of now dst r q =
      (map OutDropped (filter (entry_expired now) (m_queue q)) @ map (sent r) (takeWhile (may_leave_by if_of r) (due_packets now dst q)), q') \<and>
    filter (\<lambda>e. entry_dst e = dst) (m_queue q') = tl (dropWhile (may_leave_by if_of r) (due_packets now dst q)) \<and>
    filter (\<lambda>e. entry_dst e \<noteq> dst) (m_queue q') = filter (\<lambda>e. entry_dst e \<noteq> dst \<and> \<not> entry_expired now e) (m_queue q)"
proof (induction if_of now dst r q rule: send_queue.induct)
  case (1 if_of now dst r q)
  let ?live = "filter (\<lambda>e. \<not> entry_expired now e) (m_queue q)" and ?d = "filter (entry_expired now) (m_queue q)"
  have due: "due_packets now dst q = filter (\<lambda>e. entry_dst e = dst) ?live"
    "filter (\<lambda>e. entry_dst e \<noteq> dst \<and> \<not> entry_expired now e) (m_queue q) = filter (\<lambda>e. entry_dst e \<noteq> dst) ?live"
    by (simp_all add: conj_commute)
  show ?case
  proof (cases "erase_first (\<lambda>e. entry_dst e = dst) ?live")
    case None
    then have "\<forall>e \<in> set ?live. entry_dst e \<noteq> dst" by simp
    then have "filter (\<lambda>e. entry_dst e = dst) ?live = []" by (auto simp: filter_empty_conv)
    then show ?thesis unfolding send_queue.simps[of if_of now dst r q] Dequeue_eq None due by simp
  next
    case (Some p)
    obtain e es where p: "p = (e, es)" by (cases p)
    note F = filter_erase_first[OF Some[unfolded p]]
    let ?q = "q\<lparr>m_queue := es\<rparr>"
    have D: "Dequeue now dst q = (Some e, ?d, ?q)" unfolding Dequeue_eq Some p by simp
    have "set_mset (mset ?live) = insert e (set_mset (mset es))" unfolding erase_first_SomeD(3)[OF Some[unfolded p]] by simp
    then have es: "\<forall>x \<in> set es. \<not> entry_expired now x" unfolding set_mset_mset by auto
    then have E: "filter (entry_expired now) es = []" "filter (\<lambda>e. entry_dst e = dst \<and> \<not> entry_expired now e) es = filter (\<lambda>e. entry_dst e = dst) es"
      "filter (\<lambda>e. entry_dst e \<noteq> dst \<and> \<not> entry_expired now e) es = filter (\<lambda>e. entry_dst e \<noteq> dst) es"
      by (auto simp: filter_empty_conv intro!: filter_cong)
    have m: "may_leave_by if_of r e \<longleftrightarrow> \<not> (case pk_tag (qe_packet e) of None \<Rightarrow> False | Some i \<Rightarrow> i \<noteq> - 1 \<and> i \<noteq> if_of (rt_dev r))"
      by (simp add: may_leave_by_def split: option.splits)
    show ?thesis
    proof (cases "may_leave_by if_of r e")
      case False
      then show ?thesis unfolding send_queue.simps[of if_of now dst r q] D due F using m by simp
    next
      case True
      with "1.IH"[OF D[symmetric] refl refl refl refl refl] m obtain q' where
        q': "send_queue if_of now dst r ?q = (map (sent r) (takeWhile (may_leave_by if_of r) (filter (\<lambda>e. entry_dst e = dst) es)), q')"
          "filter (\<lambda>e. entry_dst e = dst) (m_queue q') = tl (dropWhile (may_leave_by if_of r) (filter (\<lambda>e. entry_dst e = dst) es))"
          "filter (\<lambda>e. entry_dst e \<noteq> dst) (m_queue q') = filter (\<lambda>e. entry_dst e \<noteq> dst) es" by (auto simp: E)
      then show ?thesis unfolding send_queue.simps[of if_of now dst r q] D due F using m True
        by (simp add: Let_def sent_def)
    qed
  qed
qed

text \<open>An entry in search is not purged, and a route that was just written lives.\<close>

lemma Purge_search_entry: "rt_ok t \<Longrightarrow> routes t d = Some e \<Longrightarrow> rt_flag e = IN_SEARCH \<Longrightarrow> routes (Purge now t) d = Some e"
  by (simp add: Purge_routes purged_def)

lemma lookup_search: "rt_ok (n_table s) \<Longrightarrow> routes (n_table s) d = Some e \<Longrightarrow> rt_flag e = IN_SEARCH \<Longrightarrow>
   lookup_route now d rt s = (True, e, s\<lparr>n_table := Purge now (n_table s)\<rparr>)"
  by (simp add: lookup_route_eq Purge_search_entry)

lemma update_known: "rt_ok (n_table s) \<Longrightarrow> routes (n_table s) d = Some e0 \<Longrightarrow> rt_dst e = d \<Longrightarrow>
   rt_ok (n_table (update_route e s)) \<and> routes (n_table (update_route e s)) = (routes (n_table s))(d \<mapsto> reset_count e)"
  using Update_ok[of "n_table s" e] by (simp add: update_route_def Update_def map_of_smap_set rt_okD reset_count_def)

lemma fresh_route: "rt_ok t \<Longrightarrow> routes t d = Some e \<Longrightarrow> now \<le> rt_lifeTime e \<Longrightarrow> routes (Purge now t) d = Some e"
  by (simp add: Purge_routes purged_def)

definition learned_route :: "aodv_cfg \<Rightarrow> time \<Rightarrow> rrep \<Rightarrow> ipv4 \<Rightarrow> ipv4 \<Rightarrow> rt_entry" where
  "learned_route cfg now h receiver sender = RoutingTableEntry now (c_dev cfg receiver) (rp_dst h) True (rp_dstSeqNo h)
     (c_iface cfg receiver) (ucast (rp_hopCount h + 1)) sender (ms (Rrep_GetLifeTime h))"

lemma learned_route_simps [simp]: "rt_flag (learned_route cfg now h receiver sender) = VALID" "rt_dst (learned_route cfg now h receiver sender) = rp_dst h"
  "reset_count (learned_route cfg now h receiver sender) = learned_route cfg now h receiver sender"
  "rt_lifeTime (learned_route cfg now h receiver sender) = ms (Rrep_GetLifeTime h) + now"
  by (simp_all add: learned_route_def reset_count_def RoutingTableEntry_def)

lemma Rrep_GetLifeTime_nonneg: "0 \<le> Rrep_GetLifeTime h"
  by (simp add: Rrep_GetLifeTime_def)


definition small_reply :: rrep where
  "small_reply = RrepHeader 0 2 (Ipv4 0x0A000009) 7 (Ipv4 0x0A000001) 3000"

lemma small_node_facts:
  "rt_ok (n_table searching_node)" "smap_ok (n_addressReqTimer searching_node)" "IsMyOwnAddress (Ipv4 0x0A000001) searching_node"
  "map_option rt_validSeqNo (routes (n_table searching_node) (Ipv4 0x0A000009)) = Some False"
  "n_out searching_node \<noteq> []"
  by code_simp+

lemma small_reply_facts: "rp_dst small_reply = Ipv4 0x0A000009" "rp_origin small_reply = Ipv4 0x0A000001" "\<not> GetAckRequired small_reply"
  by code_simp+

definition small_route :: rt_entry where
  "small_route = learned_route small_cfg 50000000 small_reply (Ipv4 0x0A000001) (Ipv4 0x0A000005)"

text \<open>Two more packets wait, the second of them bound to interface 2, which is not the one of the route.\<close>

definition busy_node :: aodv_node where
  "busy_node = searching_node\<lparr>n_queue := (n_queue searching_node)\<lparr>m_queue := m_queue (n_queue searching_node) @
     map (\<lambda>(u, i). \<lparr>qe_packet = \<lparr>pk_uid = u, pk_tag = Some i\<rparr>, qe_header = small_header, qe_expire = 900000000\<rparr>) [(2, 1), (3, 2), (4, 1)]\<rparr>\<rparr>"

lemma busy_node_facts:
  "rt_ok (n_table busy_node)" "smap_ok (n_addressReqTimer busy_node)" "IsMyOwnAddress (Ipv4 0x0A000001) busy_node"
  "map_option rt_validSeqNo (routes (n_table busy_node) (Ipv4 0x0A000009)) = Some False"
  "map_option rt_flag (routes (n_table busy_node) (Ipv4 0x0A000009)) = Some IN_SEARCH"
  by code_simp+

lemma busy_due:
  "map (pk_uid \<circ> qe_packet) (takeWhile (may_leave_by (c_if_of_dev small_cfg) small_route)
     (due_packets 50000000 (Ipv4 0x0A000009) (n_queue busy_node))) = [1, 2]"
  "map (pk_uid \<circ> qe_packet) (tl (dropWhile (may_leave_by (c_if_of_dev small_cfg) small_route)
     (due_packets 50000000 (Ipv4 0x0A000009) (n_queue busy_node)))) = [4]"
  by code_simp+


text \<open>
  A reply never replaces a fresher route. When a reply is read, the route of its destination becomes the
  new one exactly when there was none, or its sequence number was invalid or older, or equal with
  an inactive or longer route; otherwise it stays, and the routes of all other destinations stay.
\<close>

theorem reply_route_is_fresher:
  assumes s: "rt_ok (n_table s)" "0 \<le> bad_life (n_table s)" and L: "learn_route now h new s = Some (old, s')" and new: "rt_dst new = rp_dst h"
  shows "routes (n_table s') (rp_dst h) = (case routes (Purge now (n_table s)) (rp_dst h) of
      None \<Rightarrow> Some (reset_count new)
    | Some e \<Rightarrow> Some (if \<not> rt_validSeqNo e \<or> sint (rt_seqNo e) < sint (rp_dstSeqNo h) \<or>
          rp_dstSeqNo h = rt_seqNo e \<and> (rt_flag e \<noteq> VALID \<or> (ucast (rp_hopCount h) :: u16) < rt_hops e)
        then reset_count new else e)) \<and>
    (d \<noteq> rp_dst h \<longrightarrow> routes (n_table s') d = routes (Purge now (n_table s)) d)"
proof (cases "routes (Purge now (n_table s)) (rp_dst h)")
  case None
  let ?t = "Purge now (n_table s)"
  have n: "routes (Purge now ?t) (rt_dst new) = None" using None new Purge_routes[OF Purge_ok[OF s(1)]] by simp
  have "s' = add_route now new (s\<lparr>n_table := ?t\<rparr>)" using L None by (simp add: learn_route_def lookup_route_eq)
  then have "routes (n_table s') = (routes (Purge now ?t))(rp_dst h \<mapsto> reset_count new)"
    using AddRoute_new[OF n] smap_set_routes[OF Purge_ok[OF Purge_ok[OF s(1)]]] new by (simp add: add_route_def)
  then show ?thesis using None Purge_again[OF s(2,1)] by simp
next
  case (Some e)
  let ?s1 = "s\<lparr>n_table := Purge now (n_table s)\<rparr>"
  have t1: "rt_ok (n_table ?s1)" "routes (n_table ?s1) (rp_dst h) = Some e" using s Some by (simp_all add: Purge_ok)
  from L Some obtain b where b: "reply_supersedes h e = Some b" "s' = (if b then update_route new ?s1 else ?s1)"
    by (auto simp: learn_route_def lookup_route_eq bind_eq_Some_conv)
  define C where "C \<longleftrightarrow> \<not> rt_validSeqNo e \<or> sint (rt_seqNo e) < sint (rp_dstSeqNo h) \<or>
      rp_dstSeqNo h = rt_seqNo e \<and> (rt_flag e \<noteq> VALID \<or> (ucast (rp_hopCount h) :: u16) < rt_hops e)"
  have "b \<longleftrightarrow> C"
    using b(1) by (auto simp: C_def reply_supersedes_def seq_diff_def Let_def bind_eq_Some_conv split: if_splits)
  then show ?thesis using t1 update_known[OF t1 new] unfolding b(2) Some option.case C_def[symmetric] by simp
qed

theorem reply_route_is_fresher_witness:
  "\<exists>s'. learn_route 0 small_reply (learned_route small_cfg 0 small_reply (Ipv4 0x0A000001) (Ipv4 0x0A000005)) searching_node =
      Some (the (routes (n_table searching_node) (Ipv4 0x0A000009)), s') \<and>
    map_option rt_flag (routes (n_table s') (Ipv4 0x0A000009)) = Some VALID"
proof -
  let ?new = "learned_route small_cfg 0 small_reply (Ipv4 0x0A000001) (Ipv4 0x0A000005)"
  from small_search small_node_facts(4) obtain e where e: "routes (n_table searching_node) (rp_dst small_reply) = Some e"
    "rt_flag e = IN_SEARCH" "\<not> rt_validSeqNo e" by (auto simp: small_reply_facts)
  have p: "routes (Purge 0 (n_table searching_node)) (rp_dst small_reply) = Some e" by (rule Purge_search_entry[OF small_node_facts(1) e(1,2)])
  obtain s' where L: "learn_route 0 small_reply ?new searching_node = Some (e, s')"
    using e(3) by (simp add: learn_route_def lookup_search[OF small_node_facts(1) e(1,2)] reply_supersedes_def)
  have "0 \<le> bad_life (n_table searching_node)" by code_simp
  from reply_route_is_fresher[OF small_node_facts(1) this L, of "rp_dst small_reply"] have "routes (n_table s') (Ipv4 0x0A000009) = Some ?new"
    using e(3) p by (simp add: small_reply_facts)
  then show ?thesis using L e(1) by (simp add: small_reply_facts)
qed

lemma unknown_type: "MessageType_of b = None \<Longrightarrow> TypeHeader_Deserialize h (b # bs) = Some (h\<lparr>th_valid := False\<rparr>, bs)"
  by (simp add: TypeHeader_Deserialize_def)

text \<open>
  A message reaches the handler of its type as it was sent: for the bytes of a type header and a header
  the node first notes the sender as a neighbour and then runs the handler on that very header, whatever
  follows on the wire. An unknown type is dropped.
\<close>

theorem RecvAodv_dispatch:
  assumes "smap_ok (re_unreachable e)" "length (re_unreachable e) \<le> 255"
  shows "RecvAodv cfg now ttl (TypeHeader_Serialize \<lparr>th_type = AODVTYPE_RREQ, th_valid = v\<rparr> @ Rreq_Serialize q @ bs) receiver sender s =
      RecvRequest cfg now ttl q receiver sender (UpdateRouteToNeighbor cfg now sender receiver s)
    \<and> RecvAodv cfg now ttl (TypeHeader_Serialize \<lparr>th_type = AODVTYPE_RREP, th_valid = v\<rparr> @ Rrep_Serialize p @ bs) receiver sender s =
      RecvReply cfg now ttl p receiver sender (UpdateRouteToNeighbor cfg now sender receiver s)
    \<and> RecvAodv cfg now ttl (TypeHeader_Serialize \<lparr>th_type = AODVTYPE_RERR, th_valid = v\<rparr> @ Rerr_Serialize e @ bs) receiver sender s =
      RecvError cfg now e sender (UpdateRouteToNeighbor cfg now sender receiver s)
    \<and> RecvAodv cfg now ttl (TypeHeader_Serialize \<lparr>th_type = AODVTYPE_RREP_ACK, th_valid = v\<rparr> @ RrepAck_Serialize a @ bs) receiver sender s =
      Some (RecvReplyAck now sender (UpdateRouteToNeighbor cfg now sender receiver s))
    \<and> (MessageType_of b = None \<longrightarrow>
      RecvAodv cfg now ttl (b # bs) receiver sender s = Some (UpdateRouteToNeighbor cfg now sender receiver s))"
  unfolding RecvAodv_def Let_def
  by (auto simp: plain_roundtrips Rerr_roundtrip[OF assms] unknown_type)

theorem RecvAodv_dispatch_witness:
  "RecvAodv small_cfg 0 1 ([2, 0, 0, 2, 10, 0, 0, 9, 0, 0, 0, 7, 10, 0, 0, 1, 0, 0, 0, 5] :: u8 list) (Ipv4 0x0A000001) (Ipv4 0x0A000005) small_node =
    RecvReply small_cfg 0 1 (RrepHeader 0 2 (Ipv4 0x0A000009) 7 (Ipv4 0x0A000001) 5) (Ipv4 0x0A000001) (Ipv4 0x0A000005)
      (UpdateRouteToNeighbor small_cfg 0 (Ipv4 0x0A000005) (Ipv4 0x0A000001) small_node)"
proof -
  let ?p = "RrepHeader 0 2 (Ipv4 0x0A000009) 7 (Ipv4 0x0A000001) 5"
  have "TypeHeader_Serialize \<lparr>th_type = AODVTYPE_RREP, th_valid = True\<rparr> @ Rrep_Serialize ?p @ [] =
    [2, 0, 0, 2, 10, 0, 0, 9, 0, 0, 0, 7, 10, 0, 0, 1, 0, 0, 0, 5]" by code_simp
  then show ?thesis
    using RecvAodv_dispatch[of RerrHeader, where cfg = small_cfg and now = 0 and ttl = 1 and v = True and p = ?p and bs = "[]"
      and receiver = "Ipv4 0x0A000001" and sender = "Ipv4 0x0A000005" and s = small_node] by (simp add: RerrHeader_def)
qed

end
