(* ===== verification/Aodv_Ring_Search.thy ===== *)
theory Aodv_Ring_Search
  imports Aodv_Node_Properties
begin

text \<open>
  The expanding ring search: a request that nobody answers is repeated with growing TTLs and
  delays, and is given up.
\<close>

text \<open>A node that waits in ring \<open>h\<close> of the search for \<open>dst\<close>, having sent \<open>k\<close> requests since the last tick.\<close>

definition rreq_ttls :: "aodv_node \<Rightarrow> u8 list" where
  "rreq_ttls s = map out_ttl (filter is_OutRreq (n_out s))"

definition in_ring :: "ipv4 \<Rightarrow> u16 \<Rightarrow> u8 \<Rightarrow> time \<Rightarrow> u16 \<Rightarrow> u8 list \<Rightarrow> (nat \<times> iface_addr) list \<Rightarrow> aodv_node \<Rightarrow> bool" where
  "in_ring dst h c x k L ss s \<longleftrightarrow> rt_ok (n_table s) \<and> smap_ok (n_addressReqTimer s) \<and>
     (\<exists>e. routes (n_table s) dst = Some e \<and> rt_flag e = IN_SEARCH \<and> rt_hops e = h \<and> rt_reqCount e = c) \<and>
     map_of (n_addressReqTimer s) dst = Some x \<and> n_rreqCount s = k \<and> rreq_ttls s = L \<and> n_socketAddresses s = ss"

lemma send_rreqs_frame:
  "n_table (send_rreqs now ttl h ss s) = n_table s" "n_addressReqTimer (send_rreqs now ttl h ss s) = n_addressReqTimer s"
  "n_rreqCount (send_rreqs now ttl h ss s) = n_rreqCount s" "n_socketAddresses (send_rreqs now ttl h ss s) = n_socketAddresses s"
  "n_queue (send_rreqs now ttl h ss s) = n_queue s"
  "rreq_ttls (send_rreqs now ttl h ss s) = rreq_ttls s @ replicate (length ss) (ucast ttl)"
  by (induction now ttl h ss s rule: send_rreqs.induct) (simp_all add: emit_def rreq_ttls_def replicate_append_same[symmetric] Let_def split: prod.splits)

definition retry_delay :: "aodv_cfg \<Rightarrow> u16 \<Rightarrow> u8 \<Rightarrow> time option" where
  "retry_delay cfg h c = (if (ucast h :: u32) < c_netDiameter cfg
     then Some (2 * c_nodeTraversalTime cfg * (int (unat h) + int (unat (c_timeoutBuffer cfg))))
     else if 0 < c \<and> unat c \<le> 31 then Some (c_netTraversalTime cfg * 2 ^ (unat c - 1)) else None)"

lemma lookup_valid_search: "rt_ok (n_table s) \<Longrightarrow> routes (n_table s) d = Some e \<Longrightarrow> rt_flag e = IN_SEARCH \<Longrightarrow>
   lookup_valid_route now d rt s = (False, e, s\<lparr>n_table := Purge now (n_table s)\<rparr>)"
  by (simp add: lookup_valid_eq Purge_search_entry)

lemma ScheduleRreqRetry_search:
  assumes "rt_ok (n_table s)" "routes (n_table s) dst = Some e" "rt_flag e = IN_SEARCH" "retry_delay cfg (rt_hops e) (rt_reqCount e) = Some r"
  shows "ScheduleRreqRetry cfg now dst s =
    Some (s\<lparr>n_table := Purge now (n_table s), n_addressReqTimer := smap_set (<) dst (now + r) (n_addressReqTimer s)\<rparr>)"
  using assms(4) by (auto simp: ScheduleRreqRetry_def lookup_search[OF assms(1-3)] retry_delay_def Let_def split: if_splits)

lemma update_search:
  assumes "rt_ok (n_table s)" "routes (n_table s) d = Some e" "rt_dst e' = d" "rt_flag e' = IN_SEARCH"
  shows "rt_ok (n_table (update_route e' s)) \<and> routes (n_table (update_route e' s)) d = Some e'"
  using assms Update_ok[of "n_table s" e'] by (simp add: update_route_def Update_def map_of_smap_set rt_okD)

text \<open>The frame of a request: what the search does to its own entry, to the timers and to the outputs.\<close>

lemma search_entry_again:
  assumes "rt_ok (n_table s)" "routes (n_table s) dst = Some e" "rt_flag e = IN_SEARCH"
  obtains e' h' s' where "search_entry cfg now dst h s = (request_ttl cfg e, h', s')" "rt_ok (n_table s')"
    "routes (n_table s') dst = Some e'" "rt_flag e' = IN_SEARCH" "rt_hops e' = request_ttl cfg e"
    "rt_reqCount e' = rt_reqCount e + (if at_diameter cfg (request_ttl cfg e) then 1 else 0)" "s' = s\<lparr>n_table := n_table s'\<rparr>"
proof -
  let ?ttl = "request_ttl cfg e" and ?s1 = "s\<lparr>n_table := Purge now (n_table s)\<rparr>"
  define e' where "e' = SetLifeTime now (c_pathDiscoveryTime cfg)
    ((if at_diameter cfg ?ttl then IncrementRreqCnt e else e)\<lparr>rt_hops := ?ttl, rt_flag := IN_SEARCH\<rparr>)"
  obtain h' where h: "search_entry cfg now dst h s = (?ttl, h', update_route e' ?s1)"
    by (simp add: search_entry_def lookup_search[OF assms] Let_def e'_def)
  have d: "rt_dst e' = dst" using rt_ok_dst[OF assms(1,2)] by (simp add: e'_def SetLifeTime_def IncrementRreqCnt_def)
  have "rt_ok (n_table (update_route e' ?s1)) \<and> routes (n_table (update_route e' ?s1)) dst = Some e'"
    using assms d by (intro update_search) (simp_all add: Purge_ok Purge_search_entry e'_def SetLifeTime_def)
  moreover have "update_route e' ?s1 = s\<lparr>n_table := n_table (update_route e' ?s1)\<rparr>" by (simp add: update_route_def)
  ultimately show ?thesis
    using h by (intro that) (auto simp: e'_def SetLifeTime_def IncrementRreqCnt_def)
qed

lemma SendRequest_ring:
  assumes S: "search_entry cfg now dst (RreqHeader\<lparr>rq_dst := dst\<rparr>) (s\<lparr>n_rreqCount := n_rreqCount s + 1\<rparr>) = (ttl, h', s1)"
    and e: "rt_ok (n_table s1)" "routes (n_table s1) dst = Some e" "rt_flag e = IN_SEARCH" "rt_hops e = ttl"
    and s1: "s1 = s\<lparr>n_rreqCount := n_rreqCount s + 1, n_table := n_table s1\<rparr>"
    and "n_rreqCount s \<noteq> c_rreqRateLimit cfg" "smap_ok (n_addressReqTimer s)" "retry_delay cfg ttl (rt_reqCount e) = Some r"
  shows "\<exists>s'. SendRequest cfg now dst s = Some s' \<and> in_ring dst ttl (rt_reqCount e) (now + r) (n_rreqCount s + 1)
     (rreq_ttls s @ replicate (length (n_socketAddresses s)) (ucast ttl)) (n_socketAddresses s) s'"
proof -
  let ?s2 = "s1\<lparr>n_seqNo := n_seqNo s1 + 1, n_requestId := n_requestId s1 + 1\<rparr>"
  have f: "n_addressReqTimer s1 = n_addressReqTimer s" "n_rreqCount s1 = n_rreqCount s + 1" "n_socketAddresses s1 = n_socketAddresses s"
    "rreq_ttls s1 = rreq_ttls s" by (subst s1, simp add: rreq_ttls_def)+
  obtain h where R: "SendRequest cfg now dst s = ScheduleRreqRetry cfg now dst (send_rreqs now ttl h (n_socketAddresses ?s2) ?s2)"
    using assms(7) by (simp add: SendRequest_def S Let_def)
  let ?s3 = "send_rreqs now ttl h (n_socketAddresses ?s2) ?s2"
  have t: "rreq_ttls ?s2 = rreq_ttls s" using f by (simp add: rreq_ttls_def)
  let ?s4 = "?s3\<lparr>n_table := Purge now (n_table ?s3), n_addressReqTimer := smap_set (<) dst (now + r) (n_addressReqTimer ?s3)\<rparr>"
  have "ScheduleRreqRetry cfg now dst ?s3 = Some ?s4"
    by (rule ScheduleRreqRetry_search[of _ _ e]) (use e assms(9) in \<open>simp_all add: send_rreqs_frame\<close>)
  moreover have "rreq_ttls ?s4 = rreq_ttls ?s3" by (simp add: rreq_ttls_def)
  then have "in_ring dst ttl (rt_reqCount e) (now + r) (n_rreqCount s + 1)
     (rreq_ttls s @ replicate (length (n_socketAddresses s)) (ucast ttl)) (n_socketAddresses s) ?s4"
    using e assms(8) unfolding in_ring_def
    by (simp add: send_rreqs_frame f t Purge_ok Purge_search_entry smap_ok_set map_of_smap_set_same)
  ultimately show ?thesis using R by simp
qed

definition ring_ttl :: "aodv_cfg \<Rightarrow> u16 \<Rightarrow> u16" where
  "ring_ttl cfg h = (if c_ttlThreshold cfg < h + c_ttlIncrement cfg then ucast (c_netDiameter cfg) else h + c_ttlIncrement cfg)"

lemma ring_start:
  assumes t: "rt_ok (n_table s)" and "smap_ok (n_addressReqTimer s)" "routes (Purge now (n_table s)) dst = None"
    "n_rreqCount s \<noteq> c_rreqRateLimit cfg" "\<not> at_diameter cfg (c_ttlStart cfg)" "retry_delay cfg (c_ttlStart cfg) 0 = Some r"
  shows "\<exists>s'. SendRequest cfg now dst s = Some s' \<and> in_ring dst (c_ttlStart cfg) 0 (now + r) (n_rreqCount s + 1)
     (rreq_ttls s @ replicate (length (n_socketAddresses s)) (ucast (c_ttlStart cfg))) (n_socketAddresses s) s'"
proof -
  let ?s0 = "s\<lparr>n_rreqCount := n_rreqCount s + 1\<rparr>"
  define e where "e = (RoutingTableEntry now 0 dst False 0 unset_iface (c_ttlStart cfg) unset_address (c_pathDiscoveryTime cfg))\<lparr>rt_flag := IN_SEARCH\<rparr>"
  let ?s1 = "?s0\<lparr>n_table := Purge now (n_table s)\<rparr>" and ?t2 = "Purge now (Purge now (n_table s))"
  have l: "lookup_route now dst (default_entry now) ?s0 = (False, default_entry now, ?s1)"
    using assms(3) by (simp add: lookup_route_eq)
  have none: "routes ?t2 dst = None" using assms(3) Purge_routes[OF Purge_ok[OF t], of now now] by simp
  have e: "rt_dst e = dst" "rt_flag e = IN_SEARCH" "rt_hops e = c_ttlStart cfg" "rt_reqCount e = 0"
    by (simp_all add: e_def RoutingTableEntry_def)
  have A: "snd (AddRoute now e (Purge now (n_table s))) = ?t2\<lparr>m_ipv4AddressEntry := smap_set (<) dst e (m_ipv4AddressEntry ?t2)\<rparr>"
    using AddRoute_new[of now "Purge now (n_table s)" e] none e by (simp add: reset_count_def)
  have S: "search_entry cfg now dst (RreqHeader\<lparr>rq_dst := dst\<rparr>) ?s0 = (c_ttlStart cfg, SetUnknownSeqno True (RreqHeader\<lparr>rq_dst := dst\<rparr>), add_route now e ?s1)"
    using assms(5) by (simp add: search_entry_def l Let_def e_def)
  have ok: "rt_ok ?t2" by (rule Purge_ok[OF Purge_ok[OF t]])
  show ?thesis
    using SendRequest_ring[OF S, of e] assms e A rt_ok_set[OF ok e(1)] smap_set_routes[OF ok, of dst e]
    by (simp add: add_route_def)
qed

lemma ring_next:
  assumes I: "in_ring dst h c x k L ss s" and "k \<noteq> c_rreqRateLimit cfg" "unat c \<noteq> c_rreqRetries cfg"
    and c': "c' = c + (if at_diameter cfg (ring_ttl cfg h) then 1 else 0)" and r: "retry_delay cfg (ring_ttl cfg h) c' = Some r"
  shows "\<exists>s'. RouteRequestTimerExpire cfg x dst s = Some s' \<and>
    in_ring dst (ring_ttl cfg h) c' (x + r) (k + 1) (L @ replicate (length ss) (ucast (ring_ttl cfg h))) ss s'"
proof -
  from I obtain e where e: "rt_ok (n_table s)" "routes (n_table s) dst = Some e" "rt_flag e = IN_SEARCH" "rt_hops e = h" "rt_reqCount e = c"
    by (auto simp: in_ring_def)
  let ?s1 = "s\<lparr>n_table := Purge x (n_table s)\<rparr>"
  let ?s0 = "?s1\<lparr>n_rreqCount := n_rreqCount ?s1 + 1\<rparr>"
  have R: "RouteRequestTimerExpire cfg x dst s = SendRequest cfg x dst ?s1"
    using assms(3) e by (simp add: RouteRequestTimerExpire_def lookup_valid_search[OF e(1-3)])
  have e1: "rt_ok (n_table ?s0)" "routes (n_table ?s0) dst = Some e" using e by (simp_all add: Purge_ok Purge_search_entry)
  have ttl: "request_ttl cfg e = ring_ttl cfg h" using e by (simp add: request_ttl_def ring_ttl_def Let_def)
  obtain e' h' s2 where S: "search_entry cfg x dst (RreqHeader\<lparr>rq_dst := dst\<rparr>) ?s0 = (ring_ttl cfg h, h', s2)"
    and e': "rt_ok (n_table s2)" "routes (n_table s2) dst = Some e'" "rt_flag e' = IN_SEARCH" "rt_hops e' = ring_ttl cfg h"
      "rt_reqCount e' = c'" and s2: "s2 = ?s0\<lparr>n_table := n_table s2\<rparr>"
    using search_entry_again[OF e1 e(3), of cfg x "RreqHeader\<lparr>rq_dst := dst\<rparr>"] unfolding ttl e(5) c'[symmetric] by metis
  have f: "n_addressReqTimer ?s1 = n_addressReqTimer s" "rreq_ttls ?s1 = rreq_ttls s" "n_rreqCount ?s1 = n_rreqCount s"
    by (simp_all add: rreq_ttls_def)
  show ?thesis
    using SendRequest_ring[OF S e'(1-4) s2] I assms(2) r unfolding R by (simp add: in_ring_def e'(5) f)
qed

lemma ring_stop:
  assumes I: "in_ring dst h c x k L ss s" and "unat c = c_rreqRetries cfg"
  shows "\<exists>s'. RouteRequestTimerExpire cfg x dst s = Some s' \<and> routes (n_table s') dst = None \<and>
    map_of (n_addressReqTimer s') dst = None \<and> \<not> Find dst (n_queue s') \<and> rreq_ttls s' = L"
proof -
  from I obtain e where e: "rt_ok (n_table s)" "routes (n_table s) dst = Some e" "rt_flag e = IN_SEARCH" "rt_hops e = h" "rt_reqCount e = c"
    and t: "smap_ok (n_addressReqTimer s)" and L: "rreq_ttls s = L" by (auto simp: in_ring_def)
  let ?s1 = "s\<lparr>n_table := Purge x (n_table s)\<rparr>"
  have R: "RouteRequestTimerExpire cfg x dst s = Some (stop_search x dst ?s1)"
    using assms(2) e by (simp add: RouteRequestTimerExpire_def lookup_valid_search[OF e(1-3)])
  have "filter is_OutRreq (map OutDropped ds) = []" for ds by (simp add: filter_empty_conv)
  then show ?thesis using L DeleteRoute_routes[OF Purge_ok[OF e(1)], of x dst x]
    by (simp add: R stop_search_def drop_packets_def delete_route_def emit_def rreq_ttls_def Find_def DropPacketWithDst_def
        RequestQueue_Purge_def map_of_smap_erase[OF t])
qed

fun expiries :: "aodv_cfg \<Rightarrow> ipv4 \<Rightarrow> nat \<Rightarrow> time \<times> aodv_node \<Rightarrow> (time \<times> aodv_node) option" where
  "expiries cfg dst 0 r = Some r"
| "expiries cfg dst (Suc n) (t, s) = (case map_of (n_addressReqTimer s) dst of
     None \<Rightarrow> Some (t, s)
   | Some x \<Rightarrow> Option.bind (RouteRequestTimerExpire cfg x dst s) (\<lambda>s'. expiries cfg dst n (x, s')))"

lemma expiries_next: "map_of (n_addressReqTimer s) dst = Some x \<Longrightarrow> RouteRequestTimerExpire cfg x dst s = Some s' \<Longrightarrow>
   expiries cfg dst (Suc n) (t, s) = expiries cfg dst n (x, s')"
  by simp

lemma expiries_done: "map_of (n_addressReqTimer s) dst = None \<Longrightarrow> expiries cfg dst n (t, s) = Some (t, s)"
  by (cases n) simp_all

lemma ring_timer: "in_ring dst h c x k L ss s \<Longrightarrow> map_of (n_addressReqTimer s) dst = Some x"
  by (simp add: in_ring_def)

lemma default_rings:
  assumes "cfg = default_cfg dev iface if_of"
  shows "ring_ttl cfg 1 = 3" "ring_ttl cfg 3 = 5" "ring_ttl cfg 5 = 7" "ring_ttl cfg 7 = 35" "ring_ttl cfg 35 = 35"
    "at_diameter cfg 35" "\<not> at_diameter cfg 1" "\<not> at_diameter cfg 3" "\<not> at_diameter cfg 5" "\<not> at_diameter cfg 7"
    "retry_delay cfg 1 0 = Some (ms 240)" "retry_delay cfg 3 0 = Some (ms 400)" "retry_delay cfg 5 0 = Some (ms 560)"
    "retry_delay cfg 7 0 = Some (ms 720)" "retry_delay cfg 35 1 = Some (ms 2800)" "retry_delay cfg 35 2 = Some (ms 5600)"
    "c_ttlStart cfg = 1" "c_rreqRetries cfg = 2" "c_rreqRateLimit cfg = 10"
  unfolding assms by (simp_all add: default_cfg_def Let_def ring_ttl_def at_diameter_def retry_delay_def)

text \<open>The rings of a search, each with its TTL, its count of requests at full diameter and its delay.\<close>

fun rings :: "aodv_cfg \<Rightarrow> u16 \<Rightarrow> u8 \<Rightarrow> (u16 \<times> u8 \<times> time) list \<Rightarrow> bool" where
  "rings cfg h c [] \<longleftrightarrow> unat c = c_rreqRetries cfg"
| "rings cfg h c ((ttl, c', r) # rs) \<longleftrightarrow> unat c \<noteq> c_rreqRetries cfg \<and> ttl = ring_ttl cfg h \<and>
     c' = c + (if at_diameter cfg ttl then 1 else 0) \<and> retry_delay cfg ttl c' = Some r \<and> rings cfg ttl c' rs"

lemma rings_run:
  assumes "in_ring dst h c x k L ss s" and "rings cfg h c rs" and "\<forall>j < length rs. k + of_nat j \<noteq> c_rreqRateLimit cfg"
  shows "\<exists>s'. expiries cfg dst (Suc (length rs + m)) (t, s) = Some (x + sum_list (map (snd \<circ> snd) rs), s') \<and>
    routes (n_table s') dst = None \<and> map_of (n_addressReqTimer s') dst = None \<and> \<not> Find dst (n_queue s') \<and>
    rreq_ttls s' = L @ concat (map (\<lambda>(ttl, _). replicate (length ss) (ucast ttl)) rs)"
  using assms
proof (induction rs arbitrary: h c x k L s t)
  case Nil
  from ring_stop[OF Nil.prems(1), of cfg] Nil.prems(2) obtain s' where s': "RouteRequestTimerExpire cfg x dst s = Some s'"
    "routes (n_table s') dst = None" "map_of (n_addressReqTimer s') dst = None" "\<not> Find dst (n_queue s')" "rreq_ttls s' = L" by auto
  then show ?case using ring_timer[OF Nil.prems(1)] expiries_done[OF s'(3)] by simp
next
  case (Cons p rs)
  obtain ttl c' r where p: "p = (ttl, c', r)" by (cases p)
  from Cons.prems(2) have P: "unat c \<noteq> c_rreqRetries cfg" "ttl = ring_ttl cfg h" "c' = c + (if at_diameter cfg (ring_ttl cfg h) then 1 else 0)"
    "retry_delay cfg (ring_ttl cfg h) c' = Some r" "rings cfg ttl c' rs" by (auto simp: p)
  have k: "k \<noteq> c_rreqRateLimit cfg" "\<forall>j < length rs. k + 1 + of_nat j \<noteq> c_rreqRateLimit cfg"
    using Cons.prems(3)[rule_format, of 0] Cons.prems(3)[rule_format, of "Suc _"] by (auto simp: ac_simps)
  from ring_next[OF Cons.prems(1) k(1) P(1,3,4)] obtain s1 where s1: "RouteRequestTimerExpire cfg x dst s = Some s1"
    "in_ring dst ttl c' (x + r) (k + 1) (L @ replicate (length ss) (ucast ttl)) ss s1" by (auto simp: P(2))
  from Cons.IH[OF s1(2) P(5) k(2), of x] show ?case
    using ring_timer[OF Cons.prems(1)] s1(1) by (simp add: p add.assoc)
qed

text \<open>
  C37. An unanswered search ends. With the default parameters and within the rate limit, a node that has
  no entry for a destination and gets no reply sends requests with the TTLs 1, 3, 5, 7, 35, 35 on
  each socket, and 10.32 seconds after the first one it has deleted the entry and the timer and
  dropped all packets that waited for the destination.
\<close>

theorem ring_search_gives_up:
  assumes cfg: "cfg = default_cfg dev iface if_of" and s: "rt_ok (n_table s)" "smap_ok (n_addressReqTimer s)"
    and new: "routes (Purge now (n_table s)) dst = None" and k: "n_rreqCount s \<le> 4" and n: "6 \<le> n"
  shows "\<exists>s1 s2. SendRequest cfg now dst s = Some s1 \<and> expiries cfg dst n (now, s1) = Some (now + ms 10320, s2) \<and>
    rreq_ttls s2 = rreq_ttls s @ concat (map (replicate (length (n_socketAddresses s))) [1, 3, 5, 7, 35, 35]) \<and>
    routes (n_table s2) dst = None \<and> map_of (n_addressReqTimer s2) dst = None \<and> \<not> Find dst (n_queue s2)"
proof -
  let ?k = "n_rreqCount s" and ?rs = "[(3, 0, ms 400), (5, 0, ms 560), (7, 0, ms 720), (35, 1, ms 2800), (35, 2, ms 5600)] :: (u16 \<times> u8 \<times> time) list"
  note D = default_rings[OF cfg]
  have "?k \<noteq> 10" "?k + 1 \<noteq> 10" "?k + 1 + 1 \<noteq> 10" "?k + 1 + 2 \<noteq> 10" "?k + 1 + 3 \<noteq> 10" "?k + 1 + 4 \<noteq> 10" using k by unat_arith+
  then have K: "?k \<noteq> c_rreqRateLimit cfg" "\<forall>j < length ?rs. ?k + 1 + of_nat j \<noteq> c_rreqRateLimit cfg"
    by (auto simp: D less_Suc_eq numeral_eq_Suc)
  from ring_start[OF s new, of cfg "ms 240"] obtain s1 where 1: "SendRequest cfg now dst s = Some s1" "in_ring dst 1 0 (now + ms 240) (?k + 1)
      (rreq_ttls s @ replicate (length (n_socketAddresses s)) 1) (n_socketAddresses s) s1" using K(1) by (auto simp: D)
  have "rings cfg 1 0 ?rs" by (simp add: D)
  have N: "Suc (length ?rs + (n - 6)) = n" using n by simp
  have T: "now + ms 240 + sum_list (map (snd \<circ> snd) ?rs) = now + ms 10320" by simp
  have C: "(rreq_ttls s @ replicate (length (n_socketAddresses s)) 1) @ concat (map (\<lambda>(ttl, _). replicate (length (n_socketAddresses s)) (ucast ttl)) ?rs)
    = rreq_ttls s @ concat (map (replicate (length (n_socketAddresses s))) [1, 3, 5, 7, 35, 35])" by simp
  note R = rings_run[OF 1(2) \<open>rings cfg 1 0 ?rs\<close> K(2), of "n - 6" now, unfolded N T C]
  from 1(1) R show ?thesis by blast
qed

theorem ring_search_gives_up_witness:
  "\<exists>s1 s2. SendRequest small_cfg 0 (Ipv4 0x0A000009) small_node = Some s1 \<and>
    expiries small_cfg (Ipv4 0x0A000009) 6 (0, s1) = Some (ms 10320, s2) \<and> rreq_ttls s2 = [1, 3, 5, 7, 35, 35]"
proof -
  have "rt_ok (n_table small_node)" "n_addressReqTimer small_node = []" "n_rreqCount small_node = 0" "rreq_ttls small_node = []"
    "m_ipv4AddressEntry (n_table small_node) = []" "n_socketAddresses small_node = [(1, small_iface)]"
    by (simp_all add: small_node_def Start_node_def RoutingProtocol_def RoutingTable_def rt_ok_def rreq_ttls_def)
  moreover from this have "routes (Purge 0 (n_table small_node)) (Ipv4 0x0A000009) = None" by (simp add: Purge_def)
  ultimately show ?thesis
    using ring_search_gives_up[OF small_cfg_def, of small_node 0 "Ipv4 0x0A000009" 6] by auto
qed

end
