(* ===== verification/Aodv_Limits.thy ===== *)
theory Aodv_Limits
  imports Aodv_Ring_Search
begin

text \<open>
  The limits of an AODV node: the rate limit of requests, which holds, that of route errors, which does not,
  the lifetime of neighbour routes, the size of a route error, and what a node ignores or loses.
\<close>

subsection \<open>The rate limit of requests\<close>

text \<open>Requests between two ticks of the rate limit timer.\<close>

fun send_requests :: "aodv_cfg \<Rightarrow> (time \<times> ipv4) list \<Rightarrow> aodv_node \<Rightarrow> aodv_node option" where
  "send_requests cfg [] s = Some s"
| "send_requests cfg ((now, d) # ds) s = Option.bind (SendRequest cfg now d s) (send_requests cfg ds)"

lemma search_entry_frame: "search_entry cfg now dst h s = (ttl, h', s') \<Longrightarrow> \<exists>t. s' = s\<lparr>n_table := t\<rparr>"
proof -
  assume S: "search_entry cfg now dst h s = (ttl, h', s')"
  obtain f e s1 where l: "lookup_route now dst (default_entry now) s = (f, e, s1)" by (cases "lookup_route now dst (default_entry now) s") auto
  show ?thesis using S lookup_route_state[OF l] by (auto simp: search_entry_def l Let_def update_route_def add_route_def split: if_splits)
qed

lemma ScheduleRreqRetry_frame: "ScheduleRreqRetry cfg now dst s = Some s' \<Longrightarrow> \<exists>t x. s' = s\<lparr>n_table := t, n_addressReqTimer := x\<rparr>"
proof -
  assume S: "ScheduleRreqRetry cfg now dst s = Some s'"
  obtain f e s1 where l: "lookup_route now dst (default_entry now) s = (f, e, s1)" by (cases "lookup_route now dst (default_entry now) s") auto
  show ?thesis using S lookup_route_state[OF l] by (auto simp: ScheduleRreqRetry_def l bind_eq_Some_conv)
qed

lemma SendRequest_count:
  assumes S: "SendRequest cfg now dst s = Some s'"
  shows "n_socketAddresses s' = n_socketAddresses s"
    and "n_rreqCount s' = (if n_rreqCount s = c_rreqRateLimit cfg then n_rreqCount s else n_rreqCount s + 1)"
    and "length (rreq_ttls s') = length (rreq_ttls s) + (if n_rreqCount s = c_rreqRateLimit cfg then 0 else length (n_socketAddresses s))"
proof -
  have "n_socketAddresses s' = n_socketAddresses s \<and> n_rreqCount s' = n_rreqCount s + 1 \<and>
      length (rreq_ttls s') = length (rreq_ttls s) + length (n_socketAddresses s)" if k: "n_rreqCount s \<noteq> c_rreqRateLimit cfg"
  proof -
    let ?s0 = "s\<lparr>n_rreqCount := n_rreqCount s + 1\<rparr>"
    obtain ttl h1 s1 where e: "search_entry cfg now dst (RreqHeader\<lparr>rq_dst := dst\<rparr>) ?s0 = (ttl, h1, s1)"
      by (cases "search_entry cfg now dst (RreqHeader\<lparr>rq_dst := dst\<rparr>) ?s0") auto
    let ?s2 = "s1\<lparr>n_seqNo := n_seqNo s1 + 1, n_requestId := n_requestId s1 + 1\<rparr>"
    obtain h where "ScheduleRreqRetry cfg now dst (send_rreqs now ttl h (n_socketAddresses ?s2) ?s2) = Some s'"
      using S k by (simp add: SendRequest_def e Let_def)
    from ScheduleRreqRetry_frame[OF this] search_entry_frame[OF e] obtain t x u where
      s': "s' = (send_rreqs now ttl h (n_socketAddresses ?s2) ?s2)\<lparr>n_table := t, n_addressReqTimer := x\<rparr>" and s1: "s1 = ?s0\<lparr>n_table := u\<rparr>" by blast
    have "rreq_ttls s' = rreq_ttls (send_rreqs now ttl h (n_socketAddresses ?s2) ?s2)" by (simp add: s' rreq_ttls_def)
    moreover have "rreq_ttls ?s2 = rreq_ttls s" by (simp add: s1 rreq_ttls_def)
    ultimately show ?thesis by (simp add: send_rreqs_frame) (simp add: s' send_rreqs_frame s1)
  qed
  moreover have "s' = emit [OutRetryRequest (timer_left now (n_rreqTimer s) + 100000) dst] s" if "n_rreqCount s = c_rreqRateLimit cfg"
    using S that by (simp add: SendRequest_def)
  ultimately show "n_socketAddresses s' = n_socketAddresses s"
    "n_rreqCount s' = (if n_rreqCount s = c_rreqRateLimit cfg then n_rreqCount s else n_rreqCount s + 1)"
    "length (rreq_ttls s') = length (rreq_ttls s) + (if n_rreqCount s = c_rreqRateLimit cfg then 0 else length (n_socketAddresses s))"
    by (cases "n_rreqCount s = c_rreqRateLimit cfg"; simp add: emit_def rreq_ttls_def)+
qed

lemma send_requests_count:
  "n_rreqCount s \<le> c_rreqRateLimit cfg \<Longrightarrow> send_requests cfg ds s = Some s' \<Longrightarrow> n_rreqCount s' \<le> c_rreqRateLimit cfg \<and>
    length (rreq_ttls s') + unat (n_rreqCount s) * length (n_socketAddresses s) =
    length (rreq_ttls s) + unat (n_rreqCount s') * length (n_socketAddresses s)"
proof (induction cfg ds s arbitrary: s' rule: send_requests.induct)
  case (2 cfg now d ds s)
  from "2.prems"(2) obtain s1 where s1: "SendRequest cfg now d s = Some s1" "send_requests cfg ds s1 = Some s'"
    by (auto simp: bind_eq_Some_conv)
  note C = SendRequest_count[OF s1(1)]
  have le: "n_rreqCount s1 \<le> c_rreqRateLimit cfg" using "2.prems"(1) by (auto simp: C(2) intro: inc_le)
  have u: "unat (n_rreqCount s + 1) = unat (n_rreqCount s) + 1" if "n_rreqCount s \<noteq> c_rreqRateLimit cfg"
    using "2.prems"(1) that by unat_arith
  show ?case using "2.IH"[OF s1(1) le s1(2)] C u by (cases "n_rreqCount s = c_rreqRateLimit cfg") (simp_all add: algebra_simps)
qed simp

text \<open>
  C39. The request rate limit holds: between two ticks of its timer, whatever destinations are asked for and
  however often, a node originates at most \<open>RreqRateLimit\<close> requests on each socket, and the counter
  tells how many.
\<close>

theorem request_rate_limited:
  assumes "n_rreqCount s \<le> c_rreqRateLimit cfg" "send_requests cfg ds s = Some s'"
  shows "n_rreqCount s' \<le> c_rreqRateLimit cfg \<and> length (rreq_ttls s') + unat (n_rreqCount s) * length (n_socketAddresses s) =
      length (rreq_ttls s) + unat (n_rreqCount s') * length (n_socketAddresses s) \<and>
    length (rreq_ttls s') \<le> length (rreq_ttls s) + unat (c_rreqRateLimit cfg) * length (n_socketAddresses s)"
proof -
  note C = send_requests_count[OF assms]
  then have "unat (n_rreqCount s') * length (n_socketAddresses s) \<le> unat (c_rreqRateLimit cfg) * length (n_socketAddresses s)"
    by (simp add: word_le_nat_alt)
  with C show ?thesis by linarith
qed

theorem request_rate_limited_witness:
  "\<exists>s'. send_requests small_cfg [(0, Ipv4 9), (1, Ipv4 9), (2, Ipv4 8)] small_node = Some s' \<and> length (rreq_ttls s') \<le> 10"
proof -
  have "send_requests small_cfg [(0, Ipv4 9), (1, Ipv4 9), (2, Ipv4 8)] small_node \<noteq> None" by code_simp
  moreover have "n_rreqCount small_node = 0" "c_rreqRateLimit small_cfg = 10" "length (rreq_ttls small_node) = 0"
    "length (n_socketAddresses small_node) = 1" by code_simp+
  ultimately show ?thesis using request_rate_limited[of small_node small_cfg "[(0, Ipv4 9), (1, Ipv4 9), (2, Ipv4 8)]"] by auto
qed

subsection \<open>Route errors\<close>

text \<open>Data packets that cannot be forwarded, one after the other.\<close>

fun undeliverable :: "aodv_cfg \<Rightarrow> (time \<times> ipv4 \<times> u32 \<times> ipv4) list \<Rightarrow> aodv_node \<Rightarrow> aodv_node option" where
  "undeliverable cfg [] s = Some s"
| "undeliverable cfg ((now, dst, q, origin) # ps) s = Option.bind (SendRerrWhenNoRouteToForward cfg now dst q origin s) (undeliverable cfg ps)"

definition rerrs :: "aodv_node \<Rightarrow> aodv_out list" where
  "rerrs s = filter is_OutRerr (n_out s)"

lemma broadcast_to_map: "broadcast_to ss m = map (\<lambda>(k, iface). m k (broadcast_of iface)) ss"
  by (induction ss m rule: broadcast_to.induct) simp_all

lemma no_route_rerr:
  assumes "m_ipv4AddressEntry (n_table s) = []" and "n_rerrCount s \<noteq> c_rerrRateLimit cfg"
  shows "\<exists>s'. SendRerrWhenNoRouteToForward cfg now dst q origin s = Some s' \<and> n_rerrCount s' = n_rerrCount s \<and>
    length (rerrs s') = length (rerrs s) + length (n_socketAddresses s) \<and> n_socketAddresses s' = n_socketAddresses s \<and>
    m_ipv4AddressEntry (n_table s') = []"
proof -
  let ?s1 = "s\<lparr>n_table := Purge now (n_table s)\<rparr>"
  have l: "lookup_valid_route now origin (default_entry now) s = (False, default_entry now, ?s1)"
    using assms(1) by (simp add: lookup_valid_eq Purge_def)
  obtain b h where h: "AddUnDestination dst q RerrHeader = Some (b, h)" by (simp add: AddUnDestination_def RerrHeader_def GetDestCount_def)
  let ?os = "broadcast_to (n_socketAddresses s) (\<lambda>k d. OutRerr k d 1 h)"
  have "SendRerrWhenNoRouteToForward cfg now dst q origin s = Some (emit ?os ?s1)"
    using assms(2) by (simp add: SendRerrWhenNoRouteToForward_def h l)
  moreover have "filter is_OutRerr ?os = ?os" by (auto simp: broadcast_to_map filter_id_conv)
  ultimately show ?thesis using assms(1) by (simp add: emit_def rerrs_def broadcast_to_map Purge_def)
qed

text \<open>
  The rate limit of route errors is not enforced when packets cannot be forwarded: the function that
  reports them never counts a message, so below the limit any number of undeliverable packets sends
  that many route errors on every socket, with no tick of the timer between them.
\<close>

theorem rerr_limit_not_enforced:
  assumes "m_ipv4AddressEntry (n_table s) = []" and "n_rerrCount s \<noteq> c_rerrRateLimit cfg"
  shows "\<exists>s'. undeliverable cfg ps s = Some s' \<and> n_rerrCount s' = n_rerrCount s \<and>
    length (rerrs s') = length (rerrs s) + length ps * length (n_socketAddresses s)"
  using assms
proof (induction cfg ps s rule: undeliverable.induct)
  case (2 cfg now dst q origin ps s)
  from no_route_rerr[OF "2.prems", of now dst q origin] obtain s1 where
    s1: "SendRerrWhenNoRouteToForward cfg now dst q origin s = Some s1" "n_rerrCount s1 = n_rerrCount s"
    "length (rerrs s1) = length (rerrs s) + length (n_socketAddresses s)" "n_socketAddresses s1 = n_socketAddresses s"
    "m_ipv4AddressEntry (n_table s1) = []" by blast
  with "2.IH"[OF s1(1)] "2.prems" show ?case by auto
qed simp

theorem rerr_limit_not_enforced_witness:
  "\<exists>s'. undeliverable small_cfg (replicate 100 (0, Ipv4 9, 0, Ipv4 8)) small_node = Some s' \<and> length (rerrs s') = 100"
proof -
  have "m_ipv4AddressEntry (n_table small_node) = []" "n_rerrCount small_node \<noteq> c_rerrRateLimit small_cfg"
    "length (n_socketAddresses small_node) = 1" "length (rerrs small_node) = 0" by code_simp+
  then show ?thesis using rerr_limit_not_enforced[of small_node small_cfg "replicate 100 (0, Ipv4 9, 0, Ipv4 8)"] by auto
qed

subsection \<open>Neighbour routes\<close>

text \<open>
  Hearing a neighbour does not prolong its route. The code computes the new lifetime of a known, fresh
  neighbour route on a local copy, so however often messages of the neighbour arrive while the route
  lives, the entry stays as it was, and it becomes invalid once its first lifetime is over.
\<close>

theorem neighbor_refresh_lost:
  assumes "rt_ok (n_table s)" "routes (n_table s) sender = Some e" "rt_flag e = VALID" "rt_validSeqNo e" "rt_hops e = 1"
    "rt_dev e = c_dev cfg receiver" "\<forall>t \<in> set ts. t \<le> rt_lifeTime e" "rt_lifeTime e < now"
  shows "routes (n_table (foldl (\<lambda>s t. UpdateRouteToNeighbor cfg t sender receiver s) s ts)) sender = Some e \<and>
    (\<exists>e'. routes (Purge now (n_table (foldl (\<lambda>s t. UpdateRouteToNeighbor cfg t sender receiver s) s ts))) sender = Some e' \<and> rt_flag e' = INVALID)"
  using assms
proof (induction ts arbitrary: s)
  case Nil
  then show ?case by (simp add: Purge_routes purged_def)
next
  case (Cons t ts)
  have p: "routes (Purge t (n_table s)) sender = Some e" using Cons.prems by (simp add: fresh_route)
  have "UpdateRouteToNeighbor cfg t sender receiver s = s\<lparr>n_table := Purge t (n_table s)\<rparr>"
    using p Cons.prems by (simp add: UpdateRouteToNeighbor_def lookup_route_eq Let_def)
  then show ?case using Cons.IH[of "s\<lparr>n_table := Purge t (n_table s)\<rparr>"] Cons.prems p by (simp add: Purge_ok)
qed

definition neighbor_entry :: rt_entry where
  "neighbor_entry = RoutingTableEntry 0 1 (Ipv4 0x0A000005) True 3 small_iface 1 (Ipv4 0x0A000005) 100"

theorem neighbor_refresh_lost_witness:
  "\<exists>e'. routes (Purge 101 (n_table (foldl (\<lambda>s t. UpdateRouteToNeighbor small_cfg t (Ipv4 0x0A000005) (Ipv4 0x0A000001) s)
     (add_route 0 neighbor_entry small_node) [50, 99, 100]))) (Ipv4 0x0A000005) = Some e' \<and> rt_flag e' = INVALID"
proof -
  let ?s = "add_route 0 neighbor_entry small_node"
  have t: "rt_ok (n_table ?s)" "map_option rt_flag (routes (n_table ?s) (Ipv4 0x0A000005)) = Some VALID" by code_simp+
  have "routes (n_table ?s) (Ipv4 0x0A000005) = Some neighbor_entry" by code_simp
  moreover have "rt_flag neighbor_entry = VALID" "rt_validSeqNo neighbor_entry" "rt_hops neighbor_entry = 1" "rt_lifeTime neighbor_entry = 100"
    "rt_dev neighbor_entry = 1" "c_dev small_cfg (Ipv4 0x0A000001) = 1"
    by (simp_all add: neighbor_entry_def RoutingTableEntry_def small_cfg_def default_cfg_def Let_def)
  ultimately show ?thesis
    using neighbor_refresh_lost[OF t(1), of "Ipv4 0x0A000005" neighbor_entry small_cfg "Ipv4 0x0A000001" "[50, 99, 100]" 101] by simp
qed

subsection \<open>Link breaks with many destinations\<close>

lemma AddUnDestination_spec:
  assumes "smap_ok (re_unreachable h)" "length (re_unreachable h) \<le> 255" "AddUnDestination d q h = Some (b, h1)"
  shows "smap_ok (re_unreachable h1) \<and> length (re_unreachable h1) \<le> 255 \<and> fst ` set (re_unreachable h1) = insert d (fst ` set (re_unreachable h))"
proof (cases "d \<in> fst ` set (re_unreachable h)")
  case True
  then have "map_of (re_unreachable h) d \<noteq> None" by (simp add: map_of_eq_None_iff)
  then have "h1 = h" using assms(3) by (simp add: AddUnDestination_def)
  with True assms show ?thesis by (simp add: insert_absorb)
next
  case False
  then have "map_of (re_unreachable h) d = None" by (simp add: map_of_eq_None_iff)
  moreover have "unat (GetDestCount h) = length (re_unreachable h)" using assms(2) by (simp add: GetDestCount_def count_255)
  ultimately have "length (re_unreachable h) < 255" "h1 = h\<lparr>re_unreachable := fst (smap_insert (<) d q (re_unreachable h))\<rparr>"
    using assms(3) by (auto simp: AddUnDestination_def word_less_nat_alt split: if_splits)
  with insert_un[OF assms(1), of d q] False show ?thesis by simp
qed

lemma rerr_loop_overflow:
  assumes "smap_ok (re_unreachable h)" "length (re_unreachable h) \<le> 255" "255 < card (fst ` set us \<union> fst ` set (re_unreachable h))"
  shows "rerr_loop cfg now us h ps s = None"
  using assms
proof (induction cfg now us h ps s rule: rerr_loop.induct)
  case (1 cfg now h ps s)
  have "card (fst ` set (re_unreachable h)) \<le> length (re_unreachable h)"
    by (rule order_trans[OF card_image_le[OF finite_set] card_length])
  with 1 show ?case by simp
next
  case (2 cfg now d q us h ps s)
  obtain f e s1 where l: "lookup_route now d (default_entry now) s = (f, e, s1)" by (cases "lookup_route now d (default_entry now) s") auto
  show ?case
  proof (cases "AddUnDestination d q h")
    case (Some r)
    then obtain b h1 where b: "AddUnDestination d q h = Some (b, h1)" by (cases r) auto
    with AddUnDestination_True[OF b] have a: "AddUnDestination d q h = Some (True, h1)" by simp
    have "smap_ok (re_unreachable h1) \<and> length (re_unreachable h1) \<le> 255 \<and> fst ` set (re_unreachable h1) = insert d (fst ` set (re_unreachable h))"
      by (rule AddUnDestination_spec[OF "2.prems"(1,2) a])
    moreover from this have "fst ` set us \<union> fst ` set (re_unreachable h1) = fst ` set ((d, q) # us) \<union> fst ` set (re_unreachable h)" by auto
    ultimately have "rerr_loop cfg now us h1 (GetPrecursors e ps) s1 = None"
      using "2.IH"(2)[OF a refl _ l[symmetric] refl] "2.prems"(3) by simp
    then show ?thesis by (simp add: a l)
  qed simp
qed

lemma lookup_some: "routes (Purge now (n_table s)) d = Some e \<Longrightarrow> lookup_route now d rt s = (True, e, s\<lparr>n_table := Purge now (n_table s)\<rparr>)"
  by (simp add: lookup_route_eq)

text \<open>
  A link break with more than 255 destinations aborts. An RERR holds at most 255 destinations, and the code
  means to send a full message and go on with the rest; but \<open>AddUnDestination\<close> asserts that there is
  room and never returns false, so the handler of a broken link fails as soon as the next hop and the
  destinations behind it are more than 255.
\<close>

theorem link_break_overflow_aborts:
  assumes t: "rt_ok (n_table s)" "0 \<le> bad_life (n_table s)" and hop: "routes (Purge now (n_table s)) hop \<noteq> None"
    and many: "255 < card (insert hop {d. \<exists>e. routes (Purge now (n_table s)) d = Some e \<and> rt_nextHop e = hop})"
  shows "SendRerrWhenBreaksLinkToNextHop cfg now hop s = None"
proof -
  from hop obtain e where e: "routes (Purge now (n_table s)) hop = Some e" by blast
  let ?s1 = "s\<lparr>n_table := Purge now (n_table s)\<rparr>"
  obtain u t' where u: "GetListOfDestinationWithNextHop now hop (Purge now (n_table s)) = (u, t')"
    by (cases "GetListOfDestinationWithNextHop now hop (Purge now (n_table s))")
  note U = unreachable_routes[OF Purge_ok[OF t(1)] u]
  have "fst ` set u = dom (map_of u)" by (simp add: dom_map_of_conv_image_fst)
  also have "\<dots> = {d. \<exists>e. routes (Purge now (n_table s)) d = Some e \<and> rt_nextHop e = hop}"
    unfolding dom_def U(2) Purge_again[OF t(2,1)] by (auto simp: bind_eq_Some_conv via_def split: if_splits)
  finally have dom: "fst ` set u = {d. \<exists>e. routes (Purge now (n_table s)) d = Some e \<and> rt_nextHop e = hop}" .
  obtain b h where h: "AddUnDestination hop (rt_seqNo e) RerrHeader = Some (b, h)"
    by (simp add: AddUnDestination_def RerrHeader_def GetDestCount_def)
  have "smap_ok (re_unreachable h) \<and> length (re_unreachable h) \<le> 255 \<and> fst ` set (re_unreachable h) = {hop}"
    using AddUnDestination_spec[OF _ _ h] by (simp add: RerrHeader_def)
  then have "rerr_loop cfg now u h (GetPrecursors e []) (?s1\<lparr>n_table := t'\<rparr>) = None"
    using many by (intro rerr_loop_overflow) (simp_all add: dom)
  then show ?thesis by (simp add: SendRerrWhenBreaksLinkToNextHop_def lookup_some[OF e] h u Let_def)
qed

definition star_entry :: "nat \<Rightarrow> ipv4 \<times> rt_entry" where
  "star_entry n = (Ipv4 (of_nat n), RoutingTableEntry 0 1 (Ipv4 (of_nat n)) True 0 small_iface 2 (Ipv4 0) 100)"

definition star_node :: "nat \<Rightarrow> aodv_node" where
  "star_node n = small_node\<lparr>n_table := (n_table small_node)\<lparr>m_ipv4AddressEntry := map star_entry [0..<n]\<rparr>\<rparr>"

lemma star_purge: "now \<le> 100 \<Longrightarrow> Purge now (n_table (star_node n)) = n_table (star_node n)"
proof -
  assume now: "now \<le> 100"
  have "purge_entries now b (map star_entry ns) = map star_entry ns" for b ns
    using now by (induction ns) (simp_all add: star_entry_def RoutingTableEntry_def GetLifeTime_def)
  then show ?thesis by (simp add: Purge_def star_node_def)
qed

lemma star_key: "i < 256 \<Longrightarrow> unat (of_nat i :: u32) = i"
  by (simp add: unsigned_of_nat take_bit_eq_mod)

lemma star_key_eq: "i < 256 \<Longrightarrow> j < 256 \<Longrightarrow> (of_nat i :: u32) = of_nat j \<longleftrightarrow> i = j"
  using star_key by metis

lemma star_ok: "n \<le> 256 \<Longrightarrow> rt_ok (n_table (star_node n))"
proof -
  assume n: "n \<le> 256"
  have "sorted_wrt (\<lambda>i j. Ipv4 (of_nat i) < Ipv4 (of_nat j)) [0..<n]"
    by (rule sorted_wrt_mono_rel[OF _ sorted_wrt_upt]) (use n in \<open>simp add: less_ipv4_def word_less_nat_alt star_key\<close>)
  then show ?thesis by (auto simp: rt_ok_def star_node_def star_entry_def RoutingTableEntry_def sorted_wrt_map)
qed

lemma star_route: "i < n \<Longrightarrow> n \<le> 256 \<Longrightarrow> routes (n_table (star_node n)) (Ipv4 (of_nat i)) = Some (snd (star_entry i))"
proof -
  assume "i < n" "n \<le> 256"
  moreover have "map_of (map star_entry ns) (Ipv4 (of_nat i)) = Some (snd (star_entry i))" if "i \<in> set ns" "set ns \<subseteq> {..<256}" for ns
    using that by (induction ns) (auto simp: star_entry_def star_key_eq)
  ultimately show ?thesis by (simp add: star_node_def subset_iff)
qed

lemma star_many: "n \<le> 256 \<Longrightarrow> n \<le> card (insert (Ipv4 0) {d. \<exists>e. routes (n_table (star_node n)) d = Some e \<and> rt_nextHop e = Ipv4 0})"
proof -
  assume n: "n \<le> 256"
  let ?D = "{d. \<exists>e. routes (n_table (star_node n)) d = Some e \<and> rt_nextHop e = Ipv4 0}"
  have "inj_on (\<lambda>i. Ipv4 (of_nat i)) {..<n}" using n by (auto simp: inj_on_def star_key_eq)
  then have "n = card ((\<lambda>i. Ipv4 (of_nat i)) ` {..<n})" by (simp add: card_image)
  also have "\<dots> \<le> card (insert (Ipv4 0) ?D)"
  proof (rule card_mono)
    have "finite ?D" by (rule finite_subset[OF _ finite_dom_map_of[of "m_ipv4AddressEntry (n_table (star_node n))"]]) auto
    then show "finite (insert (Ipv4 0) ?D)" by simp
    show "(\<lambda>i. Ipv4 (of_nat i)) ` {..<n} \<subseteq> insert (Ipv4 0) ?D"
      using n by (auto simp: star_route star_entry_def RoutingTableEntry_def)
  qed
  finally show ?thesis .
qed

theorem link_break_overflow_aborts_witness: "SendRerrWhenBreaksLinkToNextHop small_cfg 5 (Ipv4 0) (star_node 256) = None"
proof -
  have "0 \<le> bad_life (n_table (star_node n))" for n
    by (simp add: star_node_def small_node_def Start_node_def RoutingProtocol_def RoutingTable_def small_cfg_def default_cfg_def Let_def)
  moreover have "255 < card (insert (Ipv4 0) {d. \<exists>e. routes (n_table (star_node 256)) d = Some e \<and> rt_nextHop e = Ipv4 0})"
    using star_many[of 256] by linarith
  moreover have "routes (n_table (star_node 256)) (Ipv4 0) \<noteq> None" using star_route[of 0 256] by simp
  ultimately show ?thesis
    using link_break_overflow_aborts[OF star_ok[of 256], of 5 "Ipv4 0" small_cfg] by (simp add: star_purge)
qed

subsection \<open>A node's own requests\<close>

lemma IsDuplicate_records:
  assumes "IdCache_IsDuplicate now a i c = (b, c')" and "\<forall>u \<in> set (m_idCache c). uq_id u = i \<longrightarrow> uq_expire u = m_lifetime c + now"
    and "0 \<le> m_lifetime c"
  shows "m_lifetime c' = m_lifetime c" and "\<forall>u \<in> set (m_idCache c'). uq_id u = i \<longrightarrow> uq_expire u = m_lifetime c + now"
    and "\<exists>u \<in> set (m_idCache c'). uq_context u = a \<and> uq_id u = i \<and> uq_expire u = m_lifetime c + now"
    and "u \<in> set (m_idCache c) \<Longrightarrow> uq_id u = i \<Longrightarrow> u \<in> set (m_idCache c')"
proof -
  define r where "r = \<lparr>uq_context = a, uq_id = i, uq_expire = m_lifetime c + now\<rparr>"
  have r: "uq_context r = a" "uq_id r = i" "uq_expire r = m_lifetime c + now" by (simp_all add: r_def)
  let ?live = "filter (\<lambda>u. \<not> IsExpired now u) (m_idCache c)"
  have c': "m_lifetime c' = m_lifetime c \<and> (m_idCache c' = ?live \<and> (\<exists>u \<in> set ?live. uq_context u = a \<and> uq_id u = i) \<or> m_idCache c' = ?live @ [r])"
    using assms(1) by (auto simp: IdCache_IsDuplicate_def IdCache_Purge_def Let_def r_def split: if_splits)
  show "m_lifetime c' = m_lifetime c" using c' by blast
  have keep: "u \<in> set ?live" if "u \<in> set (m_idCache c)" "uq_id u = i" for u using that assms(2,3) by (auto simp: IsExpired_def)
  from c' keep show "u \<in> set (m_idCache c) \<Longrightarrow> uq_id u = i \<Longrightarrow> u \<in> set (m_idCache c')" by auto
  from c' r assms(2) show "\<forall>u \<in> set (m_idCache c'). uq_id u = i \<longrightarrow> uq_expire u = m_lifetime c + now"
    "\<exists>u \<in> set (m_idCache c'). uq_context u = a \<and> uq_id u = i \<and> uq_expire u = m_lifetime c + now" by auto
qed

lemma send_rreqs_records:
  assumes "\<forall>u \<in> set (m_idCache (n_rreqIdCache s)). uq_id u = rq_requestID h \<longrightarrow> uq_expire u = m_lifetime (n_rreqIdCache s) + now"
    and "0 \<le> m_lifetime (n_rreqIdCache s)" and "P \<subseteq> {u \<in> set (m_idCache (n_rreqIdCache s)). uq_id u = rq_requestID h}"
  shows "P \<subseteq> set (m_idCache (n_rreqIdCache (send_rreqs now ttl h ss s))) \<and> (\<forall>(k, iface) \<in> set ss.
     \<exists>u \<in> set (m_idCache (n_rreqIdCache (send_rreqs now ttl h ss s))). uq_context u = ia_local iface \<and>
       uq_id u = rq_requestID h \<and> uq_expire u = m_lifetime (n_rreqIdCache s) + now)"
  using assms
proof (induction ss arbitrary: s P)
  case (Cons p ss)
  obtain k iface where p: "p = (k, iface)" by (cases p)
  obtain b c where c: "IdCache_IsDuplicate now (ia_local iface) (rq_requestID h) (n_rreqIdCache s) = (b, c)"
    by (cases "IdCache_IsDuplicate now (ia_local iface) (rq_requestID h) (n_rreqIdCache s)")
  note R = IsDuplicate_records[OF c Cons.prems(1,2)]
  from R(3) obtain u where u: "u \<in> set (m_idCache c)" "uq_context u = ia_local iface" "uq_id u = rq_requestID h"
    "uq_expire u = m_lifetime (n_rreqIdCache s) + now" by blast
  let ?s1 = "emit [OutRreq k (broadcast_of iface) (ucast ttl) (h\<lparr>rq_origin := ia_local iface\<rparr>)] (s\<lparr>n_rreqIdCache := c, n_lastBcastTime := now\<rparr>)"
  have s1: "n_rreqIdCache ?s1 = c" by (simp add: emit_def)
  have P: "insert u P \<subseteq> {u \<in> set (m_idCache c). uq_id u = rq_requestID h}" using R(4) Cons.prems(3) u by auto
  have "send_rreqs now ttl h (p # ss) s = send_rreqs now ttl h ss ?s1" by (simp add: p c Let_def)
  then show ?case using Cons.IH[of ?s1 "insert u P"] R(1,2) Cons.prems(2) P u unfolding s1 by (auto simp: p)
qed auto

text \<open>
  A node ignores its own requests that come back. For as long as the identifier cache keeps a request,
  receiving it again over any interface, from any neighbour and with any hop count and TTL changes
  nothing but the purge of the table and of the cache, and sends nothing.
\<close>

theorem own_request_ignored:
  assumes S: "SendRequest cfg now dst s = Some s1" "n_rreqCount s \<noteq> c_rreqRateLimit cfg"
    and own: "(k, iface) \<in> set (n_socketAddresses s)" "rq_origin h = ia_local iface" "rq_requestID h = n_requestId s + 1"
    and new: "\<forall>u \<in> set (m_idCache (n_rreqIdCache s)). uq_id u \<noteq> n_requestId s + 1"
    and t: "now \<le> t" "t \<le> now + m_lifetime (n_rreqIdCache s)"
  shows "\<exists>c. RecvRequest cfg t ttl h receiver src s1 = Some (s1\<lparr>n_table := Purge t (n_table s1), n_rreqIdCache := c\<rparr>)"
proof -
  let ?s0 = "s\<lparr>n_rreqCount := n_rreqCount s + 1\<rparr>"
  obtain w h1 s2 where e: "search_entry cfg now dst (RreqHeader\<lparr>rq_dst := dst\<rparr>) ?s0 = (w, h1, s2)"
    by (cases "search_entry cfg now dst (RreqHeader\<lparr>rq_dst := dst\<rparr>) ?s0") auto
  let ?s3 = "s2\<lparr>n_seqNo := n_seqNo s2 + 1, n_requestId := n_requestId s2 + 1\<rparr>"
  obtain h4 where r: "ScheduleRreqRetry cfg now dst (send_rreqs now w h4 (n_socketAddresses ?s3) ?s3) = Some s1"
    and h4: "rq_requestID h4 = n_requestId s2 + 1" using S by (fastforce simp: SendRequest_def e Let_def)
  from search_entry_frame[OF e] obtain T where s2: "s2 = ?s0\<lparr>n_table := T\<rparr>" by blast
  have c1: "n_rreqIdCache s1 = n_rreqIdCache (send_rreqs now w h4 (n_socketAddresses s) ?s3)" using ScheduleRreqRetry_frame[OF r] by (auto simp: s2)
  have "\<exists>u \<in> set (m_idCache (n_rreqIdCache s1)). uq_context u = ia_local iface \<and> uq_id u = n_requestId s + 1 \<and>
      uq_expire u = m_lifetime (n_rreqIdCache s) + now"
    using send_rreqs_records[of ?s3 h4 now "{}" w "n_socketAddresses s"] new own(1) t unfolding c1 by (auto simp: s2 h4)
  then have dup: "fst (IdCache_IsDuplicate t (rq_origin h) (rq_requestID h) (n_rreqIdCache s1))"
    using own t by (fastforce simp: IsExpired_def IdCache_IsDuplicate_def IdCache_Purge_def Let_def)
  obtain f toPrev s5 where l: "lookup_route t src (default_entry t) s1 = (f, toPrev, s5)" by (cases "lookup_route t src (default_entry t) s1") auto
  note s5 = lookup_route_state[OF l]
  then have s5': "s5 = s1\<lparr>n_table := Purge t (n_table s1), n_rreqIdCache := n_rreqIdCache s1\<rparr>" by simp
  show ?thesis
  proof (cases "f \<and> rt_unidirectional toPrev")
    case True
    then have "RecvRequest cfg t ttl h receiver src s1 = Some s5" by (simp add: RecvRequest_def l)
    with s5' show ?thesis by metis
  next
    case False
    then show ?thesis using dup by (auto simp: RecvRequest_def l s5 split: prod.splits)
  qed
qed

theorem own_request_ignored_witness:
  "\<exists>s1 c. SendRequest small_cfg 0 (Ipv4 0x0A000009) small_node = Some s1 \<and>
    RecvRequest small_cfg 5000000000 35 (RreqHeader\<lparr>rq_origin := Ipv4 0x0A000001, rq_requestID := 1\<rparr>) (Ipv4 0x0A000001) (Ipv4 0x0A000005) s1 =
      Some (s1\<lparr>n_table := Purge 5000000000 (n_table s1), n_rreqIdCache := c\<rparr>)"
proof -
  have "SendRequest small_cfg 0 (Ipv4 0x0A000009) small_node \<noteq> None" by code_simp
  then obtain s1 where s1: "SendRequest small_cfg 0 (Ipv4 0x0A000009) small_node = Some s1" by blast
  have "n_rreqCount small_node \<noteq> c_rreqRateLimit small_cfg" "n_socketAddresses small_node = [(1, small_iface)]" "n_requestId small_node = 0"
    "m_idCache (n_rreqIdCache small_node) = []" "m_lifetime (n_rreqIdCache small_node) = 5600000000" by code_simp+
  then show ?thesis using own_request_ignored[OF s1, of 1 small_iface "RreqHeader\<lparr>rq_origin := Ipv4 0x0A000001, rq_requestID := 1\<rparr>" 5000000000 35
      "Ipv4 0x0A000001" "Ipv4 0x0A000005"] s1 by (simp add: small_iface_def)
qed

subsection \<open>Searching for the originator of a request\<close>

text \<open>
  C40. A reply for an originator in search is lost. A node that searches for the originator of a request it
  receives learns the way back, but the entry stays in search; a reply that it should forward to the
  originator is then dropped without output, although the entry has a next hop.
\<close>

theorem reply_lost_in_search:
  assumes s: "rt_ok (n_table s)" "routes (n_table s) (rq_origin q) = Some e" "rt_flag e = IN_SEARCH"
    and R: "reverse_route cfg now receiver src q s = Some (e', s')" and p: "rp_origin p = rq_origin q"
  shows "(\<exists>r. routes (n_table s') (rq_origin q) = Some r \<and> rt_flag r = IN_SEARCH \<and> rt_nextHop r = src \<and> rt_validSeqNo r) \<and>
    (\<exists>s''. forward_reply cfg t ttl p toDst s' = Some s'' \<and> n_out s'' = n_out s')"
proof -
  let ?s1 = "s\<lparr>n_table := Purge now (n_table s)\<rparr>"
  note l = lookup_search[OF s]
  have t1: "rt_ok (n_table ?s1)" "routes (n_table ?s1) (rq_origin q) = Some e" using s by (simp_all add: Purge_ok Purge_search_entry)
  from R obtain e1 where e1: "s' = update_route e1 ?s1" "rt_flag e1 = IN_SEARCH" "rt_nextHop e1 = src" "rt_validSeqNo e1" "rt_dst e1 = rt_dst e"
    using s(3) by (auto simp: reverse_route_def l Let_def bind_eq_Some_conv SetLifeTime_def)
  have "rt_dst e1 = rq_origin q" using e1(5) rt_ok_dst[OF s(1,2)] by simp
  with update_known[OF t1, of e1] e1 have r: "rt_ok (n_table s')" "routes (n_table s') (rq_origin q) = Some (reset_count e1)" by auto
  have "rt_flag (reset_count e1) = IN_SEARCH" "rt_nextHop (reset_count e1) = src" "rt_validSeqNo (reset_count e1)"
    using e1 by (simp_all add: reset_count_def)
  moreover have "forward_reply cfg t ttl p toDst s' = Some (s'\<lparr>n_table := Purge t (n_table s')\<rparr>)"
    using calculation by (simp add: forward_reply_def p lookup_search[OF r])
  ultimately show ?thesis using r(2) by simp
qed

theorem reply_lost_in_search_witness:
  "\<exists>e' s' s''. reverse_route small_cfg 50000000 (Ipv4 0x0A000001) (Ipv4 0x0A000005) (RreqHeader\<lparr>rq_origin := Ipv4 0x0A000009\<rparr>) searching_node = Some (e', s') \<and>
    forward_reply small_cfg 60000000 9 (RrepHeader 0 2 (Ipv4 0x0A000007) 7 (Ipv4 0x0A000009) 3000) (default_entry 0) s' = Some s'' \<and> n_out s'' = n_out s'"
proof -
  let ?q = "RreqHeader\<lparr>rq_origin := Ipv4 0x0A000009\<rparr>"
  have "reverse_route small_cfg 50000000 (Ipv4 0x0A000001) (Ipv4 0x0A000005) ?q searching_node \<noteq> None" by code_simp
  then obtain e' s' where R: "reverse_route small_cfg 50000000 (Ipv4 0x0A000001) (Ipv4 0x0A000005) ?q searching_node = Some (e', s')" by auto
  from small_search obtain e where "routes (n_table searching_node) (rq_origin ?q) = Some e" "rt_flag e = IN_SEARCH" by auto
  from reply_lost_in_search[OF small_node_facts(1) this R, of "RrepHeader 0 2 (Ipv4 0x0A000007) 7 (Ipv4 0x0A000009) 3000" 60000000 9 "default_entry 0"] R
  show ?thesis by (auto simp: RrepHeader_def)
qed

end
