(* ===== verification/Moe_Aging.thy ===== *)
theory Moe_Aging
  imports Moe_Tasks First_Fit
begin

text \<open>
  \<open>DistributedAgingScheduler\<close> of \<open>scratch/moe-jit/moe-fifo-scheduler.h\<close>: every leaf switch has a
  broker that hands out the capacity of its slots. \<open>OnEpochTimer\<close> lets the destination brokers grant
  quota to the source brokers, request by request in the order of priority; \<open>FastControlPath\<close>
  spends a leaf's source capacity and its quota on its waiting events and commits them.

  Times are \<open>ns3::Time\<close> values in nanoseconds. Slots have 64 bits, capacities 32; an \<open>unordered_map\<close> is an
  association list. Reading a missing entry of \<open>grantedQuota\<close> or \<open>grantedPhase\<close> creates an empty map
  in the code, which reads the same afterwards and is not modelled.
\<close>

type_synonym slot_map = "(nat \<times> nat) list"

record local_event =
  eventId :: nat
  le_rank :: rank
  le_taskId :: nat
  tPred :: int
  le_b :: nat
  le_span :: nat
  readySlot :: nat
  bytesByLeaf :: "(nat \<times> nat) list"
  foot :: "(nat \<times> nat) list"
  age :: nat
  wasEligible :: bool
  prio :: rat
  releaseTime :: int
  committed :: bool
  earliestSlot :: nat

record leaf_broker =
  lb_id :: nat
  srcFree :: slot_map
  dstFree :: slot_map
  localEvents :: "(nat \<times> local_event) list"
  grantedQuota :: "(nat \<times> slot_map) list"
  grantedPhase :: "(nat \<times> (nat \<times> int) list) list"
  nextPhase :: "(nat \<times> int) list"

datatype aging_mode = AGING | FIFO | SJF | SRPT

record aging =
  ag_k :: nat
  ag_slot :: int
  ag_epoch :: int
  ag_Helig :: int
  ag_Rslot :: nat
  ag_Wsearch :: nat
  ag_localGap :: int
  ag_phaseGap :: int
  ag_alphaAge :: rat
  ag_capacityPerSlot :: nat
  ag_mode :: aging_mode
  ag_brokers :: "leaf_broker list"
  ag_timerStarted :: bool

definition NO_SLOT :: nat where
  "NO_SLOT = 2 ^ 64 - 1"

definition GetFree :: "slot_map \<Rightarrow> nat \<Rightarrow> nat \<Rightarrow> nat" where
  "GetFree dict s cap = (case map_of dict s of None \<Rightarrow> cap | Some v \<Rightarrow> v)"

definition SetFree :: "slot_map \<Rightarrow> nat \<Rightarrow> nat \<Rightarrow> slot_map" where
  "SetFree dict s val = AList.update s val dict"

definition quota_of :: "leaf_broker \<Rightarrow> nat \<Rightarrow> slot_map" where
  "quota_of lb leaf = (case map_of (grantedQuota lb) leaf of None \<Rightarrow> [] | Some m \<Rightarrow> m)"

definition empty_broker :: "nat \<Rightarrow> leaf_broker" where
  "empty_broker i = \<lparr>lb_id = i, srcFree = [], dstFree = [], localEvents = [], grantedQuota = [], grantedPhase = [], nextPhase = []\<rparr>"

definition aging_init :: "nat \<Rightarrow> nat \<Rightarrow> aging_mode \<Rightarrow> rat \<Rightarrow> aging option" where
  "aging_init k numLeafs mode scale = do {
     rslot \<leftarrow> cast_uint 32 (dbl (100000 * scale));
     cap \<leftarrow> cast_uint 32 (dbl (dbl (125000 * scale) * of_nat k));
     Some \<lparr>ag_k = k, ag_slot = 10000, ag_epoch = 1000000, ag_Helig = 100000000,
       ag_Rslot = (if rslot = 0 then 1 else rslot), ag_Wsearch = 1000, ag_localGap = 20000, ag_phaseGap = 10000,
       ag_alphaAge = 3 / 2, ag_capacityPerSlot = (if cap = 0 then 1 else cap), ag_mode = mode,
       ag_brokers = map empty_broker [0..<numLeafs], ag_timerStarted = False\<rparr>
   }"

subsection \<open>Searching for a run of slots\<close>

text \<open>
  The three search loops have one shape: for each start, the slots of the window are checked in order, the
  first one that does not fit is where the search goes on. \<open>s + span\<close> is computed in 64 bits.
\<close>

definition slots :: "nat \<Rightarrow> nat \<Rightarrow> nat list" where
  "slots s sp = [s..<u64_add s sp]"

definition find_slot :: "(nat \<Rightarrow> bool) \<Rightarrow> nat \<Rightarrow> nat \<Rightarrow> nat \<Rightarrow> nat option option" where
  "find_slot fits sp base wsearch = map_option fst
     (jump_search (\<lambda>l s. Some (find (\<lambda>u. \<not> fits u) (slots s sp), l)) (\<lambda>_. False) (\<lambda>failSlot. u64_add failSlot 1)
        () base (u64_add base wsearch))"

definition src_fits :: "nat \<Rightarrow> slot_map \<Rightarrow> local_event \<Rightarrow> nat \<Rightarrow> bool" where
  "src_fits cap free e u \<longleftrightarrow> le_b e div le_span e \<le> GetFree free u cap"

definition fast_fits :: "nat \<Rightarrow> leaf_broker \<Rightarrow> local_event \<Rightarrow> nat \<Rightarrow> bool" where
  "fast_fits cap lb e u \<longleftrightarrow> src_fits cap (srcFree lb) e u \<and> (\<forall>(leaf, f) \<in> set (foot e). f \<le> GetFree (quota_of lb leaf) u 0)"

subsection \<open>The fast control path\<close>

text \<open>The priority of an event; the two callers use different aging factors.\<close>

definition event_prio :: "aging \<Rightarrow> rat \<Rightarrow> local_event \<Rightarrow> rat" where
  "event_prio c alpha e = (case ag_mode c of
     AGING \<Rightarrow> dbl (of_nat (le_b e) / dbl (1 + dbl (alpha * of_nat (age e))))
   | FIFO \<Rightarrow> dbl (of_int (tPred e))
   | SJF \<Rightarrow> of_nat (le_b e)
   | SRPT \<Rightarrow> (let dispatched = dbl (of_nat (age e) * of_nat (ag_capacityPerSlot c)) in
       if dispatched < of_nat (le_b e) then dbl (of_nat (le_b e) - dispatched) else 1))"

definition event_less :: "local_event \<Rightarrow> local_event \<Rightarrow> bool" where
  "event_less a b = (if prio a \<noteq> prio b then prio a < prio b else tPred a < tPred b)"

definition is_eligible :: "aging \<Rightarrow> int \<Rightarrow> local_event \<Rightarrow> bool" where
  "is_eligible c now e \<longleftrightarrow> \<not> committed e \<and> tPred e - now \<le> ag_Helig c"

definition map_events :: "(local_event \<Rightarrow> local_event) \<Rightarrow> leaf_broker \<Rightarrow> leaf_broker" where
  "map_events f lb = lb\<lparr>localEvents := map (\<lambda>(i, e). (i, f e)) (localEvents lb)\<rparr>"

definition put_event :: "local_event \<Rightarrow> leaf_broker \<Rightarrow> leaf_broker" where
  "put_event e lb = lb\<lparr>localEvents := smap_set (<) (eventId e) e (localEvents lb)\<rparr>"

definition fast_prio :: "aging \<Rightarrow> int \<Rightarrow> local_event \<Rightarrow> local_event" where
  "fast_prio c now e = (if is_eligible c now e then e\<lparr>prio := event_prio c (ag_alphaAge c) e\<rparr> else e)"

definition set_quota :: "nat \<Rightarrow> slot_map \<Rightarrow> leaf_broker \<Rightarrow> leaf_broker" where
  "set_quota leaf m lb = lb\<lparr>grantedQuota := AList.update leaf m (grantedQuota lb)\<rparr>"

definition spend_quota :: "nat \<Rightarrow> leaf_broker \<Rightarrow> nat \<times> nat \<Rightarrow> leaf_broker" where
  "spend_quota u lb p = (case p of (leaf, f) \<Rightarrow>
     set_quota leaf (SetFree (quota_of lb leaf) u (u32_sub (GetFree (quota_of lb leaf) u 0) f)) lb)"

definition spend_slot :: "nat \<Rightarrow> local_event \<Rightarrow> leaf_broker \<Rightarrow> nat \<Rightarrow> leaf_broker" where
  "spend_slot cap e lb u =
     foldl (spend_quota u) (lb\<lparr>srcFree := SetFree (srcFree lb) u (u32_sub (GetFree (srcFree lb) u cap) (le_b e div le_span e))\<rparr>) (foot e)"

definition search_base :: "nat \<Rightarrow> local_event \<Rightarrow> nat" where
  "search_base currentSlot e = (let base = max (readySlot e) currentSlot in
     if earliestSlot e \<noteq> NO_SLOT \<and> base < earliestSlot e then earliestSlot e else base)"

definition place_event :: "aging \<Rightarrow> nat \<Rightarrow> local_event \<Rightarrow> leaf_broker \<Rightarrow> (nat option \<times> leaf_broker) option" where
  "place_event c currentSlot e lb = do {
     found \<leftarrow> find_slot (fast_fits (ag_capacityPerSlot c) lb e) (le_span e) (search_base currentSlot e) (ag_Wsearch c);
     Some (found, case found of None \<Rightarrow> lb
       | Some s \<Rightarrow> foldl (spend_slot (ag_capacityPerSlot c) e) lb (slots s (le_span e)))
   }"

text \<open>The events that found a start slot, in the order in which they were placed.\<close>

fun place_events :: "aging \<Rightarrow> nat \<Rightarrow> local_event list \<Rightarrow> leaf_broker \<Rightarrow> ((nat \<times> local_event) list \<times> leaf_broker) option" where
  "place_events c currentSlot [] lb = Some ([], lb)"
| "place_events c currentSlot (e # es) lb = do {
     (found, lb1) \<leftarrow> place_event c currentSlot e lb;
     (placed, lb2) \<leftarrow> place_events c currentSlot es lb1;
     Some (case found of None \<Rightarrow> (placed, lb2) | Some s \<Rightarrow> ((s, e) # placed, lb2))
   }"

text \<open>A 64-bit number read as a signed one.\<close>

definition to_i64 :: "nat \<Rightarrow> int" where
  "to_i64 n = (let m = n mod 2 ^ 64 in if m < 2 ^ 63 then int m else int m - 2 ^ 64)"

definition dest_phase :: "leaf_broker \<Rightarrow> nat \<Rightarrow> local_event \<Rightarrow> int" where
  "dest_phase lb s e = foldl (\<lambda>t (leaf, _).
     case Option.bind (map_of (grantedPhase lb) leaf) (\<lambda>m. map_of m s) of None \<Rightarrow> t | Some p \<Rightarrow> if t < p then p else t) 0 (foot e)"

definition release_time :: "aging \<Rightarrow> nat \<Rightarrow> nat \<Rightarrow> leaf_broker \<Rightarrow> local_event \<Rightarrow> int" where
  "release_time c s k lb e = (
     let localOffset = 50000 + int k * ag_localGap c;
         slotStartTime = to_i64 (s * nat (ag_slot c));
         releaseT = (if tPred e < slotStartTime + localOffset then slotStartTime + localOffset else tPred e)
     in if releaseT < slotStartTime + dest_phase lb s e then slotStartTime + dest_phase lb s e else releaseT)"

definition commit_event :: "aging \<Rightarrow> nat \<Rightarrow> leaf_broker \<Rightarrow> nat \<times> local_event \<Rightarrow> leaf_broker" where
  "commit_event c s lb p = (case p of (k, e) \<Rightarrow> put_event (e\<lparr>releaseTime := release_time c s k lb e, committed := True\<rparr>) lb)"

definition commit_bucket :: "aging \<Rightarrow> (nat \<times> local_event) list \<Rightarrow> leaf_broker \<Rightarrow> nat \<Rightarrow> leaf_broker" where
  "commit_bucket c placed lb s =
     foldl (commit_event c s) lb (List.enumerate 0 (sort_by event_less (map snd (filter (\<lambda>(s', _). s' = s) placed))))"

definition fast_place :: "aging \<Rightarrow> int \<Rightarrow> leaf_broker \<Rightarrow> ((nat \<times> local_event) list \<times> leaf_broker) option" where
  "fast_place c now lb0 = (let lb = map_events (fast_prio c now) lb0 in
     place_events c (nat (now div ag_slot c)) (sort_by event_less (filter (is_eligible c now) (map snd (localEvents lb)))) lb)"

definition commit_buckets :: "aging \<Rightarrow> (nat \<times> local_event) list \<Rightarrow> leaf_broker \<Rightarrow> leaf_broker" where
  "commit_buckets c placed lb = foldl (commit_bucket c placed) lb (remdups (map fst placed))"

text \<open>Besides the new state the call returns what it placed: leaf, start slot and event.\<close>

type_synonym placement = "nat \<times> nat \<times> local_event"

definition FastControlPath :: "int \<Rightarrow> nat \<Rightarrow> aging \<Rightarrow> (placement list \<times> aging) option" where
  "FastControlPath now srcLeaf c =
     (if length (ag_brokers c) \<le> srcLeaf then None
      else do {
        (placed, lb) \<leftarrow> fast_place c now (ag_brokers c ! srcLeaf);
        Some (map (Pair srcLeaf) placed, c\<lparr>ag_brokers := (ag_brokers c)[srcLeaf := commit_buckets c placed lb]\<rparr>)
      })"

subsection \<open>Admission\<close>

definition llround :: "rat \<Rightarrow> int" where
  "llround x = (if 0 \<le> x then \<lfloor>x + 1 / 2\<rfloor> else - \<lfloor>1 / 2 - x\<rfloor>)"

text \<open>
  The leaf of a rank, narrowed to 32 bits, and the id of an event: the rank shifted within 64 bits beside the
  32-bit number of the task.
\<close>

definition leaf_of :: "nat \<Rightarrow> rank \<Rightarrow> nat" where
  "leaf_of k rk = (rk div k) mod 2 ^ 32"

definition aging_event_id :: "rank \<Rightarrow> nat \<Rightarrow> nat" where
  "aging_event_id rk tid = (rk * 2 ^ 32) mod 2 ^ 64 + tid"

definition add_flow :: "nat \<Rightarrow> (nat \<times> nat) list \<times> nat \<Rightarrow> rank \<times> nat \<Rightarrow> (nat \<times> nat) list \<times> nat" where
  "add_flow k r p = (case (r, p) of ((bytes, b), (dest, sz)) \<Rightarrow>
     let leaf = leaf_of k dest; old = (case map_of bytes leaf of None \<Rightarrow> 0 | Some x \<Rightarrow> x)
     in (smap_set (<) leaf ((old + sz) mod 2 ^ 32) bytes, (b + sz) mod 2 ^ 32))"

text \<open>\<open>Time / Time\<close> in slots: the quotient of two 64-bit integers, read as unsigned.\<close>

definition slot_of :: "aging \<Rightarrow> int \<Rightarrow> nat" where
  "slot_of c t = nat ((if 0 \<le> t then t div ag_slot c else - ((- t) div ag_slot c)) mod 2 ^ 64)"

definition new_event :: "aging \<Rightarrow> int \<Rightarrow> rank \<Rightarrow> moe_task \<Rightarrow> local_event" where
  "new_event c now rk task =
     (let pred = llround (dbl (startTime task * 10 ^ 9));
          (bytes, b) = foldl (add_flow (ag_k c)) ([], 0) (sendFlows task);
          sp0 = u32_sub (u32_add b (ag_Rslot c)) 1 div ag_Rslot c;
          sp = (if sp0 = 0 then 1 else sp0)
      in \<lparr>eventId = aging_event_id rk (taskId task), le_rank = rk, le_taskId = taskId task, tPred = pred, le_b = b, le_span = sp,
          readySlot = max (slot_of c now) (slot_of c pred), bytesByLeaf = bytes, foot = map (\<lambda>(l, x). (l, x div sp)) bytes,
          age = 0, wasEligible = False, prio = (if ag_mode c = FIFO then dbl (of_int pred) else of_nat b),
          releaseTime = - 1000000000, committed = False, earliestSlot = NO_SLOT\<rparr>)"

definition aging_CheckAdmission :: "int \<Rightarrow> rank \<Rightarrow> moe_task \<Rightarrow> aging \<Rightarrow> (bool \<times> placement list \<times> aging) option" where
  "aging_CheckAdmission now rk task c0 =
     (let c = c0\<lparr>ag_timerStarted := True\<rparr> in
      if ag_k c = 0 then None
      else let srcLeaf = leaf_of (ag_k c) rk; eId = aging_event_id rk (taskId task) in
      if length (ag_brokers c) \<le> srcLeaf then None
      else (case map_of (localEvents (ag_brokers c ! srcLeaf)) eId of
        None \<Rightarrow> map_option (Pair False)
          (FastControlPath now srcLeaf
            (c\<lparr>ag_brokers := (ag_brokers c)[srcLeaf := put_event (new_event c now rk task) (ag_brokers c ! srcLeaf)]\<rparr>))
      | Some e \<Rightarrow> Some (committed e \<and> releaseTime e \<le> now, [], c)))"

definition aging_GetBackoffTime :: "aging \<Rightarrow> int" where
  "aging_GetBackoffTime c = ag_slot c"

subsection \<open>The epoch timer: requests of the sources\<close>

record request =
  rq_eId :: nat
  rq_srcLeaf :: nat
  rq_earliest :: nat
  rq_span :: nat
  rq_foot :: nat
  rq_b :: nat
  rq_prio :: rat
  rq_tPred :: int

definition epoch_age :: "aging \<Rightarrow> int \<Rightarrow> local_event \<Rightarrow> local_event" where
  "epoch_age c now e = (if is_eligible c now e then
     let e1 = (if wasEligible e then e\<lparr>age := u32_add (age e) 1\<rparr> else e\<lparr>age := 0, wasEligible := True\<rparr>)
     in e1\<lparr>prio := event_prio c 2 e1\<rparr>
   else e)"

definition take_slots :: "nat \<Rightarrow> nat \<Rightarrow> slot_map \<Rightarrow> nat list \<Rightarrow> slot_map" where
  "take_slots cap req = foldl (\<lambda>m u. SetFree m u (u32_sub (GetFree m u cap) req))"

definition requests_of :: "nat \<Rightarrow> local_event \<Rightarrow> (nat \<times> request) list" where
  "requests_of i e = map (\<lambda>(leaf, f). (leaf, \<lparr>rq_eId = eventId e, rq_srcLeaf = i, rq_earliest = earliestSlot e,
     rq_span = le_span e, rq_foot = f, rq_b = le_b e, rq_prio = prio e, rq_tPred = tPred e\<rparr>)) (foot e)"

text \<open>The eligible events of leaf \<open>i\<close> one after the other on a copy of \<open>srcFree\<close>.\<close>

fun source_requests :: "aging \<Rightarrow> nat \<Rightarrow> nat \<Rightarrow> local_event list \<Rightarrow> slot_map \<Rightarrow> leaf_broker \<Rightarrow> ((nat \<times> request) list \<times> leaf_broker) option" where
  "source_requests c currentSlot i [] free lb = Some ([], lb)"
| "source_requests c currentSlot i (e # es) free lb = do {
     found \<leftarrow> find_slot (src_fits (ag_capacityPerSlot c) free e) (le_span e) (max (readySlot e) currentSlot) (ag_Wsearch c);
     let e1 = e\<lparr>earliestSlot := (case found of None \<Rightarrow> NO_SLOT | Some s \<Rightarrow> s)\<rparr>;
     let free1 = (case found of None \<Rightarrow> free
       | Some s \<Rightarrow> take_slots (ag_capacityPerSlot c) (le_b e div le_span e) free (slots s (le_span e)));
     (rs, lb1) \<leftarrow> source_requests c currentSlot i es free1 (put_event e1 lb);
     Some ((if earliestSlot e1 \<noteq> NO_SLOT then requests_of i e1 else []) @ rs, lb1)
   }"

definition epoch_source :: "aging \<Rightarrow> int \<Rightarrow> nat \<Rightarrow> leaf_broker \<Rightarrow> ((nat \<times> request) list \<times> leaf_broker) option" where
  "epoch_source c now i lb0 = (let lb = map_events (epoch_age c now) lb0 in
     source_requests c (nat (now div ag_slot c)) i
       (sort_by event_less (filter (is_eligible c now) (map snd (localEvents lb)))) (srcFree lb) lb)"

fun epoch_sources :: "aging \<Rightarrow> int \<Rightarrow> nat list \<Rightarrow> (nat \<times> request) list \<times> aging \<Rightarrow> ((nat \<times> request) list \<times> aging) option" where
  "epoch_sources cfg now [] r = Some r"
| "epoch_sources cfg now (i # ks) (destQueues, c) = do {
     (rs, lb) \<leftarrow> epoch_source cfg now i (ag_brokers c ! i);
     epoch_sources cfg now ks (destQueues @ rs, c\<lparr>ag_brokers := (ag_brokers c)[i := lb]\<rparr>)
   }"

subsection \<open>The epoch timer: grants of the destinations\<close>

record granting =
  gr_provisional :: slot_map
  gr_dstFree :: slot_map
  gr_nextPhase :: "(nat \<times> int) list"
  gr_newQuota :: "(nat \<times> slot_map) list"
  gr_newPhase :: "(nat \<times> (nat \<times> int) list) list"

type_synonym src_queues = "(nat \<times> request list) list"

definition request_better :: "request \<Rightarrow> request \<Rightarrow> bool" where
  "request_better h b \<longleftrightarrow> rq_prio h < rq_prio b \<or> (rq_prio h = rq_prio b \<and> rq_tPred h < rq_tPred b) \<or>
     (rq_prio h = rq_prio b \<and> rq_tPred h = rq_tPred b \<and> rq_srcLeaf h < rq_srcLeaf b)"

definition better_head :: "(nat \<times> request) option \<Rightarrow> nat \<times> request list \<Rightarrow> (nat \<times> request) option" where
  "better_head best kv = (case snd kv of [] \<Rightarrow> best
     | h # _ \<Rightarrow> (case best of None \<Rightarrow> Some (fst kv, h) | Some (_, b) \<Rightarrow> if request_better h b then Some (fst kv, h) else best))"

definition best_request :: "src_queues \<Rightarrow> (nat \<times> request) option" where
  "best_request qs = foldl better_head None qs"

definition queue_of :: "(nat \<times> 'a list) list \<Rightarrow> nat \<Rightarrow> 'a list" where
  "queue_of qs i = (case map_of qs i of None \<Rightarrow> [] | Some q \<Rightarrow> q)"

definition push_request :: "src_queues \<Rightarrow> request \<Rightarrow> src_queues" where
  "push_request qs r = AList.update (rq_srcLeaf r) (queue_of qs (rq_srcLeaf r) @ [r]) qs"

definition pop_request :: "nat \<Rightarrow> src_queues \<Rightarrow> src_queues" where
  "pop_request src qs = (if tl (queue_of qs src) = [] then AList.delete src qs else AList.update src (tl (queue_of qs src)) qs)"

definition add_quota :: "nat \<Rightarrow> slot_map \<Rightarrow> nat \<Rightarrow> slot_map" where
  "add_quota f m u = SetFree m u (u32_add (GetFree m u 0) f)"

definition grant_phase :: "aging \<Rightarrow> nat \<Rightarrow> nat \<Rightarrow> granting \<Rightarrow> granting" where
  "grant_phase c src start g = (if map_of (queue_of (gr_newPhase g) src) start \<noteq> None then g
     else let p = (case map_of (gr_nextPhase g) start of None \<Rightarrow> 0 | Some p \<Rightarrow> p)
       in g\<lparr>gr_newPhase := AList.update src (AList.update start p (queue_of (gr_newPhase g) src)) (gr_newPhase g),
            gr_nextPhase := AList.update start (p + ag_phaseGap c) (gr_nextPhase g)\<rparr>)"

definition grant_slots :: "aging \<Rightarrow> nat \<Rightarrow> request \<Rightarrow> nat \<Rightarrow> granting \<Rightarrow> granting" where
  "grant_slots c src r start g = (let us = slots start (rq_span r); cap = ag_capacityPerSlot c in
     g\<lparr>gr_newQuota := AList.update src (foldl (add_quota (rq_foot r)) (queue_of (gr_newQuota g) src) us) (gr_newQuota g),
       gr_provisional := take_slots cap (rq_foot r) (gr_provisional g) us,
       gr_dstFree := take_slots cap (rq_foot r) (gr_dstFree g) us\<rparr>)"

definition grant_request :: "aging \<Rightarrow> nat \<Rightarrow> request \<Rightarrow> granting \<Rightarrow> granting option" where
  "grant_request c src r g = do {
     found \<leftarrow> find_slot (\<lambda>u. rq_foot r \<le> GetFree (gr_provisional g) u (ag_capacityPerSlot c)) (rq_span r) (rq_earliest r) (ag_Wsearch c);
     Some (case found of None \<Rightarrow> g | Some start \<Rightarrow> grant_phase c src start (grant_slots c src r start g))
   }"

text \<open>Every round takes the head of one source queue away, so the loop ends.\<close>

definition queued :: "src_queues \<Rightarrow> nat" where
  "queued qs = (\<Sum>p\<leftarrow>qs. length (snd p))"

lemma better_head_cases: "better_head b kv = b \<or> (\<exists>h q. kv = (fst kv, h # q) \<and> better_head b kv = Some (fst kv, h))"
  by (cases kv; cases "snd kv"; cases b) (auto simp: better_head_def)

lemma best_request_in:
  assumes "best_request qs = Some (src, r)"
  shows "\<exists>q. (src, r # q) \<in> set qs"
proof -
  have "foldl better_head b qs = Some (src, r) \<Longrightarrow> b = Some (src, r) \<or> (\<exists>q. (src, r # q) \<in> set qs)" for b
  proof (induction qs arbitrary: b)
    case (Cons kv qs)
    from Cons.IH[of "better_head b kv"] Cons.prems better_head_cases[of b kv] show ?case by auto
  qed simp
  with assms show ?thesis by (fastforce simp: best_request_def)
qed

lemma queued_delete: "(k, x # q) \<in> set qs \<Longrightarrow> queued (AList.delete k qs) < queued qs"
proof (induction qs)
  case (Cons p qs)
  have le: "queued (AList.delete k qs) \<le> queued qs" for qs
    by (induction qs) (auto simp: queued_def)
  from Cons le[of qs] show ?case by (cases p) (fastforce simp: queued_def)
qed simp

lemma queued_update: "queued (AList.update k v qs) + length (queue_of qs k) = queued qs + length v"
  by (induction qs) (auto simp: queued_def queue_of_def)

lemma queued_pop:
  assumes "(src, r # q) \<in> set qs"
  shows "queued (pop_request src qs) < queued qs"
  using queued_delete[OF assms] queued_update[of src "tl (queue_of qs src)" qs]
  by (cases "queue_of qs src") (auto simp: pop_request_def)

function dest_loop :: "aging \<Rightarrow> src_queues \<Rightarrow> granting \<Rightarrow> granting option" where
  "dest_loop c qs g = (case best_request qs of None \<Rightarrow> Some g
     | Some (src, r) \<Rightarrow> (case grant_request c src r g of None \<Rightarrow> None
       | Some g1 \<Rightarrow> dest_loop c (pop_request src qs) g1))"
  by pat_completeness auto
termination
  by (relation "measure (\<lambda>(c, qs, g). queued qs)") (auto dest!: best_request_in queued_pop)

declare dest_loop.simps [simp del]

definition merge_quota :: "nat \<Rightarrow> slot_map \<Rightarrow> leaf_broker \<Rightarrow> leaf_broker" where
  "merge_quota d = foldr (\<lambda>(u, x) lb. set_quota d (SetFree (quota_of lb d) u (u32_add (GetFree (quota_of lb d) u 0) x)) lb)"

definition merge_phase :: "nat \<Rightarrow> (nat \<times> int) list \<Rightarrow> leaf_broker \<Rightarrow> leaf_broker" where
  "merge_phase d = foldr (\<lambda>(u, p) lb. lb\<lparr>grantedPhase := AList.update d
     (AList.update u p (case map_of (grantedPhase lb) d of None \<Rightarrow> [] | Some m \<Rightarrow> m)) (grantedPhase lb)\<rparr>)"

definition merge_grants :: "nat \<Rightarrow> granting \<Rightarrow> nat \<Rightarrow> leaf_broker \<Rightarrow> leaf_broker" where
  "merge_grants d g i lb = merge_phase d (queue_of (gr_newPhase g) i) (merge_quota d (queue_of (gr_newQuota g) i) lb)"

definition epoch_dest :: "(nat \<times> request) list \<Rightarrow> aging \<Rightarrow> nat \<Rightarrow> aging option" where
  "epoch_dest destQueues c d = (let lb = ag_brokers c ! d;
       qs = foldl push_request [] (map snd (filter (\<lambda>(leaf, _). leaf = d) destQueues)) in do {
     g \<leftarrow> dest_loop c qs \<lparr>gr_provisional = dstFree lb, gr_dstFree = dstFree lb, gr_nextPhase = [], gr_newQuota = [], gr_newPhase = []\<rparr>;
     let bs = (ag_brokers c)[d := lb\<lparr>dstFree := gr_dstFree g, nextPhase := gr_nextPhase g\<rparr>];
     Some (c\<lparr>ag_brokers := map (\<lambda>(i, b). merge_grants d g i b) (List.enumerate 0 bs)\<rparr>)
   })"

fun epoch_dests :: "(nat \<times> request) list \<Rightarrow> nat list \<Rightarrow> aging \<Rightarrow> aging option" where
  "epoch_dests destQueues [] c = Some c"
| "epoch_dests destQueues (d # ds) c = do { c1 \<leftarrow> epoch_dest destQueues c d; epoch_dests destQueues ds c1 }"

fun fast_all :: "int \<Rightarrow> nat list \<Rightarrow> aging \<Rightarrow> (placement list \<times> aging) option" where
  "fast_all now [] c = Some ([], c)"
| "fast_all now (i # ks) c = do {
     (ps, c1) \<leftarrow> FastControlPath now i c;
     (qs, c2) \<leftarrow> fast_all now ks c1;
     Some (ps @ qs, c2)
   }"

definition OnEpochTimer :: "int \<Rightarrow> aging \<Rightarrow> (placement list \<times> aging) option" where
  "OnEpochTimer now c0 = (let leaves = [0..<length (ag_brokers c0)] in do {
     (destQueues, c1) \<leftarrow> epoch_sources c0 now leaves ([], c0);
     c2 \<leftarrow> epoch_dests destQueues leaves c1;
     fast_all now leaves c2
   })"

end
