(* ===== verification/Moe_Aging_Ledger.thy ===== *)
theory Moe_Aging_Ledger
  imports Moe_Aging "HOL-Library.Sublist"
begin

text \<open>
  The capacity ledgers of the aging scheduler. A placement takes \<open>b / span\<close> of the source leaf and the
  footprint of every destination leaf in each slot of its window; the lemmas say that the two free-lists and
  the quotas of all leaves account for exactly that, and that every search and every handler returns.
\<close>

subsection \<open>The search\<close>

abbreviation window_scan :: "(nat \<Rightarrow> bool) \<Rightarrow> nat \<Rightarrow> unit \<Rightarrow> nat \<Rightarrow> (nat option \<times> unit) option" where
  "window_scan fits sp \<equiv> \<lambda>l s. Some (find (\<lambda>u. \<not> fits u) (slots s sp), l)"

interpretation aging_search: window_check "window_scan fits sp" "\<lambda>_. fits" "\<lambda>_. True" sp "2 ^ 64 - 1"
  for fits sp
proof unfold_locales
  fix l :: unit and t :: nat
  assume "t + sp < 2 ^ 64 - 1"
  then have s: "slots t sp = [t..<t + sp]" by (simp add: slots_def)
  show "\<exists>f l'. Some (find (\<lambda>u. \<not> fits u) (slots t sp), l) = Some (f, l') \<and> True \<and> (\<forall>i. fits i = fits i) \<and>
      (case f of None \<Rightarrow> window_ok fits sp t | Some i \<Rightarrow> t \<le> i \<and> i < t + sp \<and> \<not> fits i)"
  proof (cases "find (\<lambda>u. \<not> fits u) [t..<t + sp]")
    case None
    then have "\<forall>u \<in> set [t..<t + sp]. fits u" by (auto simp: find_None_iff)
    with None show ?thesis unfolding s window_ok_def by simp
  next
    case (Some f)
    then obtain i where "i < sp" "\<not> fits (t + i)" "f = t + i" by (auto simp: find_Some_iff)
    with Some show ?thesis unfolding s by simp
  qed
qed

text \<open>Away from the end of the 64-bit range the search returns the first window with room.\<close>

lemma find_slot_first_fit:
  assumes "u64_add base wsearch + sp < 2 ^ 64 - 1"
  shows "find_slot fits sp base wsearch = Some (first_fit fits sp base (u64_add base wsearch))"
proof -
  have "min (u64_add base wsearch) (2 ^ 64 - 1 - sp) = u64_add base wsearch" using assms by simp
  with aging_search.jump_search_first_fit[where l = "()" and hi = "u64_add base wsearch" and stop = "\<lambda>_. False"
      and nxt = "\<lambda>f. u64_add f 1" and fits = fits and sp = sp and lo = base] assms
  show ?thesis by (auto simp: find_slot_def)
qed

lemma slots_range: "f \<in> set (slots t sp) \<Longrightarrow> t \<le> f \<and> Suc f < 2 ^ 64"
  using u_ops_less(2)[of t sp] by (auto simp: slots_def simp del: u_ops_less u_ops_less_numeral)

lemma slot_loop_total:
  "\<exists>r. jump_search (window_scan fits sp) (\<lambda>_. False) (\<lambda>failSlot. u64_add failSlot 1) () t hi = Some (r, ()) \<and>
     (\<forall>s. r = Some s \<longrightarrow> t \<le> s \<and> s < hi \<and> (\<forall>u \<in> set (slots s sp). fits u))"
proof (induction "hi - t" arbitrary: t rule: less_induct)
  case less
  show ?case
  proof (cases "t < hi")
    case True
    show ?thesis
    proof (cases "find (\<lambda>u. \<not> fits u) (slots t sp)")
      case None
      then have "\<forall>u \<in> set (slots t sp). fits u" by (auto simp: find_None_iff)
      then show ?thesis using True None by (subst jump_search.simps) simp
    next
      case (Some f)
      then have "f \<in> set (slots t sp)" by (auto simp: find_Some_iff)
      then have f: "t \<le> f" "u64_add f 1 = Suc f" using slots_range by auto
      then have "hi - Suc f < hi - t" using True by linarith
      from less.hyps[OF this] True Some f show ?thesis by (subst jump_search.simps) force
    qed
  qed (subst jump_search.simps; simp)
qed

lemma find_slot_total:
  "\<exists>r. find_slot fits sp base wsearch = Some r \<and> (\<forall>s. r = Some s \<longrightarrow> base \<le> s \<and> s < NO_SLOT \<and> (\<forall>u \<in> set (slots s sp). fits u))"
proof -
  have "u64_add base wsearch \<le> NO_SLOT" using u_ops_less(2)[of base wsearch] unfolding NO_SLOT_def by linarith
  with slot_loop_total[of fits sp base "u64_add base wsearch"] show ?thesis by (fastforce simp: find_slot_def)
qed

subsection \<open>Slot maps and quotas\<close>

lemma GetFree_simps [simp]:
  "GetFree (SetFree m s v) u cap = (if u = s then v else GetFree m u cap)" "GetFree [] u cap = cap"
  by (simp_all add: GetFree_def SetFree_def update_conv')

lemma quota_of_set_quota [simp]: "quota_of (set_quota leaf m lb) d = (if d = leaf then m else quota_of lb d)"
  by (simp add: quota_of_def set_quota_def update_conv')

lemma set_quota_fields [simp]:
  "srcFree (set_quota leaf m lb) = srcFree lb" "dstFree (set_quota leaf m lb) = dstFree lb"
  "localEvents (set_quota leaf m lb) = localEvents lb"
  by (simp_all add: set_quota_def)

lemma quota_of_other [simp]:
  "quota_of (lb\<lparr>srcFree := x\<rparr>) d = quota_of lb d" "quota_of (lb\<lparr>dstFree := x\<rparr>) d = quota_of lb d"
  "quota_of (lb\<lparr>localEvents := es\<rparr>) d = quota_of lb d" "quota_of (lb\<lparr>nextPhase := np\<rparr>) d = quota_of lb d"
  "quota_of (lb\<lparr>grantedPhase := gp\<rparr>) d = quota_of lb d"
  by (simp_all add: quota_of_def)

lemma take_slots_spec:
  assumes "distinct us" "\<forall>u \<in> set us. req \<le> GetFree m u cap"
  shows "GetFree (take_slots cap req m us) u cap + (if u \<in> set us then req else 0) = GetFree m u cap"
  using assms
proof (induction us arbitrary: m)
  case (Cons x us)
  let ?m = "SetFree m x (u32_sub (GetFree m x cap) req)"
  have "GetFree (take_slots cap req ?m us) u cap + (if u \<in> set us then req else 0) = GetFree ?m u cap"
    using Cons.prems by (intro Cons.IH) auto
  with Cons.prems show ?case by (auto simp: take_slots_def)
qed (simp add: take_slots_def)

lemma spend_quota_pair [simp]:
  "spend_quota u lb (d, f) = set_quota d (SetFree (quota_of lb d) u (u32_sub (GetFree (quota_of lb d) u 0) f)) lb"
  by (simp add: spend_quota_def)

text \<open>What an event takes of a destination leaf in every slot of its window.\<close>

definition foot_at :: "local_event \<Rightarrow> nat \<Rightarrow> nat" where
  "foot_at e d = (case map_of (foot e) d of None \<Rightarrow> 0 | Some x \<Rightarrow> x)"

abbreviation quota_at :: "leaf_broker \<Rightarrow> nat \<Rightarrow> nat \<Rightarrow> nat" where
  "quota_at lb d u \<equiv> GetFree (quota_of lb d) u 0"

definition spare_fields :: "leaf_broker \<Rightarrow> (nat \<times> local_event) list \<times> slot_map" where
  "spare_fields lb = (localEvents lb, dstFree lb)"

lemma spend_quotas:
  assumes "distinct (map fst fs)" "\<forall>(d, f) \<in> set fs. f \<le> quota_at lb d u"
  shows "quota_at (foldl (spend_quota u) lb fs) d v + (if v = u then (case map_of fs d of None \<Rightarrow> 0 | Some x \<Rightarrow> x) else 0)
      = quota_at lb d v \<and> srcFree (foldl (spend_quota u) lb fs) = srcFree lb \<and>
      spare_fields (foldl (spend_quota u) lb fs) = spare_fields lb"
  using assms
proof (induction fs arbitrary: lb)
  case (Cons p fs)
  obtain d' f where p: "p = (d', f)" by force
  let ?lb = "spend_quota u lb p"
  have "\<forall>(d, f) \<in> set fs. f \<le> quota_at ?lb d u"
  proof clarify
    fix d g assume "(d, g) \<in> set fs"
    then have "d \<noteq> d'" "g \<le> quota_at lb d u" using Cons.prems p by force+
    then show "g \<le> quota_at ?lb d u" by (simp add: p)
  qed
  then have ih: "quota_at (foldl (spend_quota u) ?lb fs) d v + (if v = u then (case map_of fs d of None \<Rightarrow> 0 | Some x \<Rightarrow> x) else 0)
      = quota_at ?lb d v \<and> srcFree (foldl (spend_quota u) ?lb fs) = srcFree ?lb \<and>
      spare_fields (foldl (spend_quota u) ?lb fs) = spare_fields ?lb"
    using Cons.prems by (intro Cons.IH) auto
  have "map_of fs d' = None" using Cons.prems p by (simp add: map_of_eq_None_iff)
  with ih Cons.prems p show ?case
    by (cases "d = d'") (auto simp: spare_fields_def)
qed simp

lemma spend_slots:
  assumes "distinct us" "distinct (map fst (foot e))" "\<forall>u \<in> set us. fast_fits cap lb e u"
  defines "lb' \<equiv> foldl (spend_slot cap e) lb us"
  shows "GetFree (srcFree lb') v cap + (if v \<in> set us then le_b e div le_span e else 0) = GetFree (srcFree lb) v cap \<and>
    quota_at lb' d v + (if v \<in> set us then foot_at e d else 0) = quota_at lb d v \<and> spare_fields lb' = spare_fields lb"
  using assms(1,3) unfolding lb'_def
proof (induction us arbitrary: lb)
  case (Cons u us)
  let ?s = "SetFree (srcFree lb) u (u32_sub (GetFree (srcFree lb) u cap) (le_b e div le_span e))"
  let ?lb = "spend_slot cap e lb u"
  have fit: "fast_fits cap lb e u" using Cons.prems by simp
  then have q: "\<forall>(d, f) \<in> set (foot e). f \<le> quota_at (lb\<lparr>srcFree := ?s\<rparr>) d u" by (auto simp: fast_fits_def)
  have sp: "quota_at ?lb d v + (if v = u then foot_at e d else 0) = quota_at lb d v" "srcFree ?lb = ?s"
      "spare_fields ?lb = spare_fields lb" for d v
    using spend_quotas[OF assms(2) q, where d = d and v = v] by (cases "v = u"; simp add: spend_slot_def foot_at_def spare_fields_def)+
  have "quota_at ?lb d w = quota_at lb d w" if "w \<noteq> u" for d w using sp(1)[of d w] that by simp
  then have "\<forall>w \<in> set us. fast_fits cap ?lb e w"
    using Cons.prems sp(2) by (auto simp: fast_fits_def src_fits_def)
  with Cons.prems have ih: "GetFree (srcFree (foldl (spend_slot cap e) ?lb us)) v cap + (if v \<in> set us then le_b e div le_span e else 0) = GetFree (srcFree ?lb) v cap \<and>
    quota_at (foldl (spend_slot cap e) ?lb us) d v + (if v \<in> set us then foot_at e d else 0) = quota_at ?lb d v \<and>
    spare_fields (foldl (spend_slot cap e) ?lb us) = spare_fields ?lb" by (intro Cons.IH) auto
  moreover have "le_b e div le_span e \<le> GetFree (srcFree lb) u cap" using fit by (simp add: fast_fits_def src_fits_def)
  ultimately show ?case using sp(1)[of d v] sp(2,3) Cons.prems(1) by (cases "v = u") auto
qed simp

subsection \<open>Placements\<close>

definition slot_load :: "(nat \<times> local_event) list \<Rightarrow> nat \<Rightarrow> nat" where
  "slot_load P u = (\<Sum>(s, e)\<leftarrow>P. if u \<in> set (slots s (le_span e)) then le_b e div le_span e else 0)"

definition foot_load :: "(nat \<times> local_event) list \<Rightarrow> nat \<Rightarrow> nat \<Rightarrow> nat" where
  "foot_load P d u = (\<Sum>(s, e)\<leftarrow>P. if u \<in> set (slots s (le_span e)) then foot_at e d else 0)"

lemma load_simps [simp]:
  "slot_load [] u = 0" "foot_load [] d u = 0"
  "slot_load ((s, e) # P) u = (if u \<in> set (slots s (le_span e)) then le_b e div le_span e else 0) + slot_load P u"
  "foot_load ((s, e) # P) d u = (if u \<in> set (slots s (le_span e)) then foot_at e d else 0) + foot_load P d u"
  "slot_load (P @ Q) u = slot_load P u + slot_load Q u" "foot_load (P @ Q) d u = foot_load P d u + foot_load Q d u"
  by (simp_all add: slot_load_def foot_load_def)

definition spent :: "nat \<Rightarrow> leaf_broker \<Rightarrow> (nat \<times> local_event) list \<Rightarrow> leaf_broker \<Rightarrow> bool" where
  "spent cap lb P lb' \<longleftrightarrow> (\<forall>u. GetFree (srcFree lb') u cap + slot_load P u = GetFree (srcFree lb) u cap) \<and>
     (\<forall>d u. quota_at lb' d u + foot_load P d u = quota_at lb d u)"

lemma spent_trans: "spent cap lb P lb1 \<Longrightarrow> spent cap lb1 Q lb2 \<Longrightarrow> spent cap lb (P @ Q) lb2"
  by (simp add: spent_def) (metis add.assoc add.commute)

lemma place_event_spec:
  assumes "distinct (map fst (foot e))"
  shows "\<exists>found lb'. place_event c cur e lb = Some (found, lb') \<and> spare_fields lb' = spare_fields lb \<and>
    (case found of None \<Rightarrow> lb' = lb
     | Some s \<Rightarrow> search_base cur e \<le> s \<and> s < NO_SLOT \<and> spent (ag_capacityPerSlot c) lb [(s, e)] lb')"
proof -
  obtain r where r: "find_slot (fast_fits (ag_capacityPerSlot c) lb e) (le_span e) (search_base cur e) (ag_Wsearch c) = Some r"
    "\<forall>s. r = Some s \<longrightarrow> search_base cur e \<le> s \<and> s < NO_SLOT \<and> (\<forall>u \<in> set (slots s (le_span e)). fast_fits (ag_capacityPerSlot c) lb e u)"
    using find_slot_total by blast
  show ?thesis
  proof (cases r)
    case None
    with r(1) show ?thesis by (simp add: place_event_def)
  next
    case (Some s)
    have "distinct (slots s (le_span e))" by (simp add: slots_def)
    from spend_slots[OF this assms, of "ag_capacityPerSlot c" lb] r Some show ?thesis
      by (simp add: place_event_def spent_def)
  qed
qed

lemma place_events_spec:
  assumes "\<forall>e \<in> set es. distinct (map fst (foot e))"
  shows "\<exists>P lb'. place_events c cur es lb = Some (P, lb') \<and> spare_fields lb' = spare_fields lb \<and>
    spent (ag_capacityPerSlot c) lb P lb' \<and> subseq (map snd P) es \<and>
    (\<forall>(s, e) \<in> set P. e \<in> set es \<and> search_base cur e \<le> s \<and> s < NO_SLOT)"
  using assms
proof (induction es arbitrary: lb)
  case (Cons e es)
  from Cons.prems place_event_spec[of e c cur lb] obtain found lb1 where
    1: "place_event c cur e lb = Some (found, lb1)" "spare_fields lb1 = spare_fields lb"
      "case found of None \<Rightarrow> lb1 = lb
       | Some s \<Rightarrow> search_base cur e \<le> s \<and> s < NO_SLOT \<and> spent (ag_capacityPerSlot c) lb [(s, e)] lb1" by auto
  from Cons.IH[of lb1] Cons.prems obtain P lb2 where
    2: "place_events c cur es lb1 = Some (P, lb2)" "spare_fields lb2 = spare_fields lb1"
      "spent (ag_capacityPerSlot c) lb1 P lb2" "subseq (map snd P) es"
      "\<forall>(s, e) \<in> set P. e \<in> set es \<and> search_base cur e \<le> s \<and> s < NO_SLOT" by auto
  show ?case
  proof (cases found)
    case None
    with 1 2 None show ?thesis by auto
  next
    case (Some s)
    with 1 2 Some spent_trans[of _ lb "[(s, e)]" lb1 P lb2] show ?thesis by auto
  qed
qed (simp add: spent_def)

subsection \<open>The waiting and the committed events of a leaf\<close>

definition broker_ok :: "leaf_broker \<Rightarrow> bool" where
  "broker_ok lb \<longleftrightarrow> smap_ok (localEvents lb) \<and>
     (\<forall>k e. map_of (localEvents lb) k = Some e \<longrightarrow> eventId e = k \<and> distinct (map fst (foot e)))"

definition same_task :: "local_event \<Rightarrow> local_event \<Rightarrow> bool" where
  "same_task e e' \<longleftrightarrow> eventId e = eventId e' \<and> le_b e = le_b e' \<and> le_span e = le_span e' \<and> foot e = foot e'"

definition slot_start :: "aging \<Rightarrow> nat \<Rightarrow> int" where
  "slot_start c s = to_i64 (s * nat (ag_slot c))"

text \<open>Exactly the committed events of a leaf have been placed, each once, and are released inside their slots.\<close>

definition placed_ok :: "aging \<Rightarrow> leaf_broker \<Rightarrow> (nat \<times> local_event) list \<Rightarrow> bool" where
  "placed_ok c lb L \<longleftrightarrow> distinct (map (eventId \<circ> snd) L) \<and>
     (\<forall>(s, e') \<in> set L. \<exists>e. map_of (localEvents lb) (eventId e') = Some e \<and> committed e \<and> same_task e e' \<and>
        slot_start c s + 50000 \<le> releaseTime e) \<and>
     (\<forall>k e. map_of (localEvents lb) k = Some e \<longrightarrow> committed e \<longrightarrow> k \<in> (eventId \<circ> snd) ` set L)"

lemma put_event_fields [simp]:
  "srcFree (put_event e lb) = srcFree lb" "dstFree (put_event e lb) = dstFree lb"
  "quota_of (put_event e lb) d = quota_of lb d" "grantedPhase (put_event e lb) = grantedPhase lb"
  by (simp_all add: put_event_def)

lemma map_events_fields [simp]:
  "srcFree (map_events f lb) = srcFree lb" "dstFree (map_events f lb) = dstFree lb"
  "quota_of (map_events f lb) d = quota_of lb d"
  by (simp_all add: map_events_def)

lemma map_of_put_event:
  "broker_ok lb \<Longrightarrow> map_of (localEvents (put_event e lb)) = (map_of (localEvents lb))(eventId e \<mapsto> e)"
  by (simp add: put_event_def broker_ok_def map_of_smap_set)

lemma map_of_map_events: "map_of (localEvents (map_events f lb)) k = map_option f (map_of (localEvents lb) k)"
  by (simp add: map_events_def map_of_map)

lemma broker_ok_put: "broker_ok lb \<Longrightarrow> distinct (map fst (foot e)) \<Longrightarrow> broker_ok (put_event e lb)"
  by (auto simp: broker_ok_def map_of_put_event[unfolded broker_ok_def] smap_ok_set put_event_def map_of_smap_set split: if_splits)

lemma broker_ok_map:
  assumes "broker_ok lb" "\<And>e. eventId (f e) = eventId e \<and> foot (f e) = foot e"
  shows "broker_ok (map_events f lb)"
proof -
  have "map fst (map (\<lambda>(i, e). (i, f e)) m) = map fst m" for m :: "(nat \<times> local_event) list" by (induction m) auto
  then have "smap_ok (localEvents (map_events f lb))" using assms(1)
    by (simp add: broker_ok_def map_events_def sorted_wrt_map case_prod_beta)
  with assms show ?thesis by (auto simp: broker_ok_def map_of_map_events)
qed

lemma placed_ok_put:
  assumes "broker_ok lb" "placed_ok c lb L" "\<not> committed e"
    and "\<And>e0. map_of (localEvents lb) (eventId e) = Some e0 \<Longrightarrow> \<not> committed e0"
  shows "placed_ok c (put_event e lb) L"
  using assms by (fastforce simp: placed_ok_def map_of_put_event)

lemma placed_ok_map:
  assumes "placed_ok c lb L"
    and "\<And>e. same_task (f e) e \<and> committed (f e) = committed e \<and> releaseTime (f e) = releaseTime e"
  shows "placed_ok c (map_events f lb) L"
proof -
  have tr: "same_task (f e) e'" if "same_task e e'" for e e' using assms(2)[of e] that by (simp add: same_task_def)
  from assms show ?thesis by (fastforce simp: placed_ok_def map_of_map_events intro: tr)
qed

lemma fast_prio_simps [simp]:
  "same_task (fast_prio c now e) e" "committed (fast_prio c now e) = committed e"
  "releaseTime (fast_prio c now e) = releaseTime e" "eventId (fast_prio c now e) = eventId e" "foot (fast_prio c now e) = foot e"
  by (simp_all add: fast_prio_def same_task_def)

lemma epoch_age_simps [simp]:
  "same_task (epoch_age c now e) e" "committed (epoch_age c now e) = committed e"
  "releaseTime (epoch_age c now e) = releaseTime e" "eventId (epoch_age c now e) = eventId e" "foot (epoch_age c now e) = foot e"
  by (simp_all add: epoch_age_def same_task_def Let_def)

subsection \<open>Committing\<close>

definition committed_as :: "aging \<Rightarrow> leaf_broker \<Rightarrow> nat \<Rightarrow> local_event \<Rightarrow> bool" where
  "committed_as c lb s e \<longleftrightarrow> (\<exists>r. slot_start c s + 50000 \<le> r \<and>
     map_of (localEvents lb) (eventId e) = Some (e\<lparr>releaseTime := r, committed := True\<rparr>))"

lemma commit_event_put:
  assumes "0 \<le> ag_localGap c"
  shows "\<exists>r. slot_start c s + 50000 \<le> r \<and> commit_event c s lb (k, e) = put_event (e\<lparr>releaseTime := r, committed := True\<rparr>) lb"
proof -
  have "0 \<le> int k * ag_localGap c" using assms by simp
  then have "slot_start c s + 50000 \<le> release_time c s k lb e" by (simp add: release_time_def slot_start_def Let_def)
  then show ?thesis by (auto simp: commit_event_def)
qed

definition unique_ids :: "(nat \<times> nat \<times> local_event) list \<Rightarrow> bool" where
  "unique_ids X \<longleftrightarrow> (\<forall>s k e s' k' e'. (s, k, e) \<in> set X \<longrightarrow> (s', k', e') \<in> set X \<longrightarrow> eventId e = eventId e' \<longrightarrow> s = s' \<and> e = e')"

lemma commit_fold:
  assumes "0 \<le> ag_localGap c" "broker_ok lb"
    and "\<forall>(s, k, e) \<in> set X. distinct (map fst (foot e))"
    and "unique_ids X"
  defines "lb' \<equiv> foldl (\<lambda>lb (s, p). commit_event c s lb p) lb X"
  shows "broker_ok lb' \<and> srcFree lb' = srcFree lb \<and> dstFree lb' = dstFree lb \<and> (\<forall>d. quota_of lb' d = quota_of lb d) \<and>
    (\<forall>x. x \<notin> (\<lambda>(s, k, e). eventId e) ` set X \<longrightarrow> map_of (localEvents lb') x = map_of (localEvents lb) x) \<and>
    (\<forall>(s, k, e) \<in> set X. committed_as c lb' s e)"
  using assms(3,4) unfolding lb'_def
proof (induction X rule: rev_induct)
  case (snoc x X)
  obtain s k e where x: "x = (s, k, e)" by (cases x) auto
  let ?lb = "foldl (\<lambda>lb (s, p). commit_event c s lb p) lb X"
  have ih: "broker_ok ?lb" "srcFree ?lb = srcFree lb" "dstFree ?lb = dstFree lb" "\<forall>d. quota_of ?lb d = quota_of lb d"
    "\<forall>x. x \<notin> (\<lambda>(s, k, e). eventId e) ` set X \<longrightarrow> map_of (localEvents ?lb) x = map_of (localEvents lb) x"
    "\<forall>(s, k, e) \<in> set X. committed_as c ?lb s e"
  proof -
    have 1: "\<forall>(s, k, e) \<in> set X. distinct (map fst (foot e))" using snoc.prems(1) by simp
    have 2: "unique_ids X"
      using snoc.prems(2) unfolding unique_ids_def by simp
    show "broker_ok ?lb" "srcFree ?lb = srcFree lb" "dstFree ?lb = dstFree lb" "\<forall>d. quota_of ?lb d = quota_of lb d"
      "\<forall>x. x \<notin> (\<lambda>(s, k, e). eventId e) ` set X \<longrightarrow> map_of (localEvents ?lb) x = map_of (localEvents lb) x"
      "\<forall>(s, k, e) \<in> set X. committed_as c ?lb s e"
      using snoc.IH[OF 1 2] by - ((elim conjE, assumption)+)
  qed
  obtain r where r: "slot_start c s + 50000 \<le> r" "commit_event c s ?lb (k, e) = put_event (e\<lparr>releaseTime := r, committed := True\<rparr>) ?lb"
    using commit_event_put[OF assms(1)] by blast
  have m: "map_of (localEvents (commit_event c s ?lb (k, e))) = (map_of (localEvents ?lb))(eventId e \<mapsto> e\<lparr>releaseTime := r, committed := True\<rparr>)"
    using ih(1) by (simp add: r(2) map_of_put_event)
  have "committed_as c (commit_event c s ?lb (k, e)) s' e'" if "(s', k', e') \<in> set (X @ [x])" for s' k' e'
  proof (cases "eventId e' = eventId e")
    case True
    moreover have "(s, k, e) \<in> set (X @ [x])" using x by simp
    ultimately have "s' = s" "e' = e" using snoc.prems(2) that unfolding unique_ids_def by blast+
    then show ?thesis using r(1) by (auto simp: committed_as_def m)
  next
    case False
    with that x have "committed_as c ?lb s' e'" using ih(6) by auto
    then show ?thesis using False by (auto simp: committed_as_def m)
  qed
  moreover have "broker_ok (commit_event c s ?lb (k, e))" using snoc.prems(1) x ih(1) by (simp add: r(2) broker_ok_put)
  ultimately show ?case using ih(2-5) m by (auto simp: x r(2))
qed (use assms(2) in auto)

lemma commit_buckets_fold:
  "commit_buckets c P lb = foldl (\<lambda>lb (s, p). commit_event c s lb p) lb
     (concat (map (\<lambda>s. map (Pair s) (List.enumerate 0 (sort_by event_less (map snd (filter (\<lambda>(s', _). s' = s) P))))) (remdups (map fst P))))"
proof -
  have "foldl (commit_bucket c P) lb ss = foldl (\<lambda>lb (s, p). commit_event c s lb p) lb
     (concat (map (\<lambda>s. map (Pair s) (List.enumerate 0 (sort_by event_less (map snd (filter (\<lambda>(s', _). s' = s) P))))) ss))" for ss lb
    by (induction ss arbitrary: lb) (simp_all add: commit_bucket_def foldl_map)
  then show ?thesis by (simp add: commit_buckets_def)
qed

lemma image_drop_middle: "(\<And>s e. (\<exists>k. (s, k, e) \<in> A) \<longleftrightarrow> (s, e) \<in> B) \<Longrightarrow> (\<lambda>(s, k, e). f e) ` A = (f \<circ> snd) ` B"
  by force

lemma in_concat_enumerate:
  fixes e :: 'a
  shows "(\<exists>k. (s, k, e) \<in> set (concat (map (\<lambda>s. map (Pair s) (List.enumerate 0 (f s))) ss))) \<longleftrightarrow> s \<in> set ss \<and> e \<in> set (f s)"
proof -
  have s: "snd ` set (List.enumerate 0 xs) = set xs" for xs :: "'a list" by (metis list.set_map map_snd_enumerate)
  have "(\<exists>k. (k, e) \<in> set (List.enumerate 0 xs)) \<longleftrightarrow> e \<in> set xs" for xs
    unfolding s[of xs, symmetric] by force
  then show ?thesis by fastforce
qed

lemma commit_buckets_spec:
  assumes "0 \<le> ag_localGap c" "broker_ok lb" "\<forall>(s, e) \<in> set P. distinct (map fst (foot e))" "distinct (map (eventId \<circ> snd) P)"
  defines "lb' \<equiv> commit_buckets c P lb"
  shows "broker_ok lb' \<and> srcFree lb' = srcFree lb \<and> dstFree lb' = dstFree lb \<and> (\<forall>d. quota_of lb' d = quota_of lb d) \<and>
    (\<forall>x. x \<notin> (eventId \<circ> snd) ` set P \<longrightarrow> map_of (localEvents lb') x = map_of (localEvents lb) x) \<and>
    (\<forall>(s, e) \<in> set P. committed_as c lb' s e)"
proof -
  let ?X = "concat (map (\<lambda>s. map (Pair s) (List.enumerate 0 (sort_by event_less (map snd (filter (\<lambda>(s', _). s' = s) P))))) (remdups (map fst P)))"
  have X: "(\<exists>k. (s, k, e) \<in> set ?X) \<longleftrightarrow> (s, e) \<in> set P" for s e
    unfolding in_concat_enumerate by force
  have inj: "inj_on (eventId \<circ> snd) (set P)" using assms(4) by (simp add: distinct_map)
  have 1: "\<forall>(s, k, e) \<in> set ?X. distinct (map fst (foot e))" using assms(3) X by fastforce
  have 2: "unique_ids ?X"
    unfolding unique_ids_def
  proof (intro allI impI)
    fix s k e s' k' e' assume "(s, k, e) \<in> set ?X" "(s', k', e') \<in> set ?X" and eq: "eventId e = eventId e'"
    then have "(s, e) \<in> set P" "(s', e') \<in> set P" using X by blast+
    with inj_onD[OF inj, of "(s, e)" "(s', e')"] eq show "s = s' \<and> e = e'" by simp
  qed
  have ids: "(\<lambda>(s, k, e). eventId e) ` set ?X = (eventId \<circ> snd) ` set P"
    using X by (rule image_drop_middle)
  note main = commit_fold[OF assms(1,2) 1 2, folded commit_buckets_fold, unfolded ids, folded lb'_def]
  have "committed_as c lb' s e" if "(s, e) \<in> set P" for s e
  proof -
    from that obtain k where "(s, k, e) \<in> set ?X" using X by blast
    with main show ?thesis by fastforce
  qed
  with main show ?thesis by (elim conjE, intro conjI) auto
qed

lemma events_by_key:
  assumes "broker_ok lb" "e \<in> set (map snd (localEvents lb))"
  shows "map_of (localEvents lb) (eventId e) = Some e" "distinct (map fst (foot e))"
proof -
  from assms obtain k where "(k, e) \<in> set (localEvents lb)" by auto
  moreover have "distinct (map fst (localEvents lb))" using assms(1) by (simp add: broker_ok_def smap_ok_distinct)
  ultimately have "map_of (localEvents lb) k = Some e" by simp
  with assms(1) show "map_of (localEvents lb) (eventId e) = Some e" "distinct (map fst (foot e))"
    by (auto simp: broker_ok_def)
qed

lemma distinct_event_ids: "broker_ok lb \<Longrightarrow> distinct (map eventId (map snd (localEvents lb)))"
proof -
  assume ok: "broker_ok lb"
  then have d: "distinct (map fst (localEvents lb))" by (simp add: broker_ok_def smap_ok_distinct)
  have "map fst (localEvents lb) = map eventId (map snd (localEvents lb))"
    unfolding map_map
  proof (rule map_cong[OF refl])
    fix p assume "p \<in> set (localEvents lb)"
    then have "map_of (localEvents lb) (fst p) = Some (snd p)" using d by simp
    with ok show "fst p = (eventId \<circ> snd) p" by (simp add: broker_ok_def)
  qed
  with d show ?thesis by simp
qed

lemma distinct_sorted_ids:
  assumes "broker_ok lb"
  shows "distinct (map eventId (sort_by lt (filter Q (map snd (localEvents lb)))))"
proof -
  have "distinct (map eventId (filter Q (map snd (localEvents lb))))"
    using distinct_event_ids[OF assms] by (metis distinct_map_filter)
  then have "distinct (map eventId (sort_by lt (filter Q (map snd (localEvents lb)))))"
    by (simp add: distinct_map)
  then show ?thesis .
qed

lemma fast_place_spec:
  assumes "broker_ok lb0"
  shows "\<exists>P lb1. fast_place c now lb0 = Some (P, lb1) \<and> localEvents lb1 = localEvents (map_events (fast_prio c now) lb0) \<and>
    dstFree lb1 = dstFree lb0 \<and> spent (ag_capacityPerSlot c) lb0 P lb1 \<and> distinct (map (eventId \<circ> snd) P) \<and>
    (\<forall>(s, e) \<in> set P. map_of (localEvents lb1) (eventId e) = Some e \<and> \<not> committed e \<and> distinct (map fst (foot e)))"
proof -
  let ?lb = "map_events (fast_prio c now) lb0" and ?cur = "nat (now div ag_slot c)"
  let ?es = "sort_by event_less (filter (is_eligible c now) (map snd (localEvents ?lb)))"
  have ok: "broker_ok ?lb" using assms by (rule broker_ok_map) simp
  have es: "\<forall>e \<in> set ?es. map_of (localEvents ?lb) (eventId e) = Some e \<and> \<not> committed e \<and> distinct (map fst (foot e))"
    using events_by_key[OF ok] by (auto simp: is_eligible_def)
  then obtain P lb1 where P: "place_events c ?cur ?es ?lb = Some (P, lb1)" "spare_fields lb1 = spare_fields ?lb"
    "spent (ag_capacityPerSlot c) ?lb P lb1" "subseq (map snd P) ?es" "\<forall>(s, e) \<in> set P. e \<in> set ?es"
    using place_events_spec[of ?es c ?cur ?lb] by fastforce
  have "subseq (map eventId (map snd P)) (map eventId ?es)" using P(4) by (rule subseq_map)
  then have d: "distinct (map (eventId \<circ> snd) P)" using distinct_sorted_ids[OF ok] by (metis map_map subseq_conv_nths distinct_nthsI)
  have "localEvents lb1 = localEvents ?lb" "dstFree lb1 = dstFree lb0" using P(2) by (simp_all add: spare_fields_def)
  moreover have "spent (ag_capacityPerSlot c) lb0 P lb1" using P(3) by (simp add: spent_def)
  moreover have "\<forall>(s, e) \<in> set P. map_of (localEvents lb1) (eventId e) = Some e \<and> \<not> committed e \<and> distinct (map fst (foot e))"
    using P(5) es \<open>localEvents lb1 = localEvents ?lb\<close> by fastforce
  ultimately show ?thesis using P(1) d by (simp add: fast_place_def Let_def)
qed

lemma fast_leaf_spec:
  assumes "0 \<le> ag_localGap c" "broker_ok lb0" "placed_ok c lb0 L"
  shows "\<exists>P lb1. fast_place c now lb0 = Some (P, lb1) \<and> broker_ok (commit_buckets c P lb1) \<and>
    placed_ok c (commit_buckets c P lb1) (L @ P) \<and> spent (ag_capacityPerSlot c) lb0 P (commit_buckets c P lb1) \<and>
    dstFree (commit_buckets c P lb1) = dstFree lb0"
proof -
  let ?lb = "map_events (fast_prio c now) lb0"
  from fast_place_spec[OF assms(2)] obtain P lb1 where P: "fast_place c now lb0 = Some (P, lb1)"
    "localEvents lb1 = localEvents ?lb" "dstFree lb1 = dstFree lb0" "spent (ag_capacityPerSlot c) lb0 P lb1"
    "distinct (map (eventId \<circ> snd) P)"
    "\<forall>(s, e) \<in> set P. map_of (localEvents lb1) (eventId e) = Some e \<and> \<not> committed e \<and> distinct (map fst (foot e))" by blast
  have ok: "broker_ok lb1" using broker_ok_map[OF assms(2), of "fast_prio c now"] P(2) by (simp add: broker_ok_def)
  have pl: "placed_ok c lb1 L" using placed_ok_map[OF assms(3), of "fast_prio c now"] P(2) by (simp add: placed_ok_def)
  have ft: "\<forall>(s, e) \<in> set P. distinct (map fst (foot e))" using P(6) by auto
  define lb2 where "lb2 = commit_buckets c P lb1"
  note cb = commit_buckets_spec[OF assms(1) ok ft P(5), folded lb2_def]
  have old: "map_of (localEvents lb2) x = map_of (localEvents lb1) x" if "x \<notin> (eventId \<circ> snd) ` set P" for x
    using cb that by blast
  have new: "committed_as c lb2 s e" if "(s, e) \<in> set P" for s e using cb that by fast
  have disj: "(eventId \<circ> snd) ` set L \<inter> (eventId \<circ> snd) ` set P = {}"
    using pl P(6) by (fastforce simp: placed_ok_def)
  have "placed_ok c lb2 (L @ P)"
    unfolding placed_ok_def
  proof (intro conjI allI impI)
    show "distinct (map (eventId \<circ> snd) (L @ P))" using pl P(5) disj by (simp add: placed_ok_def)
    show "\<forall>(s, e') \<in> set (L @ P). \<exists>e. map_of (localEvents lb2) (eventId e') = Some e \<and> committed e \<and> same_task e e' \<and>
        slot_start c s + 50000 \<le> releaseTime e"
    proof clarify
      fix s e' assume "(s, e') \<in> set (L @ P)"
      then consider "(s, e') \<in> set L" | "(s, e') \<in> set P" by auto
      then show "\<exists>e. map_of (localEvents lb2) (eventId e') = Some e \<and> committed e \<and> same_task e e' \<and> slot_start c s + 50000 \<le> releaseTime e"
      proof cases
        case 1
        then have "eventId e' \<notin> (eventId \<circ> snd) ` set P" using disj by force
        with 1 pl show ?thesis by (fastforce simp: old placed_ok_def)
      next
        case 2
        from new[OF this] show ?thesis by (auto simp: committed_as_def same_task_def)
      qed
    qed
    fix k e assume k: "map_of (localEvents lb2) k = Some e" "committed e"
    show "k \<in> (eventId \<circ> snd) ` set (L @ P)"
    proof (cases "k \<in> (eventId \<circ> snd) ` set P")
      case False
      with k old have "map_of (localEvents lb1) k = Some e" by simp
      with k(2) pl have "k \<in> (eventId \<circ> snd) ` set L" unfolding placed_ok_def by blast
      then show ?thesis by auto
    qed auto
  qed
  moreover have "spent (ag_capacityPerSlot c) lb0 P lb2" using P(4) cb by (simp add: spent_def)
  moreover have "broker_ok lb2" "dstFree lb2 = dstFree lb0" using cb P(3) by simp_all
  ultimately show ?thesis using P(1) by (auto simp: lb2_def)
qed

end
