(* ===== verification/Moe_Aging_Runs.thy ===== *)
theory Moe_Aging_Runs
  imports Moe_Aging_Ledger "HOL-Library.Code_Target_Numeral"
begin

text \<open>
  The invariant of the whole aging scheduler: in every slot of every leaf the free capacity, the quotas handed
  out and the placed events add up to the capacity of a slot. Every call the applications and the timer make
  returns and keeps it.
\<close>

definition leaf_log :: "placement list \<Rightarrow> nat \<Rightarrow> (nat \<times> local_event) list" where
  "leaf_log L i = map snd (filter (\<lambda>p. fst p = i) L)"

definition quota_sum :: "aging \<Rightarrow> nat \<Rightarrow> nat \<Rightarrow> nat" where
  "quota_sum c d u = (\<Sum>i<length (ag_brokers c). quota_at (ag_brokers c ! i) d u)"

definition leaf_inv :: "aging \<Rightarrow> placement list \<Rightarrow> nat \<Rightarrow> bool" where
  "leaf_inv c L i \<longleftrightarrow> (let lb = ag_brokers c ! i; cap = ag_capacityPerSlot c in
     broker_ok lb \<and> placed_ok c lb (leaf_log L i) \<and>
     (\<forall>u. GetFree (srcFree lb) u cap + slot_load (leaf_log L i) u = cap) \<and>
     (\<forall>u. GetFree (dstFree lb) u cap + quota_sum c i u + foot_load (map snd L) i u = cap))"

definition aging_inv :: "aging \<Rightarrow> placement list \<Rightarrow> bool" where
  "aging_inv c L \<longleftrightarrow> ag_capacityPerSlot c < 2 ^ 32 \<and> 0 \<le> ag_localGap c \<and> (\<forall>i < length (ag_brokers c). leaf_inv c L i)"

text \<open>Only the brokers and the timer flag change.\<close>

definition same_setup :: "aging \<Rightarrow> aging \<Rightarrow> bool" where
  "same_setup c c' \<longleftrightarrow> length (ag_brokers c') = length (ag_brokers c) \<and>
     c'\<lparr>ag_brokers := [], ag_timerStarted := True\<rparr> = c\<lparr>ag_brokers := [], ag_timerStarted := True\<rparr>"

lemma same_setup_simps:
  "same_setup c c' \<Longrightarrow> length (ag_brokers c') = length (ag_brokers c) \<and> ag_k c' = ag_k c \<and> ag_capacityPerSlot c' = ag_capacityPerSlot c
     \<and> ag_localGap c' = ag_localGap c \<and> ag_slot c' = ag_slot c \<and> ag_Wsearch c' = ag_Wsearch c"
  by (cases c; cases c') (simp add: same_setup_def)

lemma same_setup_trans: "same_setup a b \<Longrightarrow> same_setup b c \<Longrightarrow> same_setup a c"
  by (simp add: same_setup_def)

lemma placed_ok_cong [simp]:
  "placed_ok (c\<lparr>ag_brokers := bs\<rparr>) = placed_ok c" "placed_ok (c\<lparr>ag_timerStarted := b\<rparr>) = placed_ok c"
  by (intro ext; simp add: placed_ok_def slot_start_def)+

lemma leaf_log_simps [simp]:
  "leaf_log [] i = []" "leaf_log (L @ map (Pair j) P) i = leaf_log L i @ (if i = j then P else [])"
  by (simp_all add: leaf_log_def filter_map o_def)

lemma sum_change:
  fixes f g :: "nat \<Rightarrow> nat"
  assumes "i < n" "\<And>j. j \<noteq> i \<Longrightarrow> g j = f j" "g i + x = f i"
  shows "(\<Sum>j<n. g j) + x = (\<Sum>j<n. f j)"
proof -
  have "(\<Sum>j<n. g j) = g i + (\<Sum>j\<in>{..<n} - {i}. g j)" "(\<Sum>j<n. f j) = f i + (\<Sum>j\<in>{..<n} - {i}. f j)"
    using assms(1) by (simp_all add: sum.remove)
  moreover have "(\<Sum>j\<in>{..<n} - {i}. g j) = (\<Sum>j\<in>{..<n} - {i}. f j)" using assms(2) by (intro sum.cong) auto
  ultimately show ?thesis using assms(3) by simp
qed

text \<open>A leaf changes, having spent what it placed.\<close>

lemma aging_inv_update:
  assumes "aging_inv c L" "i < length (ag_brokers c)" "broker_ok lb" "placed_ok c lb (leaf_log L i @ P)"
    and "spent (ag_capacityPerSlot c) (ag_brokers c ! i) P lb" "dstFree lb = dstFree (ag_brokers c ! i)"
  shows "aging_inv (c\<lparr>ag_brokers := (ag_brokers c)[i := lb]\<rparr>) (L @ map (Pair i) P)"
proof -
  let ?c = "c\<lparr>ag_brokers := (ag_brokers c)[i := lb]\<rparr>" and ?n = "length (ag_brokers c)"
  have q: "quota_sum ?c d u + foot_load P d u = quota_sum c d u" for d u
    using sum_change[of i ?n "\<lambda>j. quota_at (ag_brokers ?c ! j) d u" "\<lambda>j. quota_at (ag_brokers c ! j) d u" "foot_load P d u"]
      assms(2,5) by (simp add: quota_sum_def spent_def)
  have "leaf_inv ?c (L @ map (Pair i) P) j" if j: "j < ?n" for j
  proof -
    have l: "leaf_inv c L j" using assms(1) j by (simp add: aging_inv_def)
    have f: "GetFree (dstFree (ag_brokers ?c ! j)) u cap = GetFree (dstFree (ag_brokers c ! j)) u cap" for u cap
      using assms(2,6) j by (cases "j = i") simp_all
    have s: "snd \<circ> Pair i = (\<lambda>x. x)" by auto
    have fl: "foot_load (map snd (L @ map (Pair i) P)) j u = foot_load (map snd L) j u + foot_load P j u" for u
      by (simp add: s)
    have d: "GetFree (dstFree (ag_brokers ?c ! j)) u (ag_capacityPerSlot c) + quota_sum ?c j u + foot_load (map snd (L @ map (Pair i) P)) j u
        = ag_capacityPerSlot c" for u
    proof -
      have "GetFree (dstFree (ag_brokers c ! j)) u (ag_capacityPerSlot c) + quota_sum c j u + foot_load (map snd L) j u = ag_capacityPerSlot c"
        using l by (simp add: leaf_inv_def Let_def)
      then show ?thesis using q[of j u] unfolding f fl by linarith
    qed
    show ?thesis
    proof (cases "j = i")
      case True
      have "GetFree (srcFree lb) u (ag_capacityPerSlot c) + slot_load (leaf_log L i @ P) u = ag_capacityPerSlot c" for u
      proof -
        have "GetFree (srcFree (ag_brokers c ! i)) u (ag_capacityPerSlot c) + slot_load (leaf_log L i) u = ag_capacityPerSlot c"
          using l True by (simp add: leaf_inv_def Let_def)
        moreover have "GetFree (srcFree lb) u (ag_capacityPerSlot c) + slot_load P u = GetFree (srcFree (ag_brokers c ! i)) u (ag_capacityPerSlot c)"
          using assms(5) by (simp add: spent_def)
        ultimately show ?thesis by simp
      qed
      with d assms(3,4) j True show ?thesis by (simp add: leaf_inv_def Let_def)
    next
      case False
      with d l j show ?thesis by (simp add: leaf_inv_def Let_def)
    qed
  qed
  with assms(1) show ?thesis by (simp add: aging_inv_def)
qed

lemma FastControlPath_spec:
  assumes "aging_inv c L" "i < length (ag_brokers c)"
  shows "\<exists>P c'. FastControlPath now i c = Some (P, c') \<and> aging_inv c' (L @ P) \<and> same_setup c c'"
proof -
  let ?lb = "ag_brokers c ! i"
  have l: "0 \<le> ag_localGap c" "broker_ok ?lb" "placed_ok c ?lb (leaf_log L i)"
    using assms by (auto simp: aging_inv_def leaf_inv_def Let_def)
  from fast_leaf_spec[OF this] obtain P lb1 where P: "fast_place c now ?lb = Some (P, lb1)"
    "broker_ok (commit_buckets c P lb1)" "placed_ok c (commit_buckets c P lb1) (leaf_log L i @ P)"
    "spent (ag_capacityPerSlot c) ?lb P (commit_buckets c P lb1)" "dstFree (commit_buckets c P lb1) = dstFree ?lb" by blast
  have "aging_inv (c\<lparr>ag_brokers := (ag_brokers c)[i := commit_buckets c P lb1]\<rparr>) (L @ map (Pair i) P)"
    using assms P(2-5) by (rule aging_inv_update)
  then show ?thesis using P(1) assms(2) by (simp add: FastControlPath_def same_setup_def)
qed

lemma fast_all_spec:
  assumes "aging_inv c L" "\<forall>i \<in> set ks. i < length (ag_brokers c)"
  shows "\<exists>P c'. fast_all now ks c = Some (P, c') \<and> aging_inv c' (L @ P) \<and> same_setup c c'"
  using assms
proof (induction ks arbitrary: c L)
  case (Cons i ks)
  from Cons.prems FastControlPath_spec[of c L i now] obtain P c1 where
    1: "FastControlPath now i c = Some (P, c1)" "aging_inv c1 (L @ P)" "same_setup c c1" by auto
  then have "\<forall>i \<in> set ks. i < length (ag_brokers c1)" using Cons.prems by (simp add: same_setup_def)
  from Cons.IH[OF 1(2) this] obtain Q c2 where
    "fast_all now ks c1 = Some (Q, c2)" "aging_inv c2 ((L @ P) @ Q)" "same_setup c1 c2" by blast
  with 1 show ?case by (auto intro: same_setup_trans)
qed (simp add: same_setup_def)

subsection \<open>Requests\<close>

text \<open>A leaf whose ledgers and quotas are those of another one, and whose events are still accounted for.\<close>

definition reordered :: "aging \<Rightarrow> leaf_broker \<Rightarrow> leaf_broker \<Rightarrow> bool" where
  "reordered c lb lb' \<longleftrightarrow> broker_ok lb' \<and> srcFree lb' = srcFree lb \<and> dstFree lb' = dstFree lb \<and>
     (\<forall>d. quota_of lb' d = quota_of lb d) \<and> (\<forall>L. placed_ok c lb L \<longrightarrow> placed_ok c lb' L)"

lemma reordered_trans: "reordered c a b \<Longrightarrow> reordered c b d \<Longrightarrow> reordered c a d"
  by (simp add: reordered_def)

lemma aging_inv_reordered:
  assumes "aging_inv c L" "i < length (ag_brokers c)" "reordered c (ag_brokers c ! i) lb"
  shows "aging_inv (c\<lparr>ag_brokers := (ag_brokers c)[i := lb]\<rparr>) L"
proof -
  have "placed_ok c (ag_brokers c ! i) (leaf_log L i)" using assms(1,2) by (simp add: aging_inv_def leaf_inv_def Let_def)
  then have "aging_inv (c\<lparr>ag_brokers := (ag_brokers c)[i := lb]\<rparr>) (L @ map (Pair i) [])"
    using assms by (intro aging_inv_update) (simp_all add: reordered_def spent_def)
  then show ?thesis by simp
qed

lemma reordered_put:
  assumes "broker_ok lb" "\<not> committed e" "distinct (map fst (foot e))"
    and "\<And>e0. map_of (localEvents lb) (eventId e) = Some e0 \<Longrightarrow> \<not> committed e0"
  shows "reordered c lb (put_event e lb)"
  using assms by (auto simp: reordered_def broker_ok_put intro!: placed_ok_put)

lemma source_requests_spec:
  assumes "broker_ok lb"
    and "\<forall>e \<in> set es. \<not> committed e \<and> distinct (map fst (foot e)) \<and>
      (\<forall>e0. map_of (localEvents lb) (eventId e) = Some e0 \<longrightarrow> \<not> committed e0)"
  shows "\<exists>rs lb'. source_requests cfg cur i es free lb = Some (rs, lb') \<and> reordered c lb lb' \<and> (\<forall>(d, r) \<in> set rs. rq_srcLeaf r = i)"
  using assms
proof (induction es arbitrary: free lb)
  case (Cons e es)
  obtain found where f: "find_slot (src_fits (ag_capacityPerSlot cfg) free e) (le_span e) (max (readySlot e) cur) (ag_Wsearch cfg) = Some found"
    using find_slot_total by blast
  define e1 where "e1 = e\<lparr>earliestSlot := (case found of None \<Rightarrow> NO_SLOT | Some s \<Rightarrow> s)\<rparr>"
  define free1 where "free1 = (case found of None \<Rightarrow> free
       | Some s \<Rightarrow> take_slots (ag_capacityPerSlot cfg) (le_b e div le_span e) free (slots s (le_span e)))"
  have r: "reordered c lb (put_event e1 lb)"
    using Cons.prems by (intro reordered_put) (auto simp: e1_def)
  then have ok: "broker_ok (put_event e1 lb)" by (simp add: reordered_def)
  have es: "\<forall>e \<in> set es. \<not> committed e \<and> distinct (map fst (foot e)) \<and>
      (\<forall>e0. map_of (localEvents (put_event e1 lb)) (eventId e) = Some e0 \<longrightarrow> \<not> committed e0)"
    using Cons.prems by (auto simp: map_of_put_event e1_def)
  from Cons.IH[OF ok es, of free1] obtain rs lb' where
    "source_requests cfg cur i es free1 (put_event e1 lb) = Some (rs, lb')" "reordered c (put_event e1 lb) lb'"
    "\<forall>(d, r) \<in> set rs. rq_srcLeaf r = i" by blast
  moreover have "\<forall>(d, r) \<in> set (requests_of i e1). rq_srcLeaf r = i" by (auto simp: requests_of_def)
  ultimately show ?case using f reordered_trans[OF r]
    by (auto simp: Let_def e1_def[symmetric] free1_def[symmetric])
qed (simp add: reordered_def)

lemma epoch_source_spec:
  assumes "broker_ok lb"
  shows "\<exists>rs lb'. epoch_source cfg now i lb = Some (rs, lb') \<and> reordered c lb lb' \<and> (\<forall>(d, r) \<in> set rs. rq_srcLeaf r = i)"
proof -
  let ?lb = "map_events (epoch_age cfg now) lb"
  have ok: "broker_ok ?lb" using assms by (rule broker_ok_map) simp
  have "reordered c lb ?lb" using ok placed_ok_map[of c lb _ "epoch_age cfg now"] by (simp add: reordered_def)
  moreover have "\<forall>e \<in> set (sort_by event_less (filter (is_eligible cfg now) (map snd (localEvents ?lb)))).
      \<not> committed e \<and> distinct (map fst (foot e)) \<and> (\<forall>e0. map_of (localEvents ?lb) (eventId e) = Some e0 \<longrightarrow> \<not> committed e0)"
    using events_by_key[OF ok] by (auto simp: is_eligible_def)
  from source_requests_spec[OF ok this, of cfg "nat (now div ag_slot cfg)" i "srcFree ?lb" c] obtain rs lb' where
    "source_requests cfg (nat (now div ag_slot cfg)) i (sort_by event_less (filter (is_eligible cfg now) (map snd (localEvents ?lb))))
       (srcFree ?lb) ?lb = Some (rs, lb')" "reordered c ?lb lb'" "\<forall>(d, r) \<in> set rs. rq_srcLeaf r = i" by blast
  ultimately show ?thesis using reordered_trans by (simp add: epoch_source_def Let_def)
qed

lemma epoch_sources_spec:
  assumes "aging_inv c L" "\<forall>i \<in> set ks. i < length (ag_brokers c)" "\<forall>(d, r) \<in> set rs. rq_srcLeaf r < length (ag_brokers c)"
  shows "\<exists>rs' c'. epoch_sources cfg now ks (rs, c) = Some (rs', c') \<and> aging_inv c' L \<and> same_setup c c' \<and>
    (\<forall>(d, r) \<in> set rs'. rq_srcLeaf r < length (ag_brokers c))"
  using assms
proof (induction ks arbitrary: c rs)
  case (Cons i ks)
  then have i: "i < length (ag_brokers c)" "broker_ok (ag_brokers c ! i)"
    by (simp_all add: aging_inv_def leaf_inv_def Let_def)
  from epoch_source_spec[OF i(2), of cfg now i c] obtain qs lb where
    1: "epoch_source cfg now i (ag_brokers c ! i) = Some (qs, lb)" "reordered c (ag_brokers c ! i) lb"
      "\<forall>(d, r) \<in> set qs. rq_srcLeaf r = i" by blast
  let ?c = "c\<lparr>ag_brokers := (ag_brokers c)[i := lb]\<rparr>"
  have "\<forall>(d, r) \<in> set (rs @ qs). rq_srcLeaf r < length (ag_brokers c)" using Cons.prems(3) 1(3) i by fastforce
  moreover have "aging_inv ?c L" using Cons.prems(1) i(1) 1(2) by (rule aging_inv_reordered)
  ultimately obtain rs' c' where "epoch_sources cfg now ks (rs @ qs, ?c) = Some (rs', c')" "aging_inv c' L"
    "same_setup ?c c'" "\<forall>(d, r) \<in> set rs'. rq_srcLeaf r < length (ag_brokers c)"
    using Cons.IH[of ?c "rs @ qs"] Cons.prems(2) by auto
  moreover have "same_setup c ?c" by (simp add: same_setup_def)
  ultimately show ?case using 1(1) same_setup_trans by simp
qed (simp add: same_setup_def)

subsection \<open>Grants\<close>

text \<open>While leaf \<open>d\<close> grants, what it took from its free capacity is in the new quotas.\<close>

definition granting_ok :: "nat \<Rightarrow> nat \<Rightarrow> slot_map \<Rightarrow> granting \<Rightarrow> bool" where
  "granting_ok cap n free g \<longleftrightarrow> (\<forall>u. GetFree (gr_provisional g) u cap = GetFree (gr_dstFree g) u cap) \<and>
     (\<forall>u. GetFree (gr_dstFree g) u cap + (\<Sum>i<n. GetFree (queue_of (gr_newQuota g) i) u 0) = GetFree free u cap) \<and>
     (\<forall>i. distinct (map fst (queue_of (gr_newQuota g) i)))"

lemma queue_of_update [simp]: "queue_of (AList.update k v qs) i = (if i = k then v else queue_of qs i)"
  by (simp add: queue_of_def update_conv')

lemma GetFree_add_quota: "GetFree (add_quota f m x) u 0 = (if u = x then u32_add (GetFree m x 0) f else GetFree m u 0)"
  by (simp add: add_quota_def)

lemma add_quotas:
  assumes "distinct us" "\<forall>u \<in> set us. GetFree m u 0 + f < 2 ^ 32" "distinct (map fst m)"
  shows "GetFree (foldl (add_quota f) m us) u 0 = GetFree m u 0 + (if u \<in> set us then f else 0) \<and>
    distinct (map fst (foldl (add_quota f) m us))"
  using assms
proof (induction us arbitrary: m)
  case (Cons x us)
  have "distinct (map fst (add_quota f m x))" using Cons.prems(3) by (simp add: add_quota_def SetFree_def distinct_update)
  moreover have "\<forall>u \<in> set us. GetFree (add_quota f m x) u 0 + f < 2 ^ 32" using Cons.prems by (auto simp: GetFree_add_quota)
  ultimately have "GetFree (foldl (add_quota f) (add_quota f m x) us) u 0 = GetFree (add_quota f m x) u 0 + (if u \<in> set us then f else 0) \<and>
    distinct (map fst (foldl (add_quota f) (add_quota f m x) us))" using Cons.prems(1) by (intro Cons.IH) auto
  with Cons.prems show ?case by (auto simp: GetFree_add_quota)
qed simp

lemma grant_slots_spec:
  assumes "granting_ok (ag_capacityPerSlot c) n free g" "src < n" "\<forall>u. GetFree free u (ag_capacityPerSlot c) < 2 ^ 32"
    and "\<forall>u \<in> set (slots start (rq_span r)). rq_foot r \<le> GetFree (gr_provisional g) u (ag_capacityPerSlot c)"
  shows "granting_ok (ag_capacityPerSlot c) n free (grant_slots c src r start g)"
proof -
  let ?cap = "ag_capacityPerSlot c" and ?us = "slots start (rq_span r)" and ?q = "queue_of (gr_newQuota g)"
  let ?new = "foldl (add_quota (rq_foot r)) (?q src) ?us"
  have d: "distinct ?us" by (simp add: slots_def)
  have prov: "GetFree (gr_provisional g) u ?cap = GetFree (gr_dstFree g) u ?cap" for u using assms(1) by (simp add: granting_ok_def)
  have sum: "GetFree (gr_dstFree g) u ?cap + (\<Sum>i<n. GetFree (?q i) u 0) = GetFree free u ?cap" for u
    using assms(1) by (simp add: granting_ok_def)
  have fit: "\<forall>u \<in> set ?us. rq_foot r \<le> GetFree (gr_dstFree g) u ?cap" using assms(4) prov by simp
  note took = take_slots_spec[OF d fit] take_slots_spec[OF d assms(4)]
  have "GetFree (?q src) u 0 + rq_foot r < 2 ^ 32" if "u \<in> set ?us" for u
  proof -
    have "GetFree (?q src) u 0 \<le> (\<Sum>i<n. GetFree (?q i) u 0)" using assms(2) by (intro member_le_sum) auto
    then show ?thesis using fit that sum[of u] assms(3)[rule_format, of u] by fastforce
  qed
  then have add: "GetFree ?new u 0 = GetFree (?q src) u 0 + (if u \<in> set ?us then rq_foot r else 0)" "distinct (map fst ?new)" for u
    using add_quotas[OF d, of "?q src" "rq_foot r" u] assms(1) by (auto simp: granting_ok_def)
  have q': "queue_of (gr_newQuota (grant_slots c src r start g)) i = (if i = src then ?new else ?q i)" for i
    by (simp add: grant_slots_def Let_def)
  have "GetFree (gr_dstFree (grant_slots c src r start g)) u ?cap + (\<Sum>i<n. GetFree (queue_of (gr_newQuota (grant_slots c src r start g)) i) u 0)
      = GetFree free u ?cap" for u
  proof -
    have "(\<Sum>i<n. GetFree (?q i) u 0) + (if u \<in> set ?us then rq_foot r else 0)
        = (\<Sum>i<n. GetFree (queue_of (gr_newQuota (grant_slots c src r start g)) i) u 0)"
      unfolding q' by (rule sum_change[OF assms(2)]) (simp_all add: add(1))
    moreover have "gr_dstFree (grant_slots c src r start g) = take_slots ?cap (rq_foot r) (gr_dstFree g) ?us"
      by (simp add: grant_slots_def Let_def)
    ultimately show ?thesis using took(1)[of u] sum[of u] by simp
  qed
  moreover have "GetFree (gr_provisional (grant_slots c src r start g)) u ?cap = GetFree (gr_dstFree (grant_slots c src r start g)) u ?cap" for u
    using took[of u] prov[of u] by (simp add: grant_slots_def Let_def)
  moreover have "distinct (map fst (queue_of (gr_newQuota (grant_slots c src r start g)) i))" for i
    using add(2) assms(1) by (simp add: q' granting_ok_def)
  ultimately show ?thesis by (simp add: granting_ok_def)
qed

lemma grant_request_spec:
  assumes "granting_ok (ag_capacityPerSlot c) n free g" "src < n" "\<forall>u. GetFree free u (ag_capacityPerSlot c) < 2 ^ 32"
  shows "\<exists>g'. grant_request c src r g = Some g' \<and> granting_ok (ag_capacityPerSlot c) n free g'"
proof -
  obtain found where f: "find_slot (\<lambda>u. rq_foot r \<le> GetFree (gr_provisional g) u (ag_capacityPerSlot c)) (rq_span r) (rq_earliest r) (ag_Wsearch c) = Some found"
    "\<And>s. found = Some s \<Longrightarrow> \<forall>u \<in> set (slots s (rq_span r)). rq_foot r \<le> GetFree (gr_provisional g) u (ag_capacityPerSlot c)"
    using find_slot_total by blast
  show ?thesis
  proof (cases found)
    case None
    with f(1) assms(1) show ?thesis by (simp add: grant_request_def)
  next
    case (Some s)
    have "granting_ok (ag_capacityPerSlot c) n free (grant_phase c src s (grant_slots c src r s g))"
      using grant_slots_spec[OF assms f(2)[OF Some]] by (simp add: grant_phase_def granting_ok_def Let_def)
    with f(1) Some show ?thesis by (simp add: grant_request_def)
  qed
qed

lemma pop_request_keys: "fst ` set (pop_request src qs) \<subseteq> insert src (fst ` set qs)"
proof -
  have "set (map fst (AList.delete src qs)) \<subseteq> set (map fst qs)" unfolding delete_keys by auto
  then show ?thesis by (auto simp: pop_request_def dom_update)
qed

lemma dest_loop_spec:
  assumes "granting_ok (ag_capacityPerSlot c) n free g" "fst ` set qs \<subseteq> {..<n}" "\<forall>u. GetFree free u (ag_capacityPerSlot c) < 2 ^ 32"
  shows "\<exists>g'. dest_loop c qs g = Some g' \<and> granting_ok (ag_capacityPerSlot c) n free g'"
  using assms
proof (induction c qs g rule: dest_loop.induct)
  case (1 c qs g)
  show ?case
  proof (cases "best_request qs")
    case None
    then show ?thesis using 1(2) by (simp add: dest_loop.simps)
  next
    case (Some p)
    obtain src r where p: "p = (src, r)" by force
    obtain q where "(src, r # q) \<in> set qs" using best_request_in Some p by blast
    then have src: "src < n" using 1(3) by force
    obtain g' where g': "grant_request c src r g = Some g'" "granting_ok (ag_capacityPerSlot c) n free g'"
      using grant_request_spec[OF 1(2) src 1(4)] by blast
    have "fst ` set (pop_request src qs) \<subseteq> {..<n}" using pop_request_keys[of src qs] 1(3) src by auto
    from 1(1)[OF Some p[symmetric] g'(1) g'(2) this 1(4)] show ?thesis using Some p g'(1) by (subst dest_loop.simps) simp
  qed
qed

subsection \<open>Merging the grants\<close>

lemma merge_quota_spec:
  assumes "distinct (map fst m)" "\<forall>u. quota_at lb d u + GetFree m u 0 < 2 ^ 32"
  shows "quota_at (merge_quota d m lb) d' u = quota_at lb d' u + (if d' = d then GetFree m u 0 else 0) \<and>
    srcFree (merge_quota d m lb) = srcFree lb \<and> spare_fields (merge_quota d m lb) = spare_fields lb"
  using assms
proof (induction m arbitrary: d' u)
  case (Cons p m)
  obtain v x where p: "p = (v, x)" by force
  have "map_of m v = None" using Cons.prems(1) p by (simp add: map_of_eq_None_iff)
  then have new: "GetFree m v 0 = 0" by (simp add: GetFree_def)
  have cons: "GetFree (p # m) u 0 = (if u = v then x else GetFree m u 0)" for u by (simp add: p GetFree_def)
  have "quota_at lb d u + GetFree m u 0 < 2 ^ 32" for u
    using Cons.prems(2)[rule_format, of u] new unfolding cons by (cases "u = v") auto
  then have ih: "quota_at (merge_quota d m lb) d' u = quota_at lb d' u + (if d' = d then GetFree m u 0 else 0) \<and>
    srcFree (merge_quota d m lb) = srcFree lb \<and> spare_fields (merge_quota d m lb) = spare_fields lb" for d' u
    using Cons.IH Cons.prems(1) by simp
  have "quota_at lb d v + x < 2 ^ 32" using Cons.prems(2)[rule_format, of v] unfolding cons by simp
  moreover have "quota_at (merge_quota d m lb) d v = quota_at lb d v" using ih[of d v] new by simp
  moreover have "merge_quota d (p # m) lb = set_quota d (SetFree (quota_of (merge_quota d m lb) d) v
      (u32_add (quota_at (merge_quota d m lb) d v) x)) (merge_quota d m lb)"
    by (simp add: merge_quota_def p)
  ultimately show ?case using ih[of d' u] new unfolding cons by (auto simp: spare_fields_def)
qed (simp add: merge_quota_def GetFree_def)

lemma merge_phase_fields:
  "srcFree (merge_phase d m lb) = srcFree lb \<and> spare_fields (merge_phase d m lb) = spare_fields lb \<and>
   quota_of (merge_phase d m lb) d' = quota_of lb d'"
  by (induction m) (auto simp: merge_phase_def spare_fields_def)

lemma broker_ok_spare: "spare_fields lb' = spare_fields lb \<Longrightarrow> broker_ok lb' = broker_ok lb \<and> placed_ok c lb' L = placed_ok c lb L"
  by (simp add: spare_fields_def broker_ok_def placed_ok_def)

lemma push_keys: "fst ` set (foldl push_request qs rs) \<subseteq> fst ` set qs \<union> rq_srcLeaf ` set rs"
proof (induction rs arbitrary: qs)
  case (Cons r rs)
  from Cons[of "push_request qs r"] show ?case by (auto simp: push_request_def dom_update)
qed simp

lemma epoch_dest_spec:
  assumes inv: "aging_inv c L" and d: "d < length (ag_brokers c)" and rs: "\<forall>(d, r) \<in> set rs. rq_srcLeaf r < length (ag_brokers c)"
  shows "\<exists>c'. epoch_dest rs c d = Some c' \<and> aging_inv c' L \<and> same_setup c c'"
proof -
  let ?n = "length (ag_brokers c)" and ?cap = "ag_capacityPerSlot c" and ?bs = "ag_brokers c"
  let ?lb = "?bs ! d" and ?qs = "foldl push_request [] (map snd (filter (\<lambda>(leaf, _). leaf = d) rs))"
  let ?g0 = "\<lparr>gr_provisional = dstFree ?lb, gr_dstFree = dstFree ?lb, gr_nextPhase = [], gr_newQuota = [], gr_newPhase = []\<rparr>"
  have led: "GetFree (dstFree (?bs ! i)) u ?cap + quota_sum c i u + foot_load (map snd L) i u = ?cap" if "i < ?n" for i u
    using inv that by (simp add: aging_inv_def leaf_inv_def Let_def)
  have cap: "?cap < 2 ^ 32" using inv by (simp add: aging_inv_def)
  have free: "\<forall>u. GetFree (dstFree ?lb) u ?cap < 2 ^ 32"
  proof
    fix u show "GetFree (dstFree ?lb) u ?cap < 2 ^ 32" using led[OF d, of u] cap by linarith
  qed
  have "fst ` set ?qs \<subseteq> {..<?n}" using push_keys[of "[]" "map snd (filter (\<lambda>(leaf, _). leaf = d) rs)"] rs by fastforce
  moreover have "granting_ok ?cap ?n (dstFree ?lb) ?g0" by (simp add: granting_ok_def queue_of_def)
  ultimately obtain g where g: "dest_loop c ?qs ?g0 = Some g" "granting_ok ?cap ?n (dstFree ?lb) g"
    using dest_loop_spec[of c ?n "dstFree ?lb" ?g0 ?qs] free by blast
  define bs where "bs = ?bs[d := ?lb\<lparr>dstFree := gr_dstFree g, nextPhase := gr_nextPhase g\<rparr>]"
  define c' where "c' = c\<lparr>ag_brokers := map (\<lambda>(i, b). merge_grants d g i b) (List.enumerate 0 bs)\<rparr>"
  have c': "epoch_dest rs c d = Some c'" using g(1) by (simp add: epoch_dest_def Let_def c'_def bs_def)
  have nth: "ag_brokers c' ! i = merge_grants d g i (bs ! i)" if "i < ?n" for i
    using that by (simp add: c'_def bs_def nth_enumerate_eq)
  have bsq: "quota_of (bs ! i) e = quota_of (?bs ! i) e" "localEvents (bs ! i) = localEvents (?bs ! i)" "srcFree (bs ! i) = srcFree (?bs ! i)"
    "dstFree (bs ! i) = (if i = d then gr_dstFree g else dstFree (?bs ! i))" if "i < ?n" for i e
    using that d by (auto simp: bs_def nth_list_update)
  let ?new = "\<lambda>i u. GetFree (queue_of (gr_newQuota g) i) u 0"
  have sum: "GetFree (gr_dstFree g) u ?cap + (\<Sum>i<?n. ?new i u) = GetFree (dstFree ?lb) u ?cap" for u
    using g(2) by (simp add: granting_ok_def)
  have bound: "quota_at (bs ! i) d u + ?new i u < 2 ^ 32" if "i < ?n" for i u
  proof -
    have "?new i u \<le> (\<Sum>i<?n. ?new i u)" "quota_at (?bs ! i) d u \<le> quota_sum c d u"
      using that unfolding quota_sum_def by (intro member_le_sum; simp)+
    then show ?thesis using led[OF d, of u] sum[of u] cap bsq(1)[OF that] by simp
  qed
  have merged: "quota_at (ag_brokers c' ! i) e u = quota_at (?bs ! i) e u + (if e = d then ?new i u else 0)"
    "srcFree (ag_brokers c' ! i) = srcFree (?bs ! i)" "spare_fields (ag_brokers c' ! i) = spare_fields (bs ! i)" if "i < ?n" for i e u
    using merge_quota_spec[of "queue_of (gr_newQuota g) i" "bs ! i" d e u] bound[OF that] g(2) bsq[OF that]
      merge_phase_fields[of d "queue_of (gr_newPhase g) i"]
    by (simp_all add: nth[OF that] merge_grants_def granting_ok_def)
  have len: "length (ag_brokers c') = ?n" by (simp add: c'_def bs_def)
  have quotas: "quota_sum c' e u = quota_sum c e u + (if e = d then \<Sum>i<?n. ?new i u else 0)" for e u
    by (simp add: quota_sum_def len merged(1) sum.distrib)
  have "leaf_inv c' L i" if i: "i < ?n" for i
  proof -
    have old: "leaf_inv c L i" using inv i by (simp add: aging_inv_def)
    have f: "localEvents (ag_brokers c' ! i) = localEvents (?bs ! i)" "dstFree (ag_brokers c' ! i) = (if i = d then gr_dstFree g else dstFree (?bs ! i))"
      using merged(3)[OF i] bsq[OF i] by (simp_all add: spare_fields_def)
    have "GetFree (dstFree (ag_brokers c' ! i)) u ?cap + quota_sum c' i u + foot_load (map snd L) i u = ?cap" for u
      using led[OF i, of u] sum[of u] unfolding f(2) quotas by (cases "i = d") simp_all
    moreover have "broker_ok (ag_brokers c' ! i)" "placed_ok c (ag_brokers c' ! i) (leaf_log L i)"
      using old f(1) by (simp_all add: leaf_inv_def Let_def broker_ok_def placed_ok_def)
    ultimately show ?thesis using old merged(2)[OF i] by (simp add: leaf_inv_def Let_def) (simp add: c'_def)
  qed
  then have "aging_inv c' L" using inv len by (simp add: aging_inv_def) (simp add: c'_def)
  moreover have "same_setup c c'" using len by (simp add: same_setup_def c'_def)
  ultimately show ?thesis using c' by blast
qed

lemma epoch_dests_spec:
  assumes "aging_inv c L" "\<forall>d \<in> set ds. d < length (ag_brokers c)" "\<forall>(d, r) \<in> set rs. rq_srcLeaf r < length (ag_brokers c)"
  shows "\<exists>c'. epoch_dests rs ds c = Some c' \<and> aging_inv c' L \<and> same_setup c c'"
  using assms
proof (induction ds arbitrary: c)
  case (Cons d ds)
  then obtain c1 where 1: "epoch_dest rs c d = Some c1" "aging_inv c1 L" "same_setup c c1"
    using epoch_dest_spec[of c L d rs] by auto
  then have "length (ag_brokers c1) = length (ag_brokers c)" by (simp add: same_setup_def)
  then obtain c2 where "epoch_dests rs ds c1 = Some c2" "aging_inv c2 L" "same_setup c1 c2"
    using Cons.IH[OF 1(2)] Cons.prems by auto
  with 1 show ?case using same_setup_trans by auto
qed (simp add: same_setup_def)

subsection \<open>The calls\<close>

lemma OnEpochTimer_spec:
  assumes "aging_inv c L"
  shows "\<exists>P c'. OnEpochTimer now c = Some (P, c') \<and> aging_inv c' (L @ P) \<and> same_setup c c'"
proof -
  let ?n = "length (ag_brokers c)"
  from epoch_sources_spec[OF assms, of "[0..<?n]" "[]" c now] obtain rs c1 where
    1: "epoch_sources c now [0..<?n] ([], c) = Some (rs, c1)" "aging_inv c1 L" "same_setup c c1"
      "\<forall>(d, r) \<in> set rs. rq_srcLeaf r < ?n" by auto
  then have n: "length (ag_brokers c1) = ?n" by (simp add: same_setup_def)
  from epoch_dests_spec[OF 1(2), of "[0..<?n]" rs] 1(4) n obtain c2 where
    2: "epoch_dests rs [0..<?n] c1 = Some c2" "aging_inv c2 L" "same_setup c1 c2" by auto
  then have "length (ag_brokers c2) = ?n" using n by (simp add: same_setup_def)
  with fast_all_spec[OF 2(2), of "[0..<?n]" now] obtain P c3 where
    3: "fast_all now [0..<?n] c2 = Some (P, c3)" "aging_inv c3 (L @ P)" "same_setup c2 c3" by auto
  have "same_setup c c3" using same_setup_trans[OF 1(3) same_setup_trans[OF 2(3) 3(3)]] .
  moreover have "OnEpochTimer now c = Some (P, c3)" using 1(1) 2(1) 3(1) by (simp add: OnEpochTimer_def)
  ultimately show ?thesis using 3(2) by blast
qed

lemma foldl_flows_ok: "smap_ok m \<Longrightarrow> smap_ok (fst (foldl (add_flow k) (m, b) fs))"
  by (induction fs arbitrary: m b) (auto simp: add_flow_def Let_def smap_ok_set)

lemma fst_keep: "fst \<circ> (\<lambda>(l, x). (l, g x)) = fst"
  by auto

lemma new_event_ok: "eventId (new_event c now rk task) = aging_event_id rk (taskId task)" "\<not> committed (new_event c now rk task)"
  "distinct (map fst (foot (new_event c now rk task)))"
proof -
  obtain bytes b where f: "foldl (add_flow (ag_k c)) ([], 0) (sendFlows task) = (bytes, b)" by force
  then have "smap_ok bytes" using foldl_flows_ok[of "[]" "ag_k c" 0 "sendFlows task"] by simp
  then show "distinct (map fst (foot (new_event c now rk task)))"
    by (simp add: new_event_def f Let_def smap_ok_distinct fst_keep)
qed (simp_all add: new_event_def Let_def case_prod_beta)

lemma CheckAdmission_spec:
  assumes "aging_inv c L" "0 < ag_k c" "leaf_of (ag_k c) rk < length (ag_brokers c)"
  shows "\<exists>b P c'. aging_CheckAdmission now rk task c = Some (b, P, c') \<and> aging_inv c' (L @ P) \<and> same_setup c c'"
proof -
  let ?i = "leaf_of (ag_k c) rk" and ?c = "c\<lparr>ag_timerStarted := True\<rparr>" and ?id = "aging_event_id rk (taskId task)"
  have inv: "aging_inv ?c L" using assms(1) by (simp add: aging_inv_def leaf_inv_def quota_sum_def Let_def)
  have s: "same_setup c ?c" by (simp add: same_setup_def)
  show ?thesis
  proof (cases "map_of (localEvents (ag_brokers c ! ?i)) ?id")
    case (Some e)
    with assms inv s show ?thesis by (simp add: aging_CheckAdmission_def Let_def)
  next
    case None
    let ?lb = "put_event (new_event ?c now rk task) (ag_brokers c ! ?i)"
    have "broker_ok (ag_brokers c ! ?i)" using assms by (simp add: aging_inv_def leaf_inv_def Let_def)
    then have "reordered ?c (ag_brokers ?c ! ?i) ?lb"
      using None by (auto intro!: reordered_put simp: new_event_ok[simplified])
    from aging_inv_reordered[OF inv _ this] assms(3)
    have inv': "aging_inv (?c\<lparr>ag_brokers := (ag_brokers ?c)[?i := ?lb]\<rparr>) L" by simp
    from FastControlPath_spec[OF this, of ?i now] assms(3) obtain P c' where
      "FastControlPath now ?i (?c\<lparr>ag_brokers := (ag_brokers ?c)[?i := ?lb]\<rparr>) = Some (P, c')" "aging_inv c' (L @ P)"
      "same_setup (?c\<lparr>ag_brokers := (ag_brokers ?c)[?i := ?lb]\<rparr>) c'" by auto
    moreover have "same_setup c (?c\<lparr>ag_brokers := (ag_brokers ?c)[?i := ?lb]\<rparr>)" by (simp add: same_setup_def)
    ultimately show ?thesis using assms(2,3) None same_setup_trans
      by (auto simp: aging_CheckAdmission_def Let_def)
  qed
qed

lemma aging_init_inv:
  assumes "aging_init k n mode scale = Some c"
  shows "aging_inv c []" "ag_k c = k" "length (ag_brokers c) = n"
proof -
  have less: "v < 2 ^ 32" if "cast_uint 32 x = Some v" for x v
  proof -
    from that have "x < of_int (2 ^ 32)" and v: "v = nat \<lfloor>x\<rfloor>" by (auto simp: cast_uint_def split: if_splits)
    then have "\<lfloor>x\<rfloor> < 2 ^ 32" using floor_less_iff[of x "2 ^ 32"] by blast
    then obtain z where "v = nat z" "z < 2 ^ 32" using v by blast
    then show ?thesis by simp
  qed
  from assms obtain cap where cap: "cast_uint 32 (dbl (dbl (125000 * scale) * of_nat k)) = Some cap" 
    "ag_capacityPerSlot c = (if cap = 0 then 1 else cap)" and c: "ag_k c = k" "ag_localGap c = 20000" "ag_brokers c = map empty_broker [0..<n]"
    by (auto simp: aging_init_def split: bind_splits)
  have "ag_capacityPerSlot c < 2 ^ 32" using cap less by simp
  moreover have "quota_sum c d u = 0" for d u by (simp add: quota_sum_def c empty_broker_def quota_of_def)
  ultimately show "aging_inv c []"
    by (simp add: aging_inv_def leaf_inv_def Let_def c) (simp add: empty_broker_def broker_ok_def placed_ok_def)
  show "ag_k c = k" "length (ag_brokers c) = n" by (simp_all add: c)
qed

subsection \<open>Sequences of calls\<close>

text \<open>What reaches a scheduler: admission checks of the applications and the epoch timer, at their times.\<close>

datatype aging_call = Check int rank moe_task | Epoch int

fun do_call :: "aging_call \<Rightarrow> aging \<Rightarrow> (placement list \<times> aging) option" where
  "do_call (Check now rk task) c = map_option snd (aging_CheckAdmission now rk task c)"
| "do_call (Epoch now) c = OnEpochTimer now c"

fun aging_calls :: "aging_call list \<Rightarrow> aging \<Rightarrow> (placement list \<times> aging) option" where
  "aging_calls [] c = Some ([], c)"
| "aging_calls (x # xs) c = do {
     (P, c1) \<leftarrow> do_call x c;
     (Q, c2) \<leftarrow> aging_calls xs c1;
     Some (P @ Q, c2)
   }"

text \<open>The rank belongs to one of the leaves.\<close>

fun call_ok :: "aging \<Rightarrow> aging_call \<Rightarrow> bool" where
  "call_ok c (Check now rk task) \<longleftrightarrow> leaf_of (ag_k c) rk < length (ag_brokers c)"
| "call_ok c (Epoch now) \<longleftrightarrow> True"

lemma aging_call_spec:
  assumes "aging_inv c L" "0 < ag_k c" "call_ok c x"
  shows "\<exists>P c'. do_call x c = Some (P, c') \<and> aging_inv c' (L @ P) \<and> same_setup c c'"
proof (cases x)
  case (Check now rk task)
  with CheckAdmission_spec[OF assms(1,2), of rk now task] assms(3) show ?thesis by auto
next
  case (Epoch now)
  with OnEpochTimer_spec[OF assms(1)] show ?thesis by simp
qed

lemma call_ok_cong: "same_setup c c' \<Longrightarrow> call_ok c' x = call_ok c x"
  by (cases x) (simp_all add: same_setup_simps)

lemma aging_calls_inv:
  assumes "aging_inv c L" "0 < ag_k c" "\<forall>x \<in> set xs. call_ok c x"
  shows "\<exists>P c'. aging_calls xs c = Some (P, c') \<and> aging_inv c' (L @ P) \<and> same_setup c c'"
  using assms
proof (induction xs arbitrary: c L)
  case (Cons x xs)
  then obtain P c1 where 1: "do_call x c = Some (P, c1)" "aging_inv c1 (L @ P)" "same_setup c c1"
    using aging_call_spec[of c L x] by auto
  have "0 < ag_k c1" "\<forall>x \<in> set xs. call_ok c1 x" using Cons.prems 1(3) same_setup_simps call_ok_cong by auto
  from Cons.IH[OF 1(2) this] obtain Q c2 where "aging_calls xs c1 = Some (Q, c2)" "aging_inv c2 ((L @ P) @ Q)" "same_setup c1 c2"
    by blast
  with 1 show ?case using same_setup_trans by auto
qed (simp add: same_setup_def)

lemma filter_unique: "distinct (map f xs) \<Longrightarrow> x \<in> set xs \<Longrightarrow> filter (\<lambda>y. f y = f x) xs = [x]"
proof (induction xs)
  case (Cons y ys)
  show ?case
  proof (cases "x = y")
    case True
    with Cons.prems show ?thesis by (auto simp: filter_empty_conv) (metis imageI)
  next
    case False
    with Cons show ?thesis by auto
  qed
qed simp

lemma aging_runs:
  assumes "aging_init k n mode scale = Some c0" "0 < k" "\<forall>x \<in> set xs. call_ok c0 x"
  obtains P c where "aging_calls xs c0 = Some (P, c)" "aging_inv c P" "same_setup c0 c"
  using aging_calls_inv[of c0 "[]" xs] aging_init_inv[OF assms(1)] assms(2,3) by auto

text \<open>
  C4. No slot of a leaf is oversubscribed. Whatever admission checks and epoch timers reach the scheduler, in
  whatever order and at whatever times, every call returns, and in every slot the traffic of the placed events
  that leaves leaf \<open>i\<close>, and the traffic of all leaves that goes to leaf \<open>i\<close>, fit the capacity of a slot.
\<close>

theorem aging_never_oversubscribes:
  assumes "aging_init k n mode scale = Some c0" "0 < k" "\<forall>x \<in> set calls. call_ok c0 x" "i < n"
  shows "\<exists>placed c. aging_calls calls c0 = Some (placed, c) \<and>
    slot_load (leaf_log placed i) u \<le> ag_capacityPerSlot c0 \<and> foot_load (map snd placed) i u \<le> ag_capacityPerSlot c0"
proof -
  obtain P c where c: "aging_calls calls c0 = Some (P, c)" "aging_inv c P" "same_setup c0 c"
    using aging_runs[OF assms(1-3)] .
  have "leaf_inv c P i" using c(2,3) assms(4) aging_init_inv(3)[OF assms(1)] by (simp add: aging_inv_def same_setup_def)
  then have "slot_load (leaf_log P i) u \<le> ag_capacityPerSlot c" "foot_load (map snd P) i u \<le> ag_capacityPerSlot c"
    unfolding leaf_inv_def Let_def by (metis le_add2)+
  with c show ?thesis by (simp add: same_setup_simps)
qed

text \<open>
  C5. A task is admitted only after it was placed. When a check answers yes, the event with the id of that rank
  and task was placed on its leaf exactly once, in a slot that began at least 50 microseconds before.
\<close>

theorem aging_admits_placed_tasks:
  assumes "aging_init k n mode scale = Some c0" "0 < k" "\<forall>x \<in> set calls. call_ok c0 x" "leaf_of k rk < n"
    and "aging_calls calls c0 = Some (placed, c)" "aging_CheckAdmission now rk task c = Some (True, ps, c')"
  shows "\<exists>s e. filter (\<lambda>(s, e). eventId e = aging_event_id rk (taskId task)) (leaf_log placed (leaf_of k rk)) = [(s, e)] \<and>
    slot_start c s + 50000 \<le> now"
proof -
  let ?i = "leaf_of k rk" and ?id = "aging_event_id rk (taskId task)"
  have c: "aging_inv c placed" "same_setup c0 c" using aging_runs[OF assms(1-3)] assms(5) by auto
  then have k: "ag_k c = k" "length (ag_brokers c) = n" using aging_init_inv[OF assms(1)] by (simp_all add: same_setup_simps)
  let ?lb = "ag_brokers c ! ?i" and ?L = "leaf_log placed ?i"
  have ok: "placed_ok c ?lb ?L" using c(1) k assms(4) by (simp add: aging_inv_def leaf_inv_def Let_def)
  from assms(6) k obtain e0 where e0: "map_of (localEvents ?lb) ?id = Some e0" "committed e0" "releaseTime e0 \<le> now"
    by (auto simp: aging_CheckAdmission_def Let_def split: if_splits option.splits)
  with ok obtain p where p: "p \<in> set ?L" "eventId (snd p) = ?id" unfolding placed_ok_def by fastforce
  obtain s e where se: "p = (s, e)" by force
  with p ok obtain e1 where "map_of (localEvents ?lb) ?id = Some e1" "slot_start c s + 50000 \<le> releaseTime e1"
    unfolding placed_ok_def by fastforce
  with e0 have start: "slot_start c s + 50000 \<le> now" by simp
  have "distinct (map (eventId \<circ> snd) ?L)" using ok by (simp add: placed_ok_def)
  then have "filter (\<lambda>q. (eventId \<circ> snd) q = (eventId \<circ> snd) p) ?L = [p]" using p(1) by (rule filter_unique)
  moreover have "filter (\<lambda>(s, e). eventId e = ?id) ?L = filter (\<lambda>q. (eventId \<circ> snd) q = (eventId \<circ> snd) p) ?L"
    using p(2) by (intro filter_cong) auto
  ultimately have "filter (\<lambda>(s, e). eventId e = ?id) ?L = [(s, e)]" using se by (simp only:)
  with start show ?thesis by blast
qed

text \<open>A run: one task of rank 0 for rank 1, known early, granted in the epoch and admitted when its slot comes.\<close>

definition early_task :: moe_task where
  "early_task = \<lparr>taskId = 7, startTime = 1 / 4, sendFlows = [(1, 60)], expectedRecvFlows = [], computationTime = 0,
     dependencies = [], groupSize = 2\<rparr>"

definition small_calls :: "aging_call list" where
  "small_calls = [Check 0 0 early_task, Epoch 200000000]"

definition small_aging :: aging where
  "small_aging = the (aging_init 1 2 AGING 1)"

lemma small_aging_init: "aging_init 1 2 AGING 1 = Some small_aging"
proof -
  have "aging_init 1 2 AGING 1 \<noteq> None" by code_simp
  then show ?thesis by (auto simp: small_aging_def)
qed

lemma small_calls_ok: "list_all (call_ok small_aging) small_calls"
  by code_simp

lemma small_run: "(case aging_calls small_calls small_aging of None \<Rightarrow> False
    | Some (P, c) \<Rightarrow> map (\<lambda>(i, s, e). (i, s, eventId e)) P = [(0, 25000, 7)] \<and>
      (case aging_CheckAdmission 250050000 0 early_task c of None \<Rightarrow> False | Some (b, _) \<Rightarrow> b))"
  by code_simp

theorem aging_never_oversubscribes_witness:
  "\<exists>placed c. aging_calls small_calls small_aging = Some (placed, c) \<and>
    slot_load (leaf_log placed 1) 25000 \<le> ag_capacityPerSlot small_aging \<and>
    foot_load (map snd placed) 1 25000 \<le> ag_capacityPerSlot small_aging"
  using aging_never_oversubscribes[OF small_aging_init, of small_calls 1 25000] small_calls_ok by (simp add: list_all_iff)

theorem aging_admits_placed_tasks_witness:
  "\<exists>placed c s e. aging_calls small_calls small_aging = Some (placed, c) \<and>
    filter (\<lambda>(s, e). eventId e = 7) (leaf_log placed 0) = [(s, e)] \<and> slot_start c s + 50000 \<le> 250050000"
proof -
  obtain placed c ps c' where
    "aging_calls small_calls small_aging = Some (placed, c)" "aging_CheckAdmission 250050000 0 early_task c = Some (True, ps, c')"
    using small_run by (auto split: option.splits)
  with aging_admits_placed_tasks[OF small_aging_init, of small_calls 0 placed c 250050000 early_task ps c'] small_calls_ok
  show ?thesis by (auto simp: list_all_iff early_task_def leaf_of_def aging_event_id_def)
qed

end
