(* ===== verification/Calendar_Scheduler.thy ===== *)
theory Calendar_Scheduler
  imports Simulator_Facts
begin

text \<open>
  \<open>CalendarScheduler\<close> (\<open>src/core/model/calendar-scheduler.cc\<close>): an array of buckets, each a sorted
  \<open>std::list\<close>; an event goes to the bucket of its day (\<open>ts / width\<close>), modulo the number of buckets.
  The search for the next event walks over the days of one year, and falls back to the least of the
  bucket heads. The array is doubled or halved, with a new width, when the load leaves its range.

  The attribute \<open>Reverse\<close> is a field; indices, times and sizes are natural numbers with the wrap-around of
  their 32 and 64 bits written out. Reading \<open>m_buckets[-1]\<close> is \<open>None\<close>.
\<close>

type_synonym bucket = "event list"

record calendar =
  cal_reverse :: bool
  cal_buckets :: "bucket list"
  cal_nBuckets :: nat
  cal_width :: nat
  cal_lastBucket :: nat
  cal_bucketTop :: nat
  cal_lastPrio :: nat
  cal_qSize :: nat

subsection \<open>The operations\<close>

definition cal_NextEvent :: "bool \<Rightarrow> bucket \<Rightarrow> event" where
  "cal_NextEvent reverse b = (if reverse then last b else hd b)"

definition cal_Order :: "bool \<Rightarrow> event_key \<Rightarrow> event_key \<Rightarrow> bool" where
  "cal_Order reverse a b = (if reverse then key_greater a b else key_less a b)"

definition cal_Pop :: "bool \<Rightarrow> bucket \<Rightarrow> bucket" where
  "cal_Pop reverse b = (if reverse then butlast b else tl b)"

definition cal_Hash :: "calendar \<Rightarrow> nat \<Rightarrow> nat" where
  "cal_Hash c t = (t div cal_width c) mod cal_nBuckets c"

definition top_after :: "nat \<Rightarrow> nat \<Rightarrow> nat" where
  "top_after width prio = u64_mul (u64_add (prio div width) 1) width"

definition cal_Init :: "nat \<Rightarrow> nat \<Rightarrow> nat \<Rightarrow> calendar \<Rightarrow> calendar" where
  "cal_Init nBuckets width startPrio c =
     (let c1 = c\<lparr>cal_buckets := replicate nBuckets [], cal_nBuckets := nBuckets, cal_width := width, cal_lastPrio := startPrio\<rparr>
      in c1\<lparr>cal_lastBucket := cal_Hash c1 startPrio, cal_bucketTop := top_after width startPrio\<rparr>)"

text \<open>The constructor, and the attribute set at construction.\<close>

definition cal_new :: "bool \<Rightarrow> calendar" where
  "cal_new reverse = cal_Init 2 1 0 \<lparr>cal_reverse = reverse, cal_buckets = [], cal_nBuckets = 0, cal_width = 0,
     cal_lastBucket = 0, cal_bucketTop = 0, cal_lastPrio = 0, cal_qSize = 0\<rparr>"

fun bucket_insert :: "bool \<Rightarrow> event \<Rightarrow> bucket \<Rightarrow> bucket" where
  "bucket_insert reverse ev [] = [ev]"
| "bucket_insert reverse ev (i # is) =
     (if cal_Order reverse (key ev) (key i) then ev # i # is else i # bucket_insert reverse ev is)"

definition cal_DoInsert :: "event \<Rightarrow> calendar \<Rightarrow> calendar" where
  "cal_DoInsert ev c = (let bucket = cal_Hash c (unat (ts ev)) in
     c\<lparr>cal_buckets := (cal_buckets c)[bucket := bucket_insert (cal_reverse c) ev (cal_buckets c ! bucket)]\<rparr>)"

definition cal_IsEmpty :: "calendar \<Rightarrow> bool" where
  "cal_IsEmpty c \<longleftrightarrow> cal_qSize c = 0"

text \<open>
  The loop that \<open>PeekNext\<close> and \<open>DoRemoveNext\<close> share: it ends at the first bucket whose next event lies
  before the top of its day (with that event, the bucket and the top), or when it is back at the first
  bucket (with what it collected).
\<close>

partial_function (option) cal_scan ::
  "(nat \<Rightarrow> event \<Rightarrow> 'a \<Rightarrow> 'a) \<Rightarrow> calendar \<Rightarrow> nat \<Rightarrow> nat \<Rightarrow> 'a \<Rightarrow> (event \<times> nat \<times> nat + 'a) option" where
  "cal_scan collect c i bucketTop acc =
     (let b = cal_buckets c ! i; next = cal_NextEvent (cal_reverse c) b in
      if b \<noteq> [] \<and> unat (ts next) < bucketTop then Some (Inl (next, i, bucketTop))
      else let acc' = (if b \<noteq> [] then collect i next acc else acc);
               i' = u32_add i 1 mod cal_nBuckets c;
               bucketTop' = u64_add bucketTop (cal_width c)
           in if i' = cal_lastBucket c then Some (Inr acc') else cal_scan collect c i' bucketTop' acc')"

declare cal_scan.simps [code]

definition keep_event :: "nat \<Rightarrow> event \<Rightarrow> event \<Rightarrow> event" where
  "keep_event i next minEvent = (if ev_less next minEvent then next else minEvent)"

definition cal_PeekNext :: "calendar \<Rightarrow> event option" where
  "cal_PeekNext c = do {
     ns_assert (\<not> cal_IsEmpty c);
     r \<leftarrow> cal_scan keep_event c (cal_lastBucket c) (cal_bucketTop c)
       \<lparr>impl = 0, key = \<lparr>m_ts = - 1, m_uid = - 1, m_context = 0\<rparr>\<rparr>;
     Some (case r of Inl (next, _) \<Rightarrow> next | Inr minEvent \<Rightarrow> minEvent)
   }"

definition keep_bucket :: "nat \<Rightarrow> event \<Rightarrow> event_key \<times> nat option \<Rightarrow> event_key \<times> nat option" where
  "keep_bucket i next m = (if key_less (key next) (fst m) then (key next, Some i) else m)"

definition pop_bucket :: "nat \<Rightarrow> calendar \<Rightarrow> calendar" where
  "pop_bucket i c = c\<lparr>cal_buckets := (cal_buckets c)[i := cal_Pop (cal_reverse c) (cal_buckets c ! i)]\<rparr>"

definition cal_DoRemoveNext :: "calendar \<Rightarrow> (event \<times> calendar) option" where
  "cal_DoRemoveNext c = do {
     ns_assert (\<not> cal_IsEmpty c);
     r \<leftarrow> cal_scan keep_bucket c (cal_lastBucket c) (cal_bucketTop c) (\<lparr>m_ts = - 1, m_uid = 0, m_context = - 1\<rparr>, None);
     case r of
       Inl (next, i, bucketTop) \<Rightarrow>
         Some (next, pop_bucket i (c\<lparr>cal_lastBucket := i, cal_lastPrio := unat (ts next), cal_bucketTop := bucketTop\<rparr>))
     | Inr (minKey, minBucket) \<Rightarrow>
         (let prio = unat (m_ts minKey);
              c1 = c\<lparr>cal_lastPrio := prio, cal_lastBucket := cal_Hash c prio, cal_bucketTop := top_after (cal_width c) prio\<rparr>
          in do {
            i \<leftarrow> minBucket;
            Some (cal_NextEvent (cal_reverse c) (cal_buckets c ! i), pop_bucket i c1)
          })
   }"

fun take_samples :: "nat \<Rightarrow> calendar \<Rightarrow> (event list \<times> calendar) option" where
  "take_samples 0 c = Some ([], c)"
| "take_samples (Suc n) c = do {
     (e, c1) \<leftarrow> cal_DoRemoveNext c;
     (es, c2) \<leftarrow> take_samples n c1;
     Some (e # es, c2)
   }"

definition separations :: "event list \<Rightarrow> nat list" where
  "separations es = map (\<lambda>(cur, next). u64_sub (unat (ts next)) (unat (ts cur))) (zip es (tl es))"

definition width_of :: "nat \<Rightarrow> event list \<Rightarrow> nat" where
  "width_of nSamples samples =
     (let total = foldl u64_add 0 (separations samples);
          twiceAvg = u64_mul (total div (nSamples - 1)) 2;
          total1 = foldl (\<lambda>t diff. if diff \<le> twiceAvg then u64_add t diff else t) 0 (separations samples)
      in max (u64_mul total1 3) 1)"

definition nSamples :: "nat \<Rightarrow> nat" where
  "nSamples qSize = min 25 (if qSize \<le> 5 then qSize else 5 + qSize div 10)"

definition cal_CalculateNewWidth :: "calendar \<Rightarrow> (nat \<times> calendar) option" where
  "cal_CalculateNewWidth c =
     (if cal_qSize c < 2 then Some (1, c)
      else do {
        (samples, c1) \<leftarrow> take_samples (nSamples (cal_qSize c)) c;
        let c2 = fold cal_DoInsert samples c1;
        Some (width_of (nSamples (cal_qSize c)) samples,
          c2\<lparr>cal_lastBucket := cal_lastBucket c, cal_bucketTop := cal_bucketTop c, cal_lastPrio := cal_lastPrio c\<rparr>)
      })"

definition cal_DoResize :: "nat \<Rightarrow> nat \<Rightarrow> calendar \<Rightarrow> calendar" where
  "cal_DoResize newSize newWidth c =
     fold cal_DoInsert (concat (cal_buckets c)) (cal_Init newSize newWidth (cal_lastPrio c) c)"

definition cal_Resize :: "nat \<Rightarrow> calendar \<Rightarrow> calendar option" where
  "cal_Resize newSize c = do {
     (newWidth, c1) \<leftarrow> cal_CalculateNewWidth c;
     Some (cal_DoResize newSize newWidth c1)
   }"

definition cal_ResizeUp :: "calendar \<Rightarrow> calendar option" where
  "cal_ResizeUp c = (if cal_nBuckets c * 2 < cal_qSize c \<and> cal_nBuckets c < 32768
     then cal_Resize (cal_nBuckets c * 2) c else Some c)"

definition cal_ResizeDown :: "calendar \<Rightarrow> calendar option" where
  "cal_ResizeDown c = (if cal_qSize c < cal_nBuckets c div 2 then cal_Resize (cal_nBuckets c div 2) c else Some c)"

definition cal_Insert :: "calendar \<Rightarrow> event \<Rightarrow> calendar option" where
  "cal_Insert c ev = (let c1 = cal_DoInsert ev c in cal_ResizeUp (c1\<lparr>cal_qSize := u32_add (cal_qSize c1) 1\<rparr>))"

definition cal_RemoveNext :: "calendar \<Rightarrow> (event \<times> calendar) option" where
  "cal_RemoveNext c = do {
     ns_assert (\<not> cal_IsEmpty c);
     (ev, c1) \<leftarrow> cal_DoRemoveNext c;
     c2 \<leftarrow> cal_ResizeDown (c1\<lparr>cal_qSize := u32_sub (cal_qSize c1) 1\<rparr>);
     Some (ev, c2)
   }"

definition cal_Remove :: "calendar \<Rightarrow> event \<Rightarrow> calendar option" where
  "cal_Remove c ev = do {
     ns_assert (\<not> cal_IsEmpty c);
     let bucket = cal_Hash c (unat (ts ev));
     (i, b) \<leftarrow> erase_first (\<lambda>i. uid i = uid ev) (cal_buckets c ! bucket);
     ns_assert (impl ev = impl i);
     cal_ResizeDown (c\<lparr>cal_buckets := (cal_buckets c)[bucket := b], cal_qSize := u32_sub (cal_qSize c) 1\<rparr>)
   }"

definition cal_ops :: "calendar sched_ops" where
  "cal_ops = \<lparr>op_Insert = cal_Insert, op_IsEmpty = cal_IsEmpty, op_PeekNext = cal_PeekNext,
     op_RemoveNext = cal_RemoveNext, op_Remove = cal_Remove\<rparr>"

end
