(* ===== verification/Calendar_Facts.thy ===== *)
theory Calendar_Facts
  imports Calendar_Scheduler
begin

text \<open>
  The calendar keeps the contract of a timed event list: the walk over one year finds the least event as
  long as nothing lies before the last event taken, also where the tops of the days wrap around; inserting,
  removing and resizing keep the buckets sorted and every event in the bucket of its day.
\<close>

subsection \<open>Buckets\<close>

definition in_order :: "bool \<Rightarrow> event \<Rightarrow> event \<Rightarrow> bool" where
  "in_order reverse a b \<longleftrightarrow> (if reverse then rank b \<le> rank a else rank a \<le> rank b)"

abbreviation bucket_ok :: "bool \<Rightarrow> bucket \<Rightarrow> bool" where
  "bucket_ok reverse b \<equiv> sorted_wrt (in_order reverse) b"

lemma mset_bucket_insert: "mset (bucket_insert r e b) = add_mset e (mset b)"
  by (induction b) auto

lemma set_bucket_insert: "set (bucket_insert r e b) = insert e (set b)"
  by (metis mset_bucket_insert set_mset_add_mset_insert set_mset_mset)

lemma bucket_ok_insert: "bucket_ok r b \<Longrightarrow> bucket_ok r (bucket_insert r e b)"
  by (induction b) (auto simp: set_bucket_insert in_order_def cal_Order_def not_less intro: order_trans less_imp_le)

lemma NextEvent_in: "b \<noteq> [] \<Longrightarrow> cal_NextEvent r b \<in> set b"
  by (simp add: cal_NextEvent_def)

lemma Pop_mset: "b \<noteq> [] \<Longrightarrow> mset b = add_mset (cal_NextEvent r b) (mset (cal_Pop r b))"
  using mset_butlast_last[of b] by (cases r; cases b) (simp_all add: cal_NextEvent_def cal_Pop_def)

lemma Pop_set: "set (cal_Pop r b) \<subseteq> set b"
  by (cases b) (auto simp: cal_Pop_def dest: in_set_butlastD)

lemma Pop_ok: "bucket_ok r b \<Longrightarrow> bucket_ok r (cal_Pop r b)"
proof (cases r)
  case True
  assume "bucket_ok r b"
  with True show ?thesis by (cases b rule: rev_cases) (simp_all add: cal_Pop_def sorted_wrt_append)
next
  case False
  assume "bucket_ok r b"
  with False show ?thesis by (cases b) (simp_all add: cal_Pop_def)
qed

lemma NextEvent_least:
  assumes "bucket_ok r b" "x \<in> set b"
  shows "rank (cal_NextEvent r b) \<le> rank x"
proof (cases r)
  case False
  with assms show ?thesis by (cases b) (auto simp: cal_NextEvent_def in_order_def)
next
  case True
  with assms show ?thesis by (cases b rule: rev_cases) (auto simp: cal_NextEvent_def in_order_def sorted_wrt_append)
qed

subsection \<open>The invariant\<close>

definition cal_evs :: "calendar \<Rightarrow> event multiset" where
  "cal_evs c = mset (concat (cal_buckets c))"

definition in_bucket :: "calendar \<Rightarrow> nat \<Rightarrow> event \<Rightarrow> bool" where
  "in_bucket c i e \<longleftrightarrow> cal_Hash c (unat (ts e)) = i \<and> cal_lastPrio c \<le> unat (ts e) \<and> ts e \<noteq> - 1"

definition cal_inv :: "calendar \<Rightarrow> bool" where
  "cal_inv c \<longleftrightarrow> 1 \<le> cal_nBuckets c \<and> cal_nBuckets c < 2 ^ 32 \<and> length (cal_buckets c) = cal_nBuckets c \<and> 1 \<le> cal_width c \<and>
     cal_lastBucket c = cal_Hash c (cal_lastPrio c) \<and> cal_bucketTop c = ((cal_lastPrio c div cal_width c + 1) * cal_width c) mod 2 ^ 64 \<and>
     (\<forall>i < cal_nBuckets c. bucket_ok (cal_reverse c) (cal_buckets c ! i) \<and> (\<forall>e \<in> set (cal_buckets c ! i). in_bucket c i e))"

lemma top_after_eq: "top_after w p = ((p div w + 1) * w) mod 2 ^ 64"
  by (simp add: top_after_def u64_mul_def u64_add_def mod_mult_left_eq del: mult_Suc)

lemma in_cal_evs: "e \<in># cal_evs c \<longleftrightarrow> (\<exists>i < length (cal_buckets c). e \<in> set (cal_buckets c ! i))"
  by (auto simp: cal_evs_def in_set_conv_nth) (metis in_set_conv_nth nth_mem)+

lemma cal_evs_bounds: "cal_inv c \<Longrightarrow> e \<in># cal_evs c \<Longrightarrow> cal_lastPrio c \<le> unat (ts e) \<and> ts e \<noteq> - 1"
  by (auto simp: in_cal_evs cal_inv_def in_bucket_def)

lemma concat_update_add:
  "i < length bs \<Longrightarrow> mset b' = add_mset e (mset (bs ! i)) \<Longrightarrow> mset (concat (bs[i := b'])) = add_mset e (mset (concat bs))"
  by (induction bs arbitrary: i) (auto split: nat.splits)

subsection \<open>The walk over one year\<close>

definition day :: "calendar \<Rightarrow> nat" where
  "day c = cal_lastPrio c div cal_width c"

definition idx :: "calendar \<Rightarrow> nat \<Rightarrow> nat" where
  "idx c j = (day c + j) mod cal_nBuckets c"

definition top_of :: "calendar \<Rightarrow> nat \<Rightarrow> nat" where
  "top_of c j = ((day c + j + 1) * cal_width c) mod 2 ^ 64"

abbreviation bucket_at :: "calendar \<Rightarrow> nat \<Rightarrow> bucket" where
  "bucket_at c j \<equiv> cal_buckets c ! idx c j"

abbreviation head_at :: "calendar \<Rightarrow> nat \<Rightarrow> event" where
  "head_at c j \<equiv> cal_NextEvent (cal_reverse c) (bucket_at c j)"

definition hit :: "calendar \<Rightarrow> nat \<Rightarrow> bool" where
  "hit c j \<longleftrightarrow> bucket_at c j \<noteq> [] \<and> unat (ts (head_at c j)) < top_of c j"

definition collected :: "(nat \<Rightarrow> event \<Rightarrow> 'a \<Rightarrow> 'a) \<Rightarrow> calendar \<Rightarrow> 'a \<Rightarrow> nat \<Rightarrow> 'a" where
  "collected collect c acc j = foldl (\<lambda>a k. if bucket_at c k \<noteq> [] then collect (idx c k) (head_at c k) a else a) acc [0..<j]"

lemma idx_next:
  assumes "1 \<le> cal_nBuckets c" "cal_nBuckets c < 2 ^ 32"
  shows "u32_add (idx c j) 1 mod cal_nBuckets c = idx c (Suc j)"
proof -
  have "idx c j < cal_nBuckets c" using assms by (simp add: idx_def)
  then have "u32_add (idx c j) 1 = Suc (idx c j)" using assms by simp
  then show ?thesis by (simp add: idx_def mod_Suc_eq)
qed

lemma idx_back:
  assumes "Suc j \<le> cal_nBuckets c"
  shows "idx c (Suc j) = idx c 0 \<longleftrightarrow> Suc j = cal_nBuckets c"
proof
  assume "idx c (Suc j) = idx c 0"
  then have "cal_nBuckets c dvd Suc j" unfolding idx_def by (metis add_diff_cancel_left' add_0_right le_add1 mod_eq_dvd_iff_nat)
  then show "Suc j = cal_nBuckets c" using assms by (meson dvd_imp_le le_antisym zero_less_Suc)
next
  assume "Suc j = cal_nBuckets c"
  then show "idx c (Suc j) = idx c 0" by (simp add: idx_def flip: add_Suc_right)
qed

lemma top_next: "u64_add (top_of c j) (cal_width c) = top_of c (Suc j)"
proof -
  have "(day c + Suc j + 1) * cal_width c = (day c + j + 1) * cal_width c + cal_width c" by (simp add: algebra_simps)
  then show ?thesis by (simp only: top_of_def u64_add_def mod_add_left_eq)
qed

lemma scan_from:
  assumes "1 \<le> cal_nBuckets c" "cal_nBuckets c < 2 ^ 32" "cal_lastBucket c = idx c 0" "j < cal_nBuckets c"
  shows "cal_scan collect c (idx c j) (top_of c j) (collected collect c acc j) =
    Some (case find (hit c) [j..<cal_nBuckets c] of
       Some m \<Rightarrow> Inl (head_at c m, idx c m, top_of c m)
     | None \<Rightarrow> Inr (collected collect c acc (cal_nBuckets c)))"
  using assms(4)
proof (induction "cal_nBuckets c - j" arbitrary: j)
  case (Suc d)
  have l: "[j..<cal_nBuckets c] = j # [Suc j..<cal_nBuckets c]" using Suc.prems by (rule upt_conv_Cons)
  show ?case
  proof (cases "hit c j")
    case True
    then show ?thesis unfolding l by (subst cal_scan.simps) (simp add: hit_def)
  next
    case False
    have acc: "collected collect c acc (Suc j) = (if bucket_at c j \<noteq> [] then collect (idx c j) (head_at c j) (collected collect c acc j) else collected collect c acc j)"
      by (simp add: collected_def)
    have step: "cal_scan collect c (idx c j) (top_of c j) (collected collect c acc j) =
        (if Suc j = cal_nBuckets c then Some (Inr (collected collect c acc (Suc j)))
         else cal_scan collect c (idx c (Suc j)) (top_of c (Suc j)) (collected collect c acc (Suc j)))"
      using False idx_back[of j c] Suc.prems assms(3)
      by (subst cal_scan.simps) (simp only: Let_def idx_next[OF assms(1,2)] top_next acc hit_def, simp)
    show ?thesis
    proof (cases "Suc j = cal_nBuckets c")
      case True
      then show ?thesis using False step by (simp add: l)
    next
      case neq: False
      then have "Suc j < cal_nBuckets c" "d = cal_nBuckets c - Suc j" using Suc by auto
      from Suc.hyps(1)[OF this(2,1)] step neq False show ?thesis by (simp add: l)
    qed
  qed
qed simp

text \<open>An event in the bucket of day \<open>j\<close> is of that day or of the same day of a later year.\<close>

lemma day_of_event:
  assumes inv: "cal_inv c" and x: "x \<in># cal_evs c"
  obtains q where "unat (ts x) div cal_width c = day c + q" "x \<in> set (bucket_at c (q mod cal_nBuckets c))"
    "q mod cal_nBuckets c < cal_nBuckets c"
proof -
  let ?w = "cal_width c" and ?n = "cal_nBuckets c"
  from inv x obtain i where i: "i < ?n" "x \<in> set (cal_buckets c ! i)" "in_bucket c i x"
    by (auto simp: in_cal_evs cal_inv_def)
  then have "day c \<le> unat (ts x) div ?w" by (simp add: day_def in_bucket_def div_le_mono)
  then obtain q where q: "unat (ts x) div ?w = day c + q" using le_Suc_ex by blast
  then have "idx c (q mod ?n) = i" using i(3) by (simp add: idx_def in_bucket_def cal_Hash_def mod_add_right_eq)
  with i(2) q that[of q] inv show ?thesis by (simp add: cal_inv_def)
qed

lemma bucket_at_ok:
  assumes "cal_inv c" "j < cal_nBuckets c"
  shows "bucket_ok (cal_reverse c) (bucket_at c j)" "\<And>x. x \<in> set (bucket_at c j) \<Longrightarrow> in_bucket c (idx c j) x \<and> x \<in># cal_evs c"
    "idx c j < cal_nBuckets c" "idx c j < length (cal_buckets c)"
proof -
  show i: "idx c j < cal_nBuckets c" using assms(2) by (simp add: idx_def)
  with assms(1) show "idx c j < length (cal_buckets c)" "bucket_ok (cal_reverse c) (bucket_at c j)" by (simp_all add: cal_inv_def)
  show "in_bucket c (idx c j) x \<and> x \<in># cal_evs c" if "x \<in> set (bucket_at c j)" for x
    using that i assms(1) by (auto simp: cal_inv_def in_cal_evs)
qed

lemma bucket_day:
  assumes inv: "cal_inv c" and j: "j < cal_nBuckets c" and x: "x \<in> set (bucket_at c j)"
  shows "day c + j \<le> unat (ts x) div cal_width c"
proof -
  from bucket_at_ok(2)[OF inv j x] have "x \<in># cal_evs c" "in_bucket c (idx c j) x" by auto
  from day_of_event[OF inv this(1)] obtain q where q: "unat (ts x) div cal_width c = day c + q" by blast
  with \<open>in_bucket c (idx c j) x\<close> have eq: "(day c + q) mod cal_nBuckets c = (day c + j) mod cal_nBuckets c"
    by (simp add: in_bucket_def cal_Hash_def idx_def)
  have "j \<le> q"
  proof (rule ccontr)
    assume "\<not> j \<le> q"
    then have "cal_nBuckets c dvd j - q" using eq mod_eq_dvd_iff_nat[of "day c + q" "day c + j" "cal_nBuckets c"] by simp
    with \<open>\<not> j \<le> q\<close> j show False by (auto dest: dvd_imp_le)
  qed
  with q show ?thesis by simp
qed

lemma hit_day:
  assumes "cal_inv c" "j < cal_nBuckets c" "hit c j"
  shows "unat (ts (head_at c j)) div cal_width c = day c + j"
proof -
  let ?t = "unat (ts (head_at c j))"
  have "?t < (day c + j + 1) * cal_width c"
    using assms(3) mod_less_eq_dividend[of "(day c + j + 1) * cal_width c" "2 ^ 64"] unfolding hit_def top_of_def by linarith
  then have "?t div cal_width c < day c + j + 1" by (rule less_mult_imp_div_less)
  moreover have "head_at c j \<in> set (bucket_at c j)" using assms(3) by (simp add: hit_def NextEvent_in)
  ultimately show ?thesis using bucket_day[OF assms(1,2)] by fastforce
qed

lemma rank_of_ts: "unat (ts a) < unat (ts b) \<Longrightarrow> rank a \<le> rank b"
  by (auto simp: less_eq_prod_simp word_less_nat_alt)

lemma ts_of_rank: "rank a \<le> rank b \<Longrightarrow> unat (ts a) \<le> unat (ts b)"
  using rank_le_ts by (simp add: word_le_nat_alt)

text \<open>No event of day \<open>j\<close> is left when the walk passes it, unless the top of the day wraps around.\<close>

lemma miss_day:
  assumes inv: "cal_inv c" and j: "j < cal_nBuckets c" and miss: "\<not> hit c j" and fits: "(day c + j + 1) * cal_width c < 2 ^ 64"
    and x: "x \<in> set (bucket_at c j)"
  shows "unat (ts x) div cal_width c \<noteq> day c + j"
proof
  assume d: "unat (ts x) div cal_width c = day c + j"
  let ?h = "head_at c j" and ?w = "cal_width c"
  have ne: "bucket_at c j \<noteq> []" using x by auto
  have "rank ?h \<le> rank x" using NextEvent_least[OF bucket_at_ok(1)[OF inv j] x] .
  then have "unat (ts ?h) \<le> unat (ts x)" by (rule ts_of_rank)
  then have "unat (ts ?h) div ?w \<le> day c + j" using d div_le_mono by metis
  moreover have "day c + j \<le> unat (ts ?h) div ?w" using bucket_day[OF inv j NextEvent_in[OF ne]] .
  ultimately have "unat (ts ?h) div ?w = day c + j" by simp
  moreover have "unat (ts ?h) < (unat (ts ?h) div ?w + 1) * ?w"
    using inv dividend_less_div_times[of ?w "unat (ts ?h)"] by (simp add: cal_inv_def)
  ultimately have "hit c j" using ne fits by (simp add: hit_def top_of_def)
  with miss show False ..
qed

lemma hit_least:
  assumes inv: "cal_inv c" and m: "m < cal_nBuckets c" "hit c m" and first: "\<And>j. j < m \<Longrightarrow> \<not> hit c j" and x: "x \<in># cal_evs c"
  shows "rank (head_at c m) \<le> rank x"
proof -
  let ?w = "cal_width c" and ?n = "cal_nBuckets c" and ?h = "head_at c m"
  from day_of_event[OF inv x] obtain q where q: "unat (ts x) div ?w = day c + q" "x \<in> set (bucket_at c (q mod ?n))" .
  note h = hit_day[OF inv m]
  consider "m < q" | "q = m" | "q < m" by linarith
  then show ?thesis
  proof cases
    case 1
    then have "unat (ts ?h) div ?w < unat (ts x) div ?w" using h q(1) by simp
    then have "unat (ts ?h) < unat (ts x)" by (meson div_le_mono leD leI)
    then show ?thesis by (rule rank_of_ts)
  next
    case 2
    with q(2) m(1) NextEvent_least[OF bucket_at_ok(1)[OF inv m(1)]] show ?thesis by simp
  next
    case 3
    then have "(day c + q + 1) * ?w \<le> (day c + m) * ?w" by (intro mult_le_mono1) simp
    also have "... \<le> unat (ts ?h)" unfolding h[symmetric] by simp
    also have "... < 2 ^ 64" by (rule order_less_le_trans[OF unsigned_less]) simp
    finally have "unat (ts x) div ?w \<noteq> day c + q"
      using miss_day[OF inv _ first[OF 3]] 3 m(1) q(2) by simp
    with q(1) show ?thesis by simp
  qed
qed

subsection \<open>The fallback\<close>

lemma fold_least:
  fixes g :: "'p \<Rightarrow> 'k::linorder"
  assumes "\<And>p. h (mk p) = g p" "ps \<noteq> []" "\<forall>p \<in> set ps. g p < h m0"
  shows "\<exists>p \<in> set ps. foldl (\<lambda>m p. if g p < h m then mk p else m) m0 ps = mk p \<and> (\<forall>q \<in> set ps. g p \<le> g q)"
  using assms(2,3)
proof (induction ps rule: rev_induct)
  case (snoc p ps)
  show ?case
  proof (cases "ps = []")
    case True
    with snoc.prems show ?thesis by simp
  next
    case False
    from snoc.IH[OF this] snoc.prems(2) obtain r where
      "r \<in> set ps" "foldl (\<lambda>m p. if g p < h m then mk p else m) m0 ps = mk r" "\<forall>q \<in> set ps. g r \<le> g q" by auto
    with assms(1) show ?thesis by (cases "g p < g r") force+
  qed
qed simp

definition heads :: "calendar \<Rightarrow> (nat \<times> event) list" where
  "heads c = map (\<lambda>k. (idx c k, head_at c k)) (filter (\<lambda>k. bucket_at c k \<noteq> []) [0..<cal_nBuckets c])"

lemma collected_heads: "collected collect c acc (cal_nBuckets c) = foldl (\<lambda>a (i, e). collect i e a) acc (heads c)"
proof -
  have "foldl (\<lambda>a k. if bucket_at c k \<noteq> [] then collect (idx c k) (head_at c k) a else a) acc ks =
    foldl (\<lambda>a (i, e). collect i e a) acc (map (\<lambda>k. (idx c k, head_at c k)) (filter (\<lambda>k. bucket_at c k \<noteq> []) ks))" for ks acc
    by (induction ks arbitrary: acc) simp_all
  then show ?thesis by (simp add: collected_def heads_def)
qed

lemma heads_props:
  assumes inv: "cal_inv c" and p: "(i, e) \<in> set (heads c)"
  shows "i < cal_nBuckets c" "cal_buckets c ! i \<noteq> []" "e = cal_NextEvent (cal_reverse c) (cal_buckets c ! i)" "e \<in># cal_evs c" "ts e \<noteq> - 1"
proof -
  from p obtain k where k: "k < cal_nBuckets c" "bucket_at c k \<noteq> []" "i = idx c k" "e = head_at c k"
    by (auto simp: heads_def)
  with bucket_at_ok[OF inv k(1)] NextEvent_in[OF k(2)] show "i < cal_nBuckets c" "cal_buckets c ! i \<noteq> []"
    "e = cal_NextEvent (cal_reverse c) (cal_buckets c ! i)" "e \<in># cal_evs c" "ts e \<noteq> - 1"
    by (auto simp: in_bucket_def)
qed

lemma heads_cover:
  assumes inv: "cal_inv c" and x: "x \<in># cal_evs c"
  shows "\<exists>(i, e) \<in> set (heads c). rank e \<le> rank x"
proof -
  from day_of_event[OF inv x] obtain q where q: "x \<in> set (bucket_at c (q mod cal_nBuckets c))" "q mod cal_nBuckets c < cal_nBuckets c" .
  then have "(idx c (q mod cal_nBuckets c), head_at c (q mod cal_nBuckets c)) \<in> set (heads c)" by (auto simp: heads_def)
  moreover have "rank (head_at c (q mod cal_nBuckets c)) \<le> rank x" using NextEvent_least[OF bucket_at_ok(1)[OF inv q(2)] q(1)] .
  ultimately show ?thesis by blast
qed

subsection \<open>Taking the next event\<close>

text \<open>The state after \<open>e\<close> was taken from bucket \<open>i\<close>.\<close>

definition taken :: "nat \<Rightarrow> event \<Rightarrow> calendar \<Rightarrow> calendar" where
  "taken i e c = pop_bucket i (c\<lparr>cal_lastBucket := cal_Hash c (unat (ts e)), cal_lastPrio := unat (ts e),
     cal_bucketTop := top_after (cal_width c) (unat (ts e))\<rparr>)"

lemma taken_inv:
  assumes inv: "cal_inv c" and i: "i < cal_nBuckets c" "cal_buckets c ! i \<noteq> []"
    and e: "e = cal_NextEvent (cal_reverse c) (cal_buckets c ! i)" and least: "\<forall>x \<in># cal_evs c. rank e \<le> rank x"
  shows "cal_inv (taken i e c)" "cal_evs c = add_mset e (cal_evs (taken i e c))"
proof -
  let ?b = "cal_buckets c ! i" and ?c = "taken i e c"
  have len: "length (cal_buckets c) = cal_nBuckets c" using inv by (simp add: cal_inv_def)
  have bs: "cal_buckets ?c = (cal_buckets c)[i := cal_Pop (cal_reverse c) ?b]" by (simp add: taken_def pop_bucket_def)
  have m: "mset ?b = add_mset e (mset (cal_Pop (cal_reverse c) ?b))" using Pop_mset[OF i(2)] e by simp
  have "mset (concat ((cal_buckets ?c)[i := ?b])) = add_mset e (mset (concat (cal_buckets ?c)))"
    using m i(1) len by (intro concat_update_add) (simp_all add: bs)
  moreover have "(cal_buckets ?c)[i := ?b] = cal_buckets c" by (simp add: bs)
  ultimately show "cal_evs c = add_mset e (cal_evs ?c)" by (simp add: cal_evs_def)
  have in_b: "in_bucket ?c j x" if "j < cal_nBuckets c" "x \<in> set (cal_buckets c ! j)" for j x
  proof -
    have "x \<in># cal_evs c" "in_bucket c j x" using that inv by (auto simp: in_cal_evs cal_inv_def)
    with least have "unat (ts e) \<le> unat (ts x)" by (intro ts_of_rank) simp
    with \<open>in_bucket c j x\<close> show ?thesis by (simp add: in_bucket_def taken_def pop_bucket_def cal_Hash_def)
  qed
  have "bucket_ok (cal_reverse c) (cal_buckets ?c ! j) \<and> (\<forall>x \<in> set (cal_buckets ?c ! j). in_bucket ?c j x)" if j: "j < cal_nBuckets c" for j
  proof (cases "j = i")
    case True
    with i len inv in_b[OF i(1)] Pop_set[of "cal_reverse c" ?b] show ?thesis by (auto simp: bs Pop_ok cal_inv_def)
  next
    case False
    with j len inv in_b[OF j] show ?thesis by (simp add: bs cal_inv_def)
  qed
  with inv show "cal_inv ?c"
    by (simp add: cal_inv_def top_after_eq taken_def pop_bucket_def cal_Hash_def)
qed

lemma taken_simps [simp]:
  "cal_reverse (taken i e c) = cal_reverse c" "cal_nBuckets (taken i e c) = cal_nBuckets c" "cal_width (taken i e c) = cal_width c"
  "cal_qSize (taken i e c) = cal_qSize c" "cal_lastPrio (taken i e c) = unat (ts e)"
  by (simp_all add: taken_def pop_bucket_def)

lemma scan_result:
  assumes inv: "cal_inv c"
  shows "cal_scan collect c (cal_lastBucket c) (cal_bucketTop c) acc =
    Some (case find (hit c) [0..<cal_nBuckets c] of
       Some m \<Rightarrow> Inl (head_at c m, idx c m, top_of c m)
     | None \<Rightarrow> Inr (foldl (\<lambda>a (i, e). collect i e a) acc (heads c)))"
proof -
  have start: "cal_lastBucket c = idx c 0" "cal_bucketTop c = top_of c 0"
    using inv by (simp_all add: cal_inv_def idx_def top_of_def day_def cal_Hash_def)
  have n: "1 \<le> cal_nBuckets c" "cal_nBuckets c < 2 ^ 32" "0 < cal_nBuckets c" using inv by (simp_all add: cal_inv_def)
  have "collected collect c acc 0 = acc" by (simp add: collected_def)
  with scan_from[OF n(1,2) start(1) n(3), of collect acc] show ?thesis by (simp only: start collected_heads)
qed

text \<open>\<open>DoRemoveNext\<close> takes the least event, and \<open>PeekNext\<close> shows it.\<close>

lemma found_by_walk:
  assumes inv: "cal_inv c" and m: "find (hit c) [0..<cal_nBuckets c] = Some m"
  shows "m < cal_nBuckets c" "head_at c m \<in># cal_evs c" "\<forall>x \<in># cal_evs c. rank (head_at c m) \<le> rank x"
    "bucket_at c m \<noteq> []" "idx c m = cal_Hash c (unat (ts (head_at c m)))"
    "top_of c m = top_after (cal_width c) (unat (ts (head_at c m)))"
proof -
  from m have h: "m < cal_nBuckets c" "hit c m" "\<And>j. j < m \<Longrightarrow> \<not> hit c j" by (auto simp: find_Some_iff)
  then show "m < cal_nBuckets c" "bucket_at c m \<noteq> []" by (simp_all add: hit_def)
  show "\<forall>x \<in># cal_evs c. rank (head_at c m) \<le> rank x" using hit_least[OF inv h] by blast
  from h(2) have "head_at c m \<in> set (bucket_at c m)" by (simp add: hit_def NextEvent_in)
  with bucket_at_ok(2)[OF inv h(1)] show "head_at c m \<in># cal_evs c" "idx c m = cal_Hash c (unat (ts (head_at c m)))"
    by (auto simp: in_bucket_def)
  show "top_of c m = top_after (cal_width c) (unat (ts (head_at c m)))"
    by (simp add: top_of_def top_after_eq hit_day[OF inv h(1,2)])
qed

lemma DoRemoveNext_spec:
  assumes inv: "cal_inv c" and ne: "cal_evs c \<noteq> {#}" and size: "cal_qSize c \<noteq> 0"
  shows "\<exists>i e. cal_DoRemoveNext c = Some (e, taken i e c) \<and> cal_inv (taken i e c) \<and> cal_evs c = add_mset e (cal_evs (taken i e c)) \<and>
    (\<forall>x \<in># cal_evs c. rank e \<le> rank x) \<and> ts e \<noteq> - 1"
proof (cases "find (hit c) [0..<cal_nBuckets c]")
  case (Some m)
  note f = found_by_walk[OF inv Some]
  have "cal_DoRemoveNext c = Some (head_at c m, taken (idx c m) (head_at c m) c)"
    using size by (simp add: cal_DoRemoveNext_def cal_IsEmpty_def scan_result[OF inv] Some taken_def flip: f(5,6))
  moreover have "ts (head_at c m) \<noteq> - 1"
    using bucket_at_ok(2)[OF inv f(1) NextEvent_in[OF f(4)]] by (simp add: in_bucket_def)
  ultimately show ?thesis using f(3) taken_inv[OF inv bucket_at_ok(3)[OF inv f(1)] f(4) refl f(3)]
    by (intro exI[of _ "idx c m"] exI[of _ "head_at c m"] conjI)
next
  case None
  let ?s = "(\<lparr>m_ts = - 1, m_uid = 0, m_context = - 1\<rparr>, None) :: event_key \<times> nat option"
  obtain x where "x \<in># cal_evs c" using ne by (meson multiset_nonemptyE)
  with heads_cover[OF inv] have "heads c \<noteq> []" by fastforce
  moreover have "\<forall>p \<in> set (heads c). rank (snd p) < key_rank (fst ?s)"
    using heads_props(5)[OF inv] by (fastforce simp: less_prod_simp intro: le_neq_trans)
  ultimately obtain p where p: "p \<in> set (heads c)" "\<forall>q \<in> set (heads c). rank (snd p) \<le> rank (snd q)"
    "foldl (\<lambda>m p. if rank (snd p) < key_rank (fst m) then (key (snd p), Some (fst p)) else m) ?s (heads c) = (key (snd p), Some (fst p))"
    using fold_least[of "\<lambda>m. key_rank (fst m)" "\<lambda>p. (key (snd p), Some (fst p))" "\<lambda>p. rank (snd p)" "heads c" ?s] by auto
  obtain i e where ie: "p = (i, e)" by force
  have "(\<lambda>a (i, e). keep_bucket i e a) = (\<lambda>m p. if rank (snd p) < key_rank (fst m) then (key (snd p), Some (fst p)) else m)"
    by (intro ext) (simp add: keep_bucket_def split: prod.split)
  then have "foldl (\<lambda>a (i, e). keep_bucket i e a) ?s (heads c) = (key e, Some i)"
    using p(3) ie by (simp only: fst_conv snd_conv)
  then have "cal_DoRemoveNext c = Some (e, taken i e c)"
    using size heads_props(3)[OF inv] p(1) ie
    by (simp add: cal_DoRemoveNext_def cal_IsEmpty_def scan_result[OF inv] None taken_def cal_Hash_def Let_def pop_bucket_def)
  moreover have least: "\<forall>x \<in># cal_evs c. rank e \<le> rank x"
  proof
    fix x assume "x \<in># cal_evs c"
    with heads_cover[OF inv] obtain j h where "(j, h) \<in> set (heads c)" "rank h \<le> rank x" by blast
    with p(2) ie show "rank e \<le> rank x" by fastforce
  qed
  moreover note h = heads_props[OF inv, of i e, OF p(1)[unfolded ie]]
  ultimately show ?thesis using taken_inv[OF inv h(1,2,3) least]
    by (intro exI[of _ i] exI[of _ e] conjI)
qed

lemma PeekNext_spec:
  assumes inv: "cal_inv c" and ne: "cal_evs c \<noteq> {#}" and size: "cal_qSize c \<noteq> 0"
  shows "\<exists>e \<in># cal_evs c. cal_PeekNext c = Some e \<and> (\<forall>x \<in># cal_evs c. rank e \<le> rank x)"
proof (cases "find (hit c) [0..<cal_nBuckets c]")
  case (Some m)
  note f = found_by_walk[OF inv Some]
  have "cal_PeekNext c = Some (head_at c m)"
    using size by (simp add: cal_PeekNext_def cal_IsEmpty_def scan_result[OF inv] Some)
  with f(2,3) show ?thesis by blast
next
  case None
  let ?s = "\<lparr>impl = 0, key = \<lparr>m_ts = - 1, m_uid = - 1, m_context = 0\<rparr>\<rparr> :: event"
  obtain x where "x \<in># cal_evs c" using ne by (meson multiset_nonemptyE)
  with heads_cover[OF inv] have "heads c \<noteq> []" by fastforce
  moreover have "\<forall>p \<in> set (heads c). rank (snd p) < rank ?s"
    using heads_props(5)[OF inv] by (fastforce simp: less_prod_simp intro: le_neq_trans)
  ultimately obtain p where p: "p \<in> set (heads c)" "\<forall>q \<in> set (heads c). rank (snd p) \<le> rank (snd q)"
    "foldl (\<lambda>m p. if rank (snd p) < rank m then snd p else m) ?s (heads c) = snd p"
    using fold_least[of "\<lambda>m. rank m" snd "\<lambda>p. rank (snd p)" "heads c" ?s] by auto
  obtain i e where ie: "p = (i, e)" by force
  have "(\<lambda>a (i, e). keep_event i e a) = (\<lambda>m p. if rank (snd p) < rank m then snd p else m)"
    by (intro ext) (simp add: keep_event_def split: prod.split)
  then have "foldl (\<lambda>a (i, e). keep_event i e a) ?s (heads c) = e" using p(3) ie by (simp only: snd_conv)
  then have "cal_PeekNext c = Some e"
    using size by (simp add: cal_PeekNext_def cal_IsEmpty_def scan_result[OF inv] None)
  moreover have "rank e \<le> rank x" if "x \<in># cal_evs c" for x
  proof -
    from that heads_cover[OF inv] obtain j h where "(j, h) \<in> set (heads c)" "rank h \<le> rank x" by blast
    with p(2) ie show ?thesis by fastforce
  qed
  moreover have "e \<in># cal_evs c" using heads_props(4)[OF inv] p(1) ie by simp
  ultimately show ?thesis by blast
qed

subsection \<open>Inserting and resizing\<close>

lemma DoInsert_simps [simp]:
  "cal_reverse (cal_DoInsert e c) = cal_reverse c" "cal_nBuckets (cal_DoInsert e c) = cal_nBuckets c"
  "cal_width (cal_DoInsert e c) = cal_width c" "cal_qSize (cal_DoInsert e c) = cal_qSize c"
  "cal_lastPrio (cal_DoInsert e c) = cal_lastPrio c" "cal_lastBucket (cal_DoInsert e c) = cal_lastBucket c"
  "cal_bucketTop (cal_DoInsert e c) = cal_bucketTop c"
  by (simp_all add: cal_DoInsert_def Let_def)

lemma DoInsert_spec:
  assumes inv: "cal_inv c" and e: "cal_lastPrio c \<le> unat (ts e)" "ts e \<noteq> - 1"
  shows "cal_inv (cal_DoInsert e c) \<and> cal_evs (cal_DoInsert e c) = add_mset e (cal_evs c)"
proof -
  let ?i = "cal_Hash c (unat (ts e))" and ?c = "cal_DoInsert e c"
  have n: "0 < cal_nBuckets c" "length (cal_buckets c) = cal_nBuckets c" using inv by (simp_all add: cal_inv_def)
  then have i: "?i < length (cal_buckets c)" by (simp add: cal_Hash_def)
  have bs: "cal_buckets ?c = (cal_buckets c)[?i := bucket_insert (cal_reverse c) e (cal_buckets c ! ?i)]"
    by (simp add: cal_DoInsert_def Let_def)
  have same: "in_bucket ?c = in_bucket c" "cal_Hash ?c = cal_Hash c" by (intro ext; simp add: in_bucket_def cal_Hash_def)+
  have "cal_evs ?c = add_mset e (cal_evs c)"
    using concat_update_add[OF i mset_bucket_insert] by (simp add: cal_evs_def bs)
  moreover have "bucket_ok (cal_reverse c) (cal_buckets ?c ! j) \<and> (\<forall>x \<in> set (cal_buckets ?c ! j). in_bucket c j x)" if "j < cal_nBuckets c" for j
    using that inv e i n(2)
    by (cases "j = ?i") (auto simp: bs cal_inv_def bucket_ok_insert set_bucket_insert in_bucket_def)
  then have "cal_inv ?c" using inv unfolding cal_inv_def same DoInsert_simps by (simp add: bs)
  ultimately show ?thesis by simp
qed

lemma DoInserts_simps [simp]:
  "cal_reverse (fold cal_DoInsert es c) = cal_reverse c" "cal_nBuckets (fold cal_DoInsert es c) = cal_nBuckets c"
  "cal_width (fold cal_DoInsert es c) = cal_width c" "cal_qSize (fold cal_DoInsert es c) = cal_qSize c"
  "cal_lastPrio (fold cal_DoInsert es c) = cal_lastPrio c"
  by (induction es arbitrary: c) simp_all

lemma DoInserts_spec:
  assumes "cal_inv c" "\<forall>e \<in> set es. cal_lastPrio c \<le> unat (ts e) \<and> ts e \<noteq> - 1"
  shows "cal_inv (fold cal_DoInsert es c) \<and> cal_evs (fold cal_DoInsert es c) = mset es + cal_evs c"
  using assms
proof (induction es arbitrary: c)
  case (Cons e es)
  with DoInsert_spec[of c e] show ?case by simp
qed simp

definition move_to :: "calendar \<Rightarrow> calendar \<Rightarrow> calendar" where
  "move_to c c' = c'\<lparr>cal_lastBucket := cal_lastBucket c, cal_bucketTop := cal_bucketTop c, cal_lastPrio := cal_lastPrio c\<rparr>"

lemma move_to_DoInserts: "move_to c (fold cal_DoInsert es c') = fold cal_DoInsert es (move_to c c')"
proof -
  have "move_to c (cal_DoInsert e c') = cal_DoInsert e (move_to c c')" for e c'
    by (simp add: move_to_def cal_DoInsert_def cal_Hash_def Let_def)
  then show ?thesis by (induction es arbitrary: c') simp_all
qed

lemma move_to_inv:
  assumes "cal_inv c" "cal_inv c'" "cal_nBuckets c' = cal_nBuckets c" "cal_width c' = cal_width c" "cal_evs c' \<subseteq># cal_evs c"
  shows "cal_inv (move_to c c')" "cal_evs (move_to c c') = cal_evs c'"
proof -
  have late: "cal_lastPrio c \<le> unat (ts x)" if "x \<in># cal_evs c'" for x
  proof -
    have "x \<in># cal_evs c" using that assms(5) by (rule mset_subset_eqD[rotated])
    with cal_evs_bounds[OF assms(1)] show ?thesis by blast
  qed
  have "in_bucket (move_to c c') i x" if "in_bucket c' i x" "x \<in># cal_evs c'" for i x
    using that late by (simp add: in_bucket_def move_to_def cal_Hash_def)
  then show "cal_inv (move_to c c')" using assms(1-4)
    by (auto simp: cal_inv_def move_to_def cal_Hash_def in_cal_evs)
  show "cal_evs (move_to c c') = cal_evs c'" by (simp add: cal_evs_def move_to_def)
qed

lemma take_samples_spec:
  assumes "cal_inv c" "n \<le> size (cal_evs c)" "cal_qSize c \<noteq> 0"
  shows "\<exists>es c'. take_samples n c = Some (es, c') \<and> cal_inv c' \<and> cal_evs c = mset es + cal_evs c' \<and>
    cal_nBuckets c' = cal_nBuckets c \<and> cal_width c' = cal_width c \<and> cal_reverse c' = cal_reverse c \<and> cal_qSize c' = cal_qSize c"
  using assms
proof (induction n arbitrary: c)
  case (Suc n)
  then have "cal_evs c \<noteq> {#}" by auto
  from DoRemoveNext_spec[OF Suc.prems(1) this Suc.prems(3)] obtain i e where
    r: "cal_DoRemoveNext c = Some (e, taken i e c)" "cal_inv (taken i e c)" "cal_evs c = add_mset e (cal_evs (taken i e c))" by blast
  from Suc.IH[OF r(2)] Suc.prems(2,3) r(3) obtain es c' where "take_samples n (taken i e c) = Some (es, c')" "cal_inv c'"
    "cal_evs (taken i e c) = mset es + cal_evs c'" "cal_nBuckets c' = cal_nBuckets c" "cal_width c' = cal_width c"
    "cal_reverse c' = cal_reverse c" "cal_qSize c' = cal_qSize c" by auto
  with r show ?case by simp
qed simp

lemma CalculateNewWidth_spec:
  assumes inv: "cal_inv c" and size: "cal_qSize c = size (cal_evs c)"
  shows "\<exists>w c'. cal_CalculateNewWidth c = Some (w, c') \<and> 1 \<le> w \<and> cal_inv c' \<and> cal_evs c' = cal_evs c \<and>
    cal_lastPrio c' = cal_lastPrio c \<and> cal_nBuckets c' = cal_nBuckets c \<and> cal_reverse c' = cal_reverse c \<and> cal_qSize c' = cal_qSize c"
proof (cases "cal_qSize c < 2")
  case True
  with inv show ?thesis by (simp add: cal_CalculateNewWidth_def)
next
  case False
  then have "nSamples (cal_qSize c) \<le> size (cal_evs c)" "cal_qSize c \<noteq> 0" using size by (auto simp: nSamples_def)
  from take_samples_spec[OF inv this] obtain es c1 where s: "take_samples (nSamples (cal_qSize c)) c = Some (es, c1)" "cal_inv c1"
    "cal_evs c = mset es + cal_evs c1" "cal_nBuckets c1 = cal_nBuckets c" "cal_width c1 = cal_width c"
    "cal_reverse c1 = cal_reverse c" "cal_qSize c1 = cal_qSize c" by blast
  let ?c = "fold cal_DoInsert es (move_to c c1)"
  have m: "cal_inv (move_to c c1)" "cal_evs (move_to c c1) = cal_evs c1"
    using move_to_inv[OF inv s(2,4,5)] s(3) by simp_all
  have "\<forall>e \<in> set es. cal_lastPrio c \<le> unat (ts e) \<and> ts e \<noteq> - 1"
    using cal_evs_bounds[OF inv] s(3) by simp
  then have i: "cal_inv ?c \<and> cal_evs ?c = mset es + cal_evs c1" using DoInserts_spec[OF m(1), of es] m(2) by (simp add: move_to_def)
  moreover have "cal_CalculateNewWidth c = Some (width_of (nSamples (cal_qSize c)) es, ?c)"
    using False s(1) by (simp add: cal_CalculateNewWidth_def Let_def flip: move_to_DoInserts) (simp add: move_to_def)
  moreover have "1 \<le> width_of (nSamples (cal_qSize c)) es" by (simp add: width_of_def Let_def)
  ultimately show ?thesis using s(3,4,6,7) by (simp add: move_to_def)
qed

lemma Resize_spec:
  assumes inv: "cal_inv c" and size: "cal_qSize c = size (cal_evs c)" and n: "1 \<le> n" "n < 2 ^ 32"
  shows "\<exists>c'. cal_Resize n c = Some c' \<and> cal_inv c' \<and> cal_evs c' = cal_evs c \<and> cal_lastPrio c' = cal_lastPrio c \<and>
    cal_nBuckets c' = n \<and> cal_qSize c' = cal_qSize c"
proof -
  from CalculateNewWidth_spec[OF inv size] obtain w c1 where c1: "cal_CalculateNewWidth c = Some (w, c1)" "1 \<le> w" "cal_inv c1"
    "cal_evs c1 = cal_evs c" "cal_lastPrio c1 = cal_lastPrio c" "cal_qSize c1 = cal_qSize c" by blast
  let ?c0 = "cal_Init n w (cal_lastPrio c1) c1"
  have c0: "cal_inv ?c0" "cal_evs ?c0 = {#}" "cal_lastPrio ?c0 = cal_lastPrio c" "cal_nBuckets ?c0 = n" "cal_qSize ?c0 = cal_qSize c"
    using n c1 by (simp_all add: cal_inv_def cal_Init_def Let_def top_after_eq cal_Hash_def cal_evs_def)
  have "\<forall>e \<in> set (concat (cal_buckets c1)). cal_lastPrio ?c0 \<le> unat (ts e) \<and> ts e \<noteq> - 1"
    using cal_evs_bounds[OF c1(3)] c1(5) c0(3) by (simp add: cal_evs_def)
  from DoInserts_spec[OF c0(1) this] c0 c1 show ?thesis
    by (simp add: cal_Resize_def cal_DoResize_def cal_evs_def)
qed

subsection \<open>The contract\<close>

text \<open>
  The number of buckets is a power of two between 1 and 32768; it follows the number of events: at most two
  events a bucket, unless there are 32768 buckets, and at least one event for two buckets, unless there are two.
\<close>

definition load_ok :: "calendar \<Rightarrow> bool" where
  "load_ok c \<longleftrightarrow> (\<exists>k \<le> 15. cal_nBuckets c = 2 ^ k) \<and> (cal_qSize c \<le> 2 * cal_nBuckets c \<or> cal_nBuckets c = 32768) \<and>
     (cal_nBuckets c div 2 \<le> cal_qSize c \<or> cal_nBuckets c = 2)"

definition cal_ok :: "u64 \<Rightarrow> calendar \<Rightarrow> bool" where
  "cal_ok now c \<longleftrightarrow> cal_inv c \<and> cal_qSize c = size (cal_evs c) \<and> cal_qSize c < 2 ^ 32 \<and> cal_lastPrio c \<le> unat now \<and> load_ok c"

lemma ResizeUp_spec:
  assumes inv: "cal_inv c" and size: "cal_qSize c = size (cal_evs c)" and n: "\<exists>k \<le> 15. cal_nBuckets c = 2 ^ k"
    and load: "cal_qSize c \<le> 2 * cal_nBuckets c + 1 \<or> cal_nBuckets c = 32768" "cal_nBuckets c div 2 \<le> cal_qSize c \<or> cal_nBuckets c = 2"
  shows "\<exists>c'. cal_ResizeUp c = Some c' \<and> cal_inv c' \<and> cal_evs c' = cal_evs c \<and> cal_lastPrio c' = cal_lastPrio c \<and>
    cal_qSize c' = cal_qSize c \<and> load_ok c'"
proof (cases "cal_nBuckets c * 2 < cal_qSize c \<and> cal_nBuckets c < 32768")
  case True
  from n obtain k where k: "k \<le> 15" "cal_nBuckets c = 2 ^ k" by blast
  have "k < 15"
  proof (rule ccontr)
    assume "\<not> k < 15"
    with k True show False by simp
  qed
  then have n': "\<exists>k \<le> 15. cal_nBuckets c * 2 = 2 ^ k" using k by (intro exI[of _ "Suc k"]) simp
  have "1 \<le> cal_nBuckets c * 2" "cal_nBuckets c * 2 < 2 ^ 32" using True k(2) by simp_all
  from Resize_spec[OF inv size this] obtain c' where c': "cal_Resize (cal_nBuckets c * 2) c = Some c'" "cal_inv c'"
    "cal_evs c' = cal_evs c" "cal_lastPrio c' = cal_lastPrio c" "cal_nBuckets c' = cal_nBuckets c * 2" "cal_qSize c' = cal_qSize c" by blast
  have "cal_qSize c \<le> 2 * (cal_nBuckets c * 2)" "cal_nBuckets c * 2 div 2 \<le> cal_qSize c" using load True inv by (auto simp: cal_inv_def)
  then have "load_ok c'" using n' by (simp add: load_ok_def c'(5,6))
  with c' True show ?thesis by (simp add: cal_ResizeUp_def)
next
  case False
  have "cal_nBuckets c \<le> 32768" using n power_increasing[of _ 15 "2 :: nat"] by fastforce
  with False load have "cal_qSize c \<le> 2 * cal_nBuckets c \<or> cal_nBuckets c = 32768" by linarith
  with False inv n load(2) show ?thesis by (auto simp: cal_ResizeUp_def load_ok_def)
qed

lemma ResizeDown_spec:
  assumes inv: "cal_inv c" and size: "cal_qSize c = size (cal_evs c)" and n: "\<exists>k \<le> 15. cal_nBuckets c = 2 ^ k"
    and load: "cal_qSize c \<le> 2 * cal_nBuckets c \<or> cal_nBuckets c = 32768" "cal_nBuckets c div 2 \<le> cal_qSize c + 1 \<or> cal_nBuckets c = 2"
  shows "\<exists>c'. cal_ResizeDown c = Some c' \<and> cal_inv c' \<and> cal_evs c' = cal_evs c \<and> cal_lastPrio c' = cal_lastPrio c \<and>
    cal_qSize c' = cal_qSize c \<and> load_ok c'"
proof (cases "cal_qSize c < cal_nBuckets c div 2")
  case True
  from n obtain k where k: "k \<le> 15" "cal_nBuckets c = 2 ^ k" by blast
  with True obtain m where m: "k = Suc m" by (cases k) auto
  have half: "cal_nBuckets c div 2 = 2 ^ m" using k m by simp
  have "\<exists>k \<le> 15. cal_nBuckets c div 2 = 2 ^ k" using k m half by (intro exI[of _ m]) simp
  moreover have "1 \<le> cal_nBuckets c div 2" "cal_nBuckets c div 2 < 2 ^ 32"
    using half power_increasing[of m 15 "2 :: nat"] k m by simp_all
  moreover have "cal_nBuckets c div 2 div 2 \<le> cal_qSize c \<or> cal_nBuckets c div 2 = 2"
    using load(2) True half by (cases m) auto
  ultimately show ?thesis using Resize_spec[OF inv size] True by (fastforce simp: cal_ResizeDown_def load_ok_def)
next
  case False
  with inv n load show ?thesis by (auto simp: cal_ResizeDown_def load_ok_def)
qed

lemma cal_qSize_update [simp]: "cal_inv (c\<lparr>cal_qSize := q\<rparr>) = cal_inv c" "cal_evs (c\<lparr>cal_qSize := q\<rparr>) = cal_evs c"
  by (simp_all add: cal_inv_def cal_evs_def in_bucket_def[abs_def] cal_Hash_def)

lemma Insert_spec:
  assumes ok: "cal_ok now c" and e: "now \<le> ts e" "ts e \<noteq> - 1" and size: "size (cal_evs c) < 2 ^ 32 - 1"
  shows "\<exists>c'. cal_Insert c e = Some c' \<and> cal_ok now c' \<and> cal_evs c' = add_mset e (cal_evs c)"
proof -
  let ?c = "(cal_DoInsert e c)\<lparr>cal_qSize := cal_qSize c + 1\<rparr>"
  have inv: "cal_inv c" and q: "cal_qSize c = size (cal_evs c)" "cal_qSize c + 1 < 2 ^ 32" and l: "load_ok c"
    and now: "cal_lastPrio c \<le> unat now" using ok size by (auto simp: cal_ok_def)
  have "cal_lastPrio c \<le> unat (ts e)" using now e(1) by (simp add: word_le_nat_alt)
  then have d: "cal_inv (cal_DoInsert e c)" "cal_evs (cal_DoInsert e c) = add_mset e (cal_evs c)"
    using DoInsert_spec[OF inv _ e(2)] by auto
  have "\<exists>c'. cal_ResizeUp ?c = Some c' \<and> cal_inv c' \<and> cal_evs c' = cal_evs ?c \<and> cal_lastPrio c' = cal_lastPrio ?c \<and>
    cal_qSize c' = cal_qSize ?c \<and> load_ok c'"
    using l d q by (intro ResizeUp_spec) (auto simp: load_ok_def)
  then show ?thesis using d(2) q now by (auto simp: cal_Insert_def Let_def cal_ok_def)
qed

text \<open>Removing an event from the lists, then shrinking if need be.\<close>

lemma shrink_spec:
  assumes ok: "cal_ok now c" and c1: "cal_inv c1" "cal_evs c = add_mset e (cal_evs c1)" "cal_nBuckets c1 = cal_nBuckets c"
    "cal_qSize c1 = cal_qSize c"
  shows "\<exists>c2. cal_ResizeDown (c1\<lparr>cal_qSize := u32_sub (cal_qSize c1) 1\<rparr>) = Some c2 \<and> cal_inv c2 \<and> cal_evs c2 = cal_evs c1 \<and>
    cal_lastPrio c2 = cal_lastPrio c1 \<and> cal_qSize c2 = size (cal_evs c1) \<and> cal_qSize c2 < 2 ^ 32 \<and> load_ok c2"
proof -
  have q: "cal_qSize c = Suc (size (cal_evs c1))" "cal_qSize c < 2 ^ 32" "load_ok c" using ok c1(2) by (auto simp: cal_ok_def)
  let ?c = "c1\<lparr>cal_qSize := size (cal_evs c1)\<rparr>"
  have "\<exists>c'. cal_ResizeDown ?c = Some c' \<and> cal_inv c' \<and> cal_evs c' = cal_evs ?c \<and> cal_lastPrio c' = cal_lastPrio ?c \<and>
    cal_qSize c' = cal_qSize ?c \<and> load_ok c'"
    using q c1 by (intro ResizeDown_spec) (auto simp: load_ok_def)
  then show ?thesis using q c1(4) by auto
qed

lemma RemoveNext_cal:
  assumes ok: "cal_ok now c" and ne: "cal_evs c \<noteq> {#}"
  shows "\<exists>e c'. cal_RemoveNext c = Some (e, c') \<and> cal_ok (ts e) c' \<and> cal_evs c = add_mset e (cal_evs c') \<and>
    (\<forall>x \<in># cal_evs c. rank e \<le> rank x)"
proof -
  have inv: "cal_inv c" and size: "cal_qSize c \<noteq> 0" using ok ne by (auto simp: cal_ok_def)
  from DoRemoveNext_spec[OF inv ne size] obtain i e where r: "cal_DoRemoveNext c = Some (e, taken i e c)"
    "cal_inv (taken i e c)" "cal_evs c = add_mset e (cal_evs (taken i e c))" "\<forall>x \<in># cal_evs c. rank e \<le> rank x" by blast
  from shrink_spec[OF ok r(2,3)] obtain c2 where c2:
    "cal_ResizeDown ((taken i e c)\<lparr>cal_qSize := u32_sub (cal_qSize (taken i e c)) 1\<rparr>) = Some c2" "cal_inv c2"
    "cal_evs c2 = cal_evs (taken i e c)" "cal_lastPrio c2 = unat (ts e)" "cal_qSize c2 = size (cal_evs (taken i e c))"
    "cal_qSize c2 < 2 ^ 32" "load_ok c2" by auto
  have "cal_RemoveNext c = Some (e, c2)" using size r(1) c2(1) by (simp add: cal_RemoveNext_def cal_IsEmpty_def)
  with c2 r(3,4) show ?thesis by (auto simp: cal_ok_def)
qed

lemma replace_bucket_inv:
  assumes inv: "cal_inv c" and i: "i < cal_nBuckets c" and b: "bucket_ok (cal_reverse c) b" "set b \<subseteq> set (cal_buckets c ! i)"
  shows "cal_inv (c\<lparr>cal_buckets := (cal_buckets c)[i := b]\<rparr>)"
proof -
  have same: "in_bucket (c\<lparr>cal_buckets := bs\<rparr>) = in_bucket c" "cal_Hash (c\<lparr>cal_buckets := bs\<rparr>) = cal_Hash c" for bs
    by (intro ext; simp add: in_bucket_def cal_Hash_def)+
  have "bucket_ok (cal_reverse c) ((cal_buckets c)[i := b] ! j) \<and> (\<forall>e \<in> set ((cal_buckets c)[i := b] ! j). in_bucket c j e)"
    if "j < cal_nBuckets c" for j
    using that inv b i by (cases "j = i") (auto simp: cal_inv_def)
  with inv show ?thesis unfolding cal_inv_def same by simp
qed

lemma Remove_cal:
  assumes ok: "cal_ok now c" and u: "unique_uids (cal_evs c)" and e: "e \<in># cal_evs c"
  shows "\<exists>c'. cal_Remove c e = Some c' \<and> cal_ok now c' \<and> cal_evs c = add_mset e (cal_evs c')"
proof -
  let ?i = "cal_Hash c (unat (ts e))"
  let ?b = "cal_buckets c ! ?i"
  have inv: "cal_inv c" and size: "cal_qSize c \<noteq> 0" using ok e by (auto simp: cal_ok_def)
  have i: "?i < length (cal_buckets c)" "e \<in> set ?b" using e inv by (auto simp: in_cal_evs cal_inv_def in_bucket_def)
  have "cal_evs c = mset ?b + (mset (concat (take ?i (cal_buckets c))) + mset (concat (drop (Suc ?i) (cal_buckets c))))"
    using arg_cong[OF id_take_nth_drop[OF i(1)], of "\<lambda>bs. mset (concat bs)"] by (simp add: cal_evs_def)
  then have "unique_uids (mset ?b)" using u unique_uids_union by metis
  from erase_first_uid[OF this i(2)] obtain b where b: "erase_first (\<lambda>i. uid i = uid e) ?b = Some (e, b)" "mset ?b = add_mset e (mset b)" .
  let ?c = "c\<lparr>cal_buckets := (cal_buckets c)[?i := b]\<rparr>"
  have sub: "set b \<subseteq> set ?b" using b(2) by (metis set_mset_add_mset_insert set_mset_mset subset_insertI)
  have n: "?i < cal_nBuckets c" using inv by (simp add: cal_inv_def cal_Hash_def)
  with inv sorted_wrt_erase_first[OF b(1)] have "bucket_ok (cal_reverse c) b" by (simp add: cal_inv_def)
  then have "cal_inv ?c" by (rule replace_bucket_inv[OF inv n _ sub])
  moreover have "cal_evs c = add_mset e (cal_evs ?c)"
    using concat_update_add[of ?i "(cal_buckets c)[?i := b]" ?b e] i(1) b(2) by (simp add: cal_evs_def)
  ultimately obtain c2 where c2: "cal_ResizeDown (?c\<lparr>cal_qSize := u32_sub (cal_qSize ?c) 1\<rparr>) = Some c2" "cal_inv c2"
    "cal_evs c2 = cal_evs ?c" "cal_lastPrio c2 = cal_lastPrio ?c" "cal_qSize c2 = size (cal_evs ?c)" "cal_qSize c2 < 2 ^ 32" "load_ok c2"
    using shrink_spec[OF ok, of ?c e] by auto
  have "cal_Remove c e = Some c2" using size b(1) c2(1) by (simp add: cal_Remove_def cal_IsEmpty_def Let_def)
  with c2 \<open>cal_evs c = add_mset e (cal_evs ?c)\<close> ok show ?thesis by (auto simp: cal_ok_def)
qed

lemma cal_new_eq: "cal_new r = \<lparr>cal_reverse = r, cal_buckets = [[], []], cal_nBuckets = 2, cal_width = 1, cal_lastBucket = 0,
     cal_bucketTop = 1, cal_lastPrio = 0, cal_qSize = 0\<rparr>"
  by (simp add: cal_new_def cal_Init_def cal_Hash_def top_after_eq Let_def) (simp add: numeral_2_eq_2)

interpretation calendar: timed_removable_event_list cal_ops cal_evs cal_ok "cal_new reverse" for reverse
proof unfold_locales
  show "cal_ok 0 (cal_new reverse)"
    using exI[of "\<lambda>k. k \<le> 15 \<and> (2 :: nat) = 2 ^ k" 1]
    by (simp add: cal_ok_def cal_new_eq cal_inv_def cal_Hash_def cal_evs_def load_ok_def less_2_cases_iff)
  show "cal_evs (cal_new reverse) = {#}" by (simp add: cal_new_eq cal_evs_def)
next
  fix now now' c
  assume "cal_ok now c" "now \<le> now'"
  then show "cal_ok now' c" by (auto simp: cal_ok_def word_le_nat_alt)
next
  fix now c e
  assume "cal_ok now c" "now \<le> ts e" "ts e \<noteq> - 1" "size (cal_evs c) < 2 ^ 32 - 1"
  then show "\<exists>s'. op_Insert cal_ops c e = Some s' \<and> cal_ok now s' \<and> cal_evs s' = add_mset e (cal_evs c)"
    using Insert_spec by (simp add: cal_ops_def)
next
  fix now c
  assume ok: "cal_ok now c"
  then show "op_IsEmpty cal_ops c \<longleftrightarrow> cal_evs c = {#}" by (simp add: cal_ops_def cal_IsEmpty_def cal_ok_def)
  assume u: "unique_uids (cal_evs c)" and ne: "cal_evs c \<noteq> {#}"
  from RemoveNext_cal[OF ok ne] show "\<exists>e s'. op_RemoveNext cal_ops c = Some (e, s') \<and> cal_ok (ts e) s' \<and>
      cal_evs c = add_mset e (cal_evs s') \<and> (\<forall>x \<in># cal_evs c. rank e \<le> rank x)" by (simp add: cal_ops_def)
  from RemoveNext_cal[OF ok ne] obtain e c' where r: "cal_RemoveNext c = Some (e, c')" "e \<in># cal_evs c"
    "\<forall>x \<in># cal_evs c. rank e \<le> rank x" by auto
  from PeekNext_spec[of c] ok ne obtain p where p: "cal_PeekNext c = Some p" "p \<in># cal_evs c" "\<forall>x \<in># cal_evs c. rank p \<le> rank x"
    by (auto simp: cal_ok_def)
  then have "rank p = rank e" using r by (metis order_antisym)
  then have "p = e" using unique_uids_inj[OF u p(2) r(2)] by simp
  with p r show "op_PeekNext cal_ops c = map_option fst (op_RemoveNext cal_ops c)" by (simp add: cal_ops_def)
next
  fix now c e
  assume "cal_ok now c" "unique_uids (cal_evs c)" "e \<in># cal_evs c"
  then show "\<exists>s'. op_Remove cal_ops c e = Some s' \<and> cal_ok now s' \<and> cal_evs c = add_mset e (cal_evs s')"
    using Remove_cal by (simp add: cal_ops_def)
qed

end
