(* ===== verification/Calendar_Properties.thy ===== *)
theory Calendar_Properties
  imports Calendar_Facts Engine_Properties
begin

text \<open>The calendar under the simulator: the engine runs on it as on the default event list.\<close>

interpretation map_calendar: two_removable_lists map_ops ms_evs "\<lambda>_. ms_ok" "[]" cal_ops cal_evs cal_ok "cal_new reverse" for reverse
  by unfold_locales

interpretation calendar_map: two_removable_lists cal_ops cal_evs cal_ok "cal_new reverse" map_ops ms_evs "\<lambda>_. ms_ok" "[]" for reverse
  by unfold_locales

text \<open>
  C11. A simulation may change to the calendar, in either order of its buckets, and back: \<open>SetScheduler\<close>
  moves every pending event, and the simulation continues in lock step with the one that kept its list,
  whatever it schedules, cancels and removes, through every resize of the calendar.
\<close>

theorem calendar_continues:
  assumes "sim_reach map_ops ms_evs True (sim_init []) s" "sim_reach map_ops ms_evs rm s s'"
  shows "\<exists>t t' u. sim_SetScheduler map_ops cal_ops (cal_new reverse) s = Some t \<and> sim_rel ms_evs cal_evs s t \<and>
    sim_reach cal_ops cal_evs rm t t' \<and> sim_rel ms_evs cal_evs s' t' \<and>
    sim_SetScheduler cal_ops map_ops [] t' = Some u \<and> sim_rel ms_evs ms_evs s' u"
proof -
  have inv: "sim_inv ms_evs (\<lambda>_. ms_ok) s" by (rule map_sched.reach_inv[OF assms(1) map_sched.sim_inv_init])
  from map_calendar.SetScheduler_rel[OF inv] obtain t where t: "sim_SetScheduler map_ops cal_ops (cal_new reverse) s = Some t"
    "sim_rel ms_evs cal_evs s t" "sim_inv cal_evs cal_ok t" by blast
  from map_calendar.reach_rel_remove[OF assms(2) inv t(3,2)] obtain t' where t': "sim_reach cal_ops cal_evs rm t t'"
    "sim_rel ms_evs cal_evs s' t'" by blast
  have "sim_inv cal_evs cal_ok t'" using calendar.reach_inv[OF t'(1) t(3)] .
  from calendar_map.SetScheduler_rel[OF this] obtain u where u: "sim_SetScheduler cal_ops map_ops [] t' = Some u"
    "sim_rel cal_evs ms_evs t' u" by blast
  have "sim_rel ms_evs ms_evs s' u"
    using t'(2) u(2) by (cases s'; cases t'; cases u) (simp add: sim_rel_def sim_with_events_def)
  with t t' u show ?thesis by blast
qed

theorem calendar_continues_witness:
  "\<exists>t u. sim_SetScheduler map_ops cal_ops (cal_new True) one_event = Some t \<and> sim_rel ms_evs cal_evs one_event t"
  using calendar_continues[OF one_event_reach sim_reach.reach_refl, of True] by blast

text \<open>
  C12. In every state the engine reaches over a calendar, removals included, nothing pending lies in the
  past and the next event is taken without failing an assertion. The buckets are a power of two between 1
  and 32768 in number; unless that many are in use, no more than two events fall on a bucket on average, and
  unless there are two, at least one on two buckets.
\<close>

theorem calendar_engine:
  assumes "sim_reach cal_ops cal_evs True (sim_init (cal_new reverse)) s"
  defines "c \<equiv> s_events s"
  shows "(\<forall>e \<in># cal_evs c. s_currentTs s \<le> ts e) \<and>
    (op_IsEmpty cal_ops c \<or> (\<exists>s' e. sim_pop cal_ops s = Some (s', e) \<and> e \<in># cal_evs c \<and> s_currentTs s \<le> s_currentTs s')) \<and>
    (\<exists>k \<le> 15. cal_nBuckets c = 2 ^ k) \<and> length (cal_buckets c) = cal_nBuckets c \<and>
    (size (cal_evs c) \<le> 2 * cal_nBuckets c \<or> cal_nBuckets c = 32768) \<and>
    (cal_nBuckets c \<le> 2 * size (cal_evs c) + 1 \<or> cal_nBuckets c = 2)"
proof -
  have inv: "sim_inv cal_evs cal_ok s" by (rule calendar.reach_inv[OF assms(1) calendar.sim_inv_init])
  have "s_currentTs s \<le> ts e" if "e \<in># cal_evs c" for e
    using inv that by (force simp: sim_inv_def less_prod_simp c_def)
  moreover have "\<exists>s' e. sim_pop cal_ops s = Some (s', e) \<and> e \<in># cal_evs c \<and> s_currentTs s \<le> s_currentTs s'"
    if "\<not> op_IsEmpty cal_ops c"
  proof -
    have ne: "cal_evs (s_events s) \<noteq> {#}" using that inv by (simp add: calendar.sim_IsEmpty c_def)
    from calendar.pop_total[OF inv ne] obtain s' e q where p: "sim_pop cal_ops s = Some (s', e)"
      "cal_evs (s_events s) = add_mset e (cal_evs q)" by metis
    with calendar.pop_inv[OF inv p(1) ne] show ?thesis by (intro exI[of _ s'] exI[of _ e]) (simp add: c_def)
  qed
  moreover have "cal_inv c" "cal_qSize c = size (cal_evs c)" "load_ok c" using inv by (simp_all add: sim_inv_def cal_ok_def c_def)
  ultimately show ?thesis unfolding load_ok_def cal_inv_def by (intro conjI) (blast | linarith)+
qed

theorem calendar_engine_witness:
  "\<exists>s eid s' e. sim_Schedule cal_ops (sim_init (cal_new False)) 5 7 = Some (s, eid) \<and>
    sim_pop cal_ops s = Some (s', e) \<and> e \<in># cal_evs (s_events s) \<and> (\<exists>k \<le> 15. cal_nBuckets (s_events s) = 2 ^ k)"
proof -
  let ?s0 = "sim_init (cal_new False)"
  have u: "s_uid ?s0 \<noteq> - 1" "unat (5 :: u64) + unat (s_currentTs ?s0) < 2 ^ 63" by (simp_all add: sim_init_def UID_VALID_def)
  have inv: "sim_inv cal_evs cal_ok ?s0" by (rule calendar.sim_inv_init)
  from calendar.Schedule_total[OF inv u(1) _ u(2), of 7] obtain s eid where r: "sim_Schedule cal_ops ?s0 5 7 = Some (s, eid)" by auto
  have "sim_exec cal_ops ?s0 (CSchedule 5 7) = Some s" using r by simp
  then have "sim_step cal_ops cal_evs True ?s0 s" using u(1)
    by (intro sim_step.step_exec[where c = "CSchedule 5 7"]) simp_all
  then have reach: "sim_reach cal_ops cal_evs True ?s0 s" by (rule sim_reach.reach_step[OF sim_reach.reach_refl])
  have "\<not> op_IsEmpty cal_ops (s_events s)"
    using calendar.Schedule_inv[OF inv u(1) r] calendar.sim_IsEmpty[of s] by auto
  with calendar_engine[OF reach] r show ?thesis by blast
qed

text \<open>
  \<open>PeekNext\<close> and \<open>DoRemoveNext\<close> start from different bounds. An event at the last time stamp is
  shown by \<open>PeekNext\<close> and never found by \<open>RemoveNext\<close>, which then reads \<open>m_buckets[-1]\<close>.
\<close>

theorem calendar_loses_last_time:
  assumes "ts e = - 1" "uid e \<noteq> - 1"
  shows "\<exists>c. cal_Insert (cal_new reverse) e = Some c \<and> cal_PeekNext c = Some e \<and> cal_RemoveNext c = None"
proof -
  let ?c = "\<lparr>cal_reverse = reverse, cal_buckets = [[], [e]], cal_nBuckets = 2, cal_width = 1, cal_lastBucket = 0,
     cal_bucketTop = 1, cal_lastPrio = 0, cal_qSize = 1\<rparr>"
  have t: "unat (ts e) = 2 ^ 64 - 1" using assms(1) by (simp add: unsigned_minus_1_eq_mask mask_eq_exp_minus_1)
  have h: "cal_Hash (cal_new reverse) (unat (ts e)) = 1" using t by (simp add: cal_Hash_def cal_new_eq)
  have ins: "cal_Insert (cal_new reverse) e = Some ?c"
    by (simp add: cal_Insert_def cal_DoInsert_def Let_def h cal_ResizeUp_def) (simp add: cal_new_eq)
  have scan1: "cal_scan collect ?c 1 2 acc = Some (Inr (collect 1 e acc))" for collect :: "nat \<Rightarrow> event \<Rightarrow> 'a \<Rightarrow> 'a" and acc
    using t by (subst cal_scan.simps) (simp add: cal_NextEvent_def Let_def)
  have scan: "cal_scan collect ?c 0 1 acc = Some (Inr (collect 1 e acc))" for collect :: "nat \<Rightarrow> event \<Rightarrow> 'a \<Rightarrow> 'a" and acc
  proof -
    have "u32_add 0 1 mod 2 = (1 :: nat)" "u64_add 1 1 = (2 :: nat)" by simp_all
    with scan1[of collect acc] show ?thesis by (subst cal_scan.simps) (simp add: Let_def flip: numeral_2_eq_2)
  qed
  have "uid e < - 1" using assms(2) by (simp add: word_order.not_eq_extremum)
  then have "cal_PeekNext ?c = Some e"
    using assms(1) by (simp add: cal_PeekNext_def cal_IsEmpty_def scan[unfolded One_nat_def] keep_event_def less_prod_simp)
  moreover have "cal_RemoveNext ?c = None"
    using assms(1) by (simp add: cal_RemoveNext_def cal_DoRemoveNext_def cal_IsEmpty_def scan[unfolded One_nat_def] keep_bucket_def less_prod_simp Let_def)
  ultimately show ?thesis using ins by blast
qed

theorem calendar_loses_last_time_witness:
  "\<exists>c. cal_Insert (cal_new False) (ev (- 1) 4) = Some c \<and> cal_RemoveNext c = None"
proof -
  have "ts (ev (- 1) 4) = - 1" "uid (ev (- 1) 4) \<noteq> - 1" by simp_all
  from calendar_loses_last_time[OF this, of False] show ?thesis by blast
qed

end
