(* ===== verification/Ipv4_Fragments.thy ===== *)
theory Ipv4_Fragments
  imports Ipv4_Header
begin

text \<open>
  Fragmentation and reassembly in \<open>src/internet/model/ipv4-l3-protocol.cc\<close>: \<open>DoFragmentation\<close>, the class
  \<open>Fragments\<close>, \<open>ProcessFragment\<close> and the reassembly timeouts. The payload of a packet is its list of
  bytes. A timeout entry has a number in place of the list iterator that a \<open>Fragments\<close> object keeps; the
  pending \<open>HandleTimeout\<close> events are the list \<open>rs_events\<close> of their times. What leaves the node is appended
  to \<open>rs_out\<close>. \<open>None\<close> is an abort, an access to a missing entry, or a loop that does not end.
\<close>

subsection \<open>Fragmentation\<close>

definition fragment_size :: "u32 \<Rightarrow> u32" where
  "fragment_size outIfaceMtu = (outIfaceMtu - 20) AND NOT 0x7"

definition fragment_header :: "bool \<Rightarrow> bool \<Rightarrow> u16 \<Rightarrow> nat \<Rightarrow> ipv4_header \<Rightarrow> ipv4_header option" where
  "fragment_header checksums moreFragment offset sz h = do {
     let h1 = (if moreFragment \<or> \<not> IsLastFragment h then SetMoreFragments h else SetLastFragment h);
     h2 \<leftarrow> SetFragmentOffset (offset + ip_fragmentOffset h) h1;
     let h3 = h2\<lparr>ip_payloadSize := of_nat sz\<rparr>;
     Some (if checksums then EnableChecksum h3 else h3)
   }"

text \<open>The offset of the loop has 16 bits, its sum with the fragment size has 32.\<close>

partial_function (option) fragment_loop ::
    "bool \<Rightarrow> bytes \<Rightarrow> ipv4_header \<Rightarrow> nat \<Rightarrow> u16 \<Rightarrow> (bytes \<times> ipv4_header) list option" where
  "fragment_loop checksums p h fragmentSize offset =
     (let moreFragment = u32_add (unat offset) fragmentSize < length p;
          sz = (if moreFragment then fragmentSize else u32_sub (length p) (unat offset)) in
      Option.bind (fragment_header checksums moreFragment offset sz h) (\<lambda>fh.
        if moreFragment
        then Option.bind (fragment_loop checksums p h fragmentSize (offset + of_nat sz))
          (\<lambda>rest. Some ((take sz (drop (unat offset) p), fh) # rest))
        else Some [(take sz (drop (unat offset) p), fh)]))"

definition DoFragmentation :: "bool \<Rightarrow> bytes \<Rightarrow> ipv4_header \<Rightarrow> u32 \<Rightarrow> (bytes \<times> ipv4_header) list option" where
  "DoFragmentation checksums p h outIfaceMtu = do {
     ns_assert (ip_headerSize h = 20);
     fragment_loop checksums p h (unat (fragment_size outIfaceMtu)) 0
   }"

subsection \<open>The fragments of a datagram\<close>

record fragments =
  fg_moreFragment :: bool
  fg_fragments :: "(bytes \<times> u16) list"
  fg_timeoutIter :: nat

definition Fragments :: "nat \<Rightarrow> fragments" where
  "Fragments iter = \<lparr>fg_moreFragment = False, fg_fragments = [], fg_timeoutIter = iter\<rparr>"

definition AddFragment :: "bytes \<Rightarrow> u16 \<Rightarrow> bool \<Rightarrow> fragments \<Rightarrow> fragments" where
  "AddFragment fragment fragmentOffset moreFragment f =
     (case span_until (\<lambda>x. fragmentOffset < snd x) (fg_fragments f) of (before, it) \<Rightarrow>
        f\<lparr>fg_moreFragment := (if it = [] then moreFragment else fg_moreFragment f),
          fg_fragments := before @ (fragment, fragmentOffset) # it\<rparr>)"

fun entire_loop :: "u16 \<Rightarrow> (bytes \<times> u16) list \<Rightarrow> bool" where
  "entire_loop lastEndOffset [] = True"
| "entire_loop lastEndOffset ((d, off) # fs) =
     (if lastEndOffset < off then False else entire_loop (max lastEndOffset (of_nat (length d) + off)) fs)"

definition IsEntire :: "fragments \<Rightarrow> bool" where
  "IsEntire f \<longleftrightarrow> (\<not> fg_moreFragment f \<and> fg_fragments f \<noteq> []) \<and> entire_loop 0 (fg_fragments f)"

fun packet_loop :: "bytes \<Rightarrow> (bytes \<times> u16) list \<Rightarrow> bytes" where
  "packet_loop p [] = p"
| "packet_loop p ((d, off) # fs) =
     (let lastEndOffset = (of_nat (length p) :: u16) in
      packet_loop (if off < lastEndOffset
        then (let newStart = unat lastEndOffset - unat off in
              if newStart < length d then p @ drop newStart d else p)
        else p @ d) fs)"

definition GetPacket :: "fragments \<Rightarrow> bytes option" where
  "GetPacket f = (case fg_fragments f of [] \<Rightarrow> None | (d, off) # fs \<Rightarrow> Some (packet_loop d fs))"

text \<open>
  When a fragment ends inside the part that is already there, \<open>it->first->GetSize () - newStart\<close> wraps
  around; \<open>CreateFragment\<close> adds \<open>newStart\<close> again, and the piece is empty.
\<close>

fun partial_loop :: "bytes \<Rightarrow> (bytes \<times> u16) list \<Rightarrow> bytes" where
  "partial_loop p [] = p"
| "partial_loop p ((d, off) # fs) =
     (let lastEndOffset = (of_nat (length p) :: u16) in
      partial_loop (if off < lastEndOffset then p @ drop (unat lastEndOffset - unat off) d
        else if lastEndOffset = off then p @ d else p) fs)"

definition GetPartialPacket :: "fragments \<Rightarrow> bytes option" where
  "GetPartialPacket f = (case fg_fragments f of [] \<Rightarrow> None
     | (d, off) # fs \<Rightarrow> Some (if 0 < off then [] else partial_loop [] ((d, off) # fs)))"

subsection \<open>Reassembly and its timeouts\<close>

type_synonym fragment_key = "u64 \<times> u32"

record fragment_timeout =
  ft_id :: nat
  ft_time :: int
  ft_key :: fragment_key
  ft_header :: ipv4_header
  ft_iif :: nat

datatype reassembly_out =
    SendTimeExceeded ipv4_header bytes
  | DropFragmentTimeout ipv4_header bytes nat

record reassembly =
  rs_fragments :: "(fragment_key \<times> fragments) list"
  rs_timeouts :: "fragment_timeout list"
  rs_events :: "int list"
  rs_expiration :: int
  rs_nextIter :: nat
  rs_out :: "reassembly_out list"

definition fragment_key_of :: "ipv4_header \<Rightarrow> fragment_key" where
  "fragment_key_of h =
     (push_bit 32 (ucast (addr (ip_source h))) OR ucast (addr (ip_destination h)),
      push_bit 16 (ucast (ip_identification h)) OR ucast (ip_protocol h))"

definition SetTimeout :: "int \<Rightarrow> fragment_key \<Rightarrow> ipv4_header \<Rightarrow> nat \<Rightarrow> reassembly \<Rightarrow> nat \<times> reassembly" where
  "SetTimeout now k h iif s =
     (rs_nextIter s,
      s\<lparr>rs_events := (if rs_timeouts s = [] then rs_events s @ [now + rs_expiration s] else rs_events s),
        rs_timeouts := rs_timeouts s @
          [\<lparr>ft_id = rs_nextIter s, ft_time = now + rs_expiration s, ft_key = k, ft_header = h, ft_iif = iif\<rparr>],
        rs_nextIter := Suc (rs_nextIter s)\<rparr>)"

definition find_fragments :: "int \<Rightarrow> fragment_key \<Rightarrow> ipv4_header \<Rightarrow> nat \<Rightarrow> reassembly \<Rightarrow> fragments \<times> reassembly" where
  "find_fragments now k h iif s =
     (case smap_find (<) k (rs_fragments s) of
        Some f \<Rightarrow> (f, s)
      | None \<Rightarrow> (case SetTimeout now k h iif s of (iter, s1) \<Rightarrow>
          (Fragments iter, s1\<lparr>rs_fragments := fst (smap_insert (<) k (Fragments iter) (rs_fragments s1))\<rparr>)))"

text \<open>The \<open>Fragments\<close> object is shared by reference: what \<open>AddFragment\<close> does to it the map sees.\<close>

definition ProcessFragment :: "int \<Rightarrow> bytes \<Rightarrow> ipv4_header \<Rightarrow> nat \<Rightarrow> reassembly \<Rightarrow> (bytes option \<times> reassembly) option" where
  "ProcessFragment now packet h iif s = do {
     let k = fragment_key_of h;
     let (f, s1) = find_fragments now k h iif s;
     let f' = AddFragment packet (ip_fragmentOffset h) (\<not> IsLastFragment h) f;
     if IsEntire f' then do {
       p \<leftarrow> GetPacket f';
       Some (Some p, s1\<lparr>rs_timeouts := filter (\<lambda>t. ft_id t \<noteq> fg_timeoutIter f') (rs_timeouts s1),
         rs_fragments := smap_erase (<) k (rs_fragments s1)\<rparr>)
     } else Some (None, s1\<lparr>rs_fragments := smap_set (<) k f' (rs_fragments s1)\<rparr>)
   }"

definition HandleFragmentsTimeout :: "fragment_key \<Rightarrow> ipv4_header \<Rightarrow> nat \<Rightarrow> reassembly \<Rightarrow> reassembly option" where
  "HandleFragmentsTimeout k h iif s = do {
     f \<leftarrow> smap_find (<) k (rs_fragments s);
     packet \<leftarrow> GetPartialPacket f;
     Some (s\<lparr>rs_out := rs_out s @ (if 8 < length packet then [SendTimeExceeded h packet] else [])
         @ [DropFragmentTimeout h packet iif],
       rs_fragments := smap_erase (<) k (rs_fragments s)\<rparr>)
   }"

fun timeout_loop :: "int \<Rightarrow> fragment_timeout list \<Rightarrow> reassembly \<Rightarrow> reassembly option" where
  "timeout_loop now [] s = Some (s\<lparr>rs_timeouts := []\<rparr>)"
| "timeout_loop now (t # ts) s =
     (if ft_time t = now then do {
        s1 \<leftarrow> HandleFragmentsTimeout (ft_key t) (ft_header t) (ft_iif t) s;
        timeout_loop now ts s1
      } else Some (s\<lparr>rs_timeouts := t # ts\<rparr>))"

definition HandleTimeout :: "int \<Rightarrow> reassembly \<Rightarrow> reassembly option" where
  "HandleTimeout now s = do {
     s1 \<leftarrow> timeout_loop now (rs_timeouts s) s;
     case rs_timeouts s1 of
       [] \<Rightarrow> Some s1
     | t # _ \<Rightarrow> Some (s1\<lparr>rs_events := rs_events s1 @ [now + (ft_time t - now)]\<rparr>)
   }"

end
