(* ===== verification/Ipv4_L3.thy ===== *)
theory Ipv4_L3
  imports Ipv4_Interface Ipv4_Fragments
begin

text \<open>
  The interfaces, addresses and the sending side of \<open>Ipv4L3Protocol\<close>
  (\<open>src/internet/model/ipv4-l3-protocol.cc\<close>). The routing protocol is asked for a route by a function
  argument, and notified of changes by the list of notifications an operation returns; traces and ICMP
  messages are values of \<open>l3_out\<close>. The detection of duplicates, which is off unless an attribute is set, has a
  theory of its own, \<open>Ipv4_Duplicates\<close>. \<open>None\<close> is a failed assertion, a fatal error, or the use of an
  interface that does not exist.
\<close>

datatype drop_reason =
    DROP_TTL_EXPIRED | DROP_NO_ROUTE | DROP_BAD_CHECKSUM | DROP_INTERFACE_DOWN | DROP_ROUTE_ERROR | DROP_FRAGMENT_TIMEOUT | DROP_DUPLICATE

datatype l3_out =
    FromInterface nat interface_out
  | IcmpTimeExceeded ipv4_header bytes
  | DropTrace drop_reason ipv4_header bytes nat

datatype notification =
    NotifyUp nat
  | NotifyDown nat
  | NotifyAdd nat iface_addr
  | NotifyRemove nat iface_addr

record ipv4_route =
  ro_destination :: ipv4
  ro_source :: ipv4
  ro_gateway :: ipv4
  ro_device :: nat

record ipv4_l3 =
  l3_interfaces :: "ipv4_interface list"
  l3_reverse :: "(nat \<times> nat) list"
  l3_ipForward :: bool
  l3_strongEndSystemModel :: bool
  l3_draining :: bool
  l3_identification :: "((u64 \<times> u8) \<times> u16) list"
  l3_defaultTtl :: u8
  l3_checksums :: bool
  l3_out :: "l3_out list"

definition l3_emit :: "l3_out list \<Rightarrow> ipv4_l3 \<Rightarrow> ipv4_l3" where
  "l3_emit os s = s\<lparr>l3_out := l3_out s @ os\<rparr>"

subsection \<open>Interfaces and their addresses\<close>

definition AddIpv4Interface :: "ipv4_interface \<Rightarrow> ipv4_l3 \<Rightarrow> nat \<times> ipv4_l3" where
  "AddIpv4Interface i s = (let index = length (l3_interfaces s) in
     (index, s\<lparr>l3_interfaces := l3_interfaces s @ [i], l3_reverse := smap_set (<) (nd_id (if_device i)) index (l3_reverse s)\<rparr>))"

definition AddInterface :: "net_device \<Rightarrow> nat \<Rightarrow> ipv4_l3 \<Rightarrow> nat \<times> ipv4_l3" where
  "AddInterface device cache s =
     AddIpv4Interface ((Ipv4Interface device cache)\<lparr>if_tc := True, if_forwarding := l3_ipForward s\<rparr>) s"

definition GetInterface :: "nat \<Rightarrow> ipv4_l3 \<Rightarrow> ipv4_interface option" where
  "GetInterface i s = (if i < length (l3_interfaces s) then Some (l3_interfaces s ! i) else None)"

definition set_interface :: "nat \<Rightarrow> ipv4_interface \<Rightarrow> ipv4_l3 \<Rightarrow> ipv4_l3" where
  "set_interface i x s = s\<lparr>l3_interfaces := (l3_interfaces s)[i := x]\<rparr>"

fun interface_where :: "(iface_addr \<Rightarrow> bool) \<Rightarrow> nat \<Rightarrow> ipv4_interface list \<Rightarrow> int" where
  "interface_where P n [] = - 1"
| "interface_where P n (i # is) = (if \<exists>a \<in> set (if_addrs i). P a then int n else interface_where P (Suc n) is)"

definition GetInterfaceForAddress :: "ipv4 \<Rightarrow> ipv4_l3 \<Rightarrow> int" where
  "GetInterfaceForAddress a s = interface_where (\<lambda>x. ipv4_eq (ia_local x) a) 0 (l3_interfaces s)"

definition GetInterfaceForPrefix :: "ipv4 \<Rightarrow> ipv4_mask \<Rightarrow> ipv4_l3 \<Rightarrow> int" where
  "GetInterfaceForPrefix a m s =
     interface_where (\<lambda>x. ipv4_eq (CombineMask (ia_local x) m) (CombineMask a m)) 0 (l3_interfaces s)"

definition GetInterfaceForDevice :: "nat \<Rightarrow> ipv4_l3 \<Rightarrow> int" where
  "GetInterfaceForDevice d s = (case smap_find (<) d (l3_reverse s) of Some i \<Rightarrow> int i | None \<Rightarrow> - 1)"

definition GetNAddresses :: "nat \<Rightarrow> ipv4_l3 \<Rightarrow> nat option" where
  "GetNAddresses i s = map_option (\<lambda>x. length (if_addrs x)) (GetInterface i s)"

definition L3_GetAddress :: "nat \<Rightarrow> nat \<Rightarrow> ipv4_l3 \<Rightarrow> iface_addr option" where
  "L3_GetAddress i j s = do { x \<leftarrow> GetInterface i s; Interface_GetAddress x j }"

definition address_matches :: "ipv4 \<Rightarrow> iface_addr \<Rightarrow> bool" where
  "address_matches a x \<longleftrightarrow> ipv4_eq a (ia_local x) \<or> ipv4_eq a (ia_broadcast x)"

definition IsDestinationAddress :: "ipv4 \<Rightarrow> nat \<Rightarrow> ipv4_l3 \<Rightarrow> bool option" where
  "IsDestinationAddress a iif s = do {
     x \<leftarrow> GetInterface iif s;
     Some ((\<exists>y \<in> set (if_addrs x). address_matches a y) \<or> IsMulticast a \<or> IsBroadcast a \<or>
       \<not> l3_strongEndSystemModel s \<and>
         (\<exists>j \<in> set [0..<length (l3_interfaces s)]. j \<noteq> iif \<and> (\<exists>y \<in> set (if_addrs (l3_interfaces s ! j)). address_matches a y)))
   }"

definition IsUnicast :: "ipv4 \<Rightarrow> ipv4_l3 \<Rightarrow> bool" where
  "IsUnicast a s \<longleftrightarrow> \<not> (IsBroadcast a \<or> IsMulticast a) \<and>
     \<not> (\<exists>i \<in> set (l3_interfaces s). \<exists>x \<in> set (if_addrs i). ipv4_eq a (ia_broadcast x))"

definition IsUnicast_mask :: "ipv4 \<Rightarrow> ipv4_mask \<Rightarrow> bool" where
  "IsUnicast_mask a m \<longleftrightarrow> \<not> IsMulticast a \<and> \<not> IsSubnetDirectedBroadcast a m"

definition L3_AddAddress :: "nat \<Rightarrow> iface_addr \<Rightarrow> ipv4_l3 \<Rightarrow> (notification list \<times> ipv4_l3) option" where
  "L3_AddAddress i a s = do {
     x \<leftarrow> GetInterface i s;
     Some ([NotifyAdd i a], set_interface i (Interface_AddAddress a x) s)
   }"

definition L3_RemoveAddress_at :: "nat \<Rightarrow> nat \<Rightarrow> ipv4_l3 \<Rightarrow> (bool \<times> notification list \<times> ipv4_l3) option" where
  "L3_RemoveAddress_at i j s = do {
     x \<leftarrow> GetInterface i s;
     (a, x') \<leftarrow> Interface_RemoveAddress_at j x;
     Some (if a \<noteq> unset_iface then (True, [NotifyRemove i a], set_interface i x' s) else (False, [], set_interface i x' s))
   }"

definition L3_RemoveAddress :: "nat \<Rightarrow> ipv4 \<Rightarrow> ipv4_l3 \<Rightarrow> (bool \<times> notification list \<times> ipv4_l3) option" where
  "L3_RemoveAddress i a s =
     (if ipv4_eq a GetLoopback then Some (False, [], s)
      else do {
        x \<leftarrow> GetInterface i s;
        let (b, x') = Interface_RemoveAddress a x;
        Some (if b \<noteq> unset_iface then (True, [NotifyRemove i b], set_interface i x' s) else (False, [], set_interface i x' s))
      })"

definition same_net :: "ipv4 \<Rightarrow> iface_addr \<Rightarrow> bool" where
  "same_net a x \<longleftrightarrow> ipv4_eq (CombineMask (ia_local x) (ia_mask x)) (CombineMask a (ia_mask x))"

definition SourceAddressSelection :: "nat \<Rightarrow> ipv4 \<Rightarrow> ipv4_l3 \<Rightarrow> ipv4 option" where
  "SourceAddressSelection i dest s = do {
     x \<leftarrow> GetInterface i s;
     a0 \<leftarrow> Interface_GetAddress x 0;
     Some (if length (if_addrs x) = 1 then ia_local a0
       else case find (\<lambda>y. same_net dest y \<and> \<not> ia_secondary y) (if_addrs x) of Some y \<Rightarrow> ia_local y | None \<Rightarrow> ia_local a0)
   }"

fun scope_rank :: "iface_scope \<Rightarrow> nat" where
  "scope_rank HOST = 0" | "scope_rank LINK = 1" | "scope_rank GLOBAL = 2"

fun select_on_device :: "ipv4 \<Rightarrow> iface_scope \<Rightarrow> ipv4 option \<Rightarrow> iface_addr list \<Rightarrow> ipv4 option" where
  "select_on_device dst sc found [] = found"
| "select_on_device dst sc found (x # xs) =
     (if ia_secondary x then select_on_device dst sc found xs
      else if scope_rank sc < scope_rank (ia_scope x) then select_on_device dst sc found xs
      else if same_net dst x then Some (ia_local x)
      else select_on_device dst sc (if found = None then Some (ia_local x) else found) xs)"

definition SelectSourceAddress :: "nat \<Rightarrow> ipv4 \<Rightarrow> iface_scope \<Rightarrow> ipv4_l3 \<Rightarrow> ipv4 option" where
  "SelectSourceAddress device dst sc s = do {
     found \<leftarrow> (if device \<noteq> 0 then do {
         let i = GetInterfaceForDevice device s;
         ns_assert (0 \<le> i);
         x \<leftarrow> GetInterface (nat i) s;
         Some (select_on_device dst sc None (if_addrs x))
       } else Some None);
     Some (case found of Some a \<Rightarrow> a
       | None \<Rightarrow> (case find (\<lambda>x. \<not> ia_secondary x \<and> ia_scope x \<noteq> LINK \<and> scope_rank (ia_scope x) \<le> scope_rank sc)
             (concat (map if_addrs (l3_interfaces s))) of
           Some x \<Rightarrow> ia_local x
         | None \<Rightarrow> Ipv4 0))
   }"

definition L3_SetMetric :: "nat \<Rightarrow> u16 \<Rightarrow> ipv4_l3 \<Rightarrow> ipv4_l3 option" where
  "L3_SetMetric i m s = do { x \<leftarrow> GetInterface i s; Some (set_interface i (x\<lparr>if_metric := m\<rparr>) s) }"

definition L3_IsUp :: "nat \<Rightarrow> ipv4_l3 \<Rightarrow> bool option" where
  "L3_IsUp i s = map_option if_up (GetInterface i s)"

definition L3_SetUp :: "nat \<Rightarrow> ipv4_l3 \<Rightarrow> (notification list \<times> ipv4_l3) option" where
  "L3_SetUp i s = do {
     x \<leftarrow> GetInterface i s;
     Some (if 68 \<le> nd_mtu (if_device x) then ([NotifyUp i], set_interface i (x\<lparr>if_up := True\<rparr>) s) else ([], s))
   }"

definition L3_SetDown :: "nat \<Rightarrow> ipv4_l3 \<Rightarrow> (notification list \<times> ipv4_l3) option" where
  "L3_SetDown i s = do {
     x \<leftarrow> GetInterface i s;
     Some ([NotifyDown i], set_interface i (x\<lparr>if_up := False\<rparr>) s)
   }"

definition L3_IsForwarding :: "nat \<Rightarrow> ipv4_l3 \<Rightarrow> bool option" where
  "L3_IsForwarding i s = map_option if_forwarding (GetInterface i s)"

definition L3_SetForwarding :: "nat \<Rightarrow> bool \<Rightarrow> ipv4_l3 \<Rightarrow> ipv4_l3 option" where
  "L3_SetForwarding i b s = do { x \<leftarrow> GetInterface i s; Some (set_interface i (x\<lparr>if_forwarding := b\<rparr>) s) }"

definition L3_GetNetDevice :: "nat \<Rightarrow> ipv4_l3 \<Rightarrow> nat option" where
  "L3_GetNetDevice i s = map_option (\<lambda>x. nd_id (if_device x)) (GetInterface i s)"

definition SetIpForward :: "bool \<Rightarrow> ipv4_l3 \<Rightarrow> ipv4_l3" where
  "SetIpForward b s = s\<lparr>l3_ipForward := b, l3_interfaces := map (\<lambda>x. x\<lparr>if_forwarding := b\<rparr>) (l3_interfaces s)\<rparr>"

subsection \<open>Identification\<close>

definition flow_key :: "ipv4 \<Rightarrow> ipv4 \<Rightarrow> u8 \<Rightarrow> u64 \<times> u8" where
  "flow_key source destination protocol =
     (ucast (addr destination) OR push_bit 32 (ucast (addr source)), protocol)"

definition next_id :: "u64 \<times> u8 \<Rightarrow> ipv4_l3 \<Rightarrow> u16" where
  "next_id k s = (case smap_find (<) k (l3_identification s) of Some n \<Rightarrow> n | None \<Rightarrow> 0)"

definition set_next_id :: "u64 \<times> u8 \<Rightarrow> u16 \<Rightarrow> ipv4_l3 \<Rightarrow> ipv4_l3" where
  "set_next_id k n s = s\<lparr>l3_identification := smap_set (<) k n (l3_identification s)\<rparr>"

definition DecreaseIdentification :: "ipv4 \<Rightarrow> ipv4 \<Rightarrow> u8 \<Rightarrow> ipv4_l3 \<Rightarrow> ipv4_l3" where
  "DecreaseIdentification source destination protocol s =
     (let k = flow_key source destination protocol in set_next_id k (next_id k s - 1) s)"

definition BuildHeader :: "ipv4 \<Rightarrow> ipv4 \<Rightarrow> u8 \<Rightarrow> u16 \<Rightarrow> u8 \<Rightarrow> u8 \<Rightarrow> bool \<Rightarrow> ipv4_l3 \<Rightarrow> ipv4_header \<times> ipv4_l3" where
  "BuildHeader source destination protocol payloadSize ttl tos mayFragment s =
     (let h = Ipv4Header\<lparr>ip_source := source, ip_destination := destination, ip_protocol := protocol,
            ip_payloadSize := payloadSize, ip_ttl := ttl, ip_tos := tos\<rparr>;
          k = flow_key source destination protocol;
          h1 = (if mayFragment then SetMayFragment h else SetDontFragment h)\<lparr>ip_identification := next_id k s\<rparr>
      in (if l3_checksums s then EnableChecksum h1 else h1, set_next_id k (next_id k s + 1) s))"

subsection \<open>Sending\<close>

text \<open>\<open>arp i\<close> is the answer of the ARP protocol on interface \<open>i\<close>.\<close>

fun send_all :: "(ipv4 \<Rightarrow> nat option) \<Rightarrow> ipv4 \<Rightarrow> (bytes \<times> ipv4_header) list \<Rightarrow> ipv4_interface \<Rightarrow>
    (interface_out list \<times> ipv4_interface) option" where
  "send_all arp target [] i = Some ([], i)"
| "send_all arp target ((p, h) # fs) i = do {
     (os, i1) \<leftarrow> Interface_Send arp p h target i;
     (os', i2) \<leftarrow> send_all arp target fs i1;
     Some (os @ os', i2)
   }"

definition SendRealOut :: "(nat \<Rightarrow> ipv4 \<Rightarrow> nat option) \<Rightarrow> ipv4_route option \<Rightarrow> bytes \<Rightarrow> ipv4_header \<Rightarrow> ipv4_l3 \<Rightarrow> ipv4_l3 option" where
  "SendRealOut arp route packet h s =
     (case route of
        None \<Rightarrow> Some (l3_emit [DropTrace DROP_NO_ROUTE h packet 0] s)
      | Some r \<Rightarrow> do {
          let interface = GetInterfaceForDevice (ro_device r) s;
          ns_assert (0 \<le> interface);
          x \<leftarrow> GetInterface (nat interface) s;
          let target = (if IsAny (ro_gateway r) then ip_destination h else ro_gateway r);
          if if_up x then do {
            fs \<leftarrow> (if unat (nd_mtu (if_device x)) < length packet + unat (ip_headerSize h)
              then DoFragmentation (l3_checksums s) packet h (ucast (nd_mtu (if_device x)))
              else Some [(packet, h)]);
            (os, x') \<leftarrow> send_all (arp (nat interface)) target fs x;
            Some (l3_emit (map (FromInterface (nat interface)) os) (set_interface (nat interface) x' s))
          } else Some s
        })"

text \<open>\<open>IpForward\<close>, and the loop of \<open>IpMulticastForward\<close> over the interfaces of the multicast route.\<close>

definition IpForward :: "(nat \<Rightarrow> ipv4 \<Rightarrow> nat option) \<Rightarrow> ipv4_route \<Rightarrow> bytes \<Rightarrow> ipv4_header \<Rightarrow> ipv4_l3 \<Rightarrow> ipv4_l3 option" where
  "IpForward arp rtentry p header s =
     (let interface = GetInterfaceForDevice (ro_device rtentry) s;
          h = header\<lparr>ip_ttl := ip_ttl header - 1\<rparr> in
      if ip_ttl h = 0
      then Some (l3_emit ((if \<not> IsBroadcast (ip_destination h) \<and> \<not> IsMulticast (ip_destination h) then [IcmpTimeExceeded h p] else [])
             @ [DropTrace DROP_TTL_EXPIRED header p (nat interface)]) s)
      else SendRealOut arp (Some rtentry) p h s)"

fun IpMulticastForward :: "(nat \<Rightarrow> ipv4 \<Rightarrow> nat option) \<Rightarrow> nat list \<Rightarrow> bytes \<Rightarrow> ipv4_header \<Rightarrow> ipv4_l3 \<Rightarrow> ipv4_l3 option" where
  "IpMulticastForward arp [] p header s = Some s"
| "IpMulticastForward arp (i # is) p header s =
     (let h = header\<lparr>ip_ttl := ip_ttl header - 1\<rparr> in
      if ip_ttl h = 0 then Some (l3_emit [DropTrace DROP_TTL_EXPIRED header p i] s)
      else do {
        d \<leftarrow> L3_GetNetDevice i s;
        s1 \<leftarrow> SendRealOut arp
          (Some \<lparr>ro_destination = ip_destination h, ro_source = ip_source h, ro_gateway = GetAny, ro_device = d\<rparr>) p h s;
        IpMulticastForward arp is p header s1
      })"

text \<open>
  \<open>Send\<close> with a route (case 1b). Without one it looks for the interfaces of a broadcast (cases 2 and 3) or
  asks the routing protocol (case 4), gives the identification back, and calls itself with a route. A route
  here always has a gateway, so that case 1a, a fatal error, does not occur.
\<close>

definition Send_routed :: "(nat \<Rightarrow> ipv4 \<Rightarrow> nat option) \<Rightarrow> bytes \<Rightarrow> ipv4 \<Rightarrow> ipv4 \<Rightarrow> u8 \<Rightarrow> u8 option \<times> u8 option \<Rightarrow> ipv4_route \<Rightarrow>
    ipv4_l3 \<Rightarrow> ipv4_l3 option" where
  "Send_routed arp packet source destination protocol tags route s =
     (let ttl = (case fst tags of Some x \<Rightarrow> x | None \<Rightarrow> l3_defaultTtl s);
          tos = (case snd tags of Some x \<Rightarrow> x | None \<Rightarrow> 0);
          (h, s1) = BuildHeader source destination protocol (of_nat (length packet)) ttl tos True s
      in SendRealOut arp (Some route) packet h s1)"

text \<open>
  All copies of a broadcast are sent from one packet object, \<open>pktCopyWithTags\<close>, and \<open>Send\<close> takes the tags off
  the packet that it is given: only the first copy has them.
\<close>

fun send_broadcast :: "(nat \<Rightarrow> ipv4 \<Rightarrow> nat option) \<Rightarrow> bytes \<Rightarrow> ipv4 \<Rightarrow> ipv4 \<Rightarrow> u8 \<Rightarrow> u8 option \<times> u8 option \<Rightarrow> ipv4_interface list \<Rightarrow>
    ipv4_l3 \<Rightarrow> ipv4_l3 option" where
  "send_broadcast arp packet source destination protocol tags [] s = Some s"
| "send_broadcast arp packet source destination protocol tags (i # is) s =
     (if IsAny source \<or> (\<exists>a \<in> set (if_addrs i). ipv4_eq (ia_local a) source) then do {
        s1 \<leftarrow> Send_routed arp packet source destination protocol tags
          \<lparr>ro_destination = destination, ro_source = source, ro_gateway = GetAny, ro_device = nd_id (if_device i)\<rparr>
          (DecreaseIdentification source destination protocol s);
        send_broadcast arp packet source destination protocol (None, None) is s1
      } else send_broadcast arp packet source destination protocol tags is s)"

text \<open>The first interface with a subnet the destination is the broadcast address of.\<close>

fun subnet_interface :: "ipv4 \<Rightarrow> ipv4_l3 \<Rightarrow> ipv4_interface list \<Rightarrow> ipv4_interface option option" where
  "subnet_interface destination s [] = Some None"
| "subnet_interface destination s (i # is) = do {
     x \<leftarrow> GetInterface (nat (GetInterfaceForDevice (nd_id (if_device i)) s)) s;
     if \<exists>a \<in> set (if_addrs x). IsSubnetDirectedBroadcast destination (ia_mask a) \<and>
          ipv4_eq (CombineMask destination (ia_mask a)) (CombineMask (ia_local a) (ia_mask a))
     then Some (Some i) else subnet_interface destination s is
   }"

definition Ipv4_Send :: "(nat \<Rightarrow> ipv4 \<Rightarrow> nat option) \<Rightarrow> (ipv4_header \<Rightarrow> ipv4_route option) \<Rightarrow> bytes \<Rightarrow> ipv4 \<Rightarrow> ipv4 \<Rightarrow> u8 \<Rightarrow>
    u8 option \<times> u8 option \<Rightarrow> ipv4_route option \<Rightarrow> ipv4_l3 \<Rightarrow> ipv4_l3 option" where
  "Ipv4_Send arp routeOutput packet source destination protocol tags route s =
     (case route of
        Some r \<Rightarrow> Send_routed arp packet source destination protocol tags r s
      | None \<Rightarrow>
          (let ttl = (case fst tags of Some x \<Rightarrow> x | None \<Rightarrow> l3_defaultTtl s);
               tos = (case snd tags of Some x \<Rightarrow> x | None \<Rightarrow> 0);
               (h, s1) = BuildHeader source destination protocol (of_nat (length packet)) ttl tos True s
           in if IsBroadcast destination \<or> IsLocalMulticast destination
              then send_broadcast arp packet source destination protocol tags (l3_interfaces s1) s1
              else do {
                sub \<leftarrow> subnet_interface destination s1 (l3_interfaces s1);
                case sub of
                  Some i \<Rightarrow> Send_routed arp packet source destination protocol tags
                    \<lparr>ro_destination = destination, ro_source = source, ro_gateway = GetAny, ro_device = nd_id (if_device i)\<rparr>
                    (DecreaseIdentification source destination protocol s1)
                | None \<Rightarrow> (case routeOutput h of
                    Some r \<Rightarrow> Send_routed arp packet source destination protocol tags r
                      (DecreaseIdentification source destination protocol s1)
                  | None \<Rightarrow> Some (DecreaseIdentification source destination protocol
                      (l3_emit [DropTrace DROP_NO_ROUTE h packet 0] s1)))
              }))"

subsection \<open>Receiving\<close>

text \<open>
  What \<open>Receive\<close> does with a frame before the routing protocol sees it: a frame on an interface that is
  down is dropped, unless the protocol is draining; padding behind the payload is cut off, and a header
  with a bad checksum is refused.
\<close>

datatype rx_verdict = RxDrop drop_reason ipv4_header bytes | RxRouteInput ipv4_header bytes

definition Ipv4_Receive :: "nat \<Rightarrow> bytes \<Rightarrow> ipv4_l3 \<Rightarrow> rx_verdict option" where
  "Ipv4_Receive device frame s = do {
     let interface = GetInterfaceForDevice device s;
     ns_assert (interface \<noteq> - 1);
     x \<leftarrow> GetInterface (nat interface) s;
     if \<not> (if_up x \<or> l3_draining s) then do {
       (n, h) \<leftarrow> Ipv4Header_Deserialize Ipv4Header frame;
       Some (RxDrop DROP_INTERFACE_DOWN h (drop (unat n) frame))
     } else do {
       (n, h) \<leftarrow> Ipv4Header_Deserialize (if l3_checksums s then EnableChecksum Ipv4Header else Ipv4Header) frame;
       let p = drop (unat n) frame;
       let p' = (if unat (ip_payloadSize h) < length p then take (unat (ip_payloadSize h)) p else p);
       Some (if ip_goodChecksum h then RxRouteInput h p' else RxDrop DROP_BAD_CHECKSUM h p')
     }
   }"

definition RouteInputError :: "bytes \<Rightarrow> ipv4_header \<Rightarrow> ipv4_l3 \<Rightarrow> ipv4_l3" where
  "RouteInputError p h s = l3_emit [DropTrace DROP_ROUTE_ERROR h p 0] s"

end
