(* ===== verification/Ipv4_Fragments_Facts.thy ===== *)
theory Ipv4_Fragments_Facts
  imports Ipv4_Fragments
begin

text \<open>
  Facts on fragmentation and reassembly. \<open>pieces\<close> describes the fragments of a datagram by their
  positions; a fragment is a slice of its datagram, and reassembly is proved for any slices, in any order
  and with overlaps.
\<close>

subsection \<open>The pieces of a datagram\<close>

function pieces :: "nat \<Rightarrow> bytes \<Rightarrow> nat \<Rightarrow> (bytes \<times> nat) list" where
  "pieces f p i = (if 0 < f \<and> i + f < length p then (take f (drop i p), i) # pieces f p (i + f) else [(drop i p, i)])"
  by auto

termination by (relation "measure (\<lambda>(_, p, i). length p - i)") auto

declare pieces.simps [simp del]

definition cut_piece :: "bool \<Rightarrow> ipv4_header \<Rightarrow> nat \<Rightarrow> bytes \<times> nat \<Rightarrow> bytes \<times> ipv4_header" where
  "cut_piece checksums h n x = (case x of (d, i) \<Rightarrow>
     (let h1 = (if i + length d < n \<or> \<not> IsLastFragment h then SetMoreFragments h else SetLastFragment h);
          h2 = h1\<lparr>ip_fragmentOffset := of_nat i + ip_fragmentOffset h, ip_payloadSize := of_nat (length d)\<rparr>
      in (d, if checksums then EnableChecksum h2 else h2)))"

lemma and_7: "x AND 7 = 0 \<longleftrightarrow> 8 dvd unat x" for x :: "'a::len word"
proof -
  have "x AND 7 = take_bit 3 x" by (simp only: take_bit_eq_mask) (simp add: mask_eq_exp_minus_1)
  then have "x AND 7 = 0 \<longleftrightarrow> unat (take_bit 3 x) = 0" by (simp only: unat_eq_0)
  then show ?thesis by (simp only: unsigned_take_bit_eq) (simp add: take_bit_eq_mod dvd_eq_mod_eq_0)
qed

lemma flag_simps [simp]:
  "\<not> IsLastFragment (SetMoreFragments h)" "IsLastFragment (SetLastFragment h)"
  "IsLastFragment (h\<lparr>ip_fragmentOffset := a\<rparr>) = IsLastFragment h" "IsLastFragment (h\<lparr>ip_payloadSize := b\<rparr>) = IsLastFragment h"
  "IsLastFragment (EnableChecksum h) = IsLastFragment h"
  by (simp_all add: IsLastFragment_def SetMoreFragments_def SetLastFragment_def EnableChecksum_def flag_tests bit_or_iff
    bit_and_iff bit_2_iff bit_not_iff)

lemma unat_and_not_7: "unat (x AND NOT 7) = 8 * (unat x div 8)" for x :: "'a::len word"
proof -
  have m: "(7 :: 'a word) = mask 3" by (simp add: mask_eq_exp_minus_1)
  have "(x AND NOT 7) AND take_bit 3 x = 0" unfolding m take_bit_eq_mask
    by (rule bit_word_eqI) (auto simp: bit_and_iff bit_not_iff)
  then have s: "(x AND NOT 7) + take_bit 3 x = (x AND NOT 7) OR take_bit 3 x" by (rule disjunctive_add_eq_or)
  also have "\<dots> = x" unfolding m take_bit_eq_mask by (rule bit_word_eqI) (auto simp: bit_and_iff bit_or_iff bit_not_iff)
  finally have "x - take_bit 3 x = x AND NOT 7" by (metis add_diff_cancel_right')
  moreover have "take_bit 3 x \<le> x" by (metis s word_and_le2 take_bit_eq_mask)
  moreover have "unat (take_bit 3 x) = unat x mod 8" by (simp only: unsigned_take_bit_eq) (simp add: take_bit_eq_mod)
  ultimately show ?thesis by (metis unat_minus_le minus_mod_eq_mult_div)
qed

lemma fragment_size_bounds:
  assumes "28 \<le> unat mtu"
  shows "8 \<le> unat (fragment_size mtu)" "8 dvd unat (fragment_size mtu)" "unat (fragment_size mtu) + 20 \<le> unat mtu"
proof -
  have "20 \<le> mtu" using assms by (simp add: word_le_nat_alt)
  then have m: "unat (mtu - 20) = unat mtu - 20" by (simp add: unat_minus_le)
  show "8 \<le> unat (fragment_size mtu)" "8 dvd unat (fragment_size mtu)" "unat (fragment_size mtu) + 20 \<le> unat mtu"
    using assms unfolding fragment_size_def unat_and_not_7 m by simp_all
qed

lemma u16_of_nat: "n < 65536 \<Longrightarrow> unat (of_nat n :: u16) = n"
  by (simp add: unat_of_nat)

lemma fragment_header_eq:
  assumes "8 dvd i" "8 dvd unat (ip_fragmentOffset h)" "i + unat (ip_fragmentOffset h) < 65536" "length d = sz"
    "m \<longleftrightarrow> i + sz < n"
  shows "fragment_header checksums m (of_nat i) sz h = Some (snd (cut_piece checksums h n (d, i)))"
proof -
  have "unat (of_nat i + ip_fragmentOffset h) = i + unat (ip_fragmentOffset h)"
    using assms(3) by (simp add: unat_plus_no_overflow u16_of_nat)
  then have "(of_nat i + ip_fragmentOffset h) AND 7 = 0" using assms(1,2) by (simp add: and_7)
  with assms(4,5) show ?thesis by (simp add: fragment_header_def SetFragmentOffset_def cut_piece_def Let_def)
qed

lemma fragment_loop_pieces:
  assumes h: "8 dvd unat (ip_fragmentOffset h)"
  shows "8 dvd f \<Longrightarrow> 0 < f \<Longrightarrow> f < 65536 \<Longrightarrow> length p + unat (ip_fragmentOffset h) < 65536 \<Longrightarrow> 8 dvd i \<Longrightarrow> i \<le> length p \<Longrightarrow>
    fragment_loop checksums p h f (of_nat i) = Some (map (cut_piece checksums h (length p)) (pieces f p i))"
proof (induction f p i rule: pieces.induct)
  case (1 f p i)
  note i = u16_of_nat[of i]
  show ?case
  proof (cases "i + f < length p")
    case True
    then have "fragment_loop checksums p h f (of_nat (i + f)) = Some (map (cut_piece checksums h (length p)) (pieces f p (i + f)))"
      using 1 by simp
    moreover have "fragment_header checksums True (of_nat i) f h = Some (snd (cut_piece checksums h (length p) (take f (drop i p), i)))"
      using 1 True h by (intro fragment_header_eq) auto
    ultimately show ?thesis using 1 True i
      by (simp add: fragment_loop.simps[of checksums p h f "of_nat i"] pieces.simps[of f p i] cut_piece_def Let_def)
  next
    case False
    then have "fragment_header checksums False (of_nat i) (length p - i) h = Some (snd (cut_piece checksums h (length p) (drop i p, i)))"
      using 1 h by (intro fragment_header_eq) auto
    then show ?thesis using 1 False i
      by (simp add: fragment_loop.simps[of checksums p h f "of_nat i"] pieces.simps[of f p i] cut_piece_def Let_def)
  qed
qed

text \<open>A packet longer than 65535 bytes is never cut up: the offset wraps around before the end.\<close>

lemma fragment_loop_diverges:
  assumes "65535 + f < length p" "length p < 2 ^ 32"
  shows "fragment_loop checksums p h f offset = None"
proof -
  have "q = p \<longrightarrow> f' = f \<longrightarrow> False" if "fragment_loop checksums q h f' offset = Some r" for q f' r
    using _ that
  proof (rule fragment_loop.raw_induct[where P = "\<lambda>_ q _ f' _ _. q = p \<longrightarrow> f' = f \<longrightarrow> False"])
    fix loop c q h f' and offset :: u16 and r
    assume IH: "\<And>c q h f' offset r. loop c q h f' offset = Some r \<Longrightarrow> q = p \<longrightarrow> f' = f \<longrightarrow> False"
      and body: "(let moreFragment = u32_add (unat offset) f' < length q;
          sz = (if moreFragment then f' else u32_sub (length q) (unat offset)) in
        Option.bind (fragment_header c moreFragment offset sz h) (\<lambda>fh.
          if moreFragment then Option.bind (loop c q h f' (offset + of_nat sz)) (\<lambda>rest. Some ((take sz (drop (unat offset) q), fh) # rest))
          else Some [(take sz (drop (unat offset) q), fh)])) = Some r"
    have "unat offset < 65536" using unsigned_less[of offset, where ?'a = nat] by (simp del: unsigned_less)
    then have "u32_add (unat offset) f < length p" using assms by simp
    with body show "q = p \<longrightarrow> f' = f \<longrightarrow> False" by (auto simp: Let_def bind_eq_Some_conv dest: IH)
  qed
  then show ?thesis by (metis not_None_eq)
qed

lemma DoFragmentation_pieces:
  assumes "header_ok h" "28 \<le> unat mtu" "unat mtu < 65536" "length p + unat (ip_fragmentOffset h) < 65536"
  shows "DoFragmentation checksums p h mtu = Some (map (cut_piece checksums h (length p)) (pieces (unat (fragment_size mtu)) p 0))"
  using fragment_loop_pieces[of h "unat (fragment_size mtu)" p 0 checksums] fragment_size_bounds[OF assms(2)] assms
  by (simp add: DoFragmentation_def header_ok_def and_7)

lemma pieces_set:
  assumes "0 < f"
  shows "f dvd i \<Longrightarrow> i \<le> length p \<Longrightarrow> i < length p \<or> p = [] \<Longrightarrow>
    set (pieces f p i) = {(take f (drop j p), j) |j. f dvd j \<and> i \<le> j \<and> (j < length p \<or> j = i)}"
  using assms
proof (induction f p i rule: pieces.induct)
  case (1 f p i)
  show ?case
  proof (cases "i + f < length p")
    case True
    have ge: "i + f \<le> j" if "f dvd j" "i \<le> j" "j \<noteq> i" for j
    proof -
      from that 1(2) have "f dvd j - i" "0 < j - i" by auto
      then have "f \<le> j - i" by (rule dvd_imp_le)
      with that show ?thesis by linarith
    qed
    have "set (pieces f p (i + f)) = {(take f (drop j p), j) |j. f dvd j \<and> i + f \<le> j \<and> (j < length p \<or> j = i + f)}"
      using 1 True by simp
    then have "set ((take f (drop i p), i) # pieces f p (i + f)) =
        {(take f (drop j p), j) |j. f dvd j \<and> i \<le> j \<and> (j < length p \<or> j = i)}"
      using 1(2) True ge by (auto dest: add_leD1)
    then show ?thesis using 1(5) True by (simp add: pieces.simps[of f p i])
  next
    case False
    have "j = i" if "f dvd j" "i \<le> j" "j < length p" for j
    proof (rule ccontr)
      assume "j \<noteq> i"
      then have "f \<le> j - i" using that 1(2) by (intro dvd_imp_le) auto
      with that(2,3) False show False by linarith
    qed
    then have "{(take f (drop j p), j) |j. f dvd j \<and> i \<le> j \<and> (j < length p \<or> j = i)} = {(take f (drop i p), i)}"
      using 1(2) by blast
    with False show ?thesis by (simp add: pieces.simps[of f p i])
  qed
qed

lemma pieces_concat: "i \<le> length p \<Longrightarrow> concat (map fst (pieces f p i)) = drop i p"
proof (induction f p i rule: pieces.induct)
  case (1 f p i)
  then show ?case
    by (auto simp: pieces.simps[of f p i]) (metis add.commute append_take_drop_id drop_drop)
qed

subsection \<open>Slices\<close>

text \<open>The fragment \<open>d\<close> at \<open>off\<close> is a slice of the datagram \<open>P\<close>; every slice but the last has more fragments behind it.\<close>

definition slice_of :: "bytes \<Rightarrow> bytes \<times> u16 \<Rightarrow> bool" where
  "slice_of P x \<longleftrightarrow> (case x of (d, off) \<Rightarrow> unat off + length d \<le> length P \<and> d = take (length d) (drop (unat off) P))"

definition slice_end :: "bytes \<times> u16 \<Rightarrow> nat" where
  "slice_end x = unat (snd x) + length (fst x)"

definition fragments_of :: "bytes \<Rightarrow> fragments \<Rightarrow> bool" where
  "fragments_of P f \<longleftrightarrow> length P < 65536 \<and> (\<forall>x \<in> set (fg_fragments f). slice_of P x) \<and>
     sorted_wrt (\<lambda>x y. snd x \<le> snd y) (fg_fragments f) \<and>
     (fg_fragments f \<noteq> [] \<longrightarrow> (fg_moreFragment f \<longleftrightarrow> slice_end (last (fg_fragments f)) < length P))"

lemma fragments_of_new: "length P < 65536 \<Longrightarrow> fragments_of P (Fragments i)"
  by (simp add: fragments_of_def Fragments_def)

lemma AddFragment_of:
  assumes "fragments_of P f" "slice_of P (d, off)" "m \<longleftrightarrow> unat off + length d < length P"
  shows "fragments_of P (AddFragment d off m f)"
    "set (fg_fragments (AddFragment d off m f)) = insert (d, off) (set (fg_fragments f))"
proof -
  obtain xs ys where sp: "span_until (\<lambda>x. off < snd x) (fg_fragments f) = (xs, ys)" by (meson surj_pair)
  note sp' = span_until_append[OF sp] span_until_pre[OF sp]
  have s: "sorted_wrt (\<lambda>x y. snd x \<le> snd y) (xs @ ys)" using assms(1) sp'(1) by (simp add: fragments_of_def)
  have "off < snd y" if "y \<in> set ys" for y
  proof (cases ys)
    case (Cons z zs)
    with span_until_hit[of "\<lambda>x. off < snd x"] sp have "off < snd z" by blast
    with s that Cons show ?thesis by (auto simp: sorted_wrt_append)
  qed (use that in simp)
  moreover have "snd x \<le> off" if "x \<in> set xs" for x using sp'(2)[OF that] by simp
  ultimately have "sorted_wrt (\<lambda>x y. snd x \<le> snd y) (xs @ (d, off) # ys)"
    using s by (auto simp: sorted_wrt_append less_imp_le)
  then show "fragments_of P (AddFragment d off m f)"
    using assms sp sp'(1) by (auto simp: AddFragment_def fragments_of_def slice_end_def)
  show "set (fg_fragments (AddFragment d off m f)) = insert (d, off) (set (fg_fragments f))"
    using sp sp'(1) by (simp add: AddFragment_def)
qed

text \<open>How far the fragments reach, and the bytes they cover when the check of \<open>IsEntire\<close> succeeds.\<close>

definition reach :: "nat \<Rightarrow> (bytes \<times> u16) list \<Rightarrow> nat" where
  "reach n fs = foldl (\<lambda>m x. max m (slice_end x)) n fs"

lemma reach_simps [simp]: "reach n [] = n" "reach n (x # fs) = reach (max n (slice_end x)) fs"
  by (simp_all add: reach_def)

lemma reach_ge: "n \<le> reach n fs"
  by (induction fs arbitrary: n) (auto intro: order_trans[OF max.cobounded1])

lemma reach_ge_end: "x \<in> set fs \<Longrightarrow> slice_end x \<le> reach n fs"
  by (induction fs arbitrary: n) (auto intro: order_trans[OF max.cobounded2 reach_ge])

lemma reach_le: "n \<le> m \<Longrightarrow> (\<And>x. x \<in> set fs \<Longrightarrow> slice_end x \<le> m) \<Longrightarrow> reach n fs \<le> m"
  by (induction fs arbitrary: n) auto

lemma end_u16:
  assumes "slice_of P (d, off)" "length P < 65536" "n \<le> length P"
  shows "unat (max (of_nat n) (of_nat (length d) + off) :: u16) = max n (slice_end (d, off))"
proof -
  have "unat (of_nat (length d) + off) = slice_end (d, off)" "unat (of_nat n :: u16) = n"
    using assms by (simp_all add: slice_of_def slice_end_def unat_plus_no_overflow u16_of_nat)
  then show ?thesis by (simp add: max_def word_le_nat_alt)
qed

lemma max_u16:
  assumes "slice_of P (d, off)" "length P < 65536" "n \<le> length P"
  shows "max (of_nat n) (of_nat (length d) + off) = (of_nat (max n (slice_end (d, off))) :: u16)"
  using end_u16[OF assms] by (metis of_nat_unat ucast_id)

lemma entire_cover:
  assumes "length P < 65536" "\<forall>x \<in> set fs. slice_of P x"
  shows "entire_loop (of_nat n) fs \<Longrightarrow> n \<le> length P \<Longrightarrow> n \<le> k \<Longrightarrow> k < reach n fs \<Longrightarrow>
    \<exists>x \<in> set fs. unat (snd x) \<le> k \<and> k < slice_end x"
  using assms
proof (induction fs arbitrary: n)
  case (Cons x fs)
  obtain d off where x: "x = (d, off)" by force
  with Cons.prems have sl: "slice_of P (d, off)" and le: "max n (slice_end x) \<le> length P" by (auto simp: slice_of_def slice_end_def)
  note m = max_u16[OF sl Cons.prems(5,2)]
  have off: "unat off \<le> n" using Cons.prems(1,2,5) by (auto simp: x word_le_nat_alt u16_of_nat not_less split: if_splits)
  show ?case
  proof (cases "k < max n (slice_end x)")
    case True
    then have "k < slice_end x" using Cons.prems(3) by simp
    with off Cons.prems(3) x show ?thesis by auto
  next
    case False
    with Cons.IH[of "max n (slice_end x)"] Cons.prems le show ?thesis by (auto simp: x m split: if_splits)
  qed
qed simp

lemma packet_loop_prefix:
  assumes "length P < 65536" "\<forall>x \<in> set fs. slice_of P x"
  shows "entire_loop (of_nat n) fs \<Longrightarrow> n \<le> length P \<Longrightarrow> packet_loop (take n P) fs = take (reach n fs) P"
  using assms
proof (induction fs arbitrary: n)
  case (Cons x fs)
  obtain d off where x: "x = (d, off)" by force
  with Cons.prems have sl: "slice_of P (d, off)" and le: "max n (slice_end x) \<le> length P" by (auto simp: slice_of_def slice_end_def)
  note m = max_u16[OF sl Cons.prems(3,2)]
  have off: "unat off \<le> n" using Cons.prems(1,2,3) by (auto simp: x word_le_nat_alt u16_of_nat not_less split: if_splits)
  have n: "unat (of_nat n :: u16) = n" using Cons.prems by (simp add: u16_of_nat)
  have d: "d = take (length d) (drop (unat off) P)" using sl by (simp add: slice_of_def)
  have tail: "take n P @ drop (n - unat off) d = take (max n (slice_end x)) P"
  proof -
    have "drop (n - unat off) d = take (slice_end x - n) (drop n P)"
      using off by (subst d) (simp add: drop_take slice_end_def x add.commute)
    then show ?thesis by (simp add: max_def flip: take_add)
  qed
  have "packet_loop (take n P) (x # fs) = packet_loop (take n P @ drop (n - unat off) d) fs"
    using off n Cons.prems(2) by (auto simp: x word_less_nat_alt Let_def min_def)
  also have "\<dots> = take (reach (max n (slice_end x)) fs) P"
    unfolding tail using Cons.prems le by (intro Cons.IH) (auto simp: x m split: if_splits)
  finally show ?case by simp
qed simp

text \<open>Once a datagram is entire, what \<open>GetPacket\<close> returns is the datagram, and every byte of it has arrived.\<close>

lemma entire_packet:
  assumes "fragments_of P f" "IsEntire f"
  shows "GetPacket f = Some P" "k < length P \<Longrightarrow> \<exists>x \<in> set (fg_fragments f). unat (snd x) \<le> k \<and> k < slice_end x"
    "slice_end (last (fg_fragments f)) = length P"
proof -
  from assms(2) obtain d off fs where f: "fg_fragments f = (d, off) # fs"
    by (auto simp: IsEntire_def neq_Nil_conv)
  have P: "length P < 65536" "\<forall>x \<in> set (fg_fragments f). slice_of P x" using assms(1) by (auto simp: fragments_of_def)
  have "last (fg_fragments f) \<in> set (fg_fragments f)" using f by simp
  then have l: "slice_of P (last (fg_fragments f))" using P(2) by blast
  then show e: "slice_end (last (fg_fragments f)) = length P"
    using assms by (cases "last (fg_fragments f)") (auto simp: fragments_of_def IsEntire_def slice_of_def slice_end_def)
  have "\<not> 0 < off" using assms(2) by (auto simp: IsEntire_def f)
  then have "off = 0" unfolding word_gt_0 by simp
  then have z: "off = 0" "entire_loop (of_nat (length d)) fs" using assms(2) by (auto simp: IsEntire_def f)
  have r: "reach (length d) fs = length P"
  proof (rule antisym)
    show "reach (length d) fs \<le> length P"
      using P(2) by (intro reach_le) (auto simp: f slice_of_def slice_end_def)
    have "last (fg_fragments f) = (d, off) \<or> last (fg_fragments f) \<in> set fs" by (simp add: f)
    then show "length P \<le> reach (length d) fs"
      using reach_ge[of "length d" fs] reach_ge_end[of _ fs "length d"] e[symmetric] z(1) by (auto simp: slice_end_def)
  qed
  have d: "d = take (length d) P" "length d \<le> length P" using P(2) z(1) by (auto simp: f slice_of_def)
  have "packet_loop (take (length d) P) fs = take (reach (length d) fs) P"
    using P z(2) d(2) by (intro packet_loop_prefix) (auto simp: f)
  then show "GetPacket f = Some P" using d(1) by (simp add: GetPacket_def f r)
  show "\<exists>x \<in> set (fg_fragments f). unat (snd x) \<le> k \<and> k < slice_end x" if "k < length P"
  proof (rule entire_cover[of P _ 0 k])
    show "k < reach 0 (fg_fragments f)" using that r by (simp add: f slice_end_def z(1))
  qed (use P assms(2) in \<open>auto simp: IsEntire_def\<close>)
qed

lemma entire_loopI:
  assumes "length P < 65536" "\<forall>x \<in> set fs. slice_of P x"
  shows "n \<le> length P \<Longrightarrow> (\<And>xs x ys. fs = xs @ x # ys \<Longrightarrow> unat (snd x) \<le> reach n xs) \<Longrightarrow> entire_loop (of_nat n) fs"
  using assms
proof (induction fs arbitrary: n)
  case (Cons x fs)
  obtain d off where x: "x = (d, off)" by force
  with Cons.prems have sl: "slice_of P (d, off)" and le: "max n (slice_end x) \<le> length P" by (auto simp: slice_of_def slice_end_def)
  have "unat off \<le> n" using Cons.prems(2)[of "[]" x fs] by (simp add: x)
  moreover have "entire_loop (of_nat (max n (slice_end x))) fs"
  proof (rule Cons.IH)
    show "unat (snd y) \<le> reach (max n (slice_end x)) xs" if "fs = xs @ y # ys" for xs y ys
      using Cons.prems(2)[of "x # xs" y ys] that by simp
  qed (use le Cons.prems in auto)
  ultimately show ?case
    using max_u16[OF sl Cons.prems(3,1)] Cons.prems(1,3) by (simp add: x word_le_nat_alt u16_of_nat not_less)
qed simp

subsection \<open>Receiving the fragments of a datagram\<close>

definition add_received :: "bytes \<times> ipv4_header \<Rightarrow> fragments \<Rightarrow> fragments" where
  "add_received x f = AddFragment (fst x) (ip_fragmentOffset (snd x)) (\<not> IsLastFragment (snd x)) f"

definition received :: "bytes \<times> ipv4_header \<Rightarrow> bytes \<times> u16" where
  "received x = (fst x, ip_fragmentOffset (snd x))"

text \<open>A fragment as its receiver sees it: a slice, with the flag of its position.\<close>

definition fragment_of :: "bytes \<Rightarrow> bytes \<times> ipv4_header \<Rightarrow> bool" where
  "fragment_of P x \<longleftrightarrow> slice_of P (received x) \<and> (\<not> IsLastFragment (snd x) \<longleftrightarrow> slice_end (received x) < length P)"

lemma add_received_all:
  assumes "fragments_of P f" "\<forall>x \<in> set xs. fragment_of P x"
  shows "fragments_of P (fold add_received xs f)"
    "set (fg_fragments (fold add_received xs f)) = set (fg_fragments f) \<union> received ` set xs"
proof -
  have "fragments_of P (fold add_received xs f) \<and>
      set (fg_fragments (fold add_received xs f)) = set (fg_fragments f) \<union> received ` set xs"
    using assms
  proof (induction xs arbitrary: f)
    case (Cons x xs)
    have "fragment_of P x" using Cons.prems(2) by simp
    then have x: "slice_of P (received x)" "\<not> IsLastFragment (snd x) \<longleftrightarrow> slice_end (received x) < length P"
      by (simp_all add: fragment_of_def)
    have "fragments_of P (add_received x f)" "set (fg_fragments (add_received x f)) = insert (received x) (set (fg_fragments f))"
      using AddFragment_of[OF Cons.prems(1) x(1)[unfolded received_def], of "\<not> IsLastFragment (snd x)"] x(2)
      by (auto simp: add_received_def received_def slice_end_def)
    then show ?case using Cons.IH[of "add_received x f"] Cons.prems(2) by auto
  qed simp
  then show "fragments_of P (fold add_received xs f)"
    "set (fg_fragments (fold add_received xs f)) = set (fg_fragments f) \<union> received ` set xs" by auto
qed

lemma header_fields [simp]:
  "ip_fragmentOffset (SetMoreFragments h) = ip_fragmentOffset h" "ip_fragmentOffset (SetLastFragment h) = ip_fragmentOffset h"
  "ip_source (SetMoreFragments h) = ip_source h" "ip_source (SetLastFragment h) = ip_source h"
  "ip_destination (SetMoreFragments h) = ip_destination h" "ip_destination (SetLastFragment h) = ip_destination h"
  "ip_identification (SetMoreFragments h) = ip_identification h" "ip_identification (SetLastFragment h) = ip_identification h"
  "ip_protocol (SetMoreFragments h) = ip_protocol h" "ip_protocol (SetLastFragment h) = ip_protocol h"
  "ip_headerSize (SetMoreFragments h) = ip_headerSize h" "ip_headerSize (SetLastFragment h) = ip_headerSize h"
  by (simp_all add: SetMoreFragments_def SetLastFragment_def)

lemma checksum_fields [simp]:
  "ip_fragmentOffset (EnableChecksum h) = ip_fragmentOffset h" "ip_payloadSize (EnableChecksum h) = ip_payloadSize h"
  "ip_source (EnableChecksum h) = ip_source h" "ip_destination (EnableChecksum h) = ip_destination h"
  "ip_identification (EnableChecksum h) = ip_identification h" "ip_protocol (EnableChecksum h) = ip_protocol h"
  "ip_headerSize (EnableChecksum h) = ip_headerSize h"
  by (simp_all add: EnableChecksum_def)

lemma cut_fields:
  assumes "cut_piece checksums h n (d, i) = (d', fh)"
  shows "d' = d" "ip_fragmentOffset fh = of_nat i + ip_fragmentOffset h" "IsLastFragment fh \<longleftrightarrow> \<not> i + length d < n \<and> IsLastFragment h"
    "ip_payloadSize fh = of_nat (length d)" "ip_source fh = ip_source h" "ip_destination fh = ip_destination h"
    "ip_identification fh = ip_identification h" "ip_protocol fh = ip_protocol h" "ip_headerSize fh = ip_headerSize h"
  using assms by (auto simp: cut_piece_def Let_def split: if_splits)

lemma slice_trans:
  assumes "slice_of P (q, off)" "d = take (length d) (drop i q)" "i + length d \<le> length q" "length P < 65536"
  shows "slice_of P (d, of_nat i + off)" "unat (of_nat i + off) = i + unat off"
proof -
  have q: "unat off + length q \<le> length P" "q = take (length q) (drop (unat off) P)" using assms(1) by (auto simp: slice_of_def)
  show u: "unat (of_nat i + off) = i + unat off"
    using q(1) assms(3,4) by (simp add: unat_plus_no_overflow u16_of_nat)
  have "d = take (length d) (drop i (take (length q) (drop (unat off) P)))" using q(2) assms(2) by simp
  also have "\<dots> = take (length d) (drop (i + unat off) P)"
    using assms(3) by (simp add: drop_take min_def add.commute)
  finally show "slice_of P (d, of_nat i + off)" using q(1) assms(3) by (simp add: slice_of_def u)
qed

text \<open>Cutting up a fragment gives fragments of the same datagram.\<close>

lemma cut_fragment_of:
  assumes "fragment_of P (q, h)" "length P < 65536" "x \<in> set (pieces f q 0)" "0 < f"
  shows "fragment_of P (cut_piece checksums h (length q) x)"
proof -
  obtain d i where x: "x = (d, i)" by force
  have d: "d = take f (drop i q)" "i < length q \<or> i = 0" using assms(3) pieces_set[of f 0 q] assms(4) by (auto simp: x)
  then have l: "d = take (length d) (drop i q)" "i + length d \<le> length q" by (auto simp: min_def)
  obtain fh where fh: "cut_piece checksums h (length q) (d, i) = (d, fh)" by (auto simp: cut_piece_def Let_def)
  have q: "slice_of P (q, ip_fragmentOffset h)" "\<not> IsLastFragment h \<longleftrightarrow> unat (ip_fragmentOffset h) + length q < length P"
    using assms(1) by (auto simp: fragment_of_def received_def slice_end_def)
  note s = slice_trans[OF q(1) l assms(2)]
  have "unat (ip_fragmentOffset h) + length q \<le> length P" using q(1) by (simp add: slice_of_def)
  then have "\<not> IsLastFragment fh \<longleftrightarrow> i + unat (ip_fragmentOffset h) + length d < length P"
    unfolding cut_fields(3)[OF fh] using q(2) l(2) by linarith
  then show ?thesis
    using s by (simp add: x fh fragment_of_def received_def slice_end_def cut_fields(2)[OF fh])
qed

end
