(* ===== verification/Ipv4_L3_Properties.thy ===== *)
theory Ipv4_L3_Properties
  imports Ipv4_L3 Ipv4_Fragments_Facts
begin

text \<open>
  Properties of \<open>Ipv4L3Protocol\<close>: what leaves a node, under which identification and which time to live,
  and that a neighbour receives what was sent.
\<close>

subsection \<open>What the sending side changes\<close>

fun header_out :: "interface_out \<Rightarrow> ipv4_header" where
  "header_out (ToLoopback h p) = h"
| "header_out (ToSelf h p) = h"
| "header_out (ToQueueDisc d h p) = h"

text \<open>The fields that all fragments of a packet share with it.\<close>

definition same_datagram :: "ipv4_header \<Rightarrow> ipv4_header \<Rightarrow> bool" where
  "same_datagram h g \<longleftrightarrow> ip_source g = ip_source h \<and> ip_destination g = ip_destination h \<and> ip_protocol g = ip_protocol h \<and>
     ip_identification g = ip_identification h \<and> ip_ttl g = ip_ttl h \<and> ip_tos g = ip_tos h"

lemma same_datagram_refl [simp]: "same_datagram h h"
  by (simp add: same_datagram_def)

lemma fragment_header_same: "fragment_header c m off sz h = Some g \<Longrightarrow> same_datagram h g"
  by (auto simp: fragment_header_def SetFragmentOffset_def SetMoreFragments_def SetLastFragment_def EnableChecksum_def
    same_datagram_def Let_def)

lemma fragment_loop_same:
  assumes "fragment_loop c p h f off = Some fs"
  shows "\<forall>(d, g) \<in> set fs. same_datagram h g"
  using _ assms
proof (rule fragment_loop.raw_induct[where P = "\<lambda>c p h f off fs. \<forall>(d, g) \<in> set fs. same_datagram h g"])
  fix loop c p h f and off :: u16 and fs
  assume IH: "\<And>c p h f off fs. loop c p h f off = Some fs \<Longrightarrow> \<forall>(d, g) \<in> set fs. same_datagram h g"
    and body: "(let moreFragment = u32_add (unat off) f < length p;
        sz = (if moreFragment then f else u32_sub (length p) (unat off)) in
      Option.bind (fragment_header c moreFragment off sz h) (\<lambda>fh.
        if moreFragment then Option.bind (loop c p h f (off + of_nat sz)) (\<lambda>rest. Some ((take sz (drop (unat off) p), fh) # rest))
        else Some [(take sz (drop (unat off) p), fh)])) = Some fs"
  then show "\<forall>(d, g) \<in> set fs. same_datagram h g"
    by (auto simp: Let_def bind_eq_Some_conv dest!: IH split: if_splits dest: fragment_header_same)
qed

lemma DoFragmentation_same: "DoFragmentation c p h mtu = Some fs \<Longrightarrow> (d, g) \<in> set fs \<Longrightarrow> same_datagram h g"
  using fragment_loop_same by (fastforce simp: DoFragmentation_def)

text \<open>Everything of an interface but its record of packets.\<close>

definition same_interface :: "ipv4_interface \<Rightarrow> ipv4_interface \<Rightarrow> bool" where
  "same_interface i j \<longleftrightarrow> if_up j = if_up i \<and> if_forwarding j = if_forwarding i \<and> if_metric j = if_metric i \<and>
     if_addrs j = if_addrs i \<and> if_device j = if_device i \<and> if_tc j = if_tc i \<and> if_cache j = if_cache i \<and> if_draining j = if_draining i"

lemma same_interface_trans: "same_interface i j \<Longrightarrow> same_interface j k \<Longrightarrow> same_interface i k"
  by (simp add: same_interface_def)

lemma same_interface_refl [simp]: "same_interface i i"
  by (simp add: same_interface_def)

lemma record_packet_same: "record_packet h i = Some j \<Longrightarrow> same_interface i j"
  by (auto simp: record_packet_def same_interface_def Let_def bind_eq_Some_conv split: if_splits prod.splits)

lemma Interface_Send_out:
  assumes "Interface_Send arp p h target i = Some (os, j)"
  shows "same_interface i j" "x \<in> set os \<Longrightarrow> header_out x = h" "os \<noteq> [] \<Longrightarrow> if_up i \<or> if_draining i"
proof -
  from assms obtain k where k: "record_packet h i = Some k" by (auto simp: Interface_Send_def bind_eq_Some_conv)
  note s = record_packet_same[OF k]
  show "same_interface i j" "x \<in> set os \<Longrightarrow> header_out x = h"
    using assms k s by (auto simp: Interface_Send_def bind_eq_Some_conv split: if_splits option.splits)
  show "os \<noteq> [] \<Longrightarrow> if_up i \<or> if_draining i"
    using assms k s by (auto simp: Interface_Send_def same_interface_def split: if_splits)
qed

lemma send_all_out:
  assumes "send_all arp target fs i = Some (os, j)"
  shows "same_interface i j" "x \<in> set os \<Longrightarrow> header_out x \<in> snd ` set fs"
proof -
  have "same_interface i j \<and> (x \<in> set os \<longrightarrow> header_out x \<in> snd ` set fs)"
    using assms
  proof (induction fs arbitrary: i os)
    case (Cons f fs)
    obtain p h where f: "f = (p, h)" by force
    with Cons.prems obtain os1 i1 os2 where s: "Interface_Send arp p h target i = Some (os1, i1)"
      "send_all arp target fs i1 = Some (os2, j)" "os = os1 @ os2" by (auto simp: bind_eq_Some_conv)
    from Interface_Send_out[OF s(1)] Cons.IH[OF s(2)] show ?case
      by (auto simp: f s(3) intro: same_interface_trans)
  qed simp
  then show "same_interface i j" "x \<in> set os \<Longrightarrow> header_out x \<in> snd ` set fs" by auto
qed

text \<open>One state is reached from another by sending packets of the datagram \<open>h\<close> from interfaces that are up.\<close>

definition same_l3 :: "ipv4_l3 \<Rightarrow> ipv4_l3 \<Rightarrow> bool" where
  "same_l3 s s' \<longleftrightarrow> list_all2 same_interface (l3_interfaces s) (l3_interfaces s') \<and> l3_reverse s' = l3_reverse s \<and>
     l3_checksums s' = l3_checksums s \<and> l3_defaultTtl s' = l3_defaultTtl s"

definition sends :: "(ipv4_header \<Rightarrow> bool) \<Rightarrow> ipv4_l3 \<Rightarrow> ipv4_l3 \<Rightarrow> l3_out list \<Rightarrow> bool" where
  "sends P s s' os \<longleftrightarrow> same_l3 s s' \<and> l3_out s' = l3_out s @ os \<and>
     (\<forall>i x. FromInterface i x \<in> set os \<longrightarrow> i < length (l3_interfaces s) \<and> if_up (l3_interfaces s ! i) \<and> P (header_out x))"

lemma same_l3_refl [simp]: "same_l3 s s"
  by (simp add: same_l3_def list_all2_refl)

lemma same_l3_trans: "same_l3 s s1 \<Longrightarrow> same_l3 s1 s2 \<Longrightarrow> same_l3 s s2"
  by (auto simp: same_l3_def elim: list_all2_trans[rotated] intro: same_interface_trans)

lemma sends_trans:
  assumes "sends P s s1 os" "sends P s1 s2 os'"
  shows "sends P s s2 (os @ os')"
proof -
  have "i < length (l3_interfaces s) \<and> if_up (l3_interfaces s ! i)"
    if "i < length (l3_interfaces s1)" "if_up (l3_interfaces s1 ! i)" for i
    using assms(1) that by (auto simp: sends_def same_l3_def list_all2_conv_all_nth same_interface_def)
  with assms show ?thesis by (auto simp: sends_def intro: same_l3_trans)
qed

definition one_interface :: "l3_out list \<Rightarrow> bool" where
  "one_interface os \<longleftrightarrow> (\<exists>j. \<forall>i x. FromInterface i x \<in> set os \<longrightarrow> i = j)"

lemma SendRealOut_sends:
  assumes "SendRealOut arp (Some r) p h s = Some s'"
  shows "\<exists>os. sends (same_datagram h) s s' os \<and> l3_identification s' = l3_identification s \<and> one_interface os"
proof -
  let ?i = "nat (GetInterfaceForDevice (ro_device r) s)"
  from assms obtain x where x: "GetInterface ?i s = Some x"
    by (auto simp: SendRealOut_def Let_def bind_eq_Some_conv)
  then have i: "?i < length (l3_interfaces s)" "l3_interfaces s ! ?i = x" by (auto simp: GetInterface_def split: if_splits)
  show ?thesis
  proof (cases "if_up x")
    case False
    with assms x have "s' = s" by (auto simp: SendRealOut_def Let_def bind_eq_Some_conv)
    then show ?thesis by (auto simp: sends_def one_interface_def)
  next
    case True
    with assms x obtain fs os x' where o: "(if unat (nd_mtu (if_device x)) < length p + unat (ip_headerSize h)
          then DoFragmentation (l3_checksums s) p h (ucast (nd_mtu (if_device x))) else Some [(p, h)]) = Some fs"
      "send_all (arp ?i) (if IsAny (ro_gateway r) then ip_destination h else ro_gateway r) fs x = Some (os, x')"
      "s' = l3_emit (map (FromInterface ?i) os) (set_interface ?i x' s)"
      by (auto simp: SendRealOut_def Let_def bind_eq_Some_conv)
    have same: "same_datagram h g" if "g \<in> snd ` set fs" for g
      using o(1) that DoFragmentation_same[of "l3_checksums s" p h "ucast (nd_mtu (if_device x))" fs] by (auto split: if_splits)
    have "list_all2 same_interface (l3_interfaces s) ((l3_interfaces s)[?i := x'])"
      using send_all_out(1)[OF o(2)] i by (auto simp: list_all2_conv_all_nth nth_list_update)
    then have "sends (same_datagram h) s s' (map (FromInterface ?i) os)"
      using send_all_out(2)[OF o(2)] same i True by (auto simp: sends_def same_l3_def o(3) l3_emit_def set_interface_def)
    moreover have "one_interface (map (FromInterface ?i) os)" by (auto simp: one_interface_def)
    ultimately show ?thesis using o(3) by (auto simp: l3_emit_def set_interface_def)
  qed
qed

subsection \<open>Identification\<close>

lemma flow_key_eq [simp]:
  "flow_key a b p = flow_key a' b' p' \<longleftrightarrow> a = a' \<and> b = b' \<and> p = p'"
proof -
  have hi: "drop_bit 32 (ucast (addr b) OR push_bit 32 (ucast (addr a)) :: u64) = ucast (addr a)" for a b :: ipv4
    by (rule bit_word_eqI) (auto simp: bit_drop_bit_eq bit_or_iff bit_push_bit_iff bit_ucast_iff dest: bit_imp_le_length)
  have lo: "take_bit 32 (ucast (addr b) OR push_bit 32 (ucast (addr a)) :: u64) = ucast (addr b)" for a b :: ipv4
    by (rule bit_word_eqI) (auto simp: bit_take_bit_iff bit_or_iff bit_push_bit_iff bit_ucast_iff dest: bit_imp_le_length)
  have inj: "x = y" if "(ucast x :: u64) = ucast y" for x y :: u32
  proof -
    have "unat (ucast z :: u64) = unat z" for z :: u32
      using unsigned_less[of z, where ?'a = nat] by (simp add: unsigned_ucast_eq take_bit_nat_eq_self del: unsigned_less)
    with that show ?thesis by (metis word_unat_eq_iff)
  qed
  show ?thesis unfolding flow_key_def prod.inject
    by (metis hi lo inj ipv4.expand)
qed

lemma next_id_set: "smap_ok (l3_identification s) \<Longrightarrow> next_id k' (set_next_id k n s) = (if k' = k then n else next_id k' s)"
  by (simp add: next_id_def set_next_id_def map_of_smap_set)

lemma set_next_id_ok: "smap_ok (l3_identification s) \<Longrightarrow> smap_ok (l3_identification (set_next_id k n s))"
  by (simp add: set_next_id_def smap_ok_set)

lemma set_next_id_sends [simp]: "sends P s (set_next_id k n s) []"
  by (simp add: sends_def same_l3_def set_next_id_def list_all2_refl)

text \<open>What a header sent for a request has.\<close>

definition asked :: "ipv4 \<Rightarrow> ipv4 \<Rightarrow> u8 \<Rightarrow> u8 option \<times> u8 option \<Rightarrow> u8 \<Rightarrow> u16 \<Rightarrow> ipv4_header \<Rightarrow> bool" where
  "asked source destination protocol tags ttl n g \<longleftrightarrow> ip_source g = source \<and> ip_destination g = destination \<and> ip_protocol g = protocol \<and>
     ip_identification g = n \<and> ip_ttl g = (case fst tags of Some x \<Rightarrow> x | None \<Rightarrow> ttl) \<and> ip_tos g = (case snd tags of Some x \<Rightarrow> x | None \<Rightarrow> 0)"

lemma BuildHeader_asked:
  "BuildHeader a b p n (case fst tags of Some x \<Rightarrow> x | None \<Rightarrow> ttl) (case snd tags of Some x \<Rightarrow> x | None \<Rightarrow> 0) m s = (h, s1) \<Longrightarrow>
    asked a b p tags ttl (next_id (flow_key a b p) s) h \<and> s1 = set_next_id (flow_key a b p) (next_id (flow_key a b p) s + 1) s"
  by (auto simp: BuildHeader_def Let_def asked_def SetMayFragment_def SetDontFragment_def EnableChecksum_def)

lemma sends_mono: "sends P s s' os \<Longrightarrow> (\<And>g. P g \<Longrightarrow> Q g) \<Longrightarrow> sends Q s s' os"
  by (auto simp: sends_def)

lemma same_asked: "asked a b p tags ttl n h \<Longrightarrow> same_datagram h g \<Longrightarrow> asked a b p tags ttl n g"
  by (auto simp: asked_def same_datagram_def)

text \<open>The state after sending: only the counter of the flow has moved, to \<open>n\<close>.\<close>

definition moved :: "u64 \<times> u8 \<Rightarrow> u16 \<Rightarrow> ipv4_l3 \<Rightarrow> ipv4_l3 \<Rightarrow> bool" where
  "moved k n s s' \<longleftrightarrow> smap_ok (l3_identification s') \<and> (\<forall>k'. next_id k' s' = (if k' = k then n else next_id k' s))"

lemma moved_trans: "moved k n s s1 \<Longrightarrow> moved k m s1 s2 \<Longrightarrow> moved k m s s2"
  by (simp add: moved_def)

lemma moved_set: "smap_ok (l3_identification s) \<Longrightarrow> moved k n s (set_next_id k n s)"
  by (simp add: moved_def next_id_set set_next_id_ok)

lemma moved_cong: "l3_identification s1 = l3_identification s2 \<Longrightarrow> moved k n s s1 = moved k n s s2"
  by (simp add: moved_def next_id_def)

lemma Send_routed_asked:
  assumes "smap_ok (l3_identification s)" "Send_routed arp packet a b p tags r s = Some s'" "next_id (flow_key a b p) s = n"
  shows "\<exists>os. sends (asked a b p tags (l3_defaultTtl s) n) s s' os \<and> moved (flow_key a b p) (n + 1) s s' \<and> one_interface os"
proof -
  let ?ttl = "case fst tags of Some x \<Rightarrow> x | None \<Rightarrow> l3_defaultTtl s" and ?tos = "case snd tags of Some x \<Rightarrow> x | None \<Rightarrow> 0"
  obtain h s1 where b: "BuildHeader a b p (of_nat (length packet)) ?ttl ?tos True s = (h, s1)" by force
  note B = BuildHeader_asked[OF b]
  from assms(2) b have "SendRealOut arp (Some r) packet h s1 = Some s'" by (simp add: Send_routed_def Let_def)
  from SendRealOut_sends[OF this] obtain os where
    os: "sends (same_datagram h) s1 s' os" "l3_identification s' = l3_identification s1" "one_interface os" by blast
  have "asked a b p tags (l3_defaultTtl s) n h" using B assms(3) by simp
  then have "sends (asked a b p tags (l3_defaultTtl s) n) s1 s' os" by (rule sends_mono[OF os(1) same_asked])
  moreover have "sends (asked a b p tags (l3_defaultTtl s) n) s s1 []" using B by simp
  ultimately have "sends (asked a b p tags (l3_defaultTtl s) n) s s' os" using sends_trans by fastforce
  moreover have "moved (flow_key a b p) (n + 1) s s1" using B assms(1,3) moved_set by simp
  ultimately show ?thesis using moved_cong[OF os(2)] os(3) by blast
qed

text \<open>Giving the identification back and sending takes it again.\<close>

lemma Send_again_asked:
  assumes "smap_ok (l3_identification s)" "next_id (flow_key a b p) s = n + 1"
    "Send_routed arp packet a b p tags r (DecreaseIdentification a b p s) = Some s'"
  shows "\<exists>os. sends (asked a b p tags (l3_defaultTtl s) n) s s' os \<and> moved (flow_key a b p) (n + 1) s s' \<and> one_interface os"
proof -
  let ?k = "flow_key a b p"
  have d: "DecreaseIdentification a b p s = set_next_id ?k n s" using assms(2) by (simp add: DecreaseIdentification_def Let_def)
  have "next_id ?k (set_next_id ?k n s) = n" using assms(1) by (simp add: next_id_set)
  from Send_routed_asked[OF set_next_id_ok[OF assms(1)] assms(3)[unfolded d] this] obtain os where
    os: "sends (asked a b p tags (l3_defaultTtl s) n) (set_next_id ?k n s) s' os" "moved ?k (n + 1) (set_next_id ?k n s) s'" "one_interface os"
    by (auto simp: set_next_id_def)
  then show ?thesis
    using sends_trans[OF set_next_id_sends os(1)] moved_trans[OF moved_set[OF assms(1)] os(2)] os(3) by auto
qed

text \<open>The copies of a broadcast: those on the first interface have what the tags say, the others the defaults.\<close>

definition copies :: "ipv4 \<Rightarrow> ipv4 \<Rightarrow> u8 \<Rightarrow> u8 option \<times> u8 option \<Rightarrow> u16 \<Rightarrow> ipv4_l3 \<Rightarrow> ipv4_l3 \<Rightarrow> l3_out list \<Rightarrow> l3_out list \<Rightarrow> bool" where
  "copies a b p tags n s s' os1 os2 \<longleftrightarrow> (\<exists>s1. sends (asked a b p tags (l3_defaultTtl s) n) s s1 os1 \<and>
     sends (asked a b p (None, None) (l3_defaultTtl s) n) s1 s' os2) \<and> one_interface os1"

lemma copies_sends:
  assumes "copies a b p tags n s s' os1 os2"
  shows "sends (\<lambda>g. asked a b p tags (l3_defaultTtl s) n g \<or> asked a b p (None, None) (l3_defaultTtl s) n g) s s' (os1 @ os2)"
  using assms sends_trans[OF sends_mono sends_mono] by (auto simp: copies_def)

lemma same_ttl: "sends P s s' os \<Longrightarrow> l3_defaultTtl s' = l3_defaultTtl s"
  by (simp add: sends_def same_l3_def)

lemma send_broadcast_asked:
  assumes "smap_ok (l3_identification s)" "next_id (flow_key a b p) s = n + 1"
    "send_broadcast arp packet a b p tags is s = Some s'"
  shows "\<exists>os1 os2. copies a b p tags n s s' os1 os2 \<and> moved (flow_key a b p) (n + 1) s s'"
  using assms
proof (induction "is" arbitrary: s tags)
  case Nil
  then have "s' = s" by simp
  with Nil show ?case
    by (intro exI[of _ "[]"]) (auto simp: copies_def sends_def moved_def one_interface_def intro!: exI[of _ s])
next
  case (Cons i "is")
  show ?case
  proof (cases "IsAny a \<or> (\<exists>x \<in> set (if_addrs i). ipv4_eq (ia_local x) a)")
    case True
    with Cons.prems(3) obtain s1 where s1:
      "Send_routed arp packet a b p tags \<lparr>ro_destination = b, ro_source = a, ro_gateway = GetAny, ro_device = nd_id (if_device i)\<rparr>
          (DecreaseIdentification a b p s) = Some s1"
      "send_broadcast arp packet a b p (None, None) is s1 = Some s'" by (auto simp: bind_eq_Some_conv)
    from Send_again_asked[OF Cons.prems(1,2) s1(1)] obtain os where
      os: "sends (asked a b p tags (l3_defaultTtl s) n) s s1 os" "moved (flow_key a b p) (n + 1) s s1" "one_interface os" by blast
    from os(2) have "smap_ok (l3_identification s1)" "next_id (flow_key a b p) s1 = n + 1"
      by (simp_all add: moved_def del: split_paired_All)
    from Cons.IH[OF this s1(2)] obtain os1 os2 where
      c: "copies a b p (None, None) n s1 s' os1 os2" "moved (flow_key a b p) (n + 1) s1 s'" by blast
    from copies_sends[OF c(1)] same_ttl[OF os(1)]
    have "sends (asked a b p (None, None) (l3_defaultTtl s) n) s1 s' (os1 @ os2)" by simp
    with os(1,3) have "copies a b p tags n s s' os (os1 @ os2)" by (auto simp: copies_def)
    with moved_trans[OF os(2) c(2)] show ?thesis by blast
  next
    case False
    with Cons show ?thesis by simp
  qed
qed

lemma Send_asked:
  assumes "smap_ok (l3_identification s)" "Ipv4_Send arp routeOutput packet a b p tags route s = Some s'"
  shows "\<exists>os. sends (\<lambda>g. asked a b p tags (l3_defaultTtl s) (next_id (flow_key a b p) s) g \<or>
      route = None \<and> (IsBroadcast b \<or> IsLocalMulticast b) \<and> asked a b p (None, None) (l3_defaultTtl s) (next_id (flow_key a b p) s) g) s s' os \<and>
    smap_ok (l3_identification s') \<and> (\<forall>k. k \<noteq> flow_key a b p \<longrightarrow> next_id k s' = next_id k s) \<and>
    (next_id (flow_key a b p) s' = next_id (flow_key a b p) s + 1 \<or>
      next_id (flow_key a b p) s' = next_id (flow_key a b p) s \<and> (\<forall>i x. FromInterface i x \<notin> set os))"
proof -
  let ?k = "flow_key a b p" and ?ttl = "case fst tags of Some x \<Rightarrow> x | None \<Rightarrow> l3_defaultTtl s"
    and ?tos = "case snd tags of Some x \<Rightarrow> x | None \<Rightarrow> 0"
  let ?A = "asked a b p tags (l3_defaultTtl s) (next_id ?k s)"
  let ?P = "\<lambda>g. ?A g \<or> route = None \<and> (IsBroadcast b \<or> IsLocalMulticast b) \<and> asked a b p (None, None) (l3_defaultTtl s) (next_id ?k s) g"
  have weak: "sends ?P t t' os" if "sends ?A t t' os" for t t' os using sends_mono[OF that] by simp
  have finish: ?thesis if "sends ?P s s' os" "moved ?k (next_id ?k s + 1) s s'" for os
    using that by (intro exI[of _ os]) (auto simp: sends_def moved_def simp del: split_paired_All)
  show ?thesis
  proof (cases route)
    case (Some r)
    with assms(2) have "Send_routed arp packet a b p tags r s = Some s'" by (simp add: Ipv4_Send_def)
    from Send_routed_asked[OF assms(1) this refl] finish weak show ?thesis by blast
  next
    case None
    obtain h s1 where b: "BuildHeader a b p (of_nat (length packet)) ?ttl ?tos True s = (h, s1)" by force
    note B = BuildHeader_asked[OF b, THEN conjunct2]
    have s1: "sends ?P s s1 []" "moved ?k (next_id ?k s + 1) s s1" "smap_ok (l3_identification s1)" "l3_defaultTtl s1 = l3_defaultTtl s"
        "next_id ?k s1 = next_id ?k s + 1" "l3_out s1 = l3_out s"
      using moved_set[OF assms(1)] by (simp_all add: B set_next_id_ok next_id_set assms(1)) (simp_all add: set_next_id_def)
    have again: ?thesis if "\<exists>os. sends ?P s1 s' os \<and> moved ?k (next_id ?k s + 1) s1 s'"
    proof -
      from that obtain os where "sends ?P s1 s' os" "moved ?k (next_id ?k s + 1) s1 s'" by blast
      with finish[of os] sends_trans[OF s1(1)] moved_trans[OF s1(2)] show ?thesis by fastforce
    qed
    note S = assms(2)[unfolded Ipv4_Send_def None option.case b Let_def prod.case]
    show ?thesis
    proof (cases "IsBroadcast b \<or> IsLocalMulticast b")
      case True
      with S have "send_broadcast arp packet a b p tags (l3_interfaces s1) s1 = Some s'" by simp
      from send_broadcast_asked[OF s1(3,5) this] obtain os1 os2 where
        c: "copies a b p tags (next_id ?k s) s1 s' os1 os2" "moved ?k (next_id ?k s + 1) s1 s'" by blast
      from sends_mono[OF copies_sends[OF c(1)], of ?P] True None s1(4) c(2) again show ?thesis by auto
    next
      case False
      with S obtain sub where sub: "subnet_interface b s1 (l3_interfaces s1) = Some sub" by (auto simp: bind_eq_Some_conv)
      show ?thesis
      proof (cases "sub = None \<and> routeOutput h = None")
        case True
        then have s': "s' = DecreaseIdentification a b p (l3_emit [DropTrace DROP_NO_ROUTE h packet 0] s1)"
          using S False sub by simp
        have "s' = (set_next_id ?k (next_id ?k s) s1)\<lparr>l3_out := l3_out s @ [DropTrace DROP_NO_ROUTE h packet 0]\<rparr>"
          using s1(5,6) by (simp add: s' DecreaseIdentification_def Let_def l3_emit_def set_next_id_def next_id_def)
        moreover have "moved ?k (next_id ?k s) s (set_next_id ?k (next_id ?k s) s1)"
          by (rule moved_trans[OF s1(2) moved_set[OF s1(3)]])
        moreover have "sends ?P s (set_next_id ?k (next_id ?k s) s1) []"
          using sends_trans[OF s1(1) set_next_id_sends] by simp
        ultimately show ?thesis
          by (intro exI[of _ "[DropTrace DROP_NO_ROUTE h packet 0]"])
            (auto simp: sends_def moved_def same_l3_def next_id_def simp del: split_paired_All)
      next
        case no: False
        then obtain r where "Send_routed arp packet a b p tags r (DecreaseIdentification a b p s1) = Some s'"
          using S False sub by (auto split: option.splits)
        from Send_again_asked[OF s1(3,5) this] weak again show ?thesis unfolding s1(4) by blast
      qed
    qed
  qed
qed

text \<open>
  C20. What \<open>Send\<close> sends. Whatever route the packet takes, by a given route, as a broadcast, into a subnet, or as
  the routing protocol says, every packet that leaves the node leaves it by an interface that is up, with
  the addresses, protocol, time to live and type of service asked for and the identification that is next in
  its flow; the copies of a broadcast, which may have the default time to live and type of service instead,
  and all fragments share it. The counter of the flow then moves on by one, or stays
  when nothing was sent, and no other flow's counter changes.
\<close>

theorem Send_identifies:
  assumes "smap_ok (l3_identification s)" "Ipv4_Send arp routeOutput packet a b p tags route s = Some s'"
  shows "\<exists>os. sends (\<lambda>g. asked a b p tags (l3_defaultTtl s) (next_id (flow_key a b p) s) g \<or>
      route = None \<and> (IsBroadcast b \<or> IsLocalMulticast b) \<and> asked a b p (None, None) (l3_defaultTtl s) (next_id (flow_key a b p) s) g) s s' os \<and>
    smap_ok (l3_identification s') \<and> (\<forall>k. k \<noteq> flow_key a b p \<longrightarrow> next_id k s' = next_id k s) \<and>
    (next_id (flow_key a b p) s' = next_id (flow_key a b p) s + 1 \<or>
      next_id (flow_key a b p) s' = next_id (flow_key a b p) s \<and> (\<forall>i x. FromInterface i x \<notin> set os))"
  by (rule Send_asked[OF assms])

definition plain_node :: ipv4_l3 where
  "plain_node = \<lparr>l3_interfaces = [plain_interface\<lparr>if_up := True, if_tc := True\<rparr>], l3_reverse = [(1, 0)], l3_ipForward = True,
     l3_strongEndSystemModel = False, l3_draining = False, l3_identification = [], l3_defaultTtl = 64, l3_checksums = False, l3_out = []\<rparr>"

definition plain_route :: ipv4_route where
  "plain_route = \<lparr>ro_destination = GetBroadcast, ro_source = Ipv4 1, ro_gateway = GetAny, ro_device = 1\<rparr>"

definition plain_header :: "u16 \<Rightarrow> ipv4_header" where
  "plain_header n = Ipv4Header\<lparr>ip_source := Ipv4 1, ip_destination := GetBroadcast, ip_protocol := 17, ip_payloadSize := 2,
     ip_ttl := 64, ip_tos := 0, ip_identification := n\<rparr>"

definition plain_send :: "ipv4_l3 \<Rightarrow> ipv4_l3 option" where
  "plain_send s = Ipv4_Send (\<lambda>i a. None) (\<lambda>h. None) [1, 2] (Ipv4 1) GetBroadcast 17 (None, None) (Some plain_route) s"

lemmas plain_defs = Send_routed_def BuildHeader_def SendRealOut_def GetInterfaceForDevice_def GetInterface_def
  plain_node_def plain_route_def plain_interface_def Ipv4Interface_def Ipv4Header_def Interface_Send_def record_packet_def resolve_def
  IsBroadcast_def GetBroadcast_def IsAny_def GetAny_def next_id_def set_next_id_def l3_emit_def set_interface_def plain_header_def
  SetMayFragment_def word_le_nat_alt Let_def

lemma plain_send_out:
  "\<exists>s'. plain_send plain_node = Some s' \<and> l3_out s' = [FromInterface 0 (ToQueueDisc DeviceBroadcast (plain_header 0) [1, 2])]"
  by (simp add: plain_send_def Ipv4_Send_def plain_defs)

theorem Send_identifies_witness:
  "\<exists>s'. plain_send plain_node = Some s' \<and> next_id (flow_key (Ipv4 1) GetBroadcast 17) s' = 1"
proof -
  obtain s' where s': "plain_send plain_node = Some s'" "l3_out s' = [FromInterface 0 (ToQueueDisc DeviceBroadcast (plain_header 0) [1, 2])]"
    using plain_send_out by blast
  have "smap_ok (l3_identification plain_node)" "next_id k plain_node = 0" "l3_out plain_node = []" for k
    by (simp_all add: plain_node_def next_id_def)
  with Send_identifies[OF _ s'(1)[unfolded plain_send_def]] s' show ?thesis by (auto simp: sends_def simp del: split_paired_All)
qed

subsection \<open>The identifications of a run\<close>

record send_request =
  sq_packet :: bytes
  sq_source :: ipv4
  sq_destination :: ipv4
  sq_protocol :: u8
  sq_tags :: "u8 option \<times> u8 option"
  sq_route :: "ipv4_route option"

text \<open>The requests one after the other, each with what it puts out.\<close>

fun Send_requests :: "(nat \<Rightarrow> ipv4 \<Rightarrow> nat option) \<Rightarrow> (ipv4_header \<Rightarrow> ipv4_route option) \<Rightarrow> send_request list \<Rightarrow> ipv4_l3 \<Rightarrow>
    (l3_out list list \<times> ipv4_l3) option" where
  "Send_requests arp routeOutput [] s = Some ([], s)"
| "Send_requests arp routeOutput (r # rs) s = do {
     s1 \<leftarrow> Ipv4_Send arp routeOutput (sq_packet r) (sq_source r) (sq_destination r) (sq_protocol r) (sq_tags r) (sq_route r) s;
     (outs, s2) \<leftarrow> Send_requests arp routeOutput rs s1;
     Some (drop (length (l3_out s)) (l3_out s1) # outs, s2)
   }"

fun sent_headers :: "l3_out list \<Rightarrow> ipv4_header list" where
  "sent_headers [] = []"
| "sent_headers (FromInterface i x # os) = header_out x # sent_headers os"
| "sent_headers (_ # os) = sent_headers os"

lemma sent_headers_set: "g \<in> set (sent_headers os) \<longleftrightarrow> (\<exists>i x. FromInterface i x \<in> set os \<and> g = header_out x)"
  by (induction os rule: sent_headers.induct) auto

definition flow_of :: "ipv4_header \<Rightarrow> u64 \<times> u8" where
  "flow_of g = flow_key (ip_source g) (ip_destination g) (ip_protocol g)"

text \<open>The key under which a receiver collects fragments tells the flows and the identifications apart.\<close>

lemma fragment_key_of_eq:
  assumes "fragment_key_of g = fragment_key_of g'"
  shows "flow_of g = flow_of g'" "ip_identification g = ip_identification g'"
proof -
  let ?id = "\<lambda>g. push_bit 16 (ucast (ip_identification g)) OR ucast (ip_protocol g) :: u32"
  have lo: "take_bit 16 (?id g) = ucast (ip_protocol g)" for g
    by (rule bit_word_eqI) (auto simp: bit_take_bit_iff bit_or_iff bit_push_bit_iff bit_ucast_iff dest: bit_imp_le_length)
  have hi: "drop_bit 16 (?id g) = ucast (ip_identification g)" for g
    by (rule bit_word_eqI) (auto simp: bit_drop_bit_eq bit_or_iff bit_push_bit_iff bit_ucast_iff dest: bit_imp_le_length)
  have u8: "unat (ucast z :: u32) = unat z" for z :: u8 using unat_u8[of z] by (simp add: unsigned_ucast_eq take_bit_nat_eq_self)
  have u16: "unat (ucast z :: u32) = unat z" for z :: u16
    using unsigned_less[of z, where ?'a = nat] by (simp add: unsigned_ucast_eq take_bit_nat_eq_self del: unsigned_less)
  from assms have a: "flow_key (ip_source g) (ip_destination g) 0 = flow_key (ip_source g') (ip_destination g') 0" and i: "?id g = ?id g'"
    by (simp_all add: fragment_key_of_def flow_key_def or.commute)
  have "(ucast (ip_protocol g) :: u32) = ucast (ip_protocol g')" by (metis lo i)
  then have "ip_protocol g = ip_protocol g'" by (metis u8 word_unat_eq_iff)
  with a show "flow_of g = flow_of g'" unfolding flow_key_eq by (simp add: flow_of_def)
  have "(ucast (ip_identification g) :: u32) = ucast (ip_identification g')" by (metis hi i)
  then show "ip_identification g = ip_identification g'" by (metis u16 word_unat_eq_iff)
qed

text \<open>What one request does to the counters, and what the later ones then send.\<close>

lemma request_ids:
  assumes "smap_ok (l3_identification s)"
    "Ipv4_Send arp routeOutput (sq_packet r) (sq_source r) (sq_destination r) (sq_protocol r) (sq_tags r) (sq_route r) s = Some s1"
  shows "smap_ok (l3_identification s1)"
    "\<exists>m \<le> 1. next_id k s1 = next_id k s + of_nat m"
    "g \<in> set (sent_headers (drop (length (l3_out s)) (l3_out s1))) \<Longrightarrow>
      ip_identification g = next_id (flow_of g) s \<and> next_id (flow_of g) s1 = next_id (flow_of g) s + 1"
proof -
  let ?k = "flow_key (sq_source r) (sq_destination r) (sq_protocol r)"
  let ?A = "\<lambda>tags. asked (sq_source r) (sq_destination r) (sq_protocol r) tags (l3_defaultTtl s) (next_id ?k s)"
  let ?P = "\<lambda>g. ?A (sq_tags r) g \<or> sq_route r = None \<and> (IsBroadcast (sq_destination r) \<or> IsLocalMulticast (sq_destination r)) \<and> ?A (None, None) g"
  from Send_asked[OF assms] obtain os where
    os: "sends ?P s s1 os" "smap_ok (l3_identification s1)" "\<And>k. k \<noteq> ?k \<Longrightarrow> next_id k s1 = next_id k s"
    "next_id ?k s1 = next_id ?k s + 1 \<or> next_id ?k s1 = next_id ?k s \<and> (\<forall>i x. FromInterface i x \<notin> set os)" by blast
  show "smap_ok (l3_identification s1)" by (rule os(2))
  show "\<exists>m \<le> 1. next_id k s1 = next_id k s + of_nat m"
    using os(3,4) by (cases "k = ?k") (auto intro: exI[of _ "0 :: nat"] exI[of _ "1 :: nat"])
  assume "g \<in> set (sent_headers (drop (length (l3_out s)) (l3_out s1)))"
  then obtain i x where g: "FromInterface i x \<in> set os" "g = header_out x" using os(1) by (auto simp: sent_headers_set sends_def)
  then have "?P g" using os(1) by (auto simp: sends_def)
  then show "ip_identification g = next_id (flow_of g) s \<and> next_id (flow_of g) s1 = next_id (flow_of g) s + 1"
    using g os(4) by (auto simp: asked_def flow_of_def)
qed

lemma later_ids:
  assumes "smap_ok (l3_identification s)" "Send_requests arp routeOutput rs s = Some (outs, s')"
  shows "length outs = length rs" "j < length rs \<Longrightarrow> g \<in> set (sent_headers (outs ! j)) \<Longrightarrow>
    \<exists>m \<le> j. ip_identification g = next_id (flow_of g) s + of_nat m"
proof -
  have "length outs = length rs \<and> (\<forall>j < length rs. \<forall>g \<in> set (sent_headers (outs ! j)).
      \<exists>m \<le> j. ip_identification g = next_id (flow_of g) s + of_nat m)"
    using assms
  proof (induction rs arbitrary: s outs)
    case (Cons r rs)
    from Cons.prems(2) obtain s1 outs' where s1:
      "Ipv4_Send arp routeOutput (sq_packet r) (sq_source r) (sq_destination r) (sq_protocol r) (sq_tags r) (sq_route r) s = Some s1"
      "Send_requests arp routeOutput rs s1 = Some (outs', s')" "outs = drop (length (l3_out s)) (l3_out s1) # outs'"
      by (auto simp: bind_eq_Some_conv)
    note R = request_ids[OF Cons.prems(1) s1(1)]
    note IH = Cons.IH[OF R(1) s1(2)]
    have "\<exists>m \<le> j. ip_identification g = next_id (flow_of g) s + of_nat m"
      if j: "j < length (r # rs)" "g \<in> set (sent_headers (outs ! j))" for j g
    proof (cases j)
      case 0
      then show ?thesis using R(3)[of g] j by (simp add: s1(3))
    next
      case (Suc j')
      with j IH obtain m where m: "m \<le> j'" "ip_identification g = next_id (flow_of g) s1 + of_nat m" by (auto simp: s1(3))
      from R(2) obtain m' where "m' \<le> 1" "next_id (flow_of g) s1 = next_id (flow_of g) s + of_nat m'" by blast
      with m Suc show ?thesis by (intro exI[of _ "m' + m"]) (simp add: add.assoc)
    qed
    with IH s1(3) show ?case by auto
  qed simp
  then show "length outs = length rs" "j < length rs \<Longrightarrow> g \<in> set (sent_headers (outs ! j)) \<Longrightarrow>
    \<exists>m \<le> j. ip_identification g = next_id (flow_of g) s + of_nat m" by blast+
qed

text \<open>
  C19. A receiver does not mix up datagrams. Among up to 65536 packets that a node sends one after the other, in
  any flows and by any routes, no two have packets on the wire with the same key for the reassembly of
  fragments.
\<close>

theorem identifications_distinct:
  assumes "smap_ok (l3_identification s)" "length rs \<le> 65536" "Send_requests arp routeOutput rs s = Some (outs, s')"
    and "i < j" "j < length rs" "g \<in> set (sent_headers (outs ! i))" "g' \<in> set (sent_headers (outs ! j))"
  shows "fragment_key_of g \<noteq> fragment_key_of g'"
  using assms
proof (induction rs arbitrary: s outs i j)
  case (Cons r rs)
  from Cons.prems(3) obtain s1 outs' where s1:
    "Ipv4_Send arp routeOutput (sq_packet r) (sq_source r) (sq_destination r) (sq_protocol r) (sq_tags r) (sq_route r) s = Some s1"
    "Send_requests arp routeOutput rs s1 = Some (outs', s')" "outs = drop (length (l3_out s)) (l3_out s1) # outs'"
    by (auto simp: bind_eq_Some_conv)
  note R = request_ids[OF Cons.prems(1) s1(1)]
  obtain j' where j: "j = Suc j'" using Cons.prems(4) by (cases j) auto
  show ?case
  proof (cases i)
    case (Suc i')
    then show ?thesis using Cons.IH[OF R(1) _ s1(2), of i' j'] Cons.prems by (simp add: s1(3) j)
  next
    case 0
    show ?thesis
    proof
      assume "fragment_key_of g = fragment_key_of g'"
      note same = fragment_key_of_eq[OF this]
      have g: "ip_identification g = next_id (flow_of g) s" "next_id (flow_of g) s1 = next_id (flow_of g) s + 1"
        using R(3)[of g] Cons.prems(6) 0 by (simp_all add: s1(3))
      from later_ids(2)[OF R(1) s1(2), of j' g'] Cons.prems(5,7) obtain m where
        m: "m \<le> j'" "ip_identification g' = next_id (flow_of g') s1 + of_nat m" by (auto simp: s1(3) j)
      have "(0 :: u16) = of_nat (Suc m)" using g m(2) same by simp
      then have "65536 dvd Suc m" using word_of_nat_eq_0_iff[of "Suc m", where ?'a = 16] by simp
      then have "65536 \<le> Suc m" by (rule dvd_imp_le) simp
      then show False using m(1) Cons.prems(2,5) j by simp
    qed
  qed
qed simp

definition plain_request :: send_request where
  "plain_request = \<lparr>sq_packet = [1, 2], sq_source = Ipv4 1, sq_destination = GetBroadcast, sq_protocol = 17, sq_tags = (None, None),
     sq_route = Some plain_route\<rparr>"

lemma plain_requests_out:
  "\<exists>s'. Send_requests (\<lambda>i a. None) (\<lambda>h. None) [plain_request, plain_request] plain_node =
    Some ([[FromInterface 0 (ToQueueDisc DeviceBroadcast (plain_header 0) [1, 2])],
      [FromInterface 0 (ToQueueDisc DeviceBroadcast (plain_header 1) [1, 2])]], s')"
  by (simp add: plain_request_def Ipv4_Send_def plain_defs)

theorem identifications_distinct_witness: "fragment_key_of (plain_header 0) \<noteq> fragment_key_of (plain_header 1)"
proof -
  from plain_requests_out obtain s' where "Send_requests (\<lambda>i a. None) (\<lambda>h. None) [plain_request, plain_request] plain_node =
    Some ([[FromInterface 0 (ToQueueDisc DeviceBroadcast (plain_header 0) [1, 2])],
      [FromInterface 0 (ToQueueDisc DeviceBroadcast (plain_header 1) [1, 2])]], s')" by blast
  from identifications_distinct[OF _ _ this, of 0 1 "plain_header 0" "plain_header 1"] show ?thesis
    by (simp add: plain_node_def)
qed

subsection \<open>The tags of a broadcast\<close>

text \<open>
  C21. The tags of a broadcast are lost. Of the copies of a broadcast or link-local multicast that \<open>Send\<close> sends
  without a route, only those that leave by one interface, the first, have the time to live and the type of
  service that the socket asked for by its tags; all others have the default time to live and 0.
\<close>

theorem broadcast_tags_lost:
  assumes "smap_ok (l3_identification s)" "IsBroadcast b \<or> IsLocalMulticast b"
    "Ipv4_Send arp routeOutput packet a b p tags None s = Some s'"
  shows "\<exists>os1 os2. l3_out s' = l3_out s @ os1 @ os2 \<and> one_interface os1 \<and>
    (\<forall>g \<in> set (sent_headers os1). asked a b p tags (l3_defaultTtl s) (next_id (flow_key a b p) s) g) \<and>
    (\<forall>g \<in> set (sent_headers os2). asked a b p (None, None) (l3_defaultTtl s) (next_id (flow_key a b p) s) g)"
proof -
  let ?k = "flow_key a b p"
  obtain h s1 where b: "BuildHeader a b p (of_nat (length packet)) (case fst tags of Some x \<Rightarrow> x | None \<Rightarrow> l3_defaultTtl s)
      (case snd tags of Some x \<Rightarrow> x | None \<Rightarrow> 0) True s = (h, s1)" by force
  note B = BuildHeader_asked[OF b, THEN conjunct2]
  have s1: "smap_ok (l3_identification s1)" "next_id ?k s1 = next_id ?k s + 1" "l3_out s1 = l3_out s" "l3_defaultTtl s1 = l3_defaultTtl s"
    using assms(1) by (simp_all add: B set_next_id_ok next_id_set) (simp_all add: set_next_id_def)
  from assms(2,3) b have "send_broadcast arp packet a b p tags (l3_interfaces s1) s1 = Some s'" by (simp add: Ipv4_Send_def Let_def)
  from send_broadcast_asked[OF s1(1,2) this] obtain os1 os2 where c: "copies a b p tags (next_id ?k s) s1 s' os1 os2" by blast
  then show ?thesis using s1(3,4)
    by (intro exI[of _ os1] exI[of _ os2]) (auto simp: copies_def sends_def sent_headers_set)
qed

definition two_interfaces :: ipv4_l3 where
  "two_interfaces = plain_node\<lparr>l3_interfaces := [plain_interface\<lparr>if_up := True, if_tc := True\<rparr>,
     plain_interface\<lparr>if_up := True, if_tc := True, if_device := (if_device plain_interface)\<lparr>nd_id := 2\<rparr>\<rparr>], l3_reverse := [(1, 0), (2, 1)]\<rparr>"

theorem broadcast_tags_lost_witness:
  "\<exists>s'. Ipv4_Send (\<lambda>i a. None) (\<lambda>h. None) [1, 2] (Ipv4 0) GetBroadcast 17 (Some 1, None) None two_interfaces = Some s' \<and>
    map ip_ttl (sent_headers (l3_out s')) = [1, 64] \<and> (\<exists>os1 os2. l3_out s' = os1 @ os2 \<and> one_interface os1)"
proof -
  have "map_option (\<lambda>s'. map ip_ttl (sent_headers (l3_out s')))
      (Ipv4_Send (\<lambda>i a. None) (\<lambda>h. None) [1, 2] (Ipv4 0) GetBroadcast 17 (Some 1, None) None two_interfaces) = Some [1, 64]"
    by code_simp
  then obtain s' where s': "Ipv4_Send (\<lambda>i a. None) (\<lambda>h. None) [1, 2] (Ipv4 0) GetBroadcast 17 (Some 1, None) None two_interfaces = Some s'"
      "map ip_ttl (sent_headers (l3_out s')) = [1, 64]" by auto
  have "smap_ok (l3_identification two_interfaces)" "l3_out two_interfaces = []" by (simp_all add: two_interfaces_def plain_node_def)
  with broadcast_tags_lost[OF _ _ s'(1)] s' show ?thesis by (auto simp: IsBroadcast_def GetBroadcast_def)
qed

subsection \<open>Forwarding\<close>

text \<open>\<open>forwarded h n g\<close>: after \<open>n\<close> nodes forwarded it, a packet with header \<open>h\<close> is on the wire with header \<open>g\<close>.\<close>

inductive forwarded :: "ipv4_header \<Rightarrow> nat \<Rightarrow> ipv4_header \<Rightarrow> bool" for h where
  here: "forwarded h 0 h"
| hop: "forwarded h n g \<Longrightarrow> IpForward arp r p g s = Some s' \<Longrightarrow> g' \<in> set (sent_headers (drop (length (l3_out s)) (l3_out s'))) \<Longrightarrow>
    forwarded h (Suc n) g'"

lemma IpForward_sent:
  assumes "IpForward arp r p g s = Some s'" "g' \<in> set (sent_headers (drop (length (l3_out s)) (l3_out s')))"
  shows "ip_ttl g \<noteq> 1" "same_datagram (g\<lparr>ip_ttl := ip_ttl g - 1\<rparr>) g'"
proof -
  show ttl: "ip_ttl g \<noteq> 1"
  proof
    assume "ip_ttl g = 1"
    with assms show False by (auto simp: IpForward_def Let_def l3_emit_def split: if_splits)
  qed
  then have "ip_ttl g - 1 \<noteq> 0" by simp
  with assms(1) have "SendRealOut arp (Some r) p (g\<lparr>ip_ttl := ip_ttl g - 1\<rparr>) s = Some s'" by (simp add: IpForward_def Let_def)
  from SendRealOut_sends[OF this] assms(2) show "same_datagram (g\<lparr>ip_ttl := ip_ttl g - 1\<rparr>) g'"
    by (auto simp: sends_def sent_headers_set)
qed

text \<open>
  C22. A routing loop ends. Whatever the routes of the nodes on its way, a packet is forwarded less often than
  its time to live says, and with every node it loses one; its addresses, protocol and identification stay.
  Only a packet that arrives with a time to live of 0, which should be dropped, wraps around and may be
  forwarded 255 times.
\<close>

theorem forwarding_ends:
  assumes "forwarded h n g"
  shows "n < (if ip_ttl h = 0 then 256 else unat (ip_ttl h)) \<and> same_datagram (h\<lparr>ip_ttl := ip_ttl h - of_nat n\<rparr>) g"
  using assms
proof (induction rule: forwarded.induct)
  case here
  then show ?case by (simp add: unat_gt_0)
next
  case (hop n g arp r p s s' g')
  note S = IpForward_sent[OF hop(2,3)]
  have ttl: "ip_ttl g = ip_ttl h - of_nat n" using hop(4) by (simp add: same_datagram_def)
  let ?b = "if ip_ttl h = 0 then 256 else unat (ip_ttl h)"
  have "Suc n \<noteq> ?b"
  proof
    assume "Suc n = ?b"
    then have "(of_nat (Suc n) :: u8) = ip_ttl h" by (auto split: if_splits)
    then have "ip_ttl h = of_nat n + 1" by (metis add.commute of_nat_Suc)
    with ttl S(1) show False by simp
  qed
  moreover have "same_datagram (h\<lparr>ip_ttl := ip_ttl h - of_nat (Suc n)\<rparr>) g'"
    using S(2) hop(4) by (simp add: same_datagram_def ttl)
  ultimately show ?case using hop(4) by simp
qed

theorem forwarding_ends_witness:
  "forwarded ((plain_header 0)\<lparr>ip_ttl := 0\<rparr>) 1 ((plain_header 0)\<lparr>ip_ttl := 255\<rparr>) \<and> 1 < (256 :: nat)"
proof -
  have "\<exists>s'. IpForward (\<lambda>i a. None) plain_route [1, 2] ((plain_header 0)\<lparr>ip_ttl := 0\<rparr>) plain_node = Some s' \<and>
    l3_out s' = [FromInterface 0 (ToQueueDisc DeviceBroadcast ((plain_header 0)\<lparr>ip_ttl := 255\<rparr>) [1, 2])]"
    by (simp add: IpForward_def plain_defs)
  then have f: "forwarded ((plain_header 0)\<lparr>ip_ttl := 0\<rparr>) (Suc 0) ((plain_header 0)\<lparr>ip_ttl := 255\<rparr>)"
    by (auto intro!: forwarded.hop[OF forwarded.here] simp: plain_node_def)
  from f forwarding_ends[OF this] show ?thesis by simp
qed

end
