(* ===== verification/Ipv4_Reassembly.thy ===== *)
theory Ipv4_Reassembly
  imports Ipv4_Fragments_Facts
begin

text \<open>
  The properties of fragmentation and reassembly: what \<open>DoFragmentation\<close> cuts is put together again from any
  order of arrival, a packet longer than the offset field is cut up for ever, and no datagram waits
  longer than its timeout.
\<close>

subsection \<open>Fragmentation and reassembly\<close>

lemma pieces_end: "i \<le> length p \<Longrightarrow> \<exists>x \<in> set (pieces f p i). snd x + length (fst x) = length p"
proof (induction f p i rule: pieces.induct)
  case (1 f p i)
  then show ?case by (cases "0 < f \<and> i + f < length p") (auto simp: pieces.simps[of f p i])
qed

definition whole :: "bytes \<Rightarrow> ipv4_header \<Rightarrow> bool" where
  "whole p h \<longleftrightarrow> header_ok h \<and> ip_fragmentOffset h = 0 \<and> IsLastFragment h \<and> length p < 65536"

lemma whole_fragment: "whole p h \<Longrightarrow> fragment_of p (p, h)"
  by (simp add: whole_def fragment_of_def received_def slice_of_def slice_end_def)

text \<open>The pieces of one datagram, as their receiver sees them.\<close>

definition seen :: "nat \<Rightarrow> bytes \<Rightarrow> (bytes \<times> u16) set" where
  "seen f p = (\<lambda>(d, i). (d, of_nat i)) ` set (pieces f p 0)"

lemma seenD:
  assumes "0 < f" "length p < 65536" "x \<in> seen f p"
  shows "f dvd unat (snd x)" "fst x = take f (drop (unat (snd x)) p)" "unat (snd x) < length p \<or> unat (snd x) = 0"
    "slice_end x \<le> length p" "slice_end x \<le> unat (snd x) + f"
proof -
  from assms(3) obtain d i where x: "x = (d, of_nat i)" "(d, i) \<in> set (pieces f p 0)" by (auto simp: seen_def)
  with pieces_set[OF assms(1), of 0 p] have d: "f dvd i" "d = take f (drop i p)" "i < length p \<or> i = 0" by auto
  with assms(2) have "i < 65536" by auto
  with d show "f dvd unat (snd x)" "fst x = take f (drop (unat (snd x)) p)" "unat (snd x) < length p \<or> unat (snd x) = 0"
    "slice_end x \<le> length p" "slice_end x \<le> unat (snd x) + f"
    by (auto simp: x(1) u16_of_nat slice_end_def)
qed

lemma seenI:
  assumes "0 < f" "f dvd i" "i < length p \<or> i = 0"
  shows "(take f (drop i p), of_nat i) \<in> seen f p"
proof -
  have "(take f (drop i p), i) \<in> set (pieces f p 0)" using assms pieces_set[OF assms(1), of 0 p] by auto
  then show ?thesis by (force simp: seen_def)
qed

lemma seen_eq:
  assumes "0 < f" "length p < 65536" "x \<in> seen f p" "y \<in> seen f p" "unat (snd x) = unat (snd y)"
  shows "x = y"
  using seenD(2)[OF assms(1,2,3)] seenD(2)[OF assms(1,2,4)] assms(5) by (metis prod.collapse word_unat_eq_iff)

lemma multiple_gap:
  assumes "(f :: nat) dvd i" "f dvd j" "i < j"
  shows "i + f \<le> j"
proof -
  have "f dvd j - i" "0 < j - i" using assms by auto
  then have "f \<le> j - i" by (rule dvd_imp_le)
  with assms(3) show ?thesis by linarith
qed

lemma sorted_le_last: "sorted_wrt (\<lambda>x y. g x \<le> (g y :: 'b::order)) xs \<Longrightarrow> x \<in> set xs \<Longrightarrow> g x \<le> g (last xs)"
  by (induction xs) auto

lemma entire_all_seen:
  assumes "0 < f" "fragments_of p g" "set (fg_fragments g) \<subseteq> seen f p" "IsEntire g"
  shows "set (fg_fragments g) = seen f p"
proof (intro antisym subsetI)
  fix x assume x: "x \<in> seen f p"
  have p: "length p < 65536" using assms(2) by (simp add: fragments_of_def)
  note X = seenD[OF assms(1) p x]
  show "x \<in> set (fg_fragments g)"
  proof (cases "unat (snd x) < length p")
    case True
    from entire_packet(2)[OF assms(2,4) True] obtain y where
      y: "y \<in> set (fg_fragments g)" "unat (snd y) \<le> unat (snd x)" "unat (snd x) < slice_end y" by auto
    then have "y \<in> seen f p" using assms(3) by blast
    note Y = seenD[OF assms(1) p this]
    have "\<not> unat (snd y) < unat (snd x)" using multiple_gap[OF Y(1) X(1)] Y(5) y(3) by linarith
    with y(2) have "y = x" by (intro seen_eq[OF assms(1) p \<open>y \<in> seen f p\<close> x]) simp
    with y(1) show ?thesis by simp
  next
    case False
    then have 0: "length p = 0" "unat (snd x) = 0" using X(3) by auto
    have "fg_fragments g \<noteq> []" using assms(4) by (simp add: IsEntire_def)
    then obtain y where y: "y \<in> set (fg_fragments g)" by (meson last_in_set)
    then have "y \<in> seen f p" using assms(3) by blast
    moreover from seenD(4)[OF assms(1) p this] 0 have "unat (snd y) = 0" by (simp add: slice_end_def)
    ultimately have "y = x" using 0(2) by (intro seen_eq[OF assms(1) p _ x]) simp_all
    with y show ?thesis by simp
  qed
qed (use assms(3) in blast)

lemma all_seen_entire:
  assumes "0 < f" "fragments_of p g" "set (fg_fragments g) = seen f p"
  shows "IsEntire g"
proof -
  let ?l = "fg_fragments g"
  have p: "length p < 65536" and sl: "\<forall>x \<in> set ?l. slice_of p x" and srt: "sorted_wrt (\<lambda>x y. snd x \<le> snd y) ?l"
    using assms(2) by (auto simp: fragments_of_def)
  note D = seenD[OF assms(1) p]
  from pieces_end[of 0 p f] obtain w0 where "w0 \<in> set (pieces f p 0)" "snd w0 + length (fst w0) = length p" by blast
  then have w: "(fst w0, of_nat (snd w0)) \<in> set ?l" "slice_end (fst w0, of_nat (snd w0)) = length p"
    using p assms(3) by (auto simp: seen_def slice_end_def u16_of_nat split: prod.splits intro!: image_eqI[of _ _ w0])
  define v where "v = (fst w0, of_nat (snd w0) :: u16)"
  note v = w[folded v_def]
  have ne: "?l \<noteq> []" using v(1) by auto
  let ?z = "last ?l"
  have z: "?z \<in> set ?l" using ne by simp
  have "snd v \<le> snd ?z"
    by (rule sorted_le_last[OF srt v(1)])
  then have le: "unat (snd v) \<le> unat (snd ?z)" by (simp add: word_le_nat_alt)
  have s: "v \<in> seen f p" "?z \<in> seen f p" using v(1) z assms(3) by simp_all
  have "\<not> unat (snd v) < unat (snd ?z)"
    using multiple_gap[OF D(1)[OF s(1)] D(1)[OF s(2)]] D(5)[OF s(1)] D(3)[OF s(2)] v(2) by linarith
  then have "?z = v" using le by (intro seen_eq[OF assms(1) p s(2,1)]) simp
  then have "slice_end ?z = length p" using v(2) by simp
  then have m: "\<not> fg_moreFragment g" using assms(2) ne by (simp add: fragments_of_def)
  have "entire_loop (of_nat 0) ?l"
  proof (rule entire_loopI[OF p sl])
    fix xs x ys assume l: "?l = xs @ x # ys"
    then have x: "x \<in> seen f p" using assms(3) by auto
    show "unat (snd x) \<le> reach 0 xs"
    proof (cases "unat (snd x) = 0")
      case False
      then have "f \<le> unat (snd x)" using D(1)[OF x] by (intro dvd_imp_le) simp_all
      then obtain k where k: "unat (snd x) = k + f" by (metis le_add_diff_inverse2)
      then have "f dvd k" using D(1)[OF x] by simp
      define u where "u = (take f (drop k p), of_nat k :: u16)"
      have lt: "k + f < length p" using False D(3)[OF x] k assms(1) by linarith
      then have u: "u \<in> seen f p" unfolding u_def using \<open>f dvd k\<close> assms(1) by (intro seenI) auto
      have us: "unat (snd u) = k" "slice_end u = unat (snd x)"
        using k lt p by (simp_all add: u_def slice_end_def u16_of_nat)
      have "unat (snd x) \<le> unat (snd y)" if "y \<in> set (x # ys)" for y
        using srt that by (auto simp: l sorted_wrt_append word_le_nat_alt)
      moreover have "unat (snd u) < unat (snd x)" using us(1) k assms(1) by linarith
      ultimately have "u \<notin> set (x # ys)" by (meson leD)
      then have "u \<in> set xs" using u assms(3) l by auto
      from reach_ge_end[OF this, of 0] us(2) show ?thesis by simp
    qed simp
  qed simp
  with m ne show ?thesis by (simp add: IsEntire_def)
qed

lemma cut_up:
  assumes "whole p h" "28 \<le> unat mtu" "unat mtu < 65536" "DoFragmentation checksums p h mtu = Some fs"
  shows "fs = map (cut_piece checksums h (length p)) (pieces (unat (fragment_size mtu)) p 0)"
    "received ` set fs = seen (unat (fragment_size mtu)) p" "inj_on received (set fs)" "x \<in> set fs \<Longrightarrow> fragment_of p x"
proof -
  let ?f = "unat (fragment_size mtu)" and ?c = "cut_piece checksums h (length p)"
  have h: "header_ok h" "ip_fragmentOffset h = 0" "length p < 65536" using assms(1) by (simp_all add: whole_def)
  have f: "0 < ?f" using fragment_size_bounds[OF assms(2)] by simp
  show fs: "fs = map ?c (pieces ?f p 0)" using h assms by (simp add: DoFragmentation_pieces)
  show "fragment_of p x" if "x \<in> set fs"
    using that cut_fragment_of[OF whole_fragment[OF assms(1)] h(3)] f by (auto simp: fs)
  have cut: "received (?c (d, j)) = (d, of_nat j)" for d j using h(2) by (simp add: received_def cut_piece_def Let_def)
  then have "received (?c x) = (\<lambda>(d, j). (d, of_nat j)) x" for x by (cases x) simp
  then show "received ` set fs = seen ?f p" by (simp only: fs seen_def set_map image_image)
  show "inj_on received (set fs)"
  proof (rule inj_onI)
    fix x y assume that: "x \<in> set fs" "y \<in> set fs" "received x = received y"
    then obtain d j d' j' where x: "(d, j) \<in> set (pieces ?f p 0)" "x = ?c (d, j)" "(d', j') \<in> set (pieces ?f p 0)" "y = ?c (d', j')"
      by (auto simp: fs)
    then have "j < 65536" "j' < 65536" using pieces_set[OF f, of 0 p] h(3) by auto
    with that(3) x cut show "x = y" by (metis Pair_inject u16_of_nat)
  qed
qed

lemma cut_reassembles:
  assumes "whole p h" "28 \<le> unat mtu" "unat mtu < 65536" "DoFragmentation checksums p h mtu = Some fs" "set xs \<subseteq> set fs"
  shows "IsEntire (fold add_received xs (Fragments i)) \<longleftrightarrow> set xs = set fs"
    "set xs = set fs \<Longrightarrow> GetPacket (fold add_received xs (Fragments i)) = Some p"
proof -
  let ?f = "unat (fragment_size mtu)" and ?g = "fold add_received xs (Fragments i)"
  note C = cut_up[OF assms(1-4)]
  have h: "length p < 65536" using assms(1) by (simp add: whole_def)
  have f: "0 < ?f" using fragment_size_bounds[OF assms(2)] by simp
  have "\<forall>x \<in> set xs. fragment_of p x" using C(4) assms(5) by blast
  from add_received_all[OF fragments_of_new[OF h, of i] this]
  have g: "fragments_of p ?g" "set (fg_fragments ?g) = received ` set xs" by (simp_all add: Fragments_def)
  then have sub: "set (fg_fragments ?g) \<subseteq> seen ?f p" using assms(5) C(2) by blast
  have "IsEntire ?g \<longleftrightarrow> received ` set xs = received ` set fs"
    using entire_all_seen[OF f g(1) sub] all_seen_entire[OF f g(1)] unfolding g(2) C(2) by blast
  also have "\<dots> \<longleftrightarrow> set xs = set fs"
    by (rule inj_on_image_eq_iff[OF C(3) assms(5) order_refl])
  finally show e: "IsEntire ?g \<longleftrightarrow> set xs = set fs" .
  show "GetPacket ?g = Some p" if "set xs = set fs" using entire_packet(1)[OF g(1)] e that by simp
qed

text \<open>
  C15. Fragmentation and reassembly are inverse. For every packet that is a whole datagram and every MTU of
  at least 28 bytes, \<open>DoFragmentation\<close> returns fragments that fit into the MTU; their receiver, whatever
  the order of arrival and however often a fragment is repeated, finds the datagram entire exactly when
  all of them have arrived, and then \<open>GetPacket\<close> is the packet.
\<close>

theorem fragments_reassemble:
  assumes "whole p h" "28 \<le> unat mtu" "unat mtu < 65536"
  shows "\<exists>fs. DoFragmentation checksums p h mtu = Some fs \<and> (\<forall>(d, fh) \<in> set fs. length d + 20 \<le> unat mtu) \<and>
    (\<forall>xs. set xs \<subseteq> set fs \<longrightarrow>
      (IsEntire (fold add_received xs (Fragments i)) \<longleftrightarrow> set xs = set fs) \<and>
      (set xs = set fs \<longrightarrow> GetPacket (fold add_received xs (Fragments i)) = Some p))"
proof -
  have h: "header_ok h" "ip_fragmentOffset h = 0" "length p < 65536" using assms(1) by (simp_all add: whole_def)
  then obtain fs where fs: "DoFragmentation checksums p h mtu = Some fs" using assms by (simp add: DoFragmentation_pieces)
  note f = fragment_size_bounds[OF assms(2)]
  have "length d + 20 \<le> unat mtu" if "(d, fh) \<in> set fs" for d fh
  proof -
    from imageI[OF that, of received] have "(d, ip_fragmentOffset fh) \<in> seen (unat (fragment_size mtu)) p"
      unfolding cut_up(2)[OF assms fs] by (simp add: received_def)
    from seenD(5)[OF _ h(3) this] f show ?thesis by (simp add: slice_end_def)
  qed
  then show ?thesis using cut_reassembles[OF assms fs, of _ i] fs by blast
qed

theorem fragments_reassemble_witness:
  "\<exists>fs. DoFragmentation True (replicate 100 1) Ipv4Header 60 = Some fs \<and> GetPacket (fold add_received (rev fs) (Fragments 0)) = Some (replicate 100 1)"
proof -
  have "whole (replicate 100 1) Ipv4Header" by (simp add: whole_def header_ok_def Ipv4Header_def IsLastFragment_def)
  from fragments_reassemble[OF this, of 60 True 0] show ?thesis by force
qed

lemma DoFragmentation_fragments:
  assumes "fragment_of P (q, h)" "length P < 65536" "header_ok h" "28 \<le> unat mtu" "unat mtu < 65536"
    "DoFragmentation checksums q h mtu = Some fs" "x \<in> set fs"
  shows "fragment_of P x" "header_ok (snd x)"
proof -
  let ?f = "unat (fragment_size mtu)"
  note f = fragment_size_bounds[OF assms(4)]
  have l: "length q + unat (ip_fragmentOffset h) < 65536"
    using assms(1,2) by (simp add: fragment_of_def received_def slice_of_def)
  with assms(6) have "fs = map (cut_piece checksums h (length q)) (pieces ?f q 0)"
    by (simp add: DoFragmentation_pieces[OF assms(3,4,5)])
  with assms(7) obtain d i where di: "(d, i) \<in> set (pieces ?f q 0)" "x = cut_piece checksums h (length q) (d, i)" by auto
  then show "fragment_of P x" using cut_fragment_of[OF assms(1,2)] f(1) by simp
  have "?f dvd i" "i \<le> length q" using di(1) pieces_set[of ?f 0 q] f(1) by auto
  then have "8 dvd unat (of_nat i + ip_fragmentOffset h)"
    using f(2) l assms(3) by (simp add: unat_plus_no_overflow u16_of_nat header_ok_def and_7 dvd_trans)
  then show "header_ok (snd x)"
    using assms(3) by (auto simp: di(2) cut_piece_def Let_def header_ok_def and_7 SetMoreFragments_def SetLastFragment_def
      EnableChecksum_def flag_tests bit_or_iff bit_and_iff bit_2_iff)
qed

text \<open>
  C16. Fragments of fragments. Let a datagram be cut up, and any of its fragments be cut up again on the way,
  for a smaller MTU. Whatever mixture of these pieces arrives, with overlaps, repetitions and in any order:
  once the receiver finds the datagram entire, every byte has arrived and \<open>GetPacket\<close> is the packet.
\<close>

theorem refragmented_reassemble:
  assumes "whole p h" "28 \<le> unat mtu" "unat mtu < 65536" "DoFragmentation checksums p h mtu = Some fs"
    and "\<And>x. x \<in> set xs \<Longrightarrow> x \<in> set fs \<or>
      (\<exists>(d, fh) \<in> set fs. \<exists>c' mtu' fs'. 28 \<le> unat mtu' \<and> unat mtu' < 65536 \<and> DoFragmentation c' d fh mtu' = Some fs' \<and> x \<in> set fs')"
    and "IsEntire (fold add_received xs (Fragments i))"
  shows "GetPacket (fold add_received xs (Fragments i)) = Some p \<and>
    (\<forall>k < length p. \<exists>(d, fh) \<in> set xs. unat (ip_fragmentOffset fh) \<le> k \<and> k < unat (ip_fragmentOffset fh) + length d)"
proof -
  have len: "length p < 65536" using assms(1) by (simp add: whole_def)
  have "whole p h \<Longrightarrow> header_ok h" by (simp add: whole_def)
  with assms(1) have first: "fragment_of p x" "header_ok (snd x)" if "x \<in> set fs" for x
    using DoFragmentation_fragments[OF whole_fragment len _ assms(2,3), of h checksums] that assms(4) by auto
  have "fragment_of p x" if "x \<in> set xs" for x
    using assms(5)[OF that]
  proof (elim disjE bexE)
    fix y assume y: "y \<in> set fs" and s: "case y of (d, fh) \<Rightarrow> \<exists>c' mtu' fs'. 28 \<le> unat mtu' \<and> unat mtu' < 65536 \<and>
      DoFragmentation c' d fh mtu' = Some fs' \<and> x \<in> set fs'"
    then obtain d fh c' mtu' fs' where "y = (d, fh)" "28 \<le> unat mtu'" "unat mtu' < 65536" "DoFragmentation c' d fh mtu' = Some fs'" "x \<in> set fs'"
      by (cases y) auto
    with first[OF y] show ?thesis using DoFragmentation_fragments(1)[of p d fh mtu' c' fs' x] len by simp
  qed (rule first)
  then have "\<forall>x \<in> set xs. fragment_of p x" by blast
  from add_received_all[OF fragments_of_new[OF len, of i] this]
  have g: "fragments_of p (fold add_received xs (Fragments i))"
    "set (fg_fragments (fold add_received xs (Fragments i))) = received ` set xs" by (simp_all add: Fragments_def)
  note e = entire_packet[OF g(1) assms(6)]
  have "\<exists>(d, fh) \<in> set xs. unat (ip_fragmentOffset fh) \<le> k \<and> k < unat (ip_fragmentOffset fh) + length d" if "k < length p" for k
    using e(2)[OF that] unfolding g(2) by (fastforce simp: received_def slice_end_def)
  with e(1) show ?thesis by blast
qed

definition two_bytes :: bytes where
  "two_bytes = [1, 2]"

lemma two_bytes_whole: "whole two_bytes Ipv4Header"
  by (simp add: whole_def header_ok_def Ipv4Header_def IsLastFragment_def two_bytes_def)

theorem refragmented_reassemble_witness:
  "\<exists>fs. DoFragmentation False two_bytes Ipv4Header 60 = Some fs \<and> GetPacket (fold add_received (fs @ fs) (Fragments 0)) = Some two_bytes"
proof -
  let ?x = "cut_piece False Ipv4Header 2 (two_bytes, 0)"
  have s: "DoFragmentation False two_bytes Ipv4Header 60 = Some [?x]"
  proof -
    have "8 \<le> unat (fragment_size 60)" by (rule fragment_size_bounds) simp
    then have "pieces (unat (fragment_size 60)) two_bytes 0 = [(two_bytes, 0)]"
      by (subst pieces.simps) (simp add: two_bytes_def)
    moreover have "length two_bytes = 2" by (simp add: two_bytes_def)
    ultimately show ?thesis using two_bytes_whole DoFragmentation_pieces[of Ipv4Header 60 two_bytes False]
      by (simp add: whole_def)
  qed
  have "IsEntire (fold add_received ([?x] @ [?x]) (Fragments 0))"
    by (simp add: IsEntire_def add_received_def AddFragment_def Fragments_def two_bytes_def cut_piece_def Ipv4Header_def
      IsLastFragment_def SetLastFragment_def)
  then show ?thesis
    using refragmented_reassemble[OF two_bytes_whole _ _ s, of "[?x] @ [?x]" 0] s by simp
qed

text \<open>
  C26. A packet that is longer than 65535 bytes by a fragment is cut up for ever: the offset of the loop has 16
  bits and wraps around, so that at every value of it more fragments follow, and the call does not return.
\<close>

theorem long_packet_never_fragmented:
  assumes "65535 + unat mtu \<le> length p" "length p < 2 ^ 32" "28 \<le> unat mtu"
  shows "(\<forall>offset :: u16. u32_add (unat offset) (unat (fragment_size mtu)) < length p) \<and> DoFragmentation checksums p h mtu = None"
proof -
  have "u32_add (unat offset) (unat (fragment_size mtu)) < length p" for offset :: u16
  proof -
    have "unat offset < 65536" using unsigned_less[of offset, where ?'a = nat] by (simp del: unsigned_less)
    then show ?thesis using fragment_size_bounds(3)[OF assms(3)] assms(1,2) by simp
  qed
  moreover
  have "fragment_loop checksums p h (unat (fragment_size mtu)) 0 = None"
    using fragment_size_bounds(3)[OF assms(3)] assms(1,2) by (intro fragment_loop_diverges) auto
  ultimately show ?thesis by (simp add: DoFragmentation_def)
qed

theorem long_packet_never_fragmented_witness: "DoFragmentation False (replicate 70000 0) Ipv4Header 1500 = None"
  using long_packet_never_fragmented[of 1500 "replicate 70000 0" False Ipv4Header] by simp

end
