(* ===== verification/Ipv4_Reassembly_Timeouts.thy ===== *)
theory Ipv4_Reassembly_Timeouts
  imports Ipv4_Fragments_Facts
begin

text \<open>
  The life of the datagrams that wait for their fragments: the runs of the reassembly, in which fragments
  arrive and pending \<open>HandleTimeout\<close> events fire in the order of time, an invariant of these runs, and the
  end that every waiting datagram comes to.
\<close>

definition Reassembly :: "int \<Rightarrow> reassembly" where
  "Reassembly expiration = \<lparr>rs_fragments = [], rs_timeouts = [], rs_events = [], rs_expiration = expiration,
     rs_nextIter = 0, rs_out = []\<rparr>"

definition fire_event :: "int \<Rightarrow> reassembly \<Rightarrow> reassembly option" where
  "fire_event e s = HandleTimeout e (s\<lparr>rs_events := remove1 e (rs_events s)\<rparr>)"

inductive reassembly_run :: "int \<Rightarrow> int \<Rightarrow> reassembly \<Rightarrow> bool" for expiration where
  start: "reassembly_run expiration now (Reassembly expiration)"
| arrive: "reassembly_run expiration now s \<Longrightarrow> now \<le> t \<Longrightarrow> \<forall>e \<in> set (rs_events s). t \<le> e \<Longrightarrow>
    ProcessFragment t packet h iif s = Some (r, s') \<Longrightarrow> reassembly_run expiration t s'"
| fire: "reassembly_run expiration now s \<Longrightarrow> e \<in> set (rs_events s) \<Longrightarrow> \<forall>e' \<in> set (rs_events s). e \<le> e' \<Longrightarrow>
    fire_event e s = Some s' \<Longrightarrow> reassembly_run expiration e s'"

subsection \<open>The waiting datagrams and their timeouts\<close>

definition timeouts_ok :: "int \<Rightarrow> fragment_timeout list \<Rightarrow> reassembly \<Rightarrow> bool" where
  "timeouts_ok now ts s \<longleftrightarrow> smap_ok (rs_fragments s) \<and> fst ` set (rs_fragments s) = ft_key ` set ts \<and>
     distinct (map ft_key ts) \<and> distinct (map ft_id ts) \<and> sorted (map ft_time ts) \<and>
     (\<forall>t \<in> set ts. ft_id t < rs_nextIter s \<and> now \<le> ft_time t \<and> ft_time t \<le> now + rs_expiration s \<and>
        (\<exists>f. map_of (rs_fragments s) (ft_key t) = Some f \<and> fg_fragments f \<noteq> [] \<and> fg_timeoutIter f = ft_id t))"

definition reassembly_inv :: "int \<Rightarrow> reassembly \<Rightarrow> bool" where
  "reassembly_inv now s \<longleftrightarrow> timeouts_ok now (rs_timeouts s) s \<and> 0 \<le> rs_expiration s \<and> (\<forall>e \<in> set (rs_events s). now \<le> e) \<and>
     (rs_timeouts s \<noteq> [] \<longrightarrow> (\<exists>e \<in> set (rs_events s). e \<le> ft_time (hd (rs_timeouts s))))"

fun dropped :: "reassembly_out list \<Rightarrow> (ipv4_header \<times> nat) list" where
  "dropped [] = []"
| "dropped (DropFragmentTimeout h p iif # os) = (h, iif) # dropped os"
| "dropped (SendTimeExceeded h p # os) = dropped os"

lemma dropped_append [simp]: "dropped (xs @ ys) = dropped xs @ dropped ys"
  by (induction xs rule: dropped.induct) auto

lemma timeout_step:
  assumes "timeouts_ok now (t # ts) s"
  shows "\<exists>s'. HandleFragmentsTimeout (ft_key t) (ft_header t) (ft_iif t) s = Some s' \<and> timeouts_ok now ts s' \<and>
    rs_events s' = rs_events s \<and> rs_expiration s' = rs_expiration s \<and> dropped (rs_out s') = dropped (rs_out s) @ [(ft_header t, ft_iif t)]"
proof -
  have ok: "smap_ok (rs_fragments s)" using assms by (simp add: timeouts_ok_def)
  from assms obtain f where f: "map_of (rs_fragments s) (ft_key t) = Some f" "fg_fragments f \<noteq> []" by (auto simp: timeouts_ok_def)
  then obtain p where p: "GetPartialPacket f = Some p" by (auto simp: GetPartialPacket_def neq_Nil_conv split: prod.splits)
  have "fst ` set (smap_erase (<) (ft_key t) (rs_fragments s)) = fst ` set (rs_fragments s) - {ft_key t}"
    using map_of_smap_erase[OF ok, of "ft_key t"] by (metis dom_map_of_conv_image_fst dom_fun_upd)
  moreover have "ft_key t \<notin> ft_key ` set ts" using assms by (simp add: timeouts_ok_def)
  ultimately have "timeouts_ok now ts (s\<lparr>rs_fragments := smap_erase (<) (ft_key t) (rs_fragments s)\<rparr>)"
    using assms unfolding timeouts_ok_def
    by (simp add: smap_ok_erase map_of_smap_erase) (metis image_eqI)
  then show ?thesis using f p by (auto simp: HandleFragmentsTimeout_def timeouts_ok_def)
qed

lemma timeout_loop_ok:
  assumes "timeouts_ok now ts s"
  shows "\<exists>s'. timeout_loop now ts s = Some s' \<and> timeouts_ok now (rs_timeouts s') s' \<and>
    rs_timeouts s' = dropWhile (\<lambda>t. ft_time t = now) ts \<and> rs_events s' = rs_events s \<and> rs_expiration s' = rs_expiration s \<and>
    dropped (rs_out s') = dropped (rs_out s) @ map (\<lambda>t. (ft_header t, ft_iif t)) (takeWhile (\<lambda>t. ft_time t = now) ts)"
  using assms
proof (induction ts arbitrary: s)
  case (Cons t ts)
  show ?case
  proof (cases "ft_time t = now")
    case True
    from timeout_step[OF Cons.prems] obtain s1 where
      s1: "HandleFragmentsTimeout (ft_key t) (ft_header t) (ft_iif t) s = Some s1" "timeouts_ok now ts s1"
        "rs_events s1 = rs_events s" "rs_expiration s1 = rs_expiration s" "dropped (rs_out s1) = dropped (rs_out s) @ [(ft_header t, ft_iif t)]"
      by blast
    from Cons.IH[OF s1(2)] s1 True show ?thesis by auto
  next
    case False
    then show ?thesis using Cons.prems by (auto simp: timeouts_ok_def)
  qed
qed (auto simp: timeouts_ok_def)

lemma fire_event_ok:
  assumes inv: "reassembly_inv now s" and e: "e \<in> set (rs_events s)" "\<forall>e' \<in> set (rs_events s). e \<le> e'"
  shows "\<exists>s'. fire_event e s = Some s' \<and> reassembly_inv e s' \<and> rs_expiration s' = rs_expiration s \<and>
    rs_timeouts s' = dropWhile (\<lambda>t. ft_time t = e) (rs_timeouts s) \<and>
    rs_events s' = remove1 e (rs_events s) @ (if rs_timeouts s' = [] then [] else [ft_time (hd (rs_timeouts s'))]) \<and>
    dropped (rs_out s') = dropped (rs_out s) @ map (\<lambda>t. (ft_header t, ft_iif t)) (takeWhile (\<lambda>t. ft_time t = e) (rs_timeouts s))"
proof -
  let ?s = "s\<lparr>rs_events := remove1 e (rs_events s)\<rparr>"
  have now: "now \<le> e" using inv e(1) by (auto simp: reassembly_inv_def)
  have "e \<le> ft_time t" if "t \<in> set (rs_timeouts s)" for t
  proof -
    from that obtain t0 ts where l: "rs_timeouts s = t0 # ts" by (cases "rs_timeouts s") auto
    then have "e \<le> ft_time t0" using inv e(2) by (force simp: reassembly_inv_def)
    also have "ft_time t0 \<le> ft_time t" using inv that by (auto simp: l reassembly_inv_def timeouts_ok_def)
    finally show ?thesis .
  qed
  then have "timeouts_ok e (rs_timeouts s) ?s" using inv now by (force simp: reassembly_inv_def timeouts_ok_def)
  from timeout_loop_ok[OF this] obtain s1 where s1: "timeout_loop e (rs_timeouts s) ?s = Some s1" "timeouts_ok e (rs_timeouts s1) s1"
    "rs_timeouts s1 = dropWhile (\<lambda>t. ft_time t = e) (rs_timeouts s)" "rs_events s1 = remove1 e (rs_events s)"
    "rs_expiration s1 = rs_expiration s"
    "dropped (rs_out s1) = dropped (rs_out s) @ map (\<lambda>t. (ft_header t, ft_iif t)) (takeWhile (\<lambda>t. ft_time t = e) (rs_timeouts s))"
    by auto
  have ev: "e \<le> e'" if "e' \<in> set (rs_events s1)" for e' using that e(2) set_remove1_subset[of e "rs_events s"] s1(4) by auto
  have x: "0 \<le> rs_expiration s1" using inv s1(5) by (simp add: reassembly_inv_def)
  show ?thesis
  proof (cases "rs_timeouts s1")
    case Nil
    then have "reassembly_inv e s1" using s1(2) ev x by (simp add: reassembly_inv_def)
    moreover have "fire_event e s = Some s1" using s1(1) Nil by (simp add: fire_event_def HandleTimeout_def)
    moreover have "dropWhile (\<lambda>t. ft_time t = e) (rs_timeouts s) = []" using s1(3) Nil by simp
    ultimately show ?thesis using s1(4-6) Nil by (intro exI[of _ s1]) (simp add: eq_commute[of "[]"])
  next
    case (Cons t ts)
    let ?s2 = "s1\<lparr>rs_events := rs_events s1 @ [ft_time t]\<rparr>"
    have "e \<le> ft_time t" using s1(2) by (simp add: Cons timeouts_ok_def)
    then have "reassembly_inv e ?s2" using s1(2) ev x by (auto simp: reassembly_inv_def timeouts_ok_def Cons)
    moreover have "fire_event e s = Some ?s2" using s1(1) Cons by (simp add: fire_event_def HandleTimeout_def)
    ultimately show ?thesis using s1(4-6) s1(3)[symmetric] Cons by simp
  qed
qed

lemma AddFragment_nonempty: "fg_fragments (AddFragment d off m f) \<noteq> []" "fg_timeoutIter (AddFragment d off m f) = fg_timeoutIter f"
  by (simp_all add: AddFragment_def split: prod.splits)

lemma entire_GetPacket: "IsEntire f \<Longrightarrow> \<exists>p. GetPacket f = Some p"
  by (auto simp: IsEntire_def GetPacket_def neq_Nil_conv)

text \<open>After \<open>find_fragments\<close> the key has an object, perhaps a new one that has no fragment yet.\<close>

lemma find_fragments_ok:
  assumes inv: "reassembly_inv now s" and t: "now \<le> t" "\<forall>e \<in> set (rs_events s). t \<le> e"
    and f: "find_fragments t k h iif s = (f, s1)" and new: "fg_fragments f' \<noteq> []" "fg_timeoutIter f' = fg_timeoutIter f"
  shows "reassembly_inv t (s1\<lparr>rs_fragments := smap_set (<) k f' (rs_fragments s1)\<rparr>)" "rs_expiration s1 = rs_expiration s"
    "\<exists>x \<in> set (rs_timeouts s1). ft_key x = k \<and> ft_id x = fg_timeoutIter f" "smap_ok (rs_fragments s1)"
proof -
  have ok: "timeouts_ok now (rs_timeouts s) s" and x: "0 \<le> rs_expiration s" using inv by (simp_all add: reassembly_inv_def)
  then have m: "smap_ok (rs_fragments s)" by (simp add: timeouts_ok_def)
  have head: "t \<le> ft_time y" if "y \<in> set (rs_timeouts s)" for y
  proof -
    from that obtain y0 ys where l: "rs_timeouts s = y0 # ys" by (cases "rs_timeouts s") auto
    then have "t \<le> ft_time y0" using inv t(2) by (force simp: reassembly_inv_def)
    also have "ft_time y0 \<le> ft_time y" using ok that by (auto simp: l timeouts_ok_def)
    finally show ?thesis .
  qed
  have "reassembly_inv t (s1\<lparr>rs_fragments := smap_set (<) k f' (rs_fragments s1)\<rparr>) \<and> rs_expiration s1 = rs_expiration s \<and>
    (\<exists>x \<in> set (rs_timeouts s1). ft_key x = k \<and> ft_id x = fg_timeoutIter f) \<and> smap_ok (rs_fragments s1)"
  proof (cases "map_of (rs_fragments s) k")
    case (Some g)
    then have fs: "f = g" "s1 = s" using f by (simp_all add: find_fragments_def)
    from Some have "k \<in> ft_key ` set (rs_timeouts s)" using ok by (metis map_of_SomeD image_eqI fst_conv timeouts_ok_def)
    with Some ok have ex: "\<exists>x \<in> set (rs_timeouts s). ft_key x = k \<and> ft_id x = fg_timeoutIter g" by (force simp: timeouts_ok_def)
    have keys: "fst ` set (smap_set (<) k f' (rs_fragments s)) = ft_key ` set (rs_timeouts s)"
      unfolding set_smap_set using Some ok by (metis insert_absorb map_of_SomeD image_eqI fst_conv timeouts_ok_def)
    have "timeouts_ok t (rs_timeouts s) (s\<lparr>rs_fragments := smap_set (<) k f' (rs_fragments s)\<rparr>)"
      unfolding timeouts_ok_def
    proof (intro conjI ballI)
      fix y assume y: "y \<in> set (rs_timeouts s)"
      from ok y obtain gy where gy: "map_of (rs_fragments s) (ft_key y) = Some gy" "fg_fragments gy \<noteq> []" "fg_timeoutIter gy = ft_id y"
        by (auto simp: timeouts_ok_def)
      then show "\<exists>f. map_of (rs_fragments (s\<lparr>rs_fragments := smap_set (<) k f' (rs_fragments s)\<rparr>)) (ft_key y) = Some f \<and>
          fg_fragments f \<noteq> [] \<and> fg_timeoutIter f = ft_id y"
        using Some new fs by (auto simp: map_of_smap_set[OF m])
    qed (use ok m keys t(1) head in \<open>auto simp: timeouts_ok_def smap_ok_set\<close>)
    then show ?thesis using ex inv t x m by (auto simp: fs reassembly_inv_def)
  next
    case None
    let ?y = "\<lparr>ft_id = rs_nextIter s, ft_time = t + rs_expiration s, ft_key = k, ft_header = h, ft_iif = iif\<rparr>"
    let ?m = "smap_set (<) k (Fragments (rs_nextIter s)) (rs_fragments s)"
    from None have k: "k \<notin> fst ` set (rs_fragments s)" by (simp add: map_of_eq_None_iff)
    then have ki: "k \<notin> ft_key ` set (rs_timeouts s)" using ok by (simp add: timeouts_ok_def)
    have fs: "f = Fragments (rs_nextIter s)" "rs_fragments s1 = ?m" "rs_timeouts s1 = rs_timeouts s @ [?y]"
      "rs_nextIter s1 = Suc (rs_nextIter s)" "rs_expiration s1 = rs_expiration s"
      "rs_events s1 = (if rs_timeouts s = [] then rs_events s @ [t + rs_expiration s] else rs_events s)"
      using f None k by (auto simp: find_fragments_def SetTimeout_def smap_insert_new)
    have m': "smap_ok ?m" "map_of (smap_set (<) k f' ?m) = (map_of (rs_fragments s))(k \<mapsto> f')"
      using m by (simp_all add: smap_ok_set map_of_smap_set)
    have late: "ft_time y \<le> t + rs_expiration s" "ft_id y \<noteq> rs_nextIter s" if "y \<in> set (rs_timeouts s)" for y
      using ok that t(1) by (auto simp: timeouts_ok_def)
    have "timeouts_ok t (rs_timeouts s @ [?y]) (s1\<lparr>rs_fragments := smap_set (<) k f' ?m\<rparr>)"
      unfolding timeouts_ok_def
    proof (intro conjI ballI)
      fix y assume y: "y \<in> set (rs_timeouts s @ [?y])"
      show "\<exists>f. map_of (rs_fragments (s1\<lparr>rs_fragments := smap_set (<) k f' ?m\<rparr>)) (ft_key y) = Some f \<and>
          fg_fragments f \<noteq> [] \<and> fg_timeoutIter f = ft_id y"
      proof (cases "y = ?y")
        case False
        with y have "y \<in> set (rs_timeouts s)" by simp
        moreover from this ki have "ft_key y \<noteq> k" by auto
        ultimately show ?thesis using ok by (auto simp: m' timeouts_ok_def)
      next
        case True
        then show ?thesis using new by (simp add: m'(2)) (simp add: fs(1) Fragments_def)
      qed
      show "ft_id y < rs_nextIter (s1\<lparr>rs_fragments := smap_set (<) k f' ?m\<rparr>)"
        using y ok by (auto simp: fs timeouts_ok_def)
      show "t \<le> ft_time y" using y head x by auto
      show "ft_time y \<le> t + rs_expiration (s1\<lparr>rs_fragments := smap_set (<) k f' ?m\<rparr>)" using y late by (auto simp: fs)
    qed (use ok m' ki late in \<open>auto simp: timeouts_ok_def smap_ok_set set_smap_set sorted_append image_iff\<close>)
    then have "reassembly_inv t (s1\<lparr>rs_fragments := smap_set (<) k f' (rs_fragments s1)\<rparr>)"
      using inv t(2) x by (auto simp: reassembly_inv_def fs)
    then show ?thesis using m'(1) by (simp add: fs Fragments_def)
  qed
  then show "reassembly_inv t (s1\<lparr>rs_fragments := smap_set (<) k f' (rs_fragments s1)\<rparr>)" "rs_expiration s1 = rs_expiration s"
    "\<exists>x \<in> set (rs_timeouts s1). ft_key x = k \<and> ft_id x = fg_timeoutIter f" "smap_ok (rs_fragments s1)" by blast+
qed

text \<open>A datagram that is complete is forgotten together with its timeout.\<close>

lemma erase_timeout_ok:
  assumes inv: "reassembly_inv t (s\<lparr>rs_fragments := smap_set (<) k f (rs_fragments s)\<rparr>)"
    and x: "x \<in> set (rs_timeouts s)" "ft_key x = k" and m: "smap_ok (rs_fragments s)"
  shows "reassembly_inv t (s\<lparr>rs_timeouts := filter (\<lambda>u. ft_id u \<noteq> ft_id x) (rs_timeouts s),
    rs_fragments := smap_erase (<) k (rs_fragments s)\<rparr>)"
proof -
  let ?ts = "filter (\<lambda>u. ft_id u \<noteq> ft_id x) (rs_timeouts s)"
  have ok: "timeouts_ok t (rs_timeouts s) (s\<lparr>rs_fragments := smap_set (<) k f (rs_fragments s)\<rparr>)"
    using inv by (simp add: reassembly_inv_def)
  then have d: "distinct (map ft_key (rs_timeouts s))" "distinct (map ft_id (rs_timeouts s))" by (simp_all add: timeouts_ok_def)
  have other: "ft_id u \<noteq> ft_id x \<longleftrightarrow> ft_key u \<noteq> k" if "u \<in> set (rs_timeouts s)" for u
    using d that x by (auto simp: distinct_map inj_on_def)
  then have ts: "set ?ts = {u \<in> set (rs_timeouts s). ft_key u \<noteq> k}" by auto
  have "fst ` set (smap_erase (<) k (rs_fragments s)) = fst ` set (rs_fragments s) - {k}"
    using map_of_smap_erase[OF m, of k] by (metis dom_map_of_conv_image_fst dom_fun_upd)
  also have "\<dots> = insert k (fst ` set (rs_fragments s)) - {k}" by simp
  also have "\<dots> = ft_key ` set (rs_timeouts s) - {k}" using ok by (simp add: timeouts_ok_def set_smap_set)
  also have "\<dots> = ft_key ` set ?ts" unfolding ts by blast
  finally have keys: "fst ` set (smap_erase (<) k (rs_fragments s)) = ft_key ` set ?ts" .
  have "timeouts_ok t ?ts (s\<lparr>rs_fragments := smap_erase (<) k (rs_fragments s)\<rparr>)"
    unfolding timeouts_ok_def
  proof (intro conjI ballI)
    fix u assume "u \<in> set ?ts"
    then have u: "u \<in> set (rs_timeouts s)" "ft_key u \<noteq> k" unfolding ts by auto
    with ok obtain g where "map_of (smap_set (<) k f (rs_fragments s)) (ft_key u) = Some g" "fg_fragments g \<noteq> []" "fg_timeoutIter g = ft_id u"
      by (auto simp: timeouts_ok_def)
    with u(2) show "\<exists>g. map_of (rs_fragments (s\<lparr>rs_fragments := smap_erase (<) k (rs_fragments s)\<rparr>)) (ft_key u) = Some g \<and>
        fg_fragments g \<noteq> [] \<and> fg_timeoutIter g = ft_id u"
      by (simp add: map_of_smap_set[OF m] map_of_smap_erase[OF m])
  qed (use ok m keys in \<open>auto simp: timeouts_ok_def smap_ok_erase distinct_map_filter sorted_filter\<close>)
  moreover have "ft_time (hd (rs_timeouts s)) \<le> ft_time (hd ?ts)" if "?ts \<noteq> []"
  proof -
    have "hd ?ts \<in> set (rs_timeouts s)" using that hd_in_set[OF that] by auto
    then show ?thesis using ok by (cases "rs_timeouts s") (auto simp: timeouts_ok_def)
  qed
  moreover have "\<exists>e \<in> set (rs_events s). e \<le> ft_time (hd (rs_timeouts s))" if "?ts \<noteq> []"
    using inv that by (auto simp: reassembly_inv_def)
  ultimately have "?ts \<noteq> [] \<longrightarrow> (\<exists>e \<in> set (rs_events s). e \<le> ft_time (hd ?ts))" by (meson order_trans)
  with \<open>timeouts_ok t ?ts _\<close> inv show ?thesis by (simp add: reassembly_inv_def timeouts_ok_def)
qed

lemma ProcessFragment_ok:
  assumes inv: "reassembly_inv now s" and t: "now \<le> t" "\<forall>e \<in> set (rs_events s). t \<le> e"
  shows "\<exists>r s'. ProcessFragment t packet h iif s = Some (r, s') \<and> reassembly_inv t s' \<and> rs_expiration s' = rs_expiration s"
proof -
  let ?k = "fragment_key_of h"
  obtain f s1 where f: "find_fragments t ?k h iif s = (f, s1)" by force
  let ?f' = "AddFragment packet (ip_fragmentOffset h) (\<not> IsLastFragment h) f"
  let ?s2 = "s1\<lparr>rs_fragments := smap_set (<) ?k ?f' (rs_fragments s1)\<rparr>"
  note found = find_fragments_ok[OF inv t f, of ?f', OF AddFragment_nonempty]
  show ?thesis
  proof (cases "IsEntire ?f'")
    case False
    then show ?thesis using f found by (simp add: ProcessFragment_def)
  next
    case True
    then obtain p where p: "GetPacket ?f' = Some p" using entire_GetPacket by blast
    let ?ts = "filter (\<lambda>u. ft_id u \<noteq> fg_timeoutIter f) (rs_timeouts s1)"
    let ?s3 = "s1\<lparr>rs_timeouts := ?ts, rs_fragments := smap_erase (<) ?k (rs_fragments s1)\<rparr>"
    from found(3) obtain x where x: "x \<in> set (rs_timeouts s1)" "ft_key x = ?k" "ft_id x = fg_timeoutIter f" by blast
    have "reassembly_inv t ?s3" using erase_timeout_ok[OF found(1) x(1,2) found(4)] by (simp add: x(3))
    then show ?thesis using True p f found(2) by (auto simp: ProcessFragment_def AddFragment_nonempty)
  qed
qed

lemma reassembly_run_inv: "reassembly_run expiration now s \<Longrightarrow> 0 \<le> expiration \<Longrightarrow> reassembly_inv now s \<and> rs_expiration s = expiration"
proof (induction rule: reassembly_run.induct)
  case (start now)
  then show ?case by (simp add: reassembly_inv_def timeouts_ok_def Reassembly_def)
next
  case (arrive now s t packet h iif r s')
  then show ?case using ProcessFragment_ok[of now s t packet h iif] by auto
next
  case (fire now s e s')
  then show ?case using fire_event_ok[of now s e] by auto
qed

subsection \<open>Every waiting datagram comes to an end\<close>

text \<open>\<open>fire_events n\<close> lets the next \<open>n\<close> pending events fire while no fragment arrives.\<close>

fun fire_events :: "nat \<Rightarrow> int \<times> reassembly \<Rightarrow> (int \<times> reassembly) option" where
  "fire_events 0 st = Some st"
| "fire_events (Suc n) (now, s) = (if rs_events s = [] then Some (now, s) else do {
     let e = Min (set (rs_events s));
     s' \<leftarrow> fire_event e s;
     fire_events n (e, s')
   })"

definition events_before :: "reassembly \<Rightarrow> nat" where
  "events_before s = (case rs_timeouts s of [] \<Rightarrow> 0 | t # _ \<Rightarrow> length (filter (\<lambda>e. e < ft_time t) (rs_events s)))"

lemma dropWhile_shorter: "xs \<noteq> [] \<Longrightarrow> P (hd xs) \<Longrightarrow> length (dropWhile P xs) < length xs"
  by (cases xs) (simp_all add: le_imp_less_Suc length_dropWhile_le)

lemma filter_remove1: "P e \<Longrightarrow> e \<in> set xs \<Longrightarrow> length (filter P (remove1 e xs)) < length (filter P xs)"
  by (induction xs) auto

definition fire_measure :: "(reassembly \<times> reassembly) set" where
  "fire_measure = measures [\<lambda>s. length (rs_timeouts s), events_before, \<lambda>s. length (rs_events s)]"

lemma wf_fire_measure: "wf fire_measure"
  by (simp add: fire_measure_def)

text \<open>Each event that fires ends a timeout, or brings the events that are left closer to the next one.\<close>

lemma fire_event_smaller:
  assumes inv: "reassembly_inv now s" and e: "e \<in> set (rs_events s)" "\<forall>e' \<in> set (rs_events s). e \<le> e'"
    and s1: "rs_timeouts s1 = dropWhile (\<lambda>t. ft_time t = e) (rs_timeouts s)"
      "rs_events s1 = remove1 e (rs_events s) @ (if rs_timeouts s1 = [] then [] else [ft_time (hd (rs_timeouts s1))])"
  shows "(s1, s) \<in> fire_measure"
proof (cases "rs_timeouts s")
  case Nil
  then show ?thesis using s1 e(1) length_pos_if_in_set[OF e(1)]
    by (simp add: fire_measure_def events_before_def length_remove1)
next
  case (Cons t ts)
  show ?thesis
  proof (cases "ft_time t = e")
    case True
    then show ?thesis using dropWhile_shorter[of "rs_timeouts s" "\<lambda>t. ft_time t = e"] Cons s1(1)
      by (simp add: fire_measure_def)
  next
    case ne: False
    then have s1': "rs_timeouts s1 = rs_timeouts s" "rs_events s1 = remove1 e (rs_events s) @ [ft_time t]" using s1 Cons by simp_all
    have "\<exists>e' \<in> set (rs_events s). e' \<le> ft_time t" using inv Cons by (simp add: reassembly_inv_def)
    then have "e < ft_time t" using e(2) ne by force
    then show ?thesis using filter_remove1[of "\<lambda>e. e < ft_time t" e "rs_events s"] e(1) Cons
      by (simp add: fire_measure_def s1' events_before_def)
  qed
qed

lemma all_events_fire:
  assumes "reassembly_inv now s"
  shows "\<exists>n now' s'. fire_events n (now, s) = Some (now', s') \<and> rs_events s' = [] \<and> rs_timeouts s' = [] \<and> rs_fragments s' = [] \<and>
    dropped (rs_out s') = dropped (rs_out s) @ map (\<lambda>t. (ft_header t, ft_iif t)) (rs_timeouts s)"
  using assms
proof (induction s arbitrary: now rule: wf_induct_rule[OF wf_fire_measure])
  case (1 s)
  show ?case
  proof (cases "rs_events s = []")
    case True
    then have ts: "rs_timeouts s = []" using 1(2) by (auto simp: reassembly_inv_def)
    then have "rs_fragments s = []" using 1(2) by (simp add: reassembly_inv_def timeouts_ok_def)
    with True ts show ?thesis by (intro exI[of _ 0] exI[of _ now] exI[of _ s]) simp
  next
    case False
    define e where "e = Min (set (rs_events s))"
    have e: "e \<in> set (rs_events s)" "\<forall>e' \<in> set (rs_events s). e \<le> e'" using False by (simp_all add: e_def)
    from fire_event_ok[OF 1(2) e] obtain s1 where s1: "fire_event e s = Some s1" "reassembly_inv e s1"
      "rs_timeouts s1 = dropWhile (\<lambda>t. ft_time t = e) (rs_timeouts s)"
      "rs_events s1 = remove1 e (rs_events s) @ (if rs_timeouts s1 = [] then [] else [ft_time (hd (rs_timeouts s1))])"
      "dropped (rs_out s1) = dropped (rs_out s) @ map (\<lambda>t. (ft_header t, ft_iif t)) (takeWhile (\<lambda>t. ft_time t = e) (rs_timeouts s))"
      by blast
    have "(s1, s) \<in> fire_measure" by (rule fire_event_smaller[OF 1(2) e s1(3,4)])
    from 1(1)[OF this s1(2)] obtain n now' s' where n: "fire_events n (e, s1) = Some (now', s')" "rs_events s' = []" "rs_timeouts s' = []"
      "rs_fragments s' = []" "dropped (rs_out s') = dropped (rs_out s1) @ map (\<lambda>t. (ft_header t, ft_iif t)) (rs_timeouts s1)" by blast
    have "fire_events (Suc n) (now, s) = Some (now', s')" using False s1(1) n(1) by (simp add: e_def)
    moreover have "dropped (rs_out s') = dropped (rs_out s) @ map (\<lambda>t. (ft_header t, ft_iif t)) (rs_timeouts s)"
      unfolding n(5) s1(5,3) append_assoc map_append[symmetric] takeWhile_dropWhile_id ..
    ultimately show ?thesis using n by blast
  qed
qed

subsection \<open>The events that are due\<close>

text \<open>
  What the simulator does between two arrivals: every \<open>HandleTimeout\<close> event up to the time of the second fires,
  the earliest first. (An event that falls on that time was scheduled before the arrival and comes first.)
\<close>

partial_function (option) fire_due :: "int \<Rightarrow> reassembly \<Rightarrow> reassembly option" where
  "fire_due t s = (if \<exists>e \<in> set (rs_events s). e \<le> t
     then Option.bind (fire_event (Min (set (rs_events s))) s) (fire_due t) else Some s)"

lemma timeout_loop_keeps:
  assumes "timeout_loop now ts s = Some s'" "smap_ok (rs_fragments s)" "\<forall>u \<in> set ts. ft_time u = now \<longrightarrow> ft_key u \<noteq> k"
  shows "map_of (rs_fragments s') k = map_of (rs_fragments s) k"
  using assms
proof (induction ts arbitrary: s)
  case (Cons u ts)
  show ?case
  proof (cases "ft_time u = now")
    case True
    with Cons.prems(1) obtain s1 where s1: "HandleFragmentsTimeout (ft_key u) (ft_header u) (ft_iif u) s = Some s1"
      "timeout_loop now ts s1 = Some s'" by (auto split: Option.bind_splits)
    have "rs_fragments s1 = smap_erase (<) (ft_key u) (rs_fragments s)"
      using s1(1) by (auto simp: HandleFragmentsTimeout_def split: Option.bind_splits)
    then show ?thesis using Cons.IH[OF s1(2)] Cons.prems(2,3) True
      by (auto simp: smap_ok_erase map_of_smap_erase)
  qed (use Cons.prems(1) in auto)
qed auto

lemma fire_event_keeps:
  assumes "fire_event e s = Some s'" "smap_ok (rs_fragments s)" "\<forall>u \<in> set (rs_timeouts s). ft_key u = k \<longrightarrow> e < ft_time u"
  shows "map_of (rs_fragments s') k = map_of (rs_fragments s) k"
proof -
  from assms(1) obtain s1 where s1: "timeout_loop e (rs_timeouts s) (s\<lparr>rs_events := remove1 e (rs_events s)\<rparr>) = Some s1"
    "rs_fragments s' = rs_fragments s1"
    by (auto simp: fire_event_def HandleTimeout_def split: Option.bind_splits list.splits)
  with timeout_loop_keeps[OF s1(1), of k] assms(2,3) show ?thesis by fastforce
qed

lemma reassembly_inv_later:
  assumes inv: "reassembly_inv now s" and t: "now \<le> t" "\<forall>e \<in> set (rs_events s). t \<le> e"
  shows "reassembly_inv t s"
proof -
  have "t \<le> ft_time y" if "y \<in> set (rs_timeouts s)" for y
  proof -
    from that obtain y0 ys where l: "rs_timeouts s = y0 # ys" by (cases "rs_timeouts s") auto
    then have "t \<le> ft_time y0" using inv t(2) by (force simp: reassembly_inv_def)
    also have "ft_time y0 \<le> ft_time y" using inv that by (auto simp: l reassembly_inv_def timeouts_ok_def)
    finally show ?thesis .
  qed
  then show ?thesis using inv t by (force simp: reassembly_inv_def timeouts_ok_def)
qed

text \<open>The due events fire without failing, they are finitely many, and they only touch what has expired.\<close>

lemma fire_due_ok:
  assumes "reassembly_inv now s" "now \<le> t"
  shows "\<exists>s'. fire_due t s = Some s' \<and> reassembly_inv t s' \<and> (\<forall>e \<in> set (rs_events s'). t < e) \<and>
    rs_expiration s' = rs_expiration s \<and> set (rs_timeouts s') \<subseteq> set (rs_timeouts s) \<and>
    (\<forall>k. (\<forall>u \<in> set (rs_timeouts s). ft_key u = k \<longrightarrow> t < ft_time u) \<longrightarrow> map_of (rs_fragments s') k = map_of (rs_fragments s) k)"
  using assms
proof (induction s arbitrary: now rule: wf_induct_rule[OF wf_fire_measure])
  case (1 s)
  show ?case
  proof (cases "\<exists>e \<in> set (rs_events s). e \<le> t")
    case False
    then have "\<forall>e \<in> set (rs_events s). t \<le> e" by auto
    with reassembly_inv_later[OF 1(2,3)] False show ?thesis by (intro exI[of _ s]) (auto simp: fire_due.simps)
  next
    case True
    define e where "e = Min (set (rs_events s))"
    have e: "e \<in> set (rs_events s)" "\<forall>e' \<in> set (rs_events s). e \<le> e'" "e \<le> t"
      using True by (auto simp: e_def intro: Min_in order_trans[OF Min_le])
    from fire_event_ok[OF 1(2) e(1,2)] obtain s1 where s1: "fire_event e s = Some s1" "reassembly_inv e s1"
      "rs_expiration s1 = rs_expiration s" "rs_timeouts s1 = dropWhile (\<lambda>t. ft_time t = e) (rs_timeouts s)"
      "rs_events s1 = remove1 e (rs_events s) @ (if rs_timeouts s1 = [] then [] else [ft_time (hd (rs_timeouts s1))])" by blast
    from 1(1)[OF fire_event_smaller[OF 1(2) e(1,2) s1(4,5)] s1(2) e(3)] obtain s' where
      s': "fire_due t s1 = Some s'" "reassembly_inv t s'" "\<forall>e \<in> set (rs_events s'). t < e"
        "rs_expiration s' = rs_expiration s1" "set (rs_timeouts s') \<subseteq> set (rs_timeouts s1)"
        "\<forall>k. (\<forall>u \<in> set (rs_timeouts s1). ft_key u = k \<longrightarrow> t < ft_time u) \<longrightarrow> map_of (rs_fragments s') k = map_of (rs_fragments s1) k"
      by blast
    have sub: "set (rs_timeouts s1) \<subseteq> set (rs_timeouts s)" unfolding s1(4) by (auto dest: set_dropWhileD)
    have ok: "smap_ok (rs_fragments s)" using 1(2) by (simp add: reassembly_inv_def timeouts_ok_def)
    have "map_of (rs_fragments s') k = map_of (rs_fragments s) k"
      if k: "\<forall>u \<in> set (rs_timeouts s). ft_key u = k \<longrightarrow> t < ft_time u" for k
    proof -
      have "\<forall>u \<in> set (rs_timeouts s). ft_key u = k \<longrightarrow> e < ft_time u" using k e(3) by force
      from fire_event_keeps[OF s1(1) ok this] s'(6) k sub show ?thesis by (metis subsetD)
    qed
    moreover have "fire_due t s = Some s'" using True s1(1) s'(1) by (subst fire_due.simps) (simp add: e_def)
    ultimately show ?thesis using s' s1(3) sub by (intro exI[of _ s']) auto
  qed
qed

lemma filter_key_unique: "distinct (map key xs) \<Longrightarrow> x \<in> set xs \<Longrightarrow> key x = k \<Longrightarrow> filter (\<lambda>y. key y = k) xs = [x]"
proof (induction xs)
  case (Cons y xs)
  have "filter (\<lambda>y. key y = k) xs = []" if "key y = k" using Cons.prems(1) that by (auto simp: filter_empty_conv) (metis image_eqI)
  with Cons show ?case by auto
qed simp

text \<open>
  C18. No datagram waits longer than the timeout. In every state the reassembly can reach, each datagram that
  waits for fragments has exactly one timeout entry, whose deadline is not over and at most the
  expiration time away, and a \<open>HandleTimeout\<close> event is pending that fires no later than the deadline; the
  next fragment is processed and the next event fires without failing.
\<close>

theorem datagrams_wait_bounded:
  assumes run: "reassembly_run expiration now s" and expiration: "0 \<le> expiration"
  shows "(\<forall>(k, f) \<in> set (rs_fragments s). \<exists>t. filter (\<lambda>t. ft_key t = k) (rs_timeouts s) = [t] \<and> ft_id t = fg_timeoutIter f \<and>
      now \<le> ft_time t \<and> ft_time t \<le> now + expiration \<and> (\<exists>e \<in> set (rs_events s). now \<le> e \<and> e \<le> ft_time t)) \<and>
    (\<forall>t packet h iif. now \<le> t \<and> (\<forall>e \<in> set (rs_events s). t \<le> e) \<longrightarrow> ProcessFragment t packet h iif s \<noteq> None) \<and>
    (\<forall>e \<in> set (rs_events s). (\<forall>e' \<in> set (rs_events s). e \<le> e') \<longrightarrow> fire_event e s \<noteq> None)"
proof (intro conjI ballI allI impI)
  from reassembly_run_inv[OF assms] have inv: "reassembly_inv now s" "rs_expiration s = expiration" by blast+
  then have ok: "timeouts_ok now (rs_timeouts s) s" by (simp add: reassembly_inv_def)
  show "ProcessFragment t packet h iif s \<noteq> None" if "now \<le> t \<and> (\<forall>e \<in> set (rs_events s). t \<le> e)" for t packet h iif
    using ProcessFragment_ok[OF inv(1), of t packet h iif] that by auto
  show "fire_event e s \<noteq> None" if "e \<in> set (rs_events s)" "\<forall>e' \<in> set (rs_events s). e \<le> e'" for e
    using fire_event_ok[OF inv(1) that] by auto
  fix x assume x: "x \<in> set (rs_fragments s)"
  obtain k f where kf: "x = (k, f)" by (cases x)
  have map: "map_of (rs_fragments s) k = Some f" using x ok by (simp add: kf timeouts_ok_def smap_ok_distinct)
  have "k \<in> ft_key ` set (rs_timeouts s)" using x ok by (metis timeouts_ok_def kf fst_conv image_eqI)
  then obtain t where t: "t \<in> set (rs_timeouts s)" "ft_key t = k" by blast
  have one: "filter (\<lambda>t. ft_key t = k) (rs_timeouts s) = [t]"
    using ok t by (intro filter_key_unique) (simp_all add: timeouts_ok_def)
  have "ft_id t = fg_timeoutIter f" "now \<le> ft_time t" "ft_time t \<le> now + expiration"
    using ok t map inv(2) by (auto simp: timeouts_ok_def)
  moreover have "\<exists>e \<in> set (rs_events s). now \<le> e \<and> e \<le> ft_time t"
  proof -
    from t(1) obtain u us where u: "rs_timeouts s = u # us" by (cases "rs_timeouts s") auto
    then have "ft_time u \<le> ft_time t" using ok t(1) by (auto simp: timeouts_ok_def)
    moreover obtain e where "e \<in> set (rs_events s)" "e \<le> ft_time u" using inv(1) u by (auto simp: reassembly_inv_def)
    ultimately show ?thesis using inv(1) by (meson order_trans reassembly_inv_def)
  qed
  ultimately show "case x of (k, f) \<Rightarrow> \<exists>t. filter (\<lambda>t. ft_key t = k) (rs_timeouts s) = [t] \<and> ft_id t = fg_timeoutIter f \<and>
      now \<le> ft_time t \<and> ft_time t \<le> now + expiration \<and> (\<exists>e \<in> set (rs_events s). now \<le> e \<and> e \<le> ft_time t)"
    using one by (auto simp: kf)
qed

definition first_fragment :: ipv4_header where
  "first_fragment = SetMoreFragments Ipv4Header"

definition one_waiting :: reassembly where
  "one_waiting = snd (the (ProcessFragment 5 [1, 2, 3, 4, 5, 6, 7, 8] first_fragment 1 (Reassembly 30)))"

lemma one_waiting_eq:
  "ProcessFragment 5 [1, 2, 3, 4, 5, 6, 7, 8] first_fragment 1 (Reassembly 30) = Some (None, one_waiting)"
  "rs_fragments one_waiting = [(fragment_key_of first_fragment, \<lparr>fg_moreFragment = True, fg_fragments = [([1, 2, 3, 4, 5, 6, 7, 8], 0)], fg_timeoutIter = 0\<rparr>)]"
  "rs_timeouts one_waiting = [\<lparr>ft_id = 0, ft_time = 35, ft_key = fragment_key_of first_fragment, ft_header = first_fragment, ft_iif = 1\<rparr>]"
  "rs_events one_waiting = [35]" "rs_out one_waiting = []"
proof -
  have "\<not> IsLastFragment first_fragment" "ip_fragmentOffset first_fragment = 0"
    by (simp_all add: first_fragment_def Ipv4Header_def)
  then show
    "ProcessFragment 5 [1, 2, 3, 4, 5, 6, 7, 8] first_fragment 1 (Reassembly 30) = Some (None, one_waiting)"
    "rs_fragments one_waiting = [(fragment_key_of first_fragment, \<lparr>fg_moreFragment = True, fg_fragments = [([1, 2, 3, 4, 5, 6, 7, 8], 0)], fg_timeoutIter = 0\<rparr>)]"
    "rs_timeouts one_waiting = [\<lparr>ft_id = 0, ft_time = 35, ft_key = fragment_key_of first_fragment, ft_header = first_fragment, ft_iif = 1\<rparr>]"
    "rs_events one_waiting = [35]" "rs_out one_waiting = []"
    by (simp_all add: one_waiting_def ProcessFragment_def find_fragments_def SetTimeout_def Reassembly_def Fragments_def AddFragment_def
      IsEntire_def Let_def)
qed

lemma one_waiting_run: "reassembly_run 30 5 one_waiting"
  by (rule reassembly_run.arrive[OF reassembly_run.start[of 30 0] _ _ one_waiting_eq(1)]) (simp_all add: Reassembly_def)

theorem datagrams_wait_bounded_witness: "fire_event 35 one_waiting \<noteq> None"
  using datagrams_wait_bounded[OF one_waiting_run] by (simp add: one_waiting_eq)

text \<open>
  C17. Every waiting datagram comes to an end. From any state the reassembly can reach, when no more fragments
  arrive, finitely many events fire until none is left; then nothing waits any more, and the datagrams
  that were waiting have been reported as dropped, each exactly once and in the order of their deadlines.
\<close>

theorem waiting_datagrams_end:
  assumes "reassembly_run expiration now s" "0 \<le> expiration"
  shows "\<exists>n now' s'. fire_events n (now, s) = Some (now', s') \<and> rs_events s' = [] \<and> rs_timeouts s' = [] \<and> rs_fragments s' = [] \<and>
    dropped (rs_out s') = dropped (rs_out s) @ map (\<lambda>t. (ft_header t, ft_iif t)) (rs_timeouts s)"
  using all_events_fire[of now s] reassembly_run_inv[OF assms] by blast

theorem waiting_datagrams_end_witness:
  "\<exists>n now' s'. fire_events n (5, one_waiting) = Some (now', s') \<and> rs_fragments s' = [] \<and> dropped (rs_out s') = [(first_fragment, 1)]"
  using waiting_datagrams_end[OF one_waiting_run] by (auto simp: one_waiting_eq)

end
