(* ===== verification/Ipv4_Delivery.thy ===== *)
theory Ipv4_Delivery
  imports Ipv4_L3_Properties Ipv4_Reassembly Ipv4_Reassembly_Timeouts
begin

text \<open>
  Delivery to the transport protocols in \<open>src/internet/model/ipv4-l3-protocol.cc\<close>: the table of the protocols
  of a node, \<open>LocalDeliver\<close>, and the way of a datagram from \<open>DoFragmentation\<close> of the sender over the wire,
  \<open>Receive\<close> and the reassembly, to the protocol of the receiver. A protocol is a number, and the status
  that its \<open>Receive\<close> returns is an argument. \<open>None\<close> is a failed assertion or a missing interface.
\<close>

subsection \<open>Transport protocols\<close>

type_synonym protocol_table = "((int \<times> int) \<times> nat) list"

definition Insert_protocol :: "nat \<Rightarrow> int \<Rightarrow> protocol_table \<Rightarrow> protocol_table" where
  "Insert_protocol protocol number m = smap_set (<) (number, - 1) protocol m"

definition Insert_protocol_at :: "nat \<Rightarrow> int \<Rightarrow> nat \<Rightarrow> protocol_table \<Rightarrow> protocol_table" where
  "Insert_protocol_at protocol number interfaceIndex m = smap_set (<) (number, int interfaceIndex) protocol m"

definition Remove_protocol :: "int \<Rightarrow> protocol_table \<Rightarrow> protocol_table" where
  "Remove_protocol number m = smap_erase (<) (number, - 1) m"

definition Remove_protocol_at :: "int \<Rightarrow> nat \<Rightarrow> protocol_table \<Rightarrow> protocol_table" where
  "Remove_protocol_at number interfaceIndex m = smap_erase (<) (number, int interfaceIndex) m"

definition GetProtocol_at :: "int \<Rightarrow> int \<Rightarrow> protocol_table \<Rightarrow> nat option" where
  "GetProtocol_at number interfaceIndex m =
     (case (if 0 \<le> interfaceIndex then smap_find (<) (number, interfaceIndex) m else None) of
        Some p \<Rightarrow> Some p
      | None \<Rightarrow> smap_find (<) (number, - 1) m)"

definition GetProtocol :: "int \<Rightarrow> protocol_table \<Rightarrow> nat option" where
  "GetProtocol number m = GetProtocol_at number (- 1) m"

datatype rx_status = RX_OK | RX_CSUM_FAILED | RX_ENDPOINT_CLOSED | RX_ENDPOINT_UNREACH

subsection \<open>Local delivery\<close>

datatype delivery =
    LocalDeliverTrace ipv4_header bytes nat
  | ProtocolReceive nat ipv4_header bytes nat
  | DestUnreachPort ipv4_header bytes

record ip_node =
  in_l3 :: ipv4_l3
  in_reassembly :: reassembly
  in_protocols :: protocol_table

definition subnet_directed :: "ipv4 \<Rightarrow> iface_addr list \<Rightarrow> bool" where
  "subnet_directed destination as \<longleftrightarrow> (\<exists>a \<in> set as.
     ipv4_eq (CombineMask (ia_local a) (ia_mask a)) (CombineMask destination (ia_mask a)) \<and>
     IsSubnetDirectedBroadcast destination (ia_mask a))"

definition deliver_to_protocol :: "(nat \<Rightarrow> bytes \<Rightarrow> ipv4_header \<Rightarrow> rx_status) \<Rightarrow> bytes \<Rightarrow> ipv4_header \<Rightarrow> nat \<Rightarrow> ip_node \<Rightarrow> delivery list option" where
  "deliver_to_protocol status p h iif n =
     (case GetProtocol_at (uint (ip_protocol h)) (int iif) (in_protocols n) of
        None \<Rightarrow> Some [LocalDeliverTrace h p iif]
      | Some protocol \<Rightarrow> do {
          x \<leftarrow> GetInterface iif (in_l3 n);
          let dest = ip_destination h;
          Some ([LocalDeliverTrace h p iif, ProtocolReceive protocol h p iif] @
            (case status protocol p h of
               RX_ENDPOINT_UNREACH \<Rightarrow>
                 (if IsBroadcast dest \<or> IsMulticast dest \<or> subnet_directed dest (if_addrs x) then [] else [DestUnreachPort h p])
             | _ \<Rightarrow> []))
        })"

definition LocalDeliver :: "int \<Rightarrow> (nat \<Rightarrow> bytes \<Rightarrow> ipv4_header \<Rightarrow> rx_status) \<Rightarrow> bytes \<Rightarrow> ipv4_header \<Rightarrow> nat \<Rightarrow> ip_node \<Rightarrow>
    (delivery list \<times> ip_node) option" where
  "LocalDeliver now status packet ip iif n =
     (if \<not> IsLastFragment ip \<or> ip_fragmentOffset ip \<noteq> 0 then do {
        (r, rs) \<leftarrow> ProcessFragment now packet ip iif (in_reassembly n);
        case r of
          None \<Rightarrow> Some ([], n\<lparr>in_reassembly := rs\<rparr>)
        | Some p \<Rightarrow> do {
            h \<leftarrow> SetFragmentOffset 0 ip;
            out \<leftarrow> deliver_to_protocol status p (h\<lparr>ip_payloadSize := of_nat (length p)\<rparr>) iif (n\<lparr>in_reassembly := rs\<rparr>);
            Some (out, n\<lparr>in_reassembly := rs\<rparr>)
          }
      } else do {
        out \<leftarrow> deliver_to_protocol status packet ip iif n;
        Some (out, n)
      })"

text \<open>
  A frame on its way through \<open>Receive\<close> when the routing protocol hands it to the local callback, as it does
  with the packets for the node itself.
\<close>

definition receive_local :: "int \<Rightarrow> (nat \<Rightarrow> bytes \<Rightarrow> ipv4_header \<Rightarrow> rx_status) \<Rightarrow> nat \<Rightarrow> bytes \<Rightarrow> ip_node \<Rightarrow> (delivery list \<times> ip_node) option" where
  "receive_local now status device frame n = do {
     v \<leftarrow> Ipv4_Receive device frame (in_l3 n);
     case v of
       RxDrop r h p \<Rightarrow> Some ([], n)
     | RxRouteInput h p \<Rightarrow> LocalDeliver now status p h (nat (GetInterfaceForDevice device (in_l3 n))) n
   }"

text \<open>
  Frames that are heard one after the other, each at its time. Before each of them the \<open>HandleTimeout\<close> events
  that have fallen due fire.
\<close>

fun receive_frames :: "(nat \<Rightarrow> bytes \<Rightarrow> ipv4_header \<Rightarrow> rx_status) \<Rightarrow> nat \<Rightarrow> (int \<times> bytes) list \<Rightarrow> ip_node \<Rightarrow> (delivery list \<times> ip_node) option" where
  "receive_frames status device [] n = Some ([], n)"
| "receive_frames status device ((t, frame) # fs) n = do {
     rs \<leftarrow> fire_due t (in_reassembly n);
     (o1, n1) \<leftarrow> receive_local t status device frame (n\<lparr>in_reassembly := rs\<rparr>);
     (o2, n2) \<leftarrow> receive_frames status device fs n1;
     Some (o1 @ o2, n2)
   }"

subsection \<open>One hop\<close>

text \<open>A packet on the wire: its header, its payload, and any padding of the link.\<close>

definition frame_of :: "bytes \<times> ipv4_header \<Rightarrow> bytes \<Rightarrow> bool" where
  "frame_of x frame \<longleftrightarrow> (\<exists>hb pad. Ipv4Header_Serialize (snd x) = Some hb \<and> frame = hb @ fst x @ pad)"

definition hears :: "nat \<Rightarrow> nat \<Rightarrow> bool \<Rightarrow> ipv4_l3 \<Rightarrow> bool" where
  "hears device iif checksums s \<longleftrightarrow> GetInterfaceForDevice device s = int iif \<and> iif < length (l3_interfaces s) \<and>
     if_up (l3_interfaces s ! iif) \<and> (l3_checksums s \<longrightarrow> checksums)"

text \<open>The fields of a header that arrive.\<close>

definition arrives_as :: "ipv4_header \<Rightarrow> ipv4_header \<Rightarrow> bool" where
  "arrives_as h g \<longleftrightarrow> same_datagram h g \<and> ip_fragmentOffset g = ip_fragmentOffset h \<and> ip_flags g = ip_flags h \<and>
     ip_payloadSize g = ip_payloadSize h"

lemma Receive_frame:
  assumes "frame_of (d, h) frame" "hears device iif (ip_calcChecksum h) s" "header_ok h" "ip_payloadSize h = of_nat (length d)" "length d < 65536"
  shows "\<exists>g. Ipv4_Receive device frame s = Some (RxRouteInput g d) \<and> arrives_as h g"
proof -
  from assms(1) obtain hb pad where f: "Ipv4Header_Serialize h = Some hb" "frame = hb @ d @ pad" by (auto simp: frame_of_def)
  let ?h0 = "if l3_checksums s then EnableChecksum Ipv4Header else Ipv4Header"
  have "ip_calcChecksum ?h0 \<longrightarrow> ip_calcChecksum h" using assms(2) by (simp add: hears_def Ipv4Header_def)
  from header_read_back[OF assms(3) this, of "d @ pad"] f(1) obtain c where b: "length hb = 20"
    "Ipv4Header_Deserialize ?h0 (hb @ d @ pad) = Some (20, h\<lparr>ip_calcChecksum := ip_calcChecksum ?h0, ip_checksum := c,
      ip_goodChecksum := ip_calcChecksum ?h0 \<or> ip_goodChecksum ?h0\<rparr>)" by auto
  have good: "ip_calcChecksum ?h0 \<or> ip_goodChecksum ?h0" by (simp add: EnableChecksum_def Ipv4Header_def)
  have "unat (ip_payloadSize h) = length d" using assms(4,5) by (simp add: u16_of_nat)
  then show ?thesis using assms(2) b good
    by (simp add: Ipv4_Receive_def hears_def GetInterface_def f(2) arrives_as_def same_datagram_def Let_def)
qed

subsection \<open>The fragments of a datagram\<close>

text \<open>
  The fragments \<open>xs\<close> of the datagram under \<open>k\<close> have arrived by now, and no other; they do not expire before
  the deadline \<open>dl\<close>.
\<close>

definition gathered :: "fragment_key \<Rightarrow> int \<Rightarrow> (bytes \<times> ipv4_header) list \<Rightarrow> int \<Rightarrow> reassembly \<Rightarrow> bool" where
  "gathered k dl xs now s \<longleftrightarrow> reassembly_inv now s \<and>
     (if xs = [] then k \<notin> fst ` set (rs_fragments s)
      else (\<exists>i. map_of (rs_fragments s) k = Some (fold add_received xs (Fragments i))) \<and>
        (\<forall>u \<in> set (rs_timeouts s). ft_key u = k \<longrightarrow> dl \<le> ft_time u))"

lemma gathered_ok: "gathered k dl xs now s \<Longrightarrow> smap_ok (rs_fragments s)"
  by (simp add: gathered_def reassembly_inv_def timeouts_ok_def)

lemma gathered_timeouts:
  assumes "gathered k dl xs now s" "u \<in> set (rs_timeouts s)" "ft_key u = k"
  shows "dl \<le> ft_time u"
proof (cases "xs = []")
  case True
  have "fst ` set (rs_fragments s) = ft_key ` set (rs_timeouts s)"
    using assms(1) by (simp add: gathered_def reassembly_inv_def timeouts_ok_def)
  with assms True show ?thesis by (auto simp: gathered_def)
next
  case False
  with assms show ?thesis by (simp add: gathered_def)
qed

text \<open>The events that fire before the deadline leave the fragments where they are.\<close>

lemma fire_due_gathered:
  assumes "gathered k dl xs now s" "now \<le> t" "t < dl"
  shows "\<exists>s'. fire_due t s = Some s' \<and> gathered k dl xs t s' \<and> (\<forall>e \<in> set (rs_events s'). t \<le> e) \<and>
    rs_expiration s' = rs_expiration s"
proof -
  have inv: "reassembly_inv now s" using assms(1) by (simp add: gathered_def)
  from fire_due_ok[OF this assms(2)] obtain s' where s': "fire_due t s = Some s'" "reassembly_inv t s'"
    "\<forall>e \<in> set (rs_events s'). t < e" "rs_expiration s' = rs_expiration s" "set (rs_timeouts s') \<subseteq> set (rs_timeouts s)"
    "\<forall>k. (\<forall>u \<in> set (rs_timeouts s). ft_key u = k \<longrightarrow> t < ft_time u) \<longrightarrow> map_of (rs_fragments s') k = map_of (rs_fragments s) k"
    by blast
  have "\<forall>u \<in> set (rs_timeouts s). ft_key u = k \<longrightarrow> t < ft_time u" using gathered_timeouts[OF assms(1)] assms(3) by force
  with s'(6) have "map_of (rs_fragments s') k = map_of (rs_fragments s) k" by blast
  then have "gathered k dl xs t s'" using s'(2,5) assms(1)
    by (auto simp: gathered_def map_of_eq_None_iff[symmetric])
  with s' show ?thesis by (intro exI[of _ s']) auto
qed

lemma find_gathered:
  assumes "gathered k dl xs now s" "xs = [] \<Longrightarrow> dl \<le> t + rs_expiration s"
  shows "\<exists>i s1. find_fragments t k h iif s = (fold add_received xs (Fragments i), s1) \<and> smap_ok (rs_fragments s1) \<and>
    (\<forall>u \<in> set (rs_timeouts s1). ft_key u = k \<longrightarrow> dl \<le> ft_time u)"
proof (cases "xs = []")
  case True
  then have "k \<notin> fst ` set (rs_fragments s)" "map_of (rs_fragments s) k = None" using assms(1)
    by (simp_all add: gathered_def map_of_eq_None_iff)
  then show ?thesis using assms True gathered_timeouts[OF assms(1)] gathered_ok[OF assms(1)]
    by (auto simp: find_fragments_def SetTimeout_def smap_insert_new smap_ok_set)
next
  case False
  then show ?thesis using assms(1) gathered_ok[OF assms(1)] by (auto simp: find_fragments_def gathered_def)
qed

lemma ProcessFragment_gathered:
  assumes c: "gathered k dl xs now s" "arrives_as fh g" "fragment_key_of fh = k"
    and t: "now \<le> t" "\<forall>e \<in> set (rs_events s). t \<le> e" "xs = [] \<Longrightarrow> dl \<le> t + rs_expiration s"
    and e: "\<And>i. IsEntire (fold add_received (xs @ [(d, fh)]) (Fragments i)) \<longleftrightarrow> e"
      "\<And>i. e \<Longrightarrow> GetPacket (fold add_received (xs @ [(d, fh)]) (Fragments i)) = Some p"
  shows "\<exists>s'. ProcessFragment t d g iif s = Some (if e then Some p else None, s') \<and>
    gathered k dl (if e then [] else xs @ [(d, fh)]) t s'"
proof -
  have k: "fragment_key_of g = k" using c(2,3) by (simp add: fragment_key_of_def arrives_as_def same_datagram_def)
  from find_gathered[OF c(1) t(3)] obtain i s1 where
    f: "find_fragments t k g iif s = (fold add_received xs (Fragments i), s1)" "smap_ok (rs_fragments s1)"
      "\<forall>u \<in> set (rs_timeouts s1). ft_key u = k \<longrightarrow> dl \<le> ft_time u" by blast
  have a: "AddFragment d (ip_fragmentOffset g) (\<not> IsLastFragment g) (fold add_received xs (Fragments i)) =
      fold add_received (xs @ [(d, fh)]) (Fragments i)"
    using c(2) by (simp add: add_received_def arrives_as_def IsLastFragment_def)
  have erased: "k \<notin> fst ` set (smap_erase (<) k (rs_fragments s1))"
    by (simp add: map_of_eq_None_iff[symmetric] map_of_smap_erase[OF f(2)])
  have "reassembly_inv now s" using c(1) by (simp add: gathered_def)
  from ProcessFragment_ok[OF this t(1,2), of d g iif] obtain r s' where
    s': "ProcessFragment t d g iif s = Some (r, s')" "reassembly_inv t s'" by blast
  show ?thesis
  proof (cases e)
    case True
    then show ?thesis using e s' f erased
      by (auto simp: ProcessFragment_def k a Let_def gathered_def simp del: fold_append)
  next
    case False
    then show ?thesis using e(1) s' f
      by (auto simp: ProcessFragment_def k a Let_def gathered_def map_of_smap_set simp del: fold_append)
  qed
qed

subsection \<open>From one node to the next\<close>

fun receives :: "delivery list \<Rightarrow> (nat \<times> ipv4_header \<times> bytes \<times> nat) list" where
  "receives [] = []"
| "receives (ProtocolReceive protocol h p iif # os) = (protocol, h, p, iif) # receives os"
| "receives (LocalDeliverTrace h p iif # os) = receives os"
| "receives (DestUnreachPort h p # os) = receives os"

lemma deliver_receives:
  assumes "GetProtocol_at (uint (ip_protocol h)) (int iif) (in_protocols n) = Some pr" "hears device iif c (in_l3 n)"
  shows "\<exists>out. deliver_to_protocol status p h iif n = Some out \<and> receives out = [(pr, h, p, iif)]"
  using assms by (auto simp: deliver_to_protocol_def hears_def GetInterface_def Let_def split: rx_status.splits)

lemma piece_fields:
  assumes "whole p h" "28 \<le> unat mtu" "unat mtu < 65536" "DoFragmentation checksums p h mtu = Some fs" "(d, fh) \<in> set fs"
  shows "header_ok fh" "ip_payloadSize fh = of_nat (length d)" "length d < 65536" "checksums \<longrightarrow> ip_calcChecksum fh" "same_datagram h fh"
proof -
  note C = cut_up[OF assms(1-4)]
  have w: "header_ok h" "length p < 65536" using assms(1) by (simp_all add: whole_def)
  show "header_ok fh" using DoFragmentation_fragments(2)[OF whole_fragment[OF assms(1)] w(2,1) assms(2-5)] by simp
  show "same_datagram h fh" by (rule DoFragmentation_same[OF assms(4,5)])
  from assms(5) C(1) obtain x where x: "cut_piece checksums h (length p) x = (d, fh)" by auto
  then show "ip_payloadSize fh = of_nat (length d)" using cut_fields(1,4) by (cases x) metis
  show "checksums \<longrightarrow> ip_calcChecksum fh" using x by (auto simp: cut_piece_def Let_def EnableChecksum_def split: prod.splits)
  from C(4)[OF assms(5)] w(2) show "length d < 65536" by (simp add: fragment_of_def slice_of_def received_def)
qed

lemma local_fragment:
  assumes w: "whole p h" "28 \<le> unat mtu" "unat mtu < 65536" "DoFragmentation checksums p h mtu = Some fs"
    and node: "hears device iif checksums (in_l3 n)" "GetProtocol_at (uint (ip_protocol h)) (int iif) (in_protocols n) = Some pr"
    and x: "x \<in> set fs" "frame_of x frame" "\<not> IsLastFragment (snd x) \<or> ip_fragmentOffset (snd x) \<noteq> 0"
    and c: "gathered (fragment_key_of h) dl xs now (in_reassembly n)" "set xs \<subseteq> set fs"
    and t: "now \<le> t" "\<forall>e \<in> set (rs_events (in_reassembly n)). t \<le> e" "xs = [] \<Longrightarrow> dl \<le> t + rs_expiration (in_reassembly n)"
    and e: "e \<longleftrightarrow> insert x (set xs) = set fs"
  shows "\<exists>out s' g. receive_local t status device frame n = Some (out, n\<lparr>in_reassembly := s'\<rparr>) \<and>
    receives out = (if e then [(pr, g, p, iif)] else []) \<and> same_datagram h g \<and> ip_payloadSize g = of_nat (length p) \<and>
    gathered (fragment_key_of h) dl (if e then [] else xs @ [x]) t s'"
proof -
  obtain d fh where dx: "x = (d, fh)" by force
  note F = piece_fields[OF w x(1)[unfolded dx]]
  from node(1) F(4) have "hears device iif (ip_calcChecksum fh) (in_l3 n)" by (auto simp: hears_def)
  from Receive_frame[OF x(2)[unfolded dx] this F(1-3)] obtain g where
    g: "Ipv4_Receive device frame (in_l3 n) = Some (RxRouteInput g d)" "arrives_as fh g" by blast
  have k: "fragment_key_of fh = fragment_key_of h" using F(5) by (simp add: fragment_key_of_def same_datagram_def)
  have sub: "set (xs @ [x]) \<subseteq> set fs" using c(2) x(1) by simp
  have "\<exists>s'. ProcessFragment t d g iif (in_reassembly n) = Some (if e then Some p else None, s') \<and>
      gathered (fragment_key_of h) dl (if e then [] else xs @ [(d, fh)]) t s'"
  proof (rule ProcessFragment_gathered[OF c(1) g(2) k t])
    fix i
    show "IsEntire (fold add_received (xs @ [(d, fh)]) (Fragments i)) \<longleftrightarrow> e"
      using cut_reassembles(1)[OF w sub, of i] e by (simp add: dx)
    show "GetPacket (fold add_received (xs @ [(d, fh)]) (Fragments i)) = Some p" if e
      using cut_reassembles(2)[OF w sub, of i] e that by (simp add: dx)
  qed
  then obtain s' where s': "ProcessFragment t d g iif (in_reassembly n) = Some (if e then Some p else None, s')"
    "gathered (fragment_key_of h) dl (if e then [] else xs @ [x]) t s'" unfolding dx by blast
  have frag: "\<not> IsLastFragment g \<or> ip_fragmentOffset g \<noteq> 0" using x(3) g(2) by (simp add: dx arrives_as_def IsLastFragment_def)
  have i: "nat (GetInterfaceForDevice device (in_l3 n)) = iif" using node(1) by (simp add: hears_def)
  let ?g = "g\<lparr>ip_fragmentOffset := 0, ip_payloadSize := of_nat (length p)\<rparr>"
  have same: "same_datagram h ?g" using g(2) F(5) by (simp add: arrives_as_def same_datagram_def)
  then have "GetProtocol_at (uint (ip_protocol ?g)) (int iif) (in_protocols (n\<lparr>in_reassembly := s'\<rparr>)) = Some pr"
    using node(2) by (simp add: same_datagram_def)
  from deliver_receives[OF this, of device checksums status p] node(1) obtain out where
    "deliver_to_protocol status p ?g iif (n\<lparr>in_reassembly := s'\<rparr>) = Some out" "receives out = [(pr, ?g, p, iif)]" by auto
  then have "receive_local t status device frame n = Some (if e then out else [], n\<lparr>in_reassembly := s'\<rparr>)"
    using s'(1) frag by (auto simp: receive_local_def g(1) i LocalDeliver_def SetFragmentOffset_def)
  with \<open>receives out = _\<close> same s'(2) show ?thesis
    by (intro exI[of _ "if e then out else []"] exI[of _ s'] exI[of _ ?g]) simp
qed

lemma fragments_arrive:
  assumes w: "whole p h" "28 \<le> unat mtu" "unat mtu < 65536" "DoFragmentation checksums p h mtu = Some fs"
    and frag: "\<And>x. x \<in> set fs \<Longrightarrow> \<not> IsLastFragment (snd x) \<or> ip_fragmentOffset (snd x) \<noteq> 0"
  shows "hears device iif checksums (in_l3 n) \<Longrightarrow> GetProtocol_at (uint (ip_protocol h)) (int iif) (in_protocols n) = Some pr \<Longrightarrow>
    gathered (fragment_key_of h) dl xs now (in_reassembly n) \<Longrightarrow> set xs \<union> set sent = set fs \<Longrightarrow> set xs \<union> set (butlast sent) \<noteq> set fs \<Longrightarrow>
    list_all2 (\<lambda>a x. frame_of x (snd a)) arrivals sent \<Longrightarrow>
    sorted (map fst arrivals) \<Longrightarrow> \<forall>a \<in> set arrivals. now \<le> fst a \<and> fst a < dl \<Longrightarrow>
    (xs = [] \<Longrightarrow> arrivals \<noteq> [] \<Longrightarrow> dl \<le> fst (hd arrivals) + rs_expiration (in_reassembly n)) \<Longrightarrow>
    \<exists>out n' g. receive_frames status device arrivals n = Some (out, n') \<and> receives out = [(pr, g, p, iif)] \<and> same_datagram h g \<and>
      ip_payloadSize g = of_nat (length p) \<and> fragment_key_of h \<notin> fst ` set (rs_fragments (in_reassembly n'))"
proof (induction sent arbitrary: arrivals xs now n)
  case (Cons x sent)
  from Cons.prems(6) obtain t frame rest where a: "arrivals = (t, frame) # rest" "frame_of x frame"
    "list_all2 (\<lambda>a x. frame_of x (snd a)) rest sent" by (auto simp: list_all2_Cons2)
  have x: "x \<in> set fs" "set xs \<subseteq> set fs" using Cons.prems(4) by auto
  have t: "now \<le> t" "t < dl" using Cons.prems(8) a(1) by simp_all
  from fire_due_gathered[OF Cons.prems(3) t] obtain s0 where s0: "fire_due t (in_reassembly n) = Some s0"
    "gathered (fragment_key_of h) dl xs t s0" "\<forall>e \<in> set (rs_events s0). t \<le> e"
    "rs_expiration s0 = rs_expiration (in_reassembly n)" by blast
  let ?n = "n\<lparr>in_reassembly := s0\<rparr>"
  have n: "hears device iif checksums (in_l3 ?n)" "GetProtocol_at (uint (ip_protocol h)) (int iif) (in_protocols ?n) = Some pr"
    "gathered (fragment_key_of h) dl xs t (in_reassembly ?n)" "\<forall>e \<in> set (rs_events (in_reassembly ?n)). t \<le> e"
    "xs = [] \<Longrightarrow> dl \<le> t + rs_expiration (in_reassembly ?n)"
    using Cons.prems(1,2,9) s0 a(1) by simp_all
  from local_fragment[OF w n(1,2) x(1) a(2) frag[OF x(1)] n(3) x(2) order_refl n(4,5) refl, of status] obtain out s' g where
    s: "receive_local t status device frame ?n = Some (out, n\<lparr>in_reassembly := s'\<rparr>)"
      "receives out = (if insert x (set xs) = set fs then [(pr, g, p, iif)] else [])" "same_datagram h g" "ip_payloadSize g = of_nat (length p)"
      "gathered (fragment_key_of h) dl (if insert x (set xs) = set fs then [] else xs @ [x]) t s'" by auto
  show ?case
  proof (cases "sent = []")
    case True
    then have "insert x (set xs) = set fs" "rest = []" using Cons.prems(4) a(3) by auto
    then show ?thesis using s by (intro exI[of _ out] exI[of _ "n\<lparr>in_reassembly := s'\<rparr>"] exI[of _ g]) (simp add: a(1) s0(1) gathered_def)
  next
    case False
    have ne: "insert x (set xs) \<noteq> set fs"
    proof
      assume "insert x (set xs) = set fs"
      moreover have "set (butlast (x # sent)) \<subseteq> set fs" using Cons.prems(4) by (auto dest: in_set_butlastD)
      ultimately show False using Cons.prems(4,5) False by auto
    qed
    with s(5) have c: "gathered (fragment_key_of h) dl (xs @ [x]) t (in_reassembly (n\<lparr>in_reassembly := s'\<rparr>))" by simp
    have "sorted (map fst rest)" "\<forall>a \<in> set rest. t \<le> fst a \<and> fst a < dl" using Cons.prems(7,8) a(1) by auto
    from Cons.IH[OF _ _ c _ _ a(3) this] Cons.prems(1,2,4,5) False obtain out' n' g' where
      r: "receive_frames status device rest (n\<lparr>in_reassembly := s'\<rparr>) = Some (out', n')" "receives out' = [(pr, g', p, iif)]" "same_datagram h g'"
        "ip_payloadSize g' = of_nat (length p)" "fragment_key_of h \<notin> fst ` set (rs_fragments (in_reassembly n'))" by auto
    have "receives (out @ os) = receives os" for os using s(2) ne by (induction out rule: receives.induct) auto
    with r s(1) show ?thesis by (intro exI[of _ "out @ out'"] exI[of _ n'] exI[of _ g']) (simp add: a(1) s0(1))
  qed
qed simp

text \<open>A datagram that was not cut up is one packet, and its only one.\<close>

lemma single_piece:
  assumes w: "whole p h" "28 \<le> unat mtu" "unat mtu < 65536" "DoFragmentation checksums p h mtu = Some fs"
    and x: "(d, fh) \<in> set fs" "IsLastFragment fh" "ip_fragmentOffset fh = 0"
  shows "set fs = {(d, fh)}" "d = p"
proof -
  let ?f = "unat (fragment_size mtu)"
  note C = cut_up[OF w]
  have p: "length p < 65536" using w(1) by (simp add: whole_def)
  have f: "0 < ?f" using fragment_size_bounds[OF w(2)] by simp
  have whole_d: "length d = length p" "d = p" using C(4)[OF x(1)] x(2,3)
    by (auto simp: fragment_of_def slice_of_def slice_end_def received_def)
  then show "d = p" by simp
  have "received (d, fh) \<in> seen ?f p" using C(2) x(1) by blast
  from seenD(5)[OF f p this] whole_d x(3) have le: "length p \<le> ?f" by (simp add: slice_end_def received_def)
  show "set fs = {(d, fh)}"
  proof (intro antisym subsetI)
    fix y assume y: "y \<in> set fs"
    then have "received y \<in> seen ?f p" using C(2) by blast
    note Y = seenD(1,2,3)[OF f p this]
    have "unat (snd (received y)) = 0"
      using Y(1,3) le by (metis dvd_imp_le leD order_less_le_trans not_gr_zero)
    then have "received y = received (d, fh)" using Y(2) whole_d le x(3) by (simp add: received_def word_unat_eq_iff)
    then show "y \<in> {(d, fh)}" using C(3) x(1) y by (auto dest: inj_onD)
  qed (use x(1) in simp)
qed

text \<open>
  C14. A datagram that is cut up arrives whole. The sender fragments a packet of less than 65536 bytes for an MTU of
  at least 28. Its neighbour, in any state that its reassembly can reach in which the datagram is not waiting already,
  hears the frames, each with any padding, in any order and as often as the link repeats them, until the last missing
  one has come, all within the expiration time after the first; the \<open>HandleTimeout\<close> events that fall due
  meanwhile fire. Then its protocol has received the packet once, with a header of the same addresses,
  protocol, identification, time to live and type of service and the length of the packet, and nothing of it
  is left in the reassembly. Nodes that check the checksum need a sender that computes it.
\<close>

theorem datagram_delivered:
  assumes "whole p h" "28 \<le> unat mtu" "unat mtu < 65536" "DoFragmentation checksums p h mtu = Some fs"
    and "hears device iif checksums (in_l3 n)" "GetProtocol_at (uint (ip_protocol h)) (int iif) (in_protocols n) = Some pr"
    and "reassembly_run expiration now (in_reassembly n)" "0 \<le> expiration"
      "fragment_key_of h \<notin> fst ` set (rs_fragments (in_reassembly n))"
    and "set sent = set fs" "set (butlast sent) \<noteq> set fs" "list_all2 (\<lambda>a x. frame_of x (snd a)) arrivals sent"
    and "sorted (map fst arrivals)" "\<forall>a \<in> set arrivals. now \<le> fst a \<and> fst a < fst (hd arrivals) + expiration"
  shows "\<exists>out n' g. receive_frames status device arrivals n = Some (out, n') \<and> receives out = [(pr, g, p, iif)] \<and> same_datagram h g \<and>
    ip_payloadSize g = of_nat (length p) \<and> fragment_key_of h \<notin> fst ` set (rs_fragments (in_reassembly n'))"
proof (cases "\<forall>x \<in> set fs. \<not> IsLastFragment (snd x) \<or> ip_fragmentOffset (snd x) \<noteq> 0")
  case True
  have i: "reassembly_inv now (in_reassembly n)" "rs_expiration (in_reassembly n) = expiration"
    using reassembly_run_inv[OF assms(7,8)] by blast+
  then have "gathered (fragment_key_of h) (fst (hd arrivals) + expiration) [] now (in_reassembly n)"
    using assms(9) by (simp add: gathered_def)
  from fragments_arrive[OF assms(1-4) _ assms(5,6) this _ _ assms(12,13,14)] True assms(10,11) i(2) show ?thesis by simp
next
  case False
  then obtain d fh where x: "(d, fh) \<in> set fs" "IsLastFragment fh" "ip_fragmentOffset fh = 0" by auto
  note S = single_piece[OF assms(1-4) x]
  have "butlast sent = []"
  proof (rule ccontr)
    assume ne: "butlast sent \<noteq> []"
    have "set (butlast sent) \<subseteq> {(d, fh)}" using S(1) assms(10) by (auto dest: in_set_butlastD)
    with ne have "set (butlast sent) = {(d, fh)}" by (metis set_empty subset_singleton_iff)
    with S(1) assms(11) show False by simp
  qed
  moreover have "sent \<noteq> []" using S(1) assms(10) by auto
  ultimately have "sent = [last sent]" by (metis append_butlast_last_id append_Nil)
  with S(1) assms(10) have "sent = [(d, fh)]" by (metis last_in_set list.distinct(1) singletonD)
  with assms(12) obtain t frame where a: "arrivals = [(t, frame)]" "frame_of (d, fh) frame" by (auto simp: list_all2_Cons2)
  have "gathered (fragment_key_of h) (t + 1) [] now (in_reassembly n)"
    using assms(9) reassembly_run_inv[OF assms(7,8)] by (simp add: gathered_def)
  from fire_due_gathered[OF this, of t] assms(14) a(1) obtain s0 where
    s0: "fire_due t (in_reassembly n) = Some s0" "gathered (fragment_key_of h) (t + 1) [] t s0" by auto
  note F = piece_fields[OF assms(1-4) x(1)]
  from assms(5) F(4) have "hears device iif (ip_calcChecksum fh) (in_l3 n)" by (auto simp: hears_def)
  from Receive_frame[OF a(2) this F(1-3)] obtain g where
    g: "Ipv4_Receive device frame (in_l3 n) = Some (RxRouteInput g d)" "arrives_as fh g" by blast
  have same: "same_datagram h g" using g(2) F(5) by (simp add: arrives_as_def same_datagram_def)
  then have "GetProtocol_at (uint (ip_protocol g)) (int iif) (in_protocols n) = Some pr" using assms(6) by (simp add: same_datagram_def)
  from deliver_receives[OF this assms(5), of status d] obtain out where
    out: "deliver_to_protocol status d g iif n = Some out" "receives out = [(pr, g, d, iif)]" by blast
  have i: "nat (GetInterfaceForDevice device (in_l3 n)) = iif" using assms(5) by (simp add: hears_def)
  have "IsLastFragment g" "ip_fragmentOffset g = 0" "ip_payloadSize g = of_nat (length p)"
    using g(2) x(2,3) F(2) S(2) by (simp_all add: arrives_as_def IsLastFragment_def)
  moreover have "deliver_to_protocol status d g iif (n\<lparr>in_reassembly := s0\<rparr>) = deliver_to_protocol status d g iif n" for s0
    by (simp add: deliver_to_protocol_def split: option.split)
  ultimately show ?thesis using out same s0 S(2)
    by (simp add: a(1) receive_local_def g(1) i LocalDeliver_def gathered_def)
qed

definition sixteen_bytes :: bytes where
  "sixteen_bytes = [1, 2, 3, 4, 5, 6, 7, 8, 9, 10, 11, 12, 13, 14, 15, 16]"

definition udp_header :: ipv4_header where
  "udp_header = Ipv4Header\<lparr>ip_protocol := 17, ip_ttl := 64\<rparr>"

definition plain_ip_node :: ip_node where
  "plain_ip_node = \<lparr>in_l3 = plain_node, in_reassembly = Reassembly 30, in_protocols = Insert_protocol 5 17 []\<rparr>"

lemma sixteen_bytes_whole: "whole sixteen_bytes udp_header"
  by (simp add: whole_def header_ok_def udp_header_def Ipv4Header_def IsLastFragment_def sixteen_bytes_def)

definition first_half :: "bytes \<times> ipv4_header" where
  "first_half = cut_piece False udp_header 16 (take 8 sixteen_bytes, 0)"

definition second_half :: "bytes \<times> ipv4_header" where
  "second_half = cut_piece False udp_header 16 (drop 8 sixteen_bytes, 8)"

lemma two_halves: "DoFragmentation False sixteen_bytes udp_header 28 = Some [first_half, second_half]" "first_half \<noteq> second_half"
proof -
  have "unat (fragment_size 28) = 8" using unat_and_not_7[of "8 :: u32"] by (simp add: fragment_size_def)
  moreover have "pieces 8 sixteen_bytes 0 = [(take 8 sixteen_bytes, 0), (drop 8 sixteen_bytes, 8)]"
    by (simp add: pieces.simps[of 8 sixteen_bytes 0] pieces.simps[of 8 sixteen_bytes 8]) (simp add: sixteen_bytes_def)
  moreover have "length sixteen_bytes = 16" by (simp add: sixteen_bytes_def)
  ultimately show "DoFragmentation False sixteen_bytes udp_header 28 = Some [first_half, second_half]"
    using sixteen_bytes_whole DoFragmentation_pieces[of udp_header 28 sixteen_bytes False]
    by (simp add: whole_def first_half_def second_half_def)
  show "first_half \<noteq> second_half" by (simp add: first_half_def second_half_def cut_piece_def sixteen_bytes_def Let_def)
qed

definition half_frame :: "bytes \<times> ipv4_header \<Rightarrow> bytes" where
  "half_frame x = header_bytes 0 (snd x) @ fst x @ [0, 0, 0]"

lemma half_frames: "frame_of first_half (half_frame first_half)" "frame_of second_half (half_frame second_half)"
  by (auto simp: frame_of_def half_frame_def Ipv4Header_Serialize_def first_half_def second_half_def cut_piece_def udp_header_def
    Ipv4Header_def SetMoreFragments_def SetLastFragment_def Let_def)

theorem datagram_delivered_witness:
  "\<exists>out n' g. receive_frames (\<lambda>protocol p h. RX_OK) 1
      [(1, half_frame second_half), (2, half_frame second_half), (30, half_frame first_half)] plain_ip_node = Some (out, n') \<and>
    receives out = [(5, g, sixteen_bytes, 0)]"
proof -
  have "hears 1 0 False (in_l3 plain_ip_node)"
    by (simp add: hears_def plain_ip_node_def plain_node_def GetInterfaceForDevice_def)
  moreover have "GetProtocol_at (uint (ip_protocol udp_header)) (int 0) (in_protocols plain_ip_node) = Some 5"
    by (simp add: GetProtocol_at_def plain_ip_node_def Insert_protocol_def udp_header_def)
  moreover have "reassembly_run 30 1 (in_reassembly plain_ip_node)" "rs_fragments (in_reassembly plain_ip_node) = []"
    using reassembly_run.start[of 30 1] by (simp_all add: plain_ip_node_def Reassembly_def)
  ultimately show ?thesis
    using datagram_delivered[OF sixteen_bytes_whole _ _ two_halves(1), of 1 0 plain_ip_node 5 30 1 "[second_half, second_half, first_half]"
      "[(1, half_frame second_half), (2, half_frame second_half), (30, half_frame first_half)]"] half_frames two_halves(2)
    by fastforce
qed

end
