(* ===== verification/Ipv4_Duplicates.thy ===== *)
theory Ipv4_Duplicates
  imports Ipv4_Header
begin

text \<open>
  The detection of duplicate multicast packets in \<open>src/internet/model/ipv4-l3-protocol.cc\<close>: \<open>UpdateDuplicate\<close>
  and \<open>RemoveDuplicates\<close>. The hash function of \<open>src/core/model/hash.h\<close> is an argument; \<open>dp_clean\<close> is the time of
  the pending clean-up event, if any. \<open>None\<close> is a failed assertion.
\<close>

type_synonym dup_key = "u64 \<times> u8 \<times> ipv4 \<times> ipv4"

record dpd =
  dp_dups :: "(dup_key \<times> int) list"
  dp_expire :: int
  dp_purge :: int
  dp_clean :: "int option"

text \<open>
  The bytes that are hashed: the header, with the space for its options, and the payload, where the
  fields that change on the way are 0.
\<close>

definition hashed_bytes :: "ipv4_header \<Rightarrow> bytes \<Rightarrow> bytes option" where
  "hashed_bytes h p = do {
     ns_assert (20 \<le> ip_headerSize h);
     hb \<leftarrow> Ipv4Header_Serialize h;
     Some ((hb @ replicate (unat (ip_headerSize h) - 20) 0 @ p)[1 := 0, 6 := 0, 7 := 0, 8 := 0, 10 := 0, 11 := 0])
   }"

definition dup_key_of :: "(bytes \<Rightarrow> u32) \<Rightarrow> ipv4_header \<Rightarrow> bytes \<Rightarrow> dup_key option" where
  "dup_key_of hash32 h p = do {
     let ident = (push_bit 32 (ucast (ip_identification h)) :: u64);
     hash \<leftarrow> (if ip_fragmentOffset h \<noteq> 0 \<or> \<not> IsLastFragment h then Some (ident OR ucast (ip_fragmentOffset h))
       else map_option (\<lambda>bs. ident OR ucast (hash32 bs)) (hashed_bytes h p));
     Some (hash, ip_protocol h, ip_source h, ip_destination h)
   }"

definition UpdateDuplicate :: "(bytes \<Rightarrow> u32) \<Rightarrow> int \<Rightarrow> bytes \<Rightarrow> ipv4_header \<Rightarrow> dpd \<Rightarrow> (bool \<times> dpd) option" where
  "UpdateDuplicate hash32 now p h s = do {
     k \<leftarrow> dup_key_of hash32 h p;
     let isDup = (case smap_find (<) k (dp_dups s) of Some t \<Rightarrow> now < t | None \<Rightarrow> False);
     Some (isDup, s\<lparr>dp_clean := (if dp_clean s = None \<and> 0 < dp_purge s then Some (now + dp_expire s) else dp_clean s),
       dp_dups := smap_set (<) k (now + dp_expire s) (dp_dups s)\<rparr>)
   }"

definition RemoveDuplicates :: "int \<Rightarrow> dpd \<Rightarrow> dpd" where
  "RemoveDuplicates now s =
     (let ds = filter (\<lambda>d. \<not> snd d < now) (dp_dups s) in
      s\<lparr>dp_dups := ds, dp_clean := (if ds \<noteq> [] \<and> 0 < dp_purge s then Some (now + dp_purge s) else None)\<rparr>)"

subsection \<open>Runs\<close>

text \<open>Packets seen at some times, and clean-ups at others; the answers to the packets.\<close>

datatype dpd_call = Seen int bytes ipv4_header | CleanUp int

fun call_time :: "dpd_call \<Rightarrow> int" where
  "call_time (Seen t p h) = t"
| "call_time (CleanUp t) = t"

fun dpd_run :: "(bytes \<Rightarrow> u32) \<Rightarrow> dpd_call list \<Rightarrow> dpd \<Rightarrow> (bool list \<times> dpd) option" where
  "dpd_run hash32 [] s = Some ([], s)"
| "dpd_run hash32 (Seen t p h # cs) s = do {
     (b, s1) \<leftarrow> UpdateDuplicate hash32 t p h s;
     (bs, s2) \<leftarrow> dpd_run hash32 cs s1;
     Some (b # bs, s2)
   }"
| "dpd_run hash32 (CleanUp t # cs) s = dpd_run hash32 cs (RemoveDuplicates t s)"

definition fresh_dpd :: "int \<Rightarrow> int \<Rightarrow> dpd" where
  "fresh_dpd expire purge = \<lparr>dp_dups = [], dp_expire = expire, dp_purge = purge, dp_clean = None\<rparr>"

text \<open>The abstract answers: has a packet with the same key been seen less than the expiration time ago?\<close>

definition seen_lately :: "int \<Rightarrow> (dup_key \<times> int) list \<Rightarrow> dup_key \<Rightarrow> int \<Rightarrow> bool" where
  "seen_lately expire past k now \<longleftrightarrow> (\<exists>t. (k, t) \<in> set past \<and> now < t + expire)"

fun dup_answers :: "(bytes \<Rightarrow> u32) \<Rightarrow> int \<Rightarrow> (dup_key \<times> int) list \<Rightarrow> dpd_call list \<Rightarrow> bool list" where
  "dup_answers hash32 expire past [] = []"
| "dup_answers hash32 expire past (Seen t p h # cs) =
     (let k = the (dup_key_of hash32 h p) in seen_lately expire past k t # dup_answers hash32 expire ((k, t) # past) cs)"
| "dup_answers hash32 expire past (CleanUp t # cs) = dup_answers hash32 expire past cs"

text \<open>The map holds the last time of each key, unless that time was over at a clean-up.\<close>

definition dpd_rel :: "int \<Rightarrow> int \<Rightarrow> (dup_key \<times> int) list \<Rightarrow> dpd \<Rightarrow> bool" where
  "dpd_rel expire now past s \<longleftrightarrow> smap_ok (dp_dups s) \<and> dp_expire s = expire \<and> (\<forall>(k, t) \<in> set past. t \<le> now) \<and>
     (\<forall>k. (case map_of (dp_dups s) k of
         Some e \<Rightarrow> (k, e - expire) \<in> set past \<and> (\<forall>t. (k, t) \<in> set past \<longrightarrow> t \<le> e - expire)
       | None \<Rightarrow> \<forall>t. (k, t) \<in> set past \<longrightarrow> t + expire \<le> now)) \<and>
     (0 < dp_purge s \<longrightarrow> dp_dups s \<noteq> [] \<longrightarrow> dp_clean s \<noteq> None)"

subsection \<open>The key of a packet\<close>

text \<open>Of the header only the fields that do not change on the way are hashed.\<close>

definition on_the_way :: "ipv4_header \<Rightarrow> ipv4_header" where
  "on_the_way h = h\<lparr>ip_ttl := 0, ip_tos := 0, ip_flags := 0, ip_fragmentOffset := 0\<rparr>"

lemma masked_header:
  "(header_bytes c h @ r)[1 := 0, 6 := 0, 7 := 0, 8 := 0, 10 := 0, 11 := 0] = header_bytes 0 (on_the_way h) @ r"
  by (simp add: header_bytes_def on_the_way_def WriteU8_def WriteHtonU16_def WriteHtonU32_def WriteU16_def flags_byte_def
    IsDontFragment_def IsLastFragment_def)

lemma hashed_bytes_eq:
  "hashed_bytes h p = (if 20 \<le> ip_headerSize h
     then Some (header_bytes 0 (on_the_way h) @ replicate (unat (ip_headerSize h) - 20) 0 @ p) else None)"
proof -
  obtain c where "Ipv4Header_Serialize h = Some (header_bytes c h)"
  proof (cases "ip_calcChecksum h")
    case True
    then show ?thesis by (rule Serialize_checksum) (rule that)
  qed (use that[of 0] in \<open>simp add: Ipv4Header_Serialize_def\<close>)
  then show ?thesis using masked_header by (simp add: hashed_bytes_def)
qed

lemma dup_key_some: "20 \<le> ip_headerSize h \<Longrightarrow> \<exists>k. dup_key_of hash32 h p = Some k"
  by (auto simp: dup_key_of_def hashed_bytes_eq Let_def)

lemma dup_key_forwarded: "dup_key_of hash32 (h\<lparr>ip_ttl := a, ip_tos := b, ip_checksum := c\<rparr>) p = dup_key_of hash32 h p"
proof -
  let ?h = "h\<lparr>ip_ttl := a, ip_tos := b, ip_checksum := c\<rparr>"
  have "header_bytes 0 (on_the_way ?h) = header_bytes 0 (on_the_way h)"
    by (simp add: on_the_way_def header_bytes_def flags_byte_def IsDontFragment_def IsLastFragment_def)
  then have "hashed_bytes ?h p = hashed_bytes h p" by (simp add: hashed_bytes_eq)
  then show ?thesis by (simp add: dup_key_of_def IsLastFragment_def Let_def)
qed

subsection \<open>The answers\<close>

lemma map_of_filter_value:
  assumes "distinct (map fst xs)"
  shows "map_of (filter (\<lambda>d. P (snd d)) xs) k = (case map_of xs k of Some e \<Rightarrow> if P e then Some e else None | None \<Rightarrow> None)"
  using assms
proof (induction xs)
  case (Cons x xs)
  have "map_of xs (fst x) = None" using Cons.prems by (simp add: map_of_eq_None_iff)
  with Cons show ?case by (cases x) auto
qed simp

lemma clean_up_rel:
  assumes "dpd_rel expire now past s" "now \<le> t"
  shows "dpd_rel expire t past (RemoveDuplicates t s)"
proof -
  let ?s = "RemoveDuplicates t s"
  have ok: "smap_ok (dp_dups s)" using assms(1) by (simp add: dpd_rel_def)
  then have ok': "smap_ok (dp_dups ?s)" by (simp add: RemoveDuplicates_def Let_def sorted_wrt_map sorted_wrt_filter)
  have m: "map_of (dp_dups ?s) k = (case map_of (dp_dups s) k of Some e \<Rightarrow> if e < t then None else Some e | None \<Rightarrow> None)" for k
    using map_of_filter_value[OF smap_ok_distinct[OF ok], of "\<lambda>e. \<not> e < t"] by (simp add: RemoveDuplicates_def Let_def split: option.splits)
  have rel: "case map_of (dp_dups s) k of
         Some e \<Rightarrow> (k, e - expire) \<in> set past \<and> (\<forall>t. (k, t) \<in> set past \<longrightarrow> t \<le> e - expire)
       | None \<Rightarrow> \<forall>t. (k, t) \<in> set past \<longrightarrow> t + expire \<le> now" for k
    using assms(1) unfolding dpd_rel_def by blast
  have "case map_of (dp_dups ?s) k of
         Some e \<Rightarrow> (k, e - expire) \<in> set past \<and> (\<forall>t. (k, t) \<in> set past \<longrightarrow> t \<le> e - expire)
       | None \<Rightarrow> \<forall>u. (k, u) \<in> set past \<longrightarrow> u + expire \<le> t" for k
    using rel[of k] assms(2) unfolding m by (cases "map_of (dp_dups s) k") (force+)
  then show ?thesis using assms ok' by (auto simp: dpd_rel_def RemoveDuplicates_def Let_def)
qed

lemma seen_rel:
  assumes "dpd_rel expire now past s" "now \<le> t" "dup_key_of hash32 h p = Some k"
  shows "\<exists>s'. UpdateDuplicate hash32 t p h s = Some (seen_lately expire past k t, s') \<and> dpd_rel expire t ((k, t) # past) s'
    \<and> dp_purge s' = dp_purge s"
proof -
  let ?s = "s\<lparr>dp_clean := (if dp_clean s = None \<and> 0 < dp_purge s then Some (t + expire) else dp_clean s),
    dp_dups := smap_set (<) k (t + expire) (dp_dups s)\<rparr>"
  have ok: "smap_ok (dp_dups s)" and e: "dp_expire s = expire" using assms(1) by (simp_all add: dpd_rel_def)
  have rel: "case map_of (dp_dups s) k of
         Some e \<Rightarrow> (k, e - expire) \<in> set past \<and> (\<forall>t. (k, t) \<in> set past \<longrightarrow> t \<le> e - expire)
       | None \<Rightarrow> \<forall>t. (k, t) \<in> set past \<longrightarrow> t + expire \<le> now" for k
    using assms(1) unfolding dpd_rel_def by blast
  have "(case map_of (dp_dups s) k of Some u \<Rightarrow> t < u | None \<Rightarrow> False) = seen_lately expire past k t"
    using rel[of k] assms(2) by (force simp: seen_lately_def split: option.splits)
  then have u: "UpdateDuplicate hash32 t p h s = Some (seen_lately expire past k t, ?s)"
    using assms(3) e by (simp add: UpdateDuplicate_def)
  have "case map_of (dp_dups ?s) k' of
         Some e \<Rightarrow> (k', e - expire) \<in> set ((k, t) # past) \<and> (\<forall>u. (k', u) \<in> set ((k, t) # past) \<longrightarrow> u \<le> e - expire)
       | None \<Rightarrow> \<forall>u. (k', u) \<in> set ((k, t) # past) \<longrightarrow> u + expire \<le> t" for k'
    using rel[of k'] assms(1,2) by (fastforce simp: map_of_smap_set[OF ok] dpd_rel_def split: option.splits)
  then have "dpd_rel expire t ((k, t) # past) ?s"
    using assms(1,2) ok e by (auto simp: dpd_rel_def smap_ok_set)
  with u show ?thesis by simp
qed

fun call_key :: "dpd_call \<Rightarrow> bool" where
  "call_key (Seen t p h) = (20 \<le> ip_headerSize h)"
| "call_key (CleanUp t) = True"

lemma dpd_answers:
  assumes "dpd_rel expire now past s" "sorted (now # map call_time cs)" "\<forall>c \<in> set cs. call_key c"
  shows "\<exists>s' now' past'. dpd_run hash32 cs s = Some (dup_answers hash32 expire past cs, s') \<and> dpd_rel expire now' past' s' \<and>
    dp_purge s' = dp_purge s"
  using assms
proof (induction cs arbitrary: now past s)
  case Nil
  then show ?case by (intro exI[of _ s] exI[of _ now] exI[of _ past]) simp
next
  case (Cons c cs)
  show ?case
  proof (cases c)
    case (Seen t p h)
    then obtain k where k: "dup_key_of hash32 h p = Some k" using Cons.prems(3) dup_key_some by fastforce
    have t: "now \<le> t" "sorted (t # map call_time cs)" using Cons.prems(2) by (auto simp: Seen)
    from seen_rel[OF Cons.prems(1) t(1) k] obtain s1 where s1:
      "UpdateDuplicate hash32 t p h s = Some (seen_lately expire past k t, s1)" "dpd_rel expire t ((k, t) # past) s1" "dp_purge s1 = dp_purge s"
      by blast
    have "\<forall>c \<in> set cs. call_key c" using Cons.prems(3) by simp
    from Cons.IH[OF s1(2) t(2) this] obtain s' now' past' where
      "dpd_run hash32 cs s1 = Some (dup_answers hash32 expire ((k, t) # past) cs, s')" "dpd_rel expire now' past' s'" "dp_purge s' = dp_purge s1"
      by blast
    with s1 k show ?thesis
      by (intro exI[of _ s'] exI[of _ now'] exI[of _ past']) (simp add: Seen Let_def)
  next
    case (CleanUp t)
    then have t: "now \<le> t" "sorted (t # map call_time cs)" using Cons.prems(2) by auto
    from Cons.IH[OF clean_up_rel[OF Cons.prems(1) t(1)] t(2)] Cons.prems(3) show ?thesis
      by (auto simp: CleanUp RemoveDuplicates_def Let_def)
  qed
qed

text \<open>
  C25. Duplicates are detected. Let packets with a full header be seen, and clean-ups run, at any times in
  order. A packet is reported as a duplicate exactly when a packet with the same key was seen less than the
  expiration time before; the clean-ups do not change an answer, and while an entry is kept the next one is
  pending. The key of a packet is that of the copies another node forwards, with another time to live,
  type of service and checksum.
\<close>

theorem duplicates_detected:
  assumes "sorted (map call_time cs)" "\<forall>c \<in> set cs. call_key c"
  shows "(\<exists>s'. dpd_run hash32 cs (fresh_dpd expire purge) = Some (dup_answers hash32 expire [] cs, s') \<and>
      (0 < purge \<longrightarrow> dp_dups s' \<noteq> [] \<longrightarrow> dp_clean s' \<noteq> None)) \<and>
    (\<forall>h p ttl tos c. dup_key_of hash32 (h\<lparr>ip_ttl := ttl, ip_tos := tos, ip_checksum := c\<rparr>) p = dup_key_of hash32 h p)"
proof (intro conjI allI)
  show "dup_key_of hash32 (h\<lparr>ip_ttl := ttl, ip_tos := tos, ip_checksum := c\<rparr>) p = dup_key_of hash32 h p" for h p ttl tos c
    by (rule dup_key_forwarded)
  obtain now where now: "sorted (now # map call_time cs)" using assms(1) by (cases cs) (auto intro: exI[of _ "call_time (hd cs)"])
  have "dpd_rel expire now [] (fresh_dpd expire purge)" by (simp add: dpd_rel_def fresh_dpd_def)
  from dpd_answers[OF this now assms(2), of hash32]
  show "\<exists>s'. dpd_run hash32 cs (fresh_dpd expire purge) = Some (dup_answers hash32 expire [] cs, s') \<and>
      (0 < purge \<longrightarrow> dp_dups s' \<noteq> [] \<longrightarrow> dp_clean s' \<noteq> None)"
    by (auto simp: dpd_rel_def fresh_dpd_def)
qed

theorem duplicates_detected_witness:
  "\<exists>s'. dpd_run (\<lambda>bs. 7) [Seen 0 [1] Ipv4Header, Seen 5 [1] (Ipv4Header\<lparr>ip_ttl := 9\<rparr>), Seen 30 [1] Ipv4Header] (fresh_dpd 10 1) =
    Some ([False, True, False], s')"
proof -
  have "dup_key_of (\<lambda>bs. 7) (Ipv4Header\<lparr>ip_ttl := 9\<rparr>) [1] = dup_key_of (\<lambda>bs. 7) Ipv4Header [1]"
    using dup_key_forwarded[where h = Ipv4Header and a = 9 and b = "ip_tos Ipv4Header" and c = "ip_checksum Ipv4Header"] by simp
  then show ?thesis
    using duplicates_detected[of "[Seen 0 [1] Ipv4Header, Seen 5 [1] (Ipv4Header\<lparr>ip_ttl := 9\<rparr>), Seen 30 [1] Ipv4Header]" "\<lambda>bs. 7" 10 1]
    by (auto simp: Ipv4Header_def seen_lately_def Let_def)
qed

end
