(* ===== verification/Spec2Isabelle.thy ===== *)
theory Spec2Isabelle
  imports Engine_Properties Moe_Tasks Moe_Central_Properties Ipv4_Generator Aodv_Packet_Properties
    Aodv_Rtable_Properties Aodv_Limits Moe_Aging_Runs Calendar_Properties Ipv4_Delivery
    Ipv4_Duplicates
begin

text \<open>
  A verification development for MoEJIT-ns3, the ns-3 network simulator with the schedulers for
  mixture-of-experts (MoE) training traffic.

  The program. ns-3 is a discrete event simulator: \<open>DefaultSimulatorImpl\<close>
  (\<open>src/core/model/default-simulator-impl.cc\<close>) keeps pending events in an event list behind the
  interface \<open>Scheduler\<close> (\<open>scheduler.h\<close>), advances the virtual time to the next event, and invokes it;
  an event may schedule, cancel or remove others. Protocol models run as events and read
  \<open>Simulator::Now ()\<close>. Two groups of models are covered: the MoE schedulers
  (\<open>scratch/moe-jit/moe-jit.h\<close>), which decide when the ranks of a training job may start an
  all-to-all exchange, and the AODV routing protocol (\<open>src/aodv/model\<close>) with the IPv4 layer below it: addresses
  (\<open>src/network/utils/ipv4-address.cc\<close>, \<open>src/internet/model/ipv4-address-generator.cc\<close>), headers,
  interfaces, fragmentation, and \<open>Ipv4L3Protocol\<close> (\<open>src/internet/model\<close>), on the byte order primitives of
  \<open>Buffer::Iterator\<close>.

  The theories, in the order of the code's layers:

  \<^item> \<open>Ns3_Prelude\<close>: word types, assertions, the list operations of the C++ library the code uses
    (\<open>std::map\<close> as a sorted association list, \<open>std::sort\<close>, erase of the first match).
  \<^item> \<open>Event_Scheduler\<close>: keys, events and the record of virtual methods; the locale \<open>event_list\<close> is the
    contract the simulator relies on, \<open>removable_event_list\<close> adds \<open>Remove\<close>.
    \<open>Linear_Schedulers\<close> and \<open>Heap_Scheduler\<close> model the list, map, priority queue and heap event
    lists and interpret the locales on them.
  \<^item> \<open>Calendar_Scheduler\<close>, \<open>Calendar_Facts\<close>: the calendar queue (\<open>calendar-scheduler.cc\<close>), which is right only
    for a client whose clock does not go back; \<open>timed_event_list\<close> is the contract for such clients, and the
    simulator's lemmas are proved over it. \<open>Calendar_Properties\<close> puts the calendar under the engine.
  \<^item> \<open>Simulator_Core\<close>, \<open>Simulator_Facts\<close>, \<open>Simulator_Runs\<close>: the engine over any event list, its
    invariant, reachability, and the simulation between two event lists: \<open>two_event_lists\<close> for runs that do not
    remove events, \<open>two_removable_lists\<close> for all runs.
    \<open>Engine_Properties\<close> states what the engine guarantees.
  \<^item> \<open>Ieee_Double\<close>: rounding to the nearest double, because the MoE scheduler computes its slot sizes and
    times in \<open>double\<close>. \<open>First_Fit\<close>: the generic search with jumps, and that it finds the first fit.
  \<^item> \<open>Moe_Tasks\<close>, \<open>Moe_Central\<close>: tasks, the simple policies and the centralized admission scheduler.
    \<open>Moe_Central_Facts\<close> to \<open>Moe_Central_Admission\<close> refine it to a ledger of grants, which \<open>granted_by\<close> reads off
    the pool before and after a check and \<open>run_grants\<close> collects over a run;
    \<open>Moe_Central_Properties\<close> has the theorems.
  \<^item> \<open>Moe_Aging\<close>: the distributed aging scheduler (\<open>scratch/moe-jit/moe-fifo-scheduler.h\<close>), in which the
    brokers of the leaf switches grant each other quota every epoch. \<open>Moe_Aging_Ledger\<close> has the ledger of one leaf
    and the search, \<open>Moe_Aging_Runs\<close> the invariant over all leaves and the theorems.
  \<^item> \<open>Ipv4_Address\<close>, \<open>Ipv4_Generator\<close>: addresses, masks and the generator of unique addresses.
  \<^item> \<open>Ipv4_Header\<close>: the header on the wire and the Internet checksum (\<open>ipv4-header.cc\<close>, \<open>buffer.cc\<close>).
    \<open>Ipv4_Interface\<close>: interface addresses and \<open>Ipv4Interface\<close>. \<open>Ipv4_Fragments\<close>: \<open>DoFragmentation\<close>, the class
    \<open>Fragments\<close>, and the reassembly with its timeouts, from \<open>ipv4-l3-protocol.cc\<close>. \<open>Ipv4_L3\<close>: the interfaces,
    addresses, sending, forwarding and receiving of \<open>Ipv4L3Protocol\<close>; \<open>Ipv4_Delivery\<close>: its table of
    transport protocols and \<open>LocalDeliver\<close>; \<open>Ipv4_Duplicates\<close>: its duplicate detection for multicast.
    \<open>Ipv4_Fragments_Facts\<close>, \<open>Ipv4_Reassembly\<close>, \<open>Ipv4_Reassembly_Timeouts\<close>, \<open>Ipv4_L3_Properties\<close> and
    \<open>Ipv4_Delivery\<close> have the theorems, up to the delivery of a datagram from one node to the next.
  \<^item> \<open>Wire_Buffer\<close>, \<open>Aodv_Packet\<close>, \<open>Aodv_Packet_Properties\<close>: bytes and the AODV headers.
  \<^item> \<open>Aodv_Rtable\<close>, \<open>Aodv_Rtable_Properties\<close>: the routing table; \<open>Aodv_Id_Cache\<close>, \<open>Aodv_Queue\<close>,
    \<open>Aodv_Neighbors\<close>: the caches, the packet queue and the neighbour list, each with its theorems.
  \<^item> \<open>Aodv_Node\<close>, \<open>Aodv_Discovery\<close>, \<open>Aodv_Handlers\<close>: the protocol, composed of them.
    \<open>Aodv_Node_Facts\<close>, \<open>Aodv_Node_Invariant\<close> and \<open>Aodv_Runs\<close> have the invariant of a node, that every handler
    keeps it, and the states a node reaches through messages, errors, timers and the passing of time;
    \<open>Aodv_Node_Properties\<close>, \<open>Aodv_Ring_Search\<close> and \<open>Aodv_Limits\<close> have the theorems.

  Conventions. A class is a record, a method a function of the same name that returns the new state; a
  failed assertion, an undefined read and undefined arithmetic are \<open>None\<close>. Fixed-width integers are
  words, except in the MoE schedulers, where they are naturals with the wrap-around of each
  operation written out. The main loop and the loops that empty a foreign event list are partial
  functions in the option monad, so a theorem that they return says so; all other loops are total.
  The horizon of the MoE search and the growth of its ledger are those of the code.

  What the lemmas show. The event lists drain in the order of time and uid; the engine keeps its
  invariant; the MoE ledger always equals the limits minus the grants made, so no slot is ever
  oversubscribed and the search is a first fit; the address generator's interval list denotes
  exactly the allocated addresses; headers round-trip; the routing table refines a map whose
  entries have a life cycle; the caches refine maps; the queue conserves packets. In the IPv4 layer a header is
  read back as written and a corrupted one is recognised unless its version is corrupted, a datagram that is cut
  up and heard within the expiration time, with the timeouts that fall due meanwhile, is delivered once and whole
  to the neighbour's protocol, no fragment waits longer than its timeout, identifications do not repeat within
  65536 packets, and a routing loop ends after as many hops as the time to live says. The aging scheduler's free
  lists, quotas and placements add up to the slot capacity at every leaf, and what it admits it has placed. In an
  AODV node a search stays pending until its timer is due, ends after a fixed number of requests without an
  answer, and ends when a reply comes, with the waiting packets sent as far as they may leave by the device of the
  new route; the limits on requests hold, and the
  theorems of \<open>Aodv_Limits\<close> also say where the code falls short of its documentation.

  Not modelled: reference counting and object lifetimes, attributes and type ids, logging and
  printing, multithreading beyond the queue of events with context, random delays (a random number
  is an argument), and every module outside the two groups above (TCP, Wi-Fi, LTE and the others),
  whose protocols are independent of these. The MoE applications and their MPI communicator are
  C++20 coroutines over simulated sockets and are left out, as are the trace parsers and output code.
  The AODV node is not composed with the IPv4
  layer: the calls between them are its arguments and outputs, and the notifications of interfaces are left
  out on its side. Of the IPv4 layer, ARP, ICMP, raw sockets and the loopback set-up are not modelled; a device
  is what an interface asks of it, and the routing protocol that \<open>Send\<close> asks is an argument. Ties in the
  \<open>std::sort\<close> of the schedulers are broken by the order of the input.
\<close>

end
